(* ===== verification/Prelude.thy ===== *)
theory Prelude
  imports Main "HOL-Library.List_Lexorder" "HOL-Library.Product_Lexorder"
begin

text \<open>
  What the components share: strings as UTF-16 code units, results with errors,
  the insertion-ordered maps of the JavaScript runtime (\<open>Map\<close> and plain objects with
  string keys), stable sorting, and two interfaces stated as locales:
  \<^item> \<open>ordered_map\<close>: what the code relies on when it calls \<open>get\<close>, \<open>set\<close>, \<open>delete\<close> and
    iterates over a \<open>Map\<close>;
  \<^item> \<open>step_invariant\<close>: operations that keep a property, lifted to whole runs.
\<close>

named_theorems js_defs \<open>definitions of the runtime helpers, unfolded on concrete inputs\<close>

section \<open>Strings\<close>

text \<open>
  A JavaScript string is a sequence of UTF-16 code units, so \<open>length\<close> counts code units
  and \<open><\<close> compares them lexicographically (the order of \<^theory_text>\<open>List_Lexorder\<close>).
\<close>

type_synonym ustr = "nat list"

definition lit :: "string \<Rightarrow> ustr" where
  "lit s = map of_char s"

lemma of_char_nat_inject: "(of_char a :: nat) = of_char b \<longleftrightarrow> a = b"
  by (rule of_char_eq_iff)

lemma lit_inject [simp]: "lit a = lit b \<longleftrightarrow> a = b"
  unfolding lit_def by (rule inj_map_eq_map) (simp add: inj_def of_char_nat_inject)

lemma length_lit [simp]: "length (lit s) = length s"
  by (simp add: lit_def)

lemma lit_eq_Nil [simp]: "lit s = [] \<longleftrightarrow> s = []"
  by (simp add: lit_def)

text \<open>\<open>/^[a-f0-9]{64}$/\<close>: the textual form of every hash and address.\<close>

definition is_hex :: "nat \<Rightarrow> bool" where
  "is_hex c \<longleftrightarrow> (48 \<le> c \<and> c \<le> 57) \<or> (97 \<le> c \<and> c \<le> 102)"

definition hex64 :: "ustr \<Rightarrow> bool" where
  "hex64 s \<longleftrightarrow> length s = 64 \<and> list_all is_hex s"

text \<open>
  The number of bytes of the UTF-8 form (\<open>Buffer.byteLength\<close>, \<open>TextEncoder\<close>): a surrogate
  pair takes four bytes, a lone surrogate is replaced by U+FFFD and takes three.
\<close>

definition high_surrogate :: "nat \<Rightarrow> bool" where
  "high_surrogate c \<longleftrightarrow> 55296 \<le> c \<and> c \<le> 56319"

definition low_surrogate :: "nat \<Rightarrow> bool" where
  "low_surrogate c \<longleftrightarrow> 56320 \<le> c \<and> c \<le> 57343"

fun utf8_length :: "ustr \<Rightarrow> nat" where
  "utf8_length [] = 0"
| "utf8_length [c] = (if c < 128 then 1 else if c < 2048 then 2 else 3)"
| "utf8_length (c # d # cs) =
     (if high_surrogate c \<and> low_surrogate d then 4 + utf8_length cs
      else (if c < 128 then 1 else if c < 2048 then 2 else 3) + utf8_length (d # cs))"

lemma length_le_utf8_length: "length s \<le> utf8_length s"
  by (induction s rule: utf8_length.induct) auto

lemma utf8_length_ascii: "list_all (\<lambda>c. c < 128) s \<Longrightarrow> utf8_length s = length s"
  by (induction s rule: utf8_length.induct) (auto simp: high_surrogate_def)

section \<open>Results\<close>

text \<open>A throwing computation returns \<open>Inl\<close> of its error.\<close>

definition bindR :: "'e + 'a \<Rightarrow> ('a \<Rightarrow> 'e + 'b) \<Rightarrow> 'e + 'b" where
  "bindR m f = (case m of Inl e \<Rightarrow> Inl e | Inr x \<Rightarrow> f x)"

definition require :: "bool \<Rightarrow> 'e \<Rightarrow> 'e + unit" where
  "require b e = (if b then Inr () else Inl e)"

fun seqR :: "('e + 'a) list \<Rightarrow> 'e + 'a list" where
  "seqR [] = Inr []"
| "seqR (m # ms) = bindR m (\<lambda>x. bindR (seqR ms) (\<lambda>xs. Inr (x # xs)))"

lemma bindR_simps [simp]: "bindR (Inl e) f = Inl e" "bindR (Inr x) f = f x"
  by (simp_all add: bindR_def)

lemma bindR_Inr_iff: "bindR m f = Inr y \<longleftrightarrow> (\<exists>x. m = Inr x \<and> f x = Inr y)"
  by (cases m) auto

lemma require_Inr_iff [simp]: "require b e = Inr u \<longleftrightarrow> b"
  by (simp add: require_def)

lemma bindR_require [simp]: "bindR (require b e) f = (if b then f () else Inl e)"
  by (simp add: require_def)

lemma seqR_Inr_iff: "seqR ms = Inr xs \<longleftrightarrow> ms = map Inr xs"
  by (induction ms arbitrary: xs) (auto simp: bindR_Inr_iff Cons_eq_map_conv)

lemma seqR_map_Inr_iff: "seqR (map f ys) = Inr xs \<longleftrightarrow> list_all2 (\<lambda>y x. f y = Inr x) ys xs"
  by (auto simp: seqR_Inr_iff list_all2_conv_all_nth list_eq_iff_nth_eq)

section \<open>Insertion-ordered maps\<close>

text \<open>
  A JavaScript \<open>Map\<close>, or a plain object whose keys are not array indices, iterates in
  insertion order; \<open>set\<close> on a present key keeps its place.
\<close>

type_synonym ('k, 'v) omap = "('k \<times> 'v) list"

definition oget :: "('k, 'v) omap \<Rightarrow> 'k \<Rightarrow> 'v option" where
  "oget = map_of"

fun oset :: "'k \<Rightarrow> 'v \<Rightarrow> ('k, 'v) omap \<Rightarrow> ('k, 'v) omap" where
  "oset k v [] = [(k, v)]"
| "oset k v ((a, b) # m) = (if a = k then (k, v) # m else (a, b) # oset k v m)"

definition odel :: "'k \<Rightarrow> ('k, 'v) omap \<Rightarrow> ('k, 'v) omap" where
  "odel k m = filter (\<lambda>p. fst p \<noteq> k) m"

definition ohas :: "('k, 'v) omap \<Rightarrow> 'k \<Rightarrow> bool" where
  "ohas m k \<longleftrightarrow> k \<in> fst ` set m"

definition okeys :: "('k, 'v) omap \<Rightarrow> 'k list" where
  "okeys m = map fst m"

definition ovals :: "('k, 'v) omap \<Rightarrow> 'v list" where
  "ovals m = map snd m"

definition owf :: "('k, 'v) omap \<Rightarrow> bool" where
  "owf m \<longleftrightarrow> distinct (map fst m)"

lemma oget_Nil [simp]: "oget [] k = None"
  by (simp add: oget_def)

lemma oget_Cons [simp]: "oget ((a, b) # m) k = (if k = a then Some b else oget m k)"
  by (simp add: oget_def)

lemma ohas_iff: "ohas m k \<longleftrightarrow> oget m k \<noteq> None"
  by (induction m) (auto simp: ohas_def oget_def)

lemma oget_oset: "oget (oset k v m) j = (if j = k then Some v else oget m j)"
  by (induction m) auto

lemma oget_odel: "oget (odel k m) j = (if j = k then None else oget m j)"
  by (induction m) (auto simp: odel_def)

lemma fst_set_oset [simp]: "fst ` set (oset k v m) = insert k (fst ` set m)"
proof (induction m)
  case (Cons p m)
  then show ?case by (cases p) (simp add: insert_commute)
qed simp

lemma fst_set_odel [simp]: "fst ` set (odel k m) = fst ` set m - {k}"
  by (auto simp: odel_def)

lemma owf_Nil [simp]: "owf []"
  by (simp add: owf_def)

lemma owf_oset [simp]: "owf m \<Longrightarrow> owf (oset k v m)"
proof (induction m)
  case (Cons p m)
  obtain a b where p: "p = (a, b)" by (cases p)
  with Cons have "owf (oset k v m)" "a \<notin> fst ` set m" by (auto simp: owf_def)
  then show ?case using p Cons.prems by (auto simp: owf_def simp flip: image_iff)
qed (simp add: owf_def)

lemma owf_odel [simp]: "owf m \<Longrightarrow> owf (odel k m)"
  by (auto simp: owf_def odel_def distinct_map_filter)

lemma owf_filter [simp]: "owf m \<Longrightarrow> owf (filter P m)"
  by (auto simp: owf_def distinct_map_filter)

lemma oset_absent: "k \<notin> fst ` set m \<Longrightarrow> oset k v m = m @ [(k, v)]"
  by (induction m) auto

lemma odel_absent [simp]: "k \<notin> fst ` set m \<Longrightarrow> odel k m = m"
  by (auto simp: odel_def filter_id_conv)

lemma oget_SomeD: "oget m k = Some v \<Longrightarrow> (k, v) \<in> set m"
  by (simp add: oget_def map_of_SomeD)

lemma oget_in_set: "owf m \<Longrightarrow> (k, v) \<in> set m \<Longrightarrow> oget m k = Some v"
  by (simp add: oget_def owf_def)

lemma oget_None_iff: "oget m k = None \<longleftrightarrow> k \<notin> fst ` set m"
  by (simp add: oget_def map_of_eq_None_iff)

lemma oget_iff: "owf m \<Longrightarrow> oget m k = Some v \<longleftrightarrow> (k, v) \<in> set m"
  by (auto intro: oget_in_set dest: oget_SomeD)

lemma set_odel: "set (odel k m) = {p \<in> set m. fst p \<noteq> k}"
  by (auto simp: odel_def)

lemma length_odel: "owf m \<Longrightarrow> oget m k = Some v \<Longrightarrow> Suc (length (odel k m)) = length m"
proof (induction m)
  case (Cons p m)
  obtain a b where p: "p = (a, b)" by (cases p)
  show ?case
  proof (cases "k = a")
    case True
    with Cons.prems p have "odel k m = m" by (simp add: owf_def)
    with True p show ?thesis by (simp add: odel_def)
  next
    case False
    with Cons p show ?thesis by (auto simp: owf_def odel_def)
  qed
qed simp

lemma length_odel_le: "length (odel k m) \<le> length m"
  by (simp add: odel_def)

lemma set_oset: "owf m \<Longrightarrow> set (oset k v m) = insert (k, v) {p \<in> set m. fst p \<noteq> k}"
proof (induction m)
  case (Cons p m)
  obtain a b where p: "p = (a, b)" by (cases p)
  show ?case
  proof (cases "a = k")
    case True
    with Cons.prems p have "k \<notin> fst ` set m" by (simp add: owf_def)
    then have "{q \<in> set (p # m). fst q \<noteq> k} = set m" using True p by force
    with True p show ?thesis by simp
  next
    case False
    with Cons p show ?thesis by (auto simp: owf_def)
  qed
qed simp

lemma length_oset: "length (oset k v m) = (if k \<in> fst ` set m then length m else Suc (length m))"
proof (induction m)
  case (Cons p m)
  then show ?case by (cases p) auto
qed simp


text \<open>Replacing the value of a present key changes one entry of the list, in place.\<close>

lemma oset_all2:
  assumes "owf m" "oget m k = Some x" "R (k, x) (k, v)" "\<And>p. p \<in> set m \<Longrightarrow> R p p"
  shows "list_all2 R m (oset k v m)"
  using assms
proof (induction m)
  case (Cons p m)
  obtain a b where p: "p = (a, b)" by (cases p)
  show ?case
  proof (cases "a = k")
    case True
    with Cons.prems p show ?thesis by (auto intro!: list.rel_refl_strong)
  next
    case False
    with Cons p show ?thesis by (auto simp: owf_def)
  qed
qed simp

lemma oset_same: "oget m k = Some v \<Longrightarrow> oset k v m = m"
  by (induction m) (auto split: if_splits)

lemma okeys_oset_present: "oget m k \<noteq> None \<Longrightarrow> okeys (oset k v m) = okeys m"
  by (induction m) (auto simp: okeys_def split: if_splits)

text \<open>\<open>[...new Set(xs)]\<close>: the first occurrence of each value, in order.\<close>

definition remdups_first :: "'a list \<Rightarrow> 'a list" where
  "remdups_first xs = rev (remdups (rev xs))"

lemma set_remdups_first [simp]: "set (remdups_first xs) = set xs"
  by (simp add: remdups_first_def)

lemma distinct_remdups_first [simp]: "distinct (remdups_first xs)"
  by (simp add: remdups_first_def)

definition osum :: "('v \<Rightarrow> int) \<Rightarrow> ('k, 'v) omap \<Rightarrow> int" where
  "osum c m = sum_list (map (\<lambda>p. c (snd p)) m)"

lemma osum_Nil [simp]: "osum c [] = 0"
  by (simp add: osum_def)

lemma osum_Cons [simp]: "osum c (p # m) = c (snd p) + osum c m"
  by (simp add: osum_def)

lemma osum_append [simp]: "osum c (m @ n) = osum c m + osum c n"
  by (simp add: osum_def)

lemma osum_nonneg: "(\<And>k v. (k, v) \<in> set m \<Longrightarrow> 0 \<le> c v) \<Longrightarrow> 0 \<le> osum c m"
  unfolding osum_def by (rule sum_list_nonneg) (metis (mono_tags, lifting) imageE list.set_map prod.collapse)

lemma osum_odel:
  "owf m \<Longrightarrow> osum c (odel k m) = osum c m - (case oget m k of None \<Rightarrow> 0 | Some v \<Rightarrow> c v)"
proof (induction m)
  case (Cons p m)
  obtain a b where p: "p = (a, b)" by (cases p)
  show ?case
  proof (cases "k = a")
    case True
    with Cons.prems p have "odel k m = m" by (simp add: owf_def)
    with True p show ?thesis by (simp add: odel_def)
  next
    case False
    with Cons p show ?thesis by (auto simp: owf_def odel_def)
  qed
qed (simp add: odel_def)

lemma osum_oset:
  "owf m \<Longrightarrow> osum c (oset k v m) = osum c (odel k m) + c v"
proof (induction m)
  case (Cons p m)
  obtain a b where p: "p = (a, b)" by (cases p)
  show ?case
  proof (cases "a = k")
    case True
    with Cons.prems p have "odel k m = m" by (simp add: owf_def)
    with True p show ?thesis by (simp add: odel_def)
  next
    case False
    with Cons p show ?thesis by (auto simp: owf_def odel_def)
  qed
qed (simp add: odel_def)

section \<open>Interfaces\<close>

text \<open>
  What the code relies on when it uses a \<open>Map\<close>. The one client pattern that occurs in
  several components is the bounded set of remembered keys: when the map is full its
  first key is dropped before the new one is added.
\<close>

locale ordered_map =
  fixes get :: "'m \<Rightarrow> 'k \<Rightarrow> 'v option"
    and put :: "'k \<Rightarrow> 'v \<Rightarrow> 'm \<Rightarrow> 'm"
    and del :: "'k \<Rightarrow> 'm \<Rightarrow> 'm"
    and keys :: "'m \<Rightarrow> 'k list"
    and inv :: "'m \<Rightarrow> bool"
  assumes get_put: "get (put k v m) j = (if j = k then Some v else get m j)"
    and get_del: "get (del k m) j = (if j = k then None else get m j)"
    and keys_get: "k \<in> set (keys m) \<longleftrightarrow> get m k \<noteq> None"
    and keys_distinct: "inv m \<Longrightarrow> distinct (keys m)"
    and keys_put_new: "get m k = None \<Longrightarrow> keys (put k v m) = keys m @ [k]"
    and keys_put_old: "get m k \<noteq> None \<Longrightarrow> keys (put k v m) = keys m"
    and keys_del: "keys (del k m) = filter (\<lambda>j. j \<noteq> k) (keys m)"
    and inv_put: "inv m \<Longrightarrow> inv (put k v m)"
    and inv_del: "inv m \<Longrightarrow> inv (del k m)"
begin

lemma keys_drop_first:
  "inv m \<Longrightarrow> keys m \<noteq> [] \<Longrightarrow> keys (del (hd (keys m)) m) = tl (keys m)"
  using keys_distinct [of m] by (cases "keys m") (auto simp: keys_del filter_id_conv)

lemma bounded_put:
  assumes "inv m" "0 < cap" "length (keys m) \<le> cap"
  shows "length (keys (put k v (if cap \<le> length (keys m) then del (hd (keys m)) m else m))) \<le> cap"
proof (cases "cap \<le> length (keys m)")
  case True
  with assms have "keys m \<noteq> []" by auto
  with assms have "length (keys (del (hd (keys m)) m)) < cap"
    by (simp add: keys_drop_first)
  moreover have "length (keys (put k v n)) \<le> Suc (length (keys n))" for n
    by (cases "get n k") (simp_all add: keys_put_new keys_put_old)
  ultimately show ?thesis using True by (auto intro: le_trans Suc_leI)
next
  case False
  have "length (keys (put k v m)) \<le> Suc (length (keys m))"
    by (cases "get m k") (simp_all add: keys_put_new keys_put_old)
  with False show ?thesis by auto
qed

lemma bounded_put_keeps:
  assumes "j \<noteq> k" "get m j \<noteq> None" "j \<noteq> hd (keys m)"
  shows "get (put k v (if cap \<le> length (keys m) then del (hd (keys m)) m else m)) j = get m j"
  using assms by (simp add: get_put get_del)

end

interpretation omap: ordered_map oget oset odel okeys owf
proof
  fix k :: 'a and v :: 'b and m :: "('a, 'b) omap" and j
  show "oget (oset k v m) j = (if j = k then Some v else oget m j)" by (rule oget_oset)
  show "oget (odel k m) j = (if j = k then None else oget m j)" by (rule oget_odel)
  show "k \<in> set (okeys m) \<longleftrightarrow> oget m k \<noteq> None"
    using ohas_iff [of m k] by (simp add: ohas_def okeys_def)
  show "owf m \<Longrightarrow> distinct (okeys m)" by (simp add: owf_def okeys_def)
  show "oget m k = None \<Longrightarrow> okeys (oset k v m) = okeys m @ [k]"
    using ohas_iff [of m k] by (simp add: ohas_def okeys_def oset_absent)
  show "oget m k \<noteq> None \<Longrightarrow> okeys (oset k v m) = okeys m"
    by (induction m) (auto simp: okeys_def split: if_splits)
  show "okeys (odel k m) = filter (\<lambda>j. j \<noteq> k) (okeys m)"
    by (induction m) (auto simp: okeys_def odel_def)
qed (simp_all)

text \<open>
  A keyed store that keeps a running total of its entries' sizes beside them, as every
  queue of the transports does. The contract of the removal operation is enough to keep
  the total exact over any sequence of removals.
\<close>

locale byte_account =
  fixes entries :: "'s \<Rightarrow> ('k, 'v) omap"
    and total :: "'s \<Rightarrow> int"
    and cost :: "'v \<Rightarrow> int"
    and remove :: "'k \<Rightarrow> 's \<Rightarrow> 's"
  assumes entries_remove: "entries (remove k s) = odel k (entries s)"
    and total_remove: "total (remove k s) =
      total s - (case oget (entries s) k of None \<Rightarrow> 0 | Some v \<Rightarrow> cost v)"
begin

lemma exact_remove:
  "owf (entries s) \<Longrightarrow> total s = osum cost (entries s) \<Longrightarrow>
   owf (entries (remove k s)) \<and> total (remove k s) = osum cost (entries (remove k s))"
  by (simp add: entries_remove total_remove osum_odel)

lemma exact_removes:
  "owf (entries s) \<Longrightarrow> total s = osum cost (entries s) \<Longrightarrow>
   owf (entries (fold remove ks s)) \<and>
   total (fold remove ks s) = osum cost (entries (fold remove ks s))"
proof (induction ks arbitrary: s)
  case (Cons k ks)
  show ?case
    using Cons.IH [of "remove k s"] exact_remove [OF Cons.prems] by simp
qed simp

lemma entries_removes:
  "entries (fold remove ks s) = filter (\<lambda>p. fst p \<notin> set ks) (entries s)"
  by (induction ks arbitrary: s) (auto simp: entries_remove odel_def intro!: filter_cong)

lemma total_removes_le:
  "(\<And>k v. (k, v) \<in> set (entries s) \<Longrightarrow> 0 \<le> cost v) \<Longrightarrow>
   total (fold remove ks s) \<le> total s"
proof (induction ks arbitrary: s)
  case (Cons k ks)
  have "total (remove k s) \<le> total s"
    using Cons.prems oget_SomeD by (fastforce simp: total_remove split: option.splits)
  moreover have "total (fold remove ks (remove k s)) \<le> total (remove k s)"
    using Cons.prems by (intro Cons.IH) (auto simp: entries_remove set_odel)
  ultimately show ?case by simp
qed simp

end

text \<open>A machine whose every step keeps a property keeps it over every run.\<close>

locale step_invariant =
  fixes step :: "'e \<Rightarrow> 's \<Rightarrow> 's"
    and inv :: "'s \<Rightarrow> bool"
  assumes step_inv: "inv s \<Longrightarrow> inv (step e s)"
begin

lemma run_inv: "inv s \<Longrightarrow> inv (fold step es s)"
  by (induction es arbitrary: s) (simp_all add: step_inv)


end

end
