(* ===== verification/Json.thy ===== *)
theory Json
  imports Prelude
begin

text \<open>
  The canonical encoding every hash and signature of the program is taken over
  (\<open>packages/core/src/protocol.ts\<close>): the values JavaScript can hand to it, \<open>canonical\<close>
  and \<open>exactShape\<close>, and the proof that the encoding determines the value up to the order
  of object fields.
\<close>

section \<open>Values\<close>

text \<open>
  \<open>JInt\<close> is a finite number whose decimal text has no point and no exponent;
  \<open>JFrac\<close> is any other finite number, carried as the text \<open>Number.prototype.toString\<close>
  gives it; \<open>JNonFinite\<close> is NaN or an infinity. \<open>JObj\<close> is a plain object (its prototype
  is \<open>Object.prototype\<close>, its own fields are data properties with string keys);
  \<open>JExotic\<close> stands for everything else (functions, symbols, class instances, accessors).
\<close>

datatype jval =
    JUndefined
  | JNull
  | JBool bool
  | JInt int
  | JFrac ustr
  | JNonFinite
  | JStr ustr
  | JArr "jval list"
  | JObj "(ustr \<times> jval) list"
  | JExotic

datatype json_error = TooDeep | Unsupported

section \<open>JSON.stringify on the basic values\<close>

fun nat_text :: "nat \<Rightarrow> ustr" where
  "nat_text n = (if n < 10 then [48 + n] else nat_text (n div 10) @ [48 + n mod 10])"

declare nat_text.simps [simp del]

definition int_text :: "int \<Rightarrow> ustr" where
  "int_text i = (if i < 0 then 45 # nat_text (nat (- i)) else nat_text (nat i))"

definition hex_digit :: "nat \<Rightarrow> nat" where
  "hex_digit n = (if n < 10 then 48 + n else 87 + n)"

text \<open>\<open>\\u\<close> and four lower-case hexadecimal digits.\<close>

definition unicode_escape :: "nat \<Rightarrow> ustr" where
  "unicode_escape c =
     [92, 117, hex_digit (c div 4096 mod 16), hex_digit (c div 256 mod 16),
      hex_digit (c div 16 mod 16), hex_digit (c mod 16)]"

definition escape_unit :: "nat \<Rightarrow> ustr" where
  "escape_unit c =
     (if c = 34 then [92, 34]
      else if c = 92 then [92, 92]
      else if c = 8 then [92, 98]
      else if c = 12 then [92, 102]
      else if c = 10 then [92, 110]
      else if c = 13 then [92, 114]
      else if c = 9 then [92, 116]
      else if c < 32 then unicode_escape c
      else [c])"

text \<open>A lone surrogate is escaped, a pair is copied.\<close>

fun escape :: "ustr \<Rightarrow> ustr" where
  "escape [] = []"
| "escape [c] =
     (if high_surrogate c \<or> low_surrogate c then unicode_escape c else escape_unit c)"
| "escape (c # d # cs) =
     (if high_surrogate c \<and> low_surrogate d then c # d # escape cs
      else if high_surrogate c \<or> low_surrogate c then unicode_escape c @ escape (d # cs)
      else escape_unit c @ escape (d # cs))"

definition quote :: "ustr \<Rightarrow> ustr" where
  "quote s = 34 # escape s @ [34]"

fun join :: "ustr \<Rightarrow> ustr list \<Rightarrow> ustr" where
  "join sep [] = []"
| "join sep [s] = s"
| "join sep (s # t # ss) = s @ sep @ join sep (t # ss)"

section \<open>The canonical encoding\<close>

function canonical :: "jval \<Rightarrow> nat \<Rightarrow> json_error + ustr" where
  "canonical v depth =
     (if depth > 24 then Inl TooDeep
      else (case v of
          JNull \<Rightarrow> Inr (lit ''null'')
        | JBool b \<Rightarrow> Inr (if b then lit ''true'' else lit ''false'')
        | JStr s \<Rightarrow> Inr (quote s)
        | JInt i \<Rightarrow> Inr (int_text i)
        | JFrac t \<Rightarrow> Inr t
        | JArr vs \<Rightarrow>
            bindR (seqR (map (\<lambda>w. canonical w (depth + 1)) vs))
              (\<lambda>ss. Inr (lit ''['' @ join (lit '','') ss @ lit '']''))
        | JObj kvs \<Rightarrow>
            bindR (seqR (map (\<lambda>p. bindR (canonical (snd p) (depth + 1))
                                   (\<lambda>s. Inr (quote (fst p) @ lit '':'' @ s)))
                             (sort_key fst kvs)))
              (\<lambda>ss. Inr (lit ''{'' @ join (lit '','') ss @ lit ''}''))
        | _ \<Rightarrow> Inl Unsupported))"
  by pat_completeness auto
termination
proof (relation "measure (\<lambda>(v, d). size v)", goal_cases)
  case (2 v depth vs w)
  then show ?case by (auto dest!: size_list_estimation' [where f = size, OF _ order_refl])
next
  case (3 v depth kvs p)
  then have "p \<in> set kvs" by simp
  then have "size (snd p) < Suc (size_list (size_prod (\<lambda>_. 0) size) kvs)"
    by (induction kvs) auto
  with 3 show ?case by simp
qed simp

declare canonical.simps [simp del]

abbreviation canon :: "jval \<Rightarrow> json_error + ustr" where
  "canon v \<equiv> canonical v 0"

section \<open>exactShape\<close>

definition jget :: "jval \<Rightarrow> ustr \<Rightarrow> jval" where
  "jget v k = (case v of JObj kvs \<Rightarrow> (case oget kvs k of Some w \<Rightarrow> w | None \<Rightarrow> JUndefined) | _ \<Rightarrow> JUndefined)"

text \<open>\<open>Object.hasOwn\<close> on a plain object.\<close>

definition jhas :: "jval \<Rightarrow> ustr \<Rightarrow> bool" where
  "jhas v k = (case v of JObj kvs \<Rightarrow> ohas kvs k | _ \<Rightarrow> False)"

definition exactShape :: "jval \<Rightarrow> ustr list \<Rightarrow> bool" where
  "exactShape v ks =
     (case v of
        JObj kvs \<Rightarrow> length kvs = length ks \<and> list_all (\<lambda>k. ohas kvs k) ks
      | _ \<Rightarrow> False)"

text \<open>\<open>Number.isSafeInteger\<close>.\<close>

definition MAX_SAFE :: int where
  "MAX_SAFE = 9007199254740991"

definition safe_integer :: "int \<Rightarrow> bool" where
  "safe_integer i \<longleftrightarrow> - MAX_SAFE \<le> i \<and> i \<le> MAX_SAFE"


section \<open>The encoding determines the value\<close>

text \<open>
  Two values that JavaScript cannot tell apart but for the order of an object's fields
  have the same normal form.
\<close>

primrec jnorm :: "jval \<Rightarrow> jval" where
  "jnorm JUndefined = JUndefined"
| "jnorm JNull = JNull"
| "jnorm (JBool b) = JBool b"
| "jnorm (JInt i) = JInt i"
| "jnorm (JFrac t) = JFrac t"
| "jnorm JNonFinite = JNonFinite"
| "jnorm (JStr s) = JStr s"
| "jnorm (JArr vs) = JArr (map jnorm vs)"
| "jnorm (JObj kvs) = JObj (sort_key fst (map (map_prod id jnorm) kvs))"
| "jnorm JExotic = JExotic"

text \<open>
  The only thing known of the text of a number that is not written as an integer: it
  starts like a number, uses the characters of a number and has a point or an exponent.
\<close>

definition num_char :: "nat \<Rightarrow> bool" where
  "num_char c \<longleftrightarrow> (48 \<le> c \<and> c \<le> 57) \<or> c = 45 \<or> c = 43 \<or> c = 46 \<or> c = 101"

definition frac_text :: "ustr \<Rightarrow> bool" where
  "frac_text t \<longleftrightarrow> t \<noteq> [] \<and> (hd t = 45 \<or> (48 \<le> hd t \<and> hd t \<le> 57)) \<and>
     list_all num_char t \<and> (46 \<in> set t \<or> 101 \<in> set t)"

fun fracs_ok :: "jval \<Rightarrow> bool" where
  "fracs_ok (JFrac t) = frac_text t"
| "fracs_ok (JArr vs) = list_all fracs_ok vs"
| "fracs_ok (JObj kvs) = list_all (\<lambda>p. fracs_ok (snd p)) kvs"
| "fracs_ok _ = True"

subsection \<open>Numbers\<close>

fun text_value :: "nat \<Rightarrow> ustr \<Rightarrow> nat" where
  "text_value a [] = a"
| "text_value a (c # cs) = text_value (10 * a + (c - 48)) cs"

lemma text_value_append: "text_value a (s @ t) = text_value (text_value a s) t"
  by (induction s arbitrary: a) simp_all

lemma text_value_nat_text: "text_value 0 (nat_text n) = n"
proof (induction n rule: nat_text.induct)
  case (1 n)
  then show ?case by (subst nat_text.simps) (auto simp: text_value_append)
qed

lemma nat_text_digits: "c \<in> set (nat_text n) \<Longrightarrow> 48 \<le> c \<and> c \<le> 57"
proof (induction n rule: nat_text.induct)
  case (1 n)
  then show ?case by (subst (asm) (2) nat_text.simps) (auto split: if_splits)
qed

lemma nat_text_nonempty: "nat_text n \<noteq> []"
  by (subst nat_text.simps) simp

lemma nat_text_inject: "nat_text m = nat_text n \<longleftrightarrow> m = n"
  by (metis text_value_nat_text)

lemma int_text_inject: "int_text i = int_text j \<longleftrightarrow> i = j"
proof
  assume eq: "int_text i = int_text j"
  have hd_digit: "hd (nat_text n) \<noteq> 45" for n
  proof -
    have "48 \<le> hd (nat_text n)"
      using nat_text_digits nat_text_nonempty hd_in_set by blast
    then show ?thesis by simp
  qed
  have "nat i = nat j" if "0 \<le> i" "0 \<le> j"
    using eq that by (simp add: int_text_def nat_text_inject)
  moreover have "nat (- i) = nat (- j)" if "i < 0" "j < 0"
    using eq that by (simp add: int_text_def nat_text_inject)
  moreover have "(i < 0) = (j < 0)"
  proof -
    have "hd (int_text k) = 45 \<longleftrightarrow> k < 0" for k
      using hd_digit [of "nat k"] by (simp add: int_text_def)
    then show ?thesis using eq by metis
  qed
  ultimately show "i = j" by (cases "i < 0") auto
qed simp

lemma int_text_chars:
  "int_text i \<noteq> []"
  "hd (int_text i) = 45 \<or> (48 \<le> hd (int_text i) \<and> hd (int_text i) \<le> 57)"
  "list_all num_char (int_text i)"
  "46 \<notin> set (int_text i)" "101 \<notin> set (int_text i)"
proof -
  have d: "c \<in> set (nat_text n) \<Longrightarrow> 48 \<le> c \<and> c \<le> 57" for c n by (rule nat_text_digits)
  show "int_text i \<noteq> []" by (simp add: int_text_def nat_text_nonempty)
  show "hd (int_text i) = 45 \<or> (48 \<le> hd (int_text i) \<and> hd (int_text i) \<le> 57)"
    using d [of "hd (nat_text (nat i))" "nat i"] by (simp add: int_text_def nat_text_nonempty)
  show "list_all num_char (int_text i)"
    using d by (auto simp: int_text_def list_all_iff num_char_def)
  show "46 \<notin> set (int_text i)" using d [of 46] by (auto simp: int_text_def)
  show "101 \<notin> set (int_text i)" using d [of 101] by (auto simp: int_text_def)
qed

subsection \<open>Strings\<close>

text \<open>A reader for quoted text, used to see that quoting loses nothing.\<close>

definition hex_value :: "nat \<Rightarrow> nat" where
  "hex_value c = (if c < 97 then c - 48 else c - 87)"

definition short_escape :: "nat \<Rightarrow> nat" where
  "short_escape x = (if x = 98 then 8 else if x = 102 then 12 else if x = 110 then 10
     else if x = 114 then 13 else if x = 116 then 9 else x)"

fun unescape :: "ustr \<Rightarrow> (ustr \<times> ustr) option" where
  "unescape [] = None"
| "unescape (c # r) =
     (if c = 34 then Some ([], r)
      else if c = 92 then
        (case r of
           x # r1 \<Rightarrow>
             if x = 117 then
               (case r1 of
                  a # b # e # f # r2 \<Rightarrow>
                    map_option (apfst ((#) (hex_value a * 4096 + hex_value b * 256 +
                       hex_value e * 16 + hex_value f))) (unescape r2)
                | _ \<Rightarrow> None)
             else map_option (apfst ((#) (short_escape x))) (unescape r1)
         | [] \<Rightarrow> None)
      else map_option (apfst ((#) c)) (unescape r))"

lemma hex_value_digit: "n < 16 \<Longrightarrow> hex_value (hex_digit n) = n"
  by (auto simp: hex_value_def hex_digit_def)

lemma hex_split:
  assumes "c < 65536"
  shows "c div 4096 * 4096 + c div 256 mod 16 * 256 + c div 16 mod 16 * 16 + c mod 16 = (c::nat)"
proof -
  have "16 * (c div 4096) + c div 256 mod 16 = c div 256"
    using mult_div_mod_eq [of 16 "c div 256"] by (simp add: div_mult2_eq [of c 256 16, simplified])
  moreover have "16 * (c div 256) + c div 16 mod 16 = c div 16"
    using mult_div_mod_eq [of 16 "c div 16"] by (simp add: div_mult2_eq [of c 16 16, simplified])
  moreover have "16 * (c div 16) + c mod 16 = c" by (rule mult_div_mod_eq)
  ultimately show ?thesis by linarith
qed

lemma unescape_unicode:
  "c < 65536 \<Longrightarrow> unescape (unicode_escape c @ r) = map_option (apfst ((#) c)) (unescape r)"
  by (simp add: unicode_escape_def hex_value_digit hex_split)

lemma unescape_unit:
  "unescape (escape_unit c @ r) = map_option (apfst ((#) c)) (unescape r)"
proof (cases "c < 32 \<and> c \<notin> {8, 9, 10, 12, 13}")
  case True
  then have "escape_unit c = unicode_escape c" by (auto simp: escape_unit_def)
  with True show ?thesis by (simp add: unescape_unicode)
next
  case False
  then show ?thesis by (auto simp: escape_unit_def short_escape_def)
qed

lemma unescape_escape: "unescape (escape s @ 34 # r) = Some (s, r)"
proof (induction s rule: escape.induct)
  case (2 c)
  then show ?case
    using unescape_unicode [of c "34 # r"]
    by (simp add: unescape_unit high_surrogate_def low_surrogate_def split: if_splits)
next
  case (3 c d cs)
  have pair: "unescape (c # d # x) = map_option (apfst ((#) c)) (map_option (apfst ((#) d)) (unescape x))"
    if "high_surrogate c" "low_surrogate d" for x
    using that by (simp add: high_surrogate_def low_surrogate_def)
  have lone: "unescape (unicode_escape c @ x) = map_option (apfst ((#) c)) (unescape x)"
    if "high_surrogate c \<or> low_surrogate c" for x
    using that by (intro unescape_unicode) (auto simp: high_surrogate_def low_surrogate_def)
  show ?case
  proof (cases "high_surrogate c \<and> low_surrogate d")
    case True
    with 3 show ?thesis by (simp add: pair del: unescape.simps)
  next
    case False
    with 3 show ?thesis by (auto simp: lone unescape_unit simp del: unescape.simps)
  qed
qed simp

lemma quote_prefix_inject: "quote s @ r = quote t @ r' \<longleftrightarrow> s = t \<and> r = r'"
proof
  assume "quote s @ r = quote t @ r'"
  then have "escape s @ 34 # r = escape t @ 34 # r'" by (simp add: quote_def)
  then show "s = t \<and> r = r'" by (metis unescape_escape option.inject prod.inject)
qed simp

lemma quote_inject: "quote s = quote t \<longleftrightarrow> s = t"
  using quote_prefix_inject [of s "[]" t "[]"] by simp


subsection \<open>Sequences\<close>

definition closer :: "nat \<Rightarrow> bool" where
  "closer c \<longleftrightarrow> c = 44 \<or> c = 93 \<or> c = 125"

definition stops :: "ustr \<Rightarrow> bool" where
  "stops r \<longleftrightarrow> r = [] \<or> closer (hd r)"

lemma stops_simps [simp]: "stops []" "stops (c # r) \<longleftrightarrow> closer c"
  by (simp_all add: stops_def)

lemma join_Cons: "join sep (s # ss) = s @ (if ss = [] then [] else sep @ join sep ss)"
  by (cases ss) simp_all

text \<open>
  If single elements can be read back from in front of a closing character, so can a
  sequence of them.
\<close>

lemma join_unique:
  assumes elem: "\<And>a b s s' r r'. a \<in> set as \<Longrightarrow> b \<in> set bs \<Longrightarrow> P a s \<Longrightarrow> Q b s' \<Longrightarrow> s @ r = s' @ r' \<Longrightarrow>
      stops r \<Longrightarrow> stops r' \<Longrightarrow> f a = g b \<and> r = r'"
    and P: "\<And>a s. P a s \<Longrightarrow> s \<noteq> [] \<and> \<not> closer (hd s)"
    and Q: "\<And>b s. Q b s \<Longrightarrow> s \<noteq> [] \<and> \<not> closer (hd s)"
    and c: "c = 93 \<or> c = 125"
    and "list_all2 P as ss" "list_all2 Q bs ss'"
    and "join [44] ss @ c # r = join [44] ss' @ c # r'"
  shows "map f as = map g bs \<and> r = r'"
  using assms(5-7) elem
proof (induction as arbitrary: bs ss ss')
  case Nil
  then have l: "c # r = join [44] ss' @ c # r'" by simp
  show ?case
  proof (cases bs)
    case Nil
    with Nil.prems l show ?thesis by simp
  next
    case (Cons b bs')
    with Nil.prems(2) obtain t ts where "ss' = t # ts" "Q b t" by (auto simp: list_all2_Cons1)
    with l Q [of b t] c show ?thesis by (cases t) (auto simp: join_Cons closer_def)
  qed
next
  case (Cons a as)
  then obtain s ts where ss: "ss = s # ts" "P a s" "list_all2 P as ts"
    by (auto simp: list_all2_Cons1)
  show ?case
  proof (cases bs)
    case Nil
    with Cons.prems ss P [of a s] c show ?thesis
      by (cases s) (auto simp: join_Cons closer_def)
  next
    case (Cons b bs')
    with Cons.prems(2) obtain s' ts' where ss': "ss' = s' # ts'" "Q b s'" "list_all2 Q bs' ts'"
      by (auto simp: list_all2_Cons1)
    let ?t = "\<lambda>ts r. (if ts = [] then [] else [44] @ join [44] ts) @ c # r"
    have eq: "s @ ?t ts r = s' @ ?t ts' r'" using Cons.prems(3) ss ss' by (simp add: join_Cons)
    have st: "stops (?t ts r)" "stops (?t ts' r')" using c by (auto simp: closer_def)
    have "f a = g b \<and> ?t ts r = ?t ts' r'"
      by (rule Cons.prems(4) [OF _ _ ss(2) ss'(2) eq st]) (simp_all add: \<open>bs = b # bs'\<close>)
    then have e: "f a = g b" "?t ts r = ?t ts' r'" by simp_all
    have "(ts = []) = (ts' = [])" using e(2) c by (auto split: if_splits)
    with e(2) have tails: "join [44] ts @ c # r = join [44] ts' @ c # r'"
      by (cases "ts = []") simp_all
    have elem': "f x = g y \<and> u = u'"
      if "x \<in> set as" "y \<in> set bs'" "P x p" "Q y q" "p @ u = q @ u'" "stops u" "stops u'"
      for x y p q u u'
      by (rule Cons.prems(4) [OF _ _ that(3-7)]) (use that \<open>bs = b # bs'\<close> in simp_all)
    have "map f as = map g bs' \<and> r = r'"
      by (rule Cons.IH [OF ss(3) ss'(3) tails elem'])
    with e(1) \<open>bs = b # bs'\<close> show ?thesis by simp
  qed
qed

subsection \<open>Values\<close>

lemma canonical_shape:
  assumes "canonical v d = Inr s"
  shows "(v = JNull \<and> s = lit ''null'') \<or>
    (\<exists>b. v = JBool b \<and> s = (if b then lit ''true'' else lit ''false'')) \<or>
    (\<exists>i. v = JInt i \<and> s = int_text i) \<or> (\<exists>t. v = JFrac t \<and> s = t) \<or>
    (\<exists>t. v = JStr t \<and> s = quote t) \<or>
    (\<exists>vs ss. v = JArr vs \<and> s = 91 # join [44] ss @ [93] \<and>
       list_all2 (\<lambda>w t. canonical w (Suc d) = Inr t) vs ss) \<or>
    (\<exists>kvs ss. v = JObj kvs \<and> s = 123 # join [44] ss @ [125] \<and>
       list_all2 (\<lambda>p t. \<exists>u. canonical (snd p) (Suc d) = Inr u \<and> t = quote (fst p) @ 58 # u)
         (sort_key fst kvs) ss)"
  using assms
  by (subst (asm) canonical.simps)
    (auto simp: bindR_Inr_iff seqR_map_Inr_iff lit_def split: if_splits jval.splits
      elim!: list.rel_mono_strong)

lemma quote_hd: "quote s = 34 # escape s @ [34]"
  by (rule quote_def)

lemma canonical_hd:
  assumes "canonical v d = Inr s" "fracs_ok v"
  shows "s \<noteq> [] \<and> \<not> closer (hd s)"
  using canonical_shape [OF assms(1)]
proof (elim disjE exE conjE)
  fix i assume "s = int_text i"
  then show ?thesis using int_text_chars(1,2) [of i] by (auto simp: closer_def)
next
  fix t assume "v = JFrac t" "s = t"
  then show ?thesis using assms(2) by (auto simp: closer_def frac_text_def)
qed (auto simp: closer_def quote_hd lit_def)

text \<open>Which constructor was encoded shows in the first character.\<close>

lemma canonical_first:
  assumes "canonical v d = Inr s" "fracs_ok v"
  shows "(hd s = 110 \<longleftrightarrow> v = JNull) \<and> (hd s = 116 \<longleftrightarrow> v = JBool True) \<and>
    (hd s = 102 \<longleftrightarrow> v = JBool False) \<and> (hd s = 34 \<longleftrightarrow> (\<exists>t. v = JStr t)) \<and>
    (hd s = 91 \<longleftrightarrow> (\<exists>vs. v = JArr vs)) \<and> (hd s = 123 \<longleftrightarrow> (\<exists>kvs. v = JObj kvs)) \<and>
    (num_char (hd s) \<longleftrightarrow> (\<exists>i. v = JInt i) \<or> (\<exists>t. v = JFrac t))"
  using canonical_shape [OF assms(1)]
proof (elim disjE exE conjE)
  fix i assume "v = JInt i" "s = int_text i"
  then show ?thesis using int_text_chars(2) [of i] by (auto simp: num_char_def)
next
  fix t assume "v = JFrac t" "s = t"
  then show ?thesis using assms(2) by (auto simp: num_char_def frac_text_def)
qed (auto simp: quote_hd lit_def num_char_def)


text \<open>A number's text ends where its characters end.\<close>

lemma num_token_unique:
  assumes "list_all num_char s" "list_all num_char t" "s @ r = t @ r'" "stops r" "stops r'"
  shows "s = t \<and> r = r'"
proof -
  have take: "takeWhile num_char (u @ q) = u" if "list_all num_char u" "stops q" for u q
    using that
    by (cases q) (auto simp: list_all_iff takeWhile_append closer_def num_char_def)
  from assms take have "s = t" by metis
  with assms(3) show ?thesis by simp
qed

lemma sort_key_map_snd:
  "sort_key fst (map (map_prod id f) kvs) = map (map_prod id f) (sort_key fst kvs)"
proof (induction kvs)
  case (Cons p kvs)
  have step: "insort_key fst (map_prod id f p) (map (map_prod id f) xs) =
        map (map_prod id f) (insort_key fst p xs)" for xs
    by (induction xs) (auto simp: map_prod_def split: prod.splits)
  show ?case using Cons by (simp only: list.map sort_key_simps step)
qed simp

lemma jnorm_JObj: "jnorm (JObj kvs) = JObj (map (map_prod id jnorm) (sort_key fst kvs))"
  by (simp add: sort_key_map_snd)

lemma canonical_unique:
  assumes "canonical v d = Inr s" "canonical w e = Inr t" "fracs_ok v" "fracs_ok w"
    "s @ r = t @ r'" "stops r" "stops r'"
  shows "jnorm v = jnorm w \<and> r = r'"
  using assms
proof (induction "size v" arbitrary: v w d e s t r r' rule: less_induct)
  case less
  note v = canonical_shape [OF less.prems(1)] and w = canonical_shape [OF less.prems(2)]
  note ne = canonical_hd [OF less.prems(1,3)] canonical_hd [OF less.prems(2,4)]
  have hd: "hd s = hd t" using less.prems(5) ne by (metis hd_append2)
  note fv = canonical_first [OF less.prems(1,3)] and fw = canonical_first [OF less.prems(2,4)]
  have P: "s' \<noteq> [] \<and> \<not> closer (hd s')"
    if "\<exists>u. canonical (snd p) i = Inr u \<and> s' = quote (fst p) @ 58 # u" for i and p :: "ustr \<times> jval" and s'
    using that by (auto simp: quote_hd closer_def)
  from v show ?case
  proof (elim disjE exE conjE)
    assume "v = JNull" "s = lit ''null''"
    moreover from this have "w = JNull" using fv fw hd by simp
    ultimately show ?thesis using w less.prems(5) by auto
  next
    fix b assume "v = JBool b" "s = (if b then lit ''true'' else lit ''false'')"
    moreover from this have "w = JBool b" using fv fw hd by (cases b) simp_all
    ultimately show ?thesis using w less.prems(5) by auto
  next
    fix i assume i: "v = JInt i" "s = int_text i"
    with fv fw hd have "(\<exists>j. w = JInt j) \<or> (\<exists>u. w = JFrac u)" by simp
    then have "t = s \<and> r = r'"
      using w i num_token_unique [of s t r r'] less.prems(4-7) int_text_chars(3)
      by (auto simp: frac_text_def)
    with w i \<open>(\<exists>j. w = JInt j) \<or> (\<exists>u. w = JFrac u)\<close> less.prems(4) int_text_chars(4,5) [of i]
    show ?thesis by (auto simp: int_text_inject frac_text_def)
  next
    fix u assume u: "v = JFrac u" "s = u"
    with fv fw hd have k: "(\<exists>j. w = JInt j) \<or> (\<exists>u. w = JFrac u)" by simp
    then have "t = s \<and> r = r'"
      using w u num_token_unique [of s t r r'] less.prems(3-7) int_text_chars(3)
      by (auto simp: frac_text_def)
    with w u k less.prems(3) int_text_chars(4,5) show ?thesis by (auto simp: frac_text_def)
  next
    fix u assume u: "v = JStr u" "s = quote u"
    with fv fw hd obtain u' where "w = JStr u'" by auto
    with w u less.prems(5) quote_prefix_inject show ?thesis by auto
  next
    fix vs ss assume vs: "v = JArr vs" "s = 91 # join [44] ss @ [93]"
      "list_all2 (\<lambda>w t. canonical w (Suc d) = Inr t) vs ss"
    with fv fw hd obtain ws where "w = JArr ws" by auto
    with w obtain ts where ws: "w = JArr ws" "t = 91 # join [44] ts @ [93]"
      "list_all2 (\<lambda>w t. canonical w (Suc e) = Inr t) ws ts" by auto
    have "map jnorm vs = map jnorm ws \<and> r = r'"
    proof (rule join_unique [where P = "\<lambda>w t. canonical w (Suc d) = Inr t \<and> fracs_ok w"
          and Q = "\<lambda>w t. canonical w (Suc e) = Inr t \<and> fracs_ok w" and c = 93])
      fix a b p q y y'
      assume "a \<in> set vs" "canonical a (Suc d) = Inr p \<and> fracs_ok a"
        "canonical b (Suc e) = Inr q \<and> fracs_ok b" "p @ y = q @ y'" "stops y" "stops y'"
      moreover have "size a < size v" using vs(1) \<open>a \<in> set vs\<close>
        by (auto dest!: size_list_estimation' [where f = size, OF _ order_refl])
      ultimately show "jnorm a = jnorm b \<and> y = y'" using less.hyps by blast
    next
      show "list_all2 (\<lambda>w t. canonical w (Suc d) = Inr t \<and> fracs_ok w) vs ss"
        using vs(3) less.prems(3) vs(1) by (auto simp: list_all2_conv_all_nth list_all_length)
      show "list_all2 (\<lambda>w t. canonical w (Suc e) = Inr t \<and> fracs_ok w) ws ts"
        using ws(3) less.prems(4) ws(1) by (auto simp: list_all2_conv_all_nth list_all_length)
    qed (use vs ws less.prems(5) canonical_hd in auto)
    with vs ws show ?thesis by simp
  next
    fix kvs ss
    let ?F = "\<lambda>d p t. \<exists>u. canonical (snd p) (Suc d) = Inr u \<and> t = quote (fst p) @ 58 # u"
    assume vs: "v = JObj kvs" "s = 123 # join [44] ss @ [125]" "list_all2 (?F d) (sort_key fst kvs) ss"
    with fv fw hd obtain lvs where "w = JObj lvs" by auto
    with w obtain ts where ws: "w = JObj lvs" "t = 123 # join [44] ts @ [125]"
      "list_all2 (?F e) (sort_key fst lvs) ts" by auto
    have "map (map_prod id jnorm) (sort_key fst kvs) = map (map_prod id jnorm) (sort_key fst lvs) \<and> r = r'"
    proof (rule join_unique [where P = "?F d" and Q = "?F e" and c = 125])
      fix a b p q y y'
      assume ab: "a \<in> set (sort_key fst kvs)" "b \<in> set (sort_key fst lvs)" "?F d a p" "?F e b q"
        "p @ y = q @ y'" "stops y" "stops y'"
      then obtain u u' where u: "canonical (snd a) (Suc d) = Inr u" "p = quote (fst a) @ 58 # u"
        "canonical (snd b) (Suc e) = Inr u'" "q = quote (fst b) @ 58 # u'" by auto
      with ab(5) have k: "fst a = fst b" "u @ y = u' @ y'"
        using quote_prefix_inject [of "fst a" "58 # u @ y" "fst b" "58 # u' @ y'"] by auto
      have "snd a \<in> snd ` set kvs" "snd b \<in> snd ` set lvs" using ab(1,2) by auto
      then have "fracs_ok (snd a)" "fracs_ok (snd b)"
        using less.prems(3,4) vs(1) ws(1) by (auto simp: list_all_iff)
      moreover have "size (snd a) < Suc (size_list (size_prod (\<lambda>_. 0) size) kvs)"
        using ab(1) unfolding set_sort by (induction kvs) auto
      ultimately have "jnorm (snd a) = jnorm (snd b) \<and> y = y'"
        using less.hyps [of "snd a" "Suc d" u "snd b" "Suc e" u' y y'] u k ab vs(1) by simp
      with k show "map_prod id jnorm a = map_prod id jnorm b \<and> y = y'"
        by (cases a; cases b) simp
    next
      show "join [44] ss @ 125 # r = join [44] ts @ 125 # r'" using vs ws less.prems(5) by simp
    qed (rule P vs(3) ws(3) refl disjI2 | assumption)+
    with vs ws show ?thesis by (simp add: sort_key_map_snd)
  qed
qed

lemma canonical_injective:
  assumes "canon v = Inr s" "canon w = Inr s" "fracs_ok v" "fracs_ok w"
  shows "jnorm v = jnorm w"
  using canonical_unique [OF assms, of "[]" "[]"] by simp


text \<open>Conversely the order in which the fields were added never shows.\<close>

lemma canonical_jnorm: "canonical (jnorm v) d = canonical v d"
proof (induction v arbitrary: d)
  case (JArr vs)
  then have "map (\<lambda>w. canonical w (d + 1)) (map jnorm vs) = map (\<lambda>w. canonical w (d + 1)) vs"
    by simp
  then show ?case by (simp only: jnorm.simps canonical.simps [of "JArr _"] jval.case)
next
  case (JObj kvs)
  let ?f = "\<lambda>p. bindR (canonical (snd p) (d + 1)) (\<lambda>s. Inr (quote (fst p) @ lit '':'' @ s))"
  have "?f (map_prod id jnorm p) = ?f p" if "p \<in> set kvs" for p
    using JObj [of p "snd p" "d + 1"] that by (cases p) auto
  then have "map ?f (map (map_prod id jnorm) (sort_key fst kvs)) = map ?f (sort_key fst kvs)"
    by simp
  moreover have "sort_key fst (map (map_prod id jnorm) (sort_key fst kvs)) =
      map (map_prod id jnorm) (sort_key fst kvs)"
    by (rule sort_key_id_if_sorted) (simp add: sorted_sort_key comp_def)
  ultimately show ?case
    by (simp only: jnorm_JObj canonical.simps [of "JObj _"] jval.case)
qed simp_all

text \<open>
  C32: the canonical text of a value determines the value up to the order of object fields:
  two values have the same text exactly when they agree after their fields are sorted, so a
  signature or a hash of the text binds every field, at every depth.
\<close>

theorem canonical_determines:
  assumes "canon v = Inr s" "fracs_ok v" "fracs_ok w"
  shows "canon w = Inr s \<longleftrightarrow> jnorm w = jnorm v"
proof
  assume "canon w = Inr s"
  with assms show "jnorm w = jnorm v" using canonical_injective by blast
next
  assume "jnorm w = jnorm v"
  then have "canon w = canon v" using canonical_jnorm [of w 0] canonical_jnorm [of v 0] by simp
  with assms show "canon w = Inr s" by simp
qed

lemma oget_sort_key: "oget (sort_key fst m) k = oget m (k :: ustr)"
proof -
  have first: "oget m k = oget (filter (\<lambda>p. fst p = k) m) k" for m :: "(ustr, 'b) omap"
    by (induction m) auto
  show ?thesis by (subst (1 2) first) (simp add: sort_key_stable)
qed

lemma jget_jnorm: "jget (jnorm v) k = jnorm (jget v k)"
proof -
  have "oget (map (map_prod id jnorm) m) k = map_option jnorm (oget m k)" for m
    by (induction m) auto
  then show ?thesis
    by (cases v) (auto simp: jget_def oget_sort_key split: option.split)
qed

definition sample_v :: jval where
  "sample_v = JObj [([98], JInt 2), ([97], JArr [JNull])]"

definition sample_w :: jval where
  "sample_w = JObj [([97], JArr [JNull]), ([98], JInt 2)]"

lemma sample_canon: "canon sample_v = Inr (lit ''{\"a\":[null],\"b\":2}'')"
proof -
  have leaf: "canonical JNull 2 = Inr (lit ''null'')" "canonical (JInt 2) (Suc 0) = Inr [50]"
    by (simp_all add: canonical.simps nat_text.simps int_text_def)
  have "canonical (JArr [JNull]) (Suc 0) = Inr (lit ''['' @ lit ''null'' @ lit '']'')"
    using leaf(1) by (simp add: canonical.simps [of "JArr _"] numeral_2_eq_2)
  moreover have "sort_key fst [([98::nat], JInt 2), ([97], JArr [JNull])] = [([97], JArr [JNull]), ([98], JInt 2)]"
    by simp
  ultimately show ?thesis
    using leaf(2)
    by (simp add: sample_v_def canonical.simps [of "JObj _"] quote_def escape_unit_def
        high_surrogate_def low_surrogate_def lit_def of_char_def)
qed

theorem canonical_determines_witness:
  "canon sample_v = Inr (lit ''{\"a\":[null],\"b\":2}'') \<and>
   canon sample_w = Inr (lit ''{\"a\":[null],\"b\":2}'')"
proof -
  have "jnorm sample_w = jnorm sample_v" "fracs_ok sample_v" "fracs_ok sample_w"
    by (simp_all add: sample_v_def sample_w_def)
  then show ?thesis using sample_canon canonical_determines [OF sample_canon] by blast
qed

section \<open>Reading fields\<close>

text \<open>
  \<open>String(v)\<close>, which \<open>RegExp.prototype.test\<close> applies to its argument. The text of an
  object is fixed; of the exotic values only that it is no hexadecimal address matters.
\<close>

fun js_string :: "jval \<Rightarrow> ustr" where
  "js_string JUndefined = lit ''undefined''"
| "js_string JNull = lit ''null''"
| "js_string (JBool b) = (if b then lit ''true'' else lit ''false'')"
| "js_string (JInt i) = int_text i"
| "js_string (JFrac t) = t"
| "js_string JNonFinite = lit ''NaN''"
| "js_string (JStr s) = s"
| "js_string (JArr vs) =
     join (lit '','') (map (\<lambda>v. if v = JUndefined \<or> v = JNull then [] else js_string v) vs)"
| "js_string (JObj kvs) = lit ''[object Object]''"
| "js_string JExotic = lit ''[object Object]''"

definition is_str :: "jval \<Rightarrow> bool" where
  "is_str v = (case v of JStr _ \<Rightarrow> True | _ \<Rightarrow> False)"

definition str_of :: "jval \<Rightarrow> ustr" where
  "str_of v = (case v of JStr s \<Rightarrow> s | _ \<Rightarrow> [])"

definition is_bool :: "jval \<Rightarrow> bool" where
  "is_bool v = (case v of JBool _ \<Rightarrow> True | _ \<Rightarrow> False)"

definition bool_of :: "jval \<Rightarrow> bool" where
  "bool_of v = (case v of JBool b \<Rightarrow> b | _ \<Rightarrow> False)"

definition is_int :: "jval \<Rightarrow> bool" where
  "is_int v = (case v of JInt _ \<Rightarrow> True | _ \<Rightarrow> False)"

definition int_of :: "jval \<Rightarrow> int" where
  "int_of v = (case v of JInt i \<Rightarrow> i | _ \<Rightarrow> 0)"

definition is_safe_int :: "jval \<Rightarrow> bool" where
  "is_safe_int v = (case v of JInt i \<Rightarrow> safe_integer i | _ \<Rightarrow> False)"

definition is_obj :: "jval \<Rightarrow> bool" where
  "is_obj v = (case v of JObj _ \<Rightarrow> True | _ \<Rightarrow> False)"

definition fields_of :: "jval \<Rightarrow> (ustr, jval) omap" where
  "fields_of v = (case v of JObj kvs \<Rightarrow> kvs | _ \<Rightarrow> [])"

definition is_arr :: "jval \<Rightarrow> bool" where
  "is_arr v = (case v of JArr _ \<Rightarrow> True | _ \<Rightarrow> False)"

definition items_of :: "jval \<Rightarrow> jval list" where
  "items_of v = (case v of JArr vs \<Rightarrow> vs | _ \<Rightarrow> [])"

lemmas jval_readers = is_str_def str_of_def is_bool_def bool_of_def is_int_def int_of_def
  is_safe_int_def is_obj_def fields_of_def is_arr_def items_of_def

end
