(* ===== verification/Bytes.thy ===== *)
theory Bytes
  imports Json "HOL-Library.Word"
begin

text \<open>
  Bytes, UTF-8, base64 and the admission of signing keys
  (\<open>packages/core/src/index.ts\<close>: \<open>b64\<close>, \<open>un64\<close>; \<open>packages/core/src/signing-key.ts\<close>).
\<close>

type_synonym bytes = "8 word list"

section \<open>UTF-8\<close>

text \<open>\<open>Buffer.from(string)\<close>: a lone surrogate becomes U+FFFD.\<close>

definition utf8_unit :: "nat \<Rightarrow> bytes" where
  "utf8_unit c =
     (if c < 128 then [of_nat c]
      else if c < 2048 then [of_nat (192 + c div 64), of_nat (128 + c mod 64)]
      else [of_nat (224 + c div 4096), of_nat (128 + c div 64 mod 64), of_nat (128 + c mod 64)])"

definition utf8_pair :: "nat \<Rightarrow> nat \<Rightarrow> bytes" where
  "utf8_pair c d =
     (let u = 65536 + (c - 55296) * 1024 + (d - 56320) in
      [of_nat (240 + u div 262144), of_nat (128 + u div 4096 mod 64),
       of_nat (128 + u div 64 mod 64), of_nat (128 + u mod 64)])"

fun utf8 :: "ustr \<Rightarrow> bytes" where
  "utf8 [] = []"
| "utf8 [c] = utf8_unit (if high_surrogate c \<or> low_surrogate c then 65533 else c)"
| "utf8 (c # d # cs) =
     (if high_surrogate c \<and> low_surrogate d then utf8_pair c d @ utf8 cs
      else utf8_unit (if high_surrogate c \<or> low_surrogate c then 65533 else c) @ utf8 (d # cs))"

lemma length_utf8_unit: "length (utf8_unit c) = (if c < 128 then 1 else if c < 2048 then 2 else 3)"
  by (simp add: utf8_unit_def)

lemma length_utf8: "length (utf8 s) = utf8_length s"
  by (induction s rule: utf8.induct)
    (auto simp: length_utf8_unit utf8_pair_def Let_def high_surrogate_def low_surrogate_def)

section \<open>Base64\<close>

definition b64_char :: "nat \<Rightarrow> nat" where
  "b64_char n = (if n < 26 then 65 + n else if n < 52 then 71 + n else if n < 62 then n - 4
     else if n = 62 then 43 else 47)"

definition b64_value :: "nat \<Rightarrow> nat" where
  "b64_value c = (if 65 \<le> c \<and> c \<le> 90 then c - 65 else if 97 \<le> c \<and> c \<le> 122 then c - 71
     else if 48 \<le> c \<and> c \<le> 57 then c + 4 else if c = 43 then 62 else 63)"

definition is_b64 :: "nat \<Rightarrow> bool" where
  "is_b64 c \<longleftrightarrow> 65 \<le> c \<and> c \<le> 90 \<or> 97 \<le> c \<and> c \<le> 122 \<or> 48 \<le> c \<and> c \<le> 57 \<or> c = 43 \<or> c = 47"

fun b64 :: "bytes \<Rightarrow> ustr" where
  "b64 [] = []"
| "b64 [a] = [b64_char (unat a div 4), b64_char (unat a mod 4 * 16), 61, 61]"
| "b64 [a, b] =
     [b64_char (unat a div 4), b64_char (unat a mod 4 * 16 + unat b div 16),
      b64_char (unat b mod 16 * 4), 61]"
| "b64 (a # b # c # bs) =
     b64_char (unat a div 4) # b64_char (unat a mod 4 * 16 + unat b div 16) #
     b64_char (unat b mod 16 * 4 + unat c div 64) # b64_char (unat c mod 64) # b64 bs"

text \<open>
  \<open>Buffer.from(s, "base64")\<close> on a string of the alphabet followed by padding: groups of four
  sextets give three bytes, a last group of three or two gives two or one, a single one none.
\<close>

fun from_sextets :: "nat list \<Rightarrow> bytes" where
  "from_sextets (a # b # c # d # ss) =
     of_nat (a * 4 + b div 16) # of_nat (b mod 16 * 16 + c div 4) # of_nat (c mod 4 * 64 + d) # from_sextets ss"
| "from_sextets [a, b, c] = [of_nat (a * 4 + b div 16), of_nat (b mod 16 * 16 + c div 4)]"
| "from_sextets [a, b] = [of_nat (a * 4 + b div 16)]"
| "from_sextets _ = []"

definition from64 :: "ustr \<Rightarrow> bytes" where
  "from64 s = from_sextets (map b64_value (takeWhile is_b64 s))"

definition b64_shape :: "ustr \<Rightarrow> bool" where
  "b64_shape s = (let rest = dropWhile is_b64 s in rest = [] \<or> rest = [61] \<or> rest = [61, 61])"

datatype code_error = BadCode | NotCanonical

definition un64 :: "jval \<Rightarrow> int \<Rightarrow> code_error + bytes" where
  "un64 v limit =
     (case v of
        JStr s \<Rightarrow>
          if int (length s) > limit \<or> \<not> b64_shape s then Inl BadCode
          else if b64 (from64 s) \<noteq> s then Inl NotCanonical
          else Inr (from64 s)
      | _ \<Rightarrow> Inl BadCode)"

lemma b64_value_char [simp]: "n < 64 \<Longrightarrow> b64_value (b64_char n) = n"
  by (auto simp: b64_value_def b64_char_def)

lemma is_b64_char [simp]: "n < 64 \<Longrightarrow> is_b64 (b64_char n)"
  by (auto simp: is_b64_def b64_char_def)

lemma not_b64_pad [simp]: "\<not> is_b64 61"
  by (simp add: is_b64_def)

lemma unat_byte: "unat (b :: 8 word) < 256"
  using unsigned_less [of b, where 'a = nat] by simp

lemma unat_byte_parts [simp]:
  "unat b div 16 div 16 = 0" "unat b div 64 div 4 = 0" "unat b div 16 mod 16 = unat b div 16"
  "unat b div 64 mod 4 = unat b div 64" "unat b div 4 < 64" "unat b div 16 < 16" "unat b div 64 < 4"
  for b :: "8 word"
  using unat_byte [of b] by simp_all

lemma group_parts [simp]:
  fixes a b c :: "8 word"
  shows "unat a mod 4 * 16 + unat b div 16 < 64" "unat a mod 4 * 16 < 64"
    "unat b mod 16 * 4 + unat c div 64 < 64" "unat b mod 16 * 4 < 64" "unat c mod 64 < 64"
proof -
  have "unat a mod 4 < 4" "unat b mod 16 < 16" "unat b div 16 < 16" "unat c div 64 < 4" by simp_all
  then show "unat a mod 4 * 16 + unat b div 16 < 64" "unat a mod 4 * 16 < 64"
    "unat b mod 16 * 4 + unat c div 64 < 64" "unat b mod 16 * 4 < 64" "unat c mod 64 < 64"
    by (linarith | simp)+
qed

lemma group_bytes [simp]:
  fixes a b c :: "8 word"
  shows "(unat a mod 4 * 16 + unat b div 16) div 16 = unat a mod 4"
    "(unat a mod 4 * 16) div 16 = unat a mod 4"
    "(unat a mod 4 * 16 + unat b div 16) mod 16 = unat b div 16"
    "(unat b mod 16 * 4 + unat c div 64) div 4 = unat b mod 16"
    "(unat b mod 16 * 4) div 4 = unat b mod 16"
    "(unat b mod 16 * 4 + unat c div 64) mod 4 = unat c div 64"
  by (simp_all add: mult.commute [of _ 16] mult.commute [of _ 4])

lemma byte_of_parts [simp]:
  "(word_of_nat (unat b div 4 * 4 + unat b mod 4) :: 8 word) = b"
  "(word_of_nat (unat b div 16 * 16 + unat b mod 16) :: 8 word) = b"
  "(word_of_nat (unat b div 64 * 64 + unat b mod 64) :: 8 word) = b" for b :: "8 word"
  by (simp_all only: div_mult_mod_eq) simp_all

lemma from64_b64 [simp]: "from64 (b64 bs) = bs"
proof (induction bs rule: b64.induct)
  case (2 a)
  show ?case by (simp add: from64_def del: of_nat_add of_nat_mult div_mult_mod_eq mod_div_mult_eq)
next
  case (3 a b)
  show ?case by (simp add: from64_def del: of_nat_add of_nat_mult div_mult_mod_eq mod_div_mult_eq)
next
  case (4 a b c bs)
  then show ?case by (simp add: from64_def del: of_nat_add of_nat_mult div_mult_mod_eq mod_div_mult_eq)
qed (simp add: from64_def)

lemma b64_shape_b64 [simp]: "b64_shape (b64 bs)"
  by (induction bs rule: b64.induct) (auto simp: b64_shape_def)

lemma length_b64: "length (b64 bs) = 4 * ((length bs + 2) div 3)"
proof (induction bs rule: b64.induct)
  case (4 a b c bs)
  have "(length (a # b # c # bs) + 2) div 3 = Suc ((length bs + 2) div 3)"
    using div_add_self1 [of 3 "length bs + 2"] by simp
  with 4 show ?case by simp
qed simp_all

text \<open>
  Base64 text is accepted exactly when it is the canonical text of some bytes and is not
  too long, and it is read as those bytes: no two texts stand for the same bytes.
\<close>

theorem un64_iff:
  "un64 v limit = Inr b \<longleftrightarrow> v = JStr (b64 b) \<and> int (4 * ((length b + 2) div 3)) \<le> limit"
  unfolding length_b64 [symmetric] by (cases v) (auto simp: un64_def not_less)

lemma un64_examples:
  "un64 (JStr (lit ''AAE='')) 256 = Inr [0, 1] \<and> un64 (JStr (lit ''AAF='')) 256 = Inl NotCanonical"
  by code_simp

section \<open>Signing keys\<close>

text \<open>
  The DER prefix of an Ed25519 public key, and the encodings of the points of small order
  (with the sign bit cleared).
\<close>

definition key_prefix :: bytes where
  "key_prefix = [0x30, 0x2a, 0x30, 0x05, 0x06, 0x03, 0x2b, 0x65, 0x70, 0x03, 0x21, 0x00]"

definition hex_text :: "bytes \<Rightarrow> ustr" where
  "hex_text bs = concat (map (\<lambda>b. [hex_digit (unat b div 16), hex_digit (unat b mod 16)]) bs)"

definition smallOrderY :: "ustr list" where
  "smallOrderY = map lit
     [''0100000000000000000000000000000000000000000000000000000000000000'',
      ''c7176a703d4dd84fba3c0b760d10670f2a2053fa2c39ccc64ec7fd7792ac037a'',
      ''0000000000000000000000000000000000000000000000000000000000000000'',
      ''26e8958fc2b227b045c3f489f2ef98f0d5dfac05d3c63339b13802886d53fc05'',
      ''ecffffffffffffffffffffffffffffffffffffffffffffffffffffffffffff7f'']"

definition key_y :: "bytes \<Rightarrow> bytes" where
  "key_y der = (drop 12 der)[31 := and (drop 12 der ! 31) 0x7f]"

definition admittedSigningKey :: "bytes \<Rightarrow> bool" where
  "admittedSigningKey der =
     (if length der \<noteq> 44 \<or> take 12 der \<noteq> key_prefix then False
      else let y = key_y der in
        if y ! 31 = 0x7f \<and> y ! 0 \<ge> 0xed \<and> list_all (\<lambda>b. b = 0xff) (take 30 (drop 1 y)) then False
        else hex_text y \<notin> set smallOrderY)"

text \<open>The number a little-endian byte string stands for.\<close>

primrec le_value :: "bytes \<Rightarrow> nat" where
  "le_value [] = 0"
| "le_value (b # bs) = unat b + 256 * le_value bs"

lemma le_value_less: "le_value bs < 256 ^ length bs"
proof (induction bs)
  case (Cons b bs)
  with unat_byte [of b] show ?case by simp
qed simp

lemma le_value_append: "le_value (as @ bs) = le_value as + 256 ^ length as * le_value bs"
  by (induction as) (simp_all add: algebra_simps)

lemma le_value_max: "256 ^ length bs - 1 \<le> le_value bs \<longleftrightarrow> list_all (\<lambda>b. b = 0xff) bs"
proof (induction bs)
  case (Cons b bs)
  have pow: "1 \<le> (256 :: nat) ^ length bs" by simp
  have "256 ^ length (b # bs) - 1 \<le> le_value (b # bs) \<longleftrightarrow>
      255 \<le> unat b \<and> 256 ^ length bs - 1 \<le> le_value bs"
    using unat_byte [of b] le_value_less [of bs] pow by (auto simp: algebra_simps)
  moreover have "255 \<le> unat b \<longleftrightarrow> b = 0xff"
    using unat_byte [of b] by (auto simp: word_unat_eq_iff)
  ultimately show ?case using Cons by simp
qed simp


lemma field_bound:
  assumes "length m = 30" "unat t \<le> 127"
  shows "le_value (a # m @ [t]) < 2 ^ 255 - 19 \<longleftrightarrow>
    \<not> (t = 0x7f \<and> 0xed \<le> a \<and> list_all (\<lambda>b. b = 0xff) m)"
proof -
  have m: "256 ^ 30 - 1 \<le> le_value m \<longleftrightarrow> list_all (\<lambda>b. b = 0xff) m" "le_value m < 256 ^ 30"
    using le_value_max [of m] le_value_less [of m] assms(1) by simp_all
  have t: "t = 0x7f \<longleftrightarrow> 127 \<le> unat t" using assms(2) by (auto simp: word_unat_eq_iff)
  have a: "0xed \<le> a \<longleftrightarrow> 237 \<le> unat a" by (simp add: word_le_nat_alt)
  have "le_value (a # m @ [t]) = unat a + 256 * (le_value m + 256 ^ 30 * unat t)"
    using assms(1) by (simp add: le_value_append)
  also have "\<dots> < 2 ^ 255 - 19 \<longleftrightarrow> \<not> (127 \<le> unat t \<and> 237 \<le> unat a \<and> 256 ^ 30 - 1 \<le> le_value m)"
    using m(2) assms(2) unat_byte [of a] by simp linarith
  finally show ?thesis using m(1) t a by metis
qed

lemma key_y_shape:
  assumes "length der = 44"
  obtains a m t where "key_y der = a # m @ [t]" "length m = 30" "unat t \<le> 127"
proof -
  let ?y = "key_y der"
  have len: "length ?y = 32" using assms by (simp add: key_y_def)
  have "?y ! 31 = and (drop 12 der ! 31) 0x7f" using assms by (simp add: key_y_def)
  then have t: "?y ! 31 \<le> 0x7f" using word_and_le1 by metis
  have "?y = take 1 ?y @ take 30 (drop 1 ?y) @ drop 31 ?y"
    using append_take_drop_id [of 1 ?y] append_take_drop_id [of 30 "drop 1 ?y"] by simp
  moreover have "take 1 ?y = [?y ! 0]" "drop 31 ?y = [?y ! 31]"
    using len by (simp_all add: take_Suc_conv_app_nth flip: Cons_nth_drop_Suc)
  ultimately have "?y = ?y ! 0 # take 30 (drop 1 ?y) @ [?y ! 31]" by simp
  moreover have "unat (?y ! 31) \<le> 127" using t by (simp add: word_le_nat_alt)
  moreover have "length (take 30 (drop 1 ?y)) = 30" using len by simp
  ultimately show ?thesis using that by blast
qed

text \<open>
  C36: a signing key is admitted exactly when it is the 44-byte encoding of an Ed25519 key whose
  y coordinate, without its sign bit, is a canonical field element (below 2^255 - 19) and is
  not the y coordinate of a point of small order.
\<close>

theorem admittedSigningKey_iff:
  "admittedSigningKey der \<longleftrightarrow>
     length der = 44 \<and> take 12 der = key_prefix \<and> le_value (key_y der) < 2 ^ 255 - 19 \<and>
     hex_text (key_y der) \<notin> set smallOrderY"
proof (cases "length der = 44")
  case True
  then obtain a m t where y: "key_y der = a # m @ [t]" "length m = 30" "unat t \<le> 127"
    by (rule key_y_shape)
  then show ?thesis
    using True field_bound [OF y(2,3), of a]
    by (auto simp: admittedSigningKey_def nth_append)
qed (simp add: admittedSigningKey_def)

lemma un64_value: "un64 v limit = Inr b \<Longrightarrow> v = JStr (b64 b)"
  by (cases v) (auto simp: un64_def split: if_splits)

end
