(* ===== verification/Encodable.thy ===== *)
theory Encodable
  imports Json "HOL-Library.Multiset"
begin

text \<open>
  When the canonical encoding succeeds, and how long its text can be
  (\<open>packages/core/src/protocol.ts\<close>, \<open>canonical\<close>).
\<close>

section \<open>Values that can be encoded\<close>

text \<open>The number of levels below a value, and the values made of JSON data only.\<close>

fun nesting :: "jval \<Rightarrow> nat" where
  "nesting (JArr vs) = Max (insert 0 ((\<lambda>v. Suc (nesting v)) ` set vs))"
| "nesting (JObj kvs) = Max (insert 0 ((\<lambda>p. Suc (nesting (snd p))) ` set kvs))"
| "nesting _ = 0"

fun plain :: "jval \<Rightarrow> bool" where
  "plain (JArr vs) = list_all plain vs"
| "plain (JObj kvs) = list_all (\<lambda>p. plain (snd p)) kvs"
| "plain JUndefined = False"
| "plain JNonFinite = False"
| "plain JExotic = False"
| "plain _ = True"

lemma nesting_le:
  "nesting (JArr vs) \<le> n \<longleftrightarrow> (\<forall>v \<in> set vs. Suc (nesting v) \<le> n)"
  "nesting (JObj kvs) \<le> n \<longleftrightarrow> (\<forall>p \<in> set kvs. Suc (nesting (snd p)) \<le> n)"
  by simp_all

declare nesting.simps(1,2) [simp del]

lemma seqR_defined: "(\<exists>xs. seqR (map f ys) = Inr xs) \<longleftrightarrow> (\<forall>y \<in> set ys. \<exists>x. f y = Inr x)"
proof (induction ys)
  case (Cons y ys)
  then show ?case by (cases "f y"; cases "seqR (map f ys)") auto
qed simp

lemma canonical_defined:
  "(\<exists>s. canon v = Inr s) \<longleftrightarrow> plain v \<and> nesting v \<le> 24"
proof -
  have "(\<exists>s. canonical v d = Inr s) \<longleftrightarrow> plain v \<and> nesting v + d \<le> 24" for d
  proof (induction v d rule: canonical.induct)
    case (1 v d)
    show ?case
    proof (cases "d > 24")
      case False
      show ?thesis
      proof (cases v)
        case (JArr vs)
        have "(\<exists>s. canonical v d = Inr s) \<longleftrightarrow> (\<exists>ss. seqR (map (\<lambda>w. canonical w (d + 1)) vs) = Inr ss)"
          using False by (auto simp: JArr canonical.simps [of "JArr _"] bindR_Inr_iff)
        also have "\<dots> \<longleftrightarrow> (\<forall>w \<in> set vs. plain w \<and> nesting w + (d + 1) \<le> 24)"
          unfolding seqR_defined using 1(1) [OF False JArr] by auto
        also have "\<dots> \<longleftrightarrow> plain v \<and> nesting v + d \<le> 24"
          using False nesting_le(1) [of vs "24 - d"] by (auto simp: JArr list_all_iff)
        finally show ?thesis .
      next
        case (JObj kvs)
        let ?field = "\<lambda>p. bindR (canonical (snd p) (d + 1)) (\<lambda>s. Inr (quote (fst p) @ lit '':'' @ s))"
        have "(\<exists>s. canonical v d = Inr s) \<longleftrightarrow> (\<exists>ss. seqR (map ?field (sort_key fst kvs)) = Inr ss)"
          using False by (auto simp: JObj canonical.simps [of "JObj _"] bindR_Inr_iff)
        also have "\<dots> \<longleftrightarrow> (\<forall>p \<in> set (sort_key fst kvs). \<exists>x. canonical (snd p) (d + 1) = Inr x)"
          unfolding seqR_defined bindR_Inr_iff by simp
        also have "\<dots> \<longleftrightarrow> (\<forall>p \<in> set kvs. plain (snd p) \<and> nesting (snd p) + (d + 1) \<le> 24)"
          using 1(2) [OF False JObj] by (auto simp: prod_eq_iff)
        also have "\<dots> \<longleftrightarrow> plain v \<and> nesting v + d \<le> 24"
          using False nesting_le(2) [of kvs "24 - d"] by (auto simp: JObj list_all_iff)
        finally show ?thesis .
      qed (use False in \<open>simp_all add: canonical.simps\<close>)
    qed (simp add: canonical.simps)
  qed
  from this [of 0] show ?thesis by simp
qed

text \<open>
  The encoding succeeds exactly on plain data (no undefined value, no function or class
  instance, no NaN or infinity) nested at most 24 levels deep.
\<close>

theorem canonical_total:
  "(\<exists>s. canon v = Inr s) \<longleftrightarrow> plain v \<and> nesting v \<le> 24"
  by (rule canonical_defined)

section \<open>The length of the text\<close>

fun weight :: "jval \<Rightarrow> nat" where
  "weight (JStr s) = length (escape s) + 2"
| "weight (JInt i) = 17"
| "weight (JFrac t) = length t"
| "weight (JArr vs) = sum_list (map (\<lambda>v. weight v + 1) vs) + 2"
| "weight (JObj kvs) = sum_list (map (\<lambda>p. length (escape (fst p)) + weight (snd p) + 4) kvs) + 2"
| "weight _ = 5"

fun safe_ints :: "jval \<Rightarrow> bool" where
  "safe_ints (JInt i) = safe_integer i"
| "safe_ints (JArr vs) = list_all safe_ints vs"
| "safe_ints (JObj kvs) = list_all (\<lambda>p. safe_ints (snd p)) kvs"
| "safe_ints _ = True"

lemma length_escape: "length (escape s) \<le> 6 * length s"
  by (induction s rule: escape.induct) (auto simp: escape_unit_def unicode_escape_def)

text \<open>Characters that are written as they are.\<close>

definition unescaped :: "nat \<Rightarrow> bool" where
  "unescaped c \<longleftrightarrow> 32 \<le> c \<and> c < 55296 \<and> c \<noteq> 34 \<and> c \<noteq> 92"

lemma escape_unescaped [simp]: "list_all unescaped s \<Longrightarrow> escape s = s"
  by (induction s rule: escape.induct)
    (auto simp: unescaped_def escape_unit_def high_surrogate_def low_surrogate_def)

lemma hex64_unescaped [simp]: "hex64 s \<Longrightarrow> list_all unescaped s"
  by (auto simp: hex64_def is_hex_def unescaped_def list_all_iff)

lemma length_nat_text: "n < 10 ^ k \<Longrightarrow> 0 < k \<Longrightarrow> length (nat_text n) \<le> k"
proof (induction k arbitrary: n)
  case (Suc k)
  show ?case
  proof (cases "n < 10")
    case True
    then show ?thesis by (simp add: nat_text.simps [of n])
  next
    case False
    with Suc.prems have "n div 10 < 10 ^ k" "0 < k" by (cases k; auto simp: less_mult_imp_div_less mult.commute)+
    with Suc.IH have "length (nat_text (n div 10)) \<le> k" by blast
    with False show ?thesis by (simp add: nat_text.simps [of n])
  qed
qed simp

lemma length_join: "length (join [c] ss) \<le> sum_list (map (\<lambda>s. length s + 1) ss)"
  by (induction "[c]" ss rule: join.induct) simp_all

lemma sum_list_all2:
  "list_all2 (\<lambda>x y. f y \<le> g x) xs ys \<Longrightarrow> sum_list (map f ys) \<le> (sum_list (map g xs) :: nat)"
  by (induction xs ys rule: list_all2_induct) simp_all

lemma sum_list_sort_key: "sum_list (map f (sort_key g xs)) = (sum_list (map f xs) :: nat)"
proof -
  have "sum_list (map f (insort_key g x ys)) = f x + sum_list (map f ys)" for x ys
    by (induction ys) simp_all
  then show ?thesis by (induction xs) simp_all
qed

lemma list_all2_mem_mono:
  "list_all2 P xs ys \<Longrightarrow> (\<And>x y. P x y \<Longrightarrow> x \<in> set xs \<Longrightarrow> Q x y) \<Longrightarrow> list_all2 Q xs ys"
  by (induction xs ys rule: list_all2_induct) auto

lemma canonical_weight:
  "canonical v d = Inr s \<Longrightarrow> safe_ints v \<Longrightarrow> length s \<le> weight v"
proof (induction v d arbitrary: s rule: canonical.induct)
  case (1 v d)
  then have d: "\<not> d > 24" by (auto simp: canonical.simps)
  show ?case
  proof (cases v)
    case (JInt i)
    have "length (nat_text (nat (abs i))) \<le> 16"
      using 1(4) by (intro length_nat_text) (auto simp: JInt safe_integer_def MAX_SAFE_def)
    with 1(3) d show ?thesis by (auto simp: JInt canonical.simps int_text_def abs_if split: if_splits)
  next
    case (JStr t)
    with 1(3) d show ?thesis by (auto simp: canonical.simps quote_def)
  next
    case (JArr vs)
    from 1(3) d obtain ss where ss: "seqR (map (\<lambda>w. canonical w (d + 1)) vs) = Inr ss"
      and s: "s = lit ''['' @ join (lit '','') ss @ lit '']''"
      by (auto simp: JArr canonical.simps [of "JArr _"] bindR_Inr_iff)
    have "list_all2 (\<lambda>w t. length t + 1 \<le> weight w + 1) vs ss"
      using ss 1(1) [OF d JArr] 1(4)
      by (auto simp: seqR_map_Inr_iff JArr list_all_iff list_all2_conv_all_nth)
    from sum_list_all2 [OF this] show ?thesis
      using length_join [of "of_char CHR '',''" ss] by (simp add: s JArr lit_def)
  next
    case (JObj kvs)
    let ?field = "\<lambda>p. bindR (canonical (snd p) (d + 1)) (\<lambda>s. Inr (quote (fst p) @ lit '':'' @ s))"
    from 1(3) d obtain ss where ss: "seqR (map ?field (sort_key fst kvs)) = Inr ss"
      and s: "s = lit ''{'' @ join (lit '','') ss @ lit ''}''"
      by (auto simp: JObj canonical.simps [of "JObj _"] bindR_Inr_iff)
    have "length t + 1 \<le> length (escape (fst p)) + weight (snd p) + 4"
      if "p \<in> set kvs" "?field p = Inr t" for p t
    proof -
      from that(2) obtain u where u: "canonical (snd p) (d + 1) = Inr u" "t = quote (fst p) @ lit '':'' @ u"
        by (auto simp: bindR_Inr_iff)
      have "length u \<le> weight (snd p)"
        using 1(2) [OF d JObj _ u(1)] that(1) 1(4) by (auto simp: JObj list_all_iff)
      with u(2) show ?thesis by (simp add: quote_def)
    qed
    then have that': "?field p = Inr t \<Longrightarrow> p \<in> set (sort_key fst kvs) \<Longrightarrow>
        length t + 1 \<le> length (escape (fst p)) + weight (snd p) + 4" for p t by simp
    have "list_all2 (\<lambda>p t. length t + 1 \<le> length (escape (fst p)) + weight (snd p) + 4) (sort_key fst kvs) ss"
    proof -
      have "list_all2 (\<lambda>p t. ?field p = Inr t) (sort_key fst kvs) ss" using ss by (simp add: seqR_map_Inr_iff)
      then show ?thesis using that' by (rule list_all2_mem_mono)
    qed
    from sum_list_all2 [OF this] show ?thesis
      using length_join [of "of_char CHR '',''" ss]
      by (simp add: s JObj lit_def sum_list_sort_key)
  qed (use 1(3) d in \<open>auto simp: canonical.simps\<close>)
qed

section \<open>Objects of an exact shape\<close>

lemma exactShape_owf:
  assumes "exactShape (JObj kvs) ks" "distinct ks"
  shows "owf kvs \<and> set (map fst kvs) = set ks"
proof -
  have len: "length kvs = length ks" and sub: "set ks \<subseteq> set (map fst kvs)"
    using assms by (auto simp: exactShape_def ohas_def list_all_iff)
  have "card (set ks) = length (map fst kvs)" using assms(2) len by (simp add: distinct_card)
  moreover have "card (set (map fst kvs)) \<le> length (map fst kvs)" by (rule card_length)
  moreover have "card (set ks) \<le> card (set (map fst kvs))" by (rule card_mono) (use sub in auto)
  ultimately have "card (set (map fst kvs)) = length (map fst kvs)"
    and same: "card (set ks) = card (set (map fst kvs))" by simp_all
  then have "distinct (map fst kvs)" by (intro card_distinct) simp
  moreover have "set ks = set (map fst kvs)" using sub same by (intro card_subset_eq) auto
  ultimately show ?thesis by (simp add: owf_def)
qed

lemma exactShape_mset:
  assumes "exactShape v ks" "distinct ks"
  obtains kvs where "v = JObj kvs" "owf kvs" "mset kvs = mset (map (\<lambda>k. (k, jget v k)) ks)"
proof -
  from assms(1) obtain kvs where v: "v = JObj kvs" by (cases v) (auto simp: exactShape_def)
  with assms exactShape_owf have o: "owf kvs" "set (map fst kvs) = set ks" by blast+
  have "kvs = map (\<lambda>k. (k, jget v k)) (map fst kvs)"
  proof (rule nth_equalityI)
    fix i assume "i < length kvs"
    then have "oget kvs (fst (kvs ! i)) = Some (snd (kvs ! i))" using o(1) by (intro oget_in_set) simp_all
    with \<open>i < length kvs\<close> show "kvs ! i = map (\<lambda>k. (k, jget v k)) (map fst kvs) ! i"
      by (simp add: v jget_def prod_eq_iff)
  qed simp
  then have "mset kvs = image_mset (\<lambda>k. (k, jget v k)) (mset (map fst kvs))" by (metis mset_map)
  also have "mset (map fst kvs) = mset ks"
    using o assms(2) set_eq_iff_mset_eq_distinct [of "map fst kvs" ks] unfolding owf_def by blast
  finally show ?thesis using v o(1) that by simp
qed

lemma exactShape_sum:
  fixes f :: "ustr \<times> jval \<Rightarrow> nat"
  assumes "exactShape v ks" "distinct ks"
  obtains kvs where "v = JObj kvs" "sum_list (map f kvs) = sum_list (map (\<lambda>k. f (k, jget v k)) ks)"
    "set kvs = (\<lambda>k. (k, jget v k)) ` set ks"
proof -
  obtain kvs where k: "v = JObj kvs" "mset kvs = mset (map (\<lambda>k. (k, jget v k)) ks)"
    using assms by (rule exactShape_mset)
  have "sum_list (map f kvs) = sum_mset (image_mset f (mset kvs))" by (simp flip: sum_mset_sum_list)
  also have "\<dots> = sum_list (map (\<lambda>k. f (k, jget v k)) ks)"
    unfolding k(2) by (simp add: sum_mset_sum_list comp_def flip: mset_map)
  finally show ?thesis using that k(1) mset_eq_setD [OF k(2)] by simp
qed

text \<open>Size, depth and admissibility of an object from those of its fields.\<close>

lemma exactShape_measures:
  assumes "exactShape v ks" "distinct ks"
  shows "weight v = sum_list (map (\<lambda>k. length (escape k) + weight (jget v k) + 4) ks) + 2"
    and "plain v \<longleftrightarrow> (\<forall>k \<in> set ks. plain (jget v k))"
    and "safe_ints v \<longleftrightarrow> (\<forall>k \<in> set ks. safe_ints (jget v k))"
    and "nesting v \<le> n \<longleftrightarrow> (\<forall>k \<in> set ks. Suc (nesting (jget v k)) \<le> n)"
proof -
  obtain kvs where k: "v = JObj kvs"
    "sum_list (map (\<lambda>p. length (escape (fst p)) + weight (snd p) + 4) kvs) =
     sum_list (map (\<lambda>k. length (escape (fst (k, jget v k))) + weight (snd (k, jget v k)) + 4) ks)"
    "set kvs = (\<lambda>k. (k, jget v k)) ` set ks"
    using assms by (rule exactShape_sum)
  show "weight v = sum_list (map (\<lambda>k. length (escape k) + weight (jget v k) + 4) ks) + 2"
    unfolding k(1) weight.simps k(2) by (simp flip: k(1))
  show "plain v \<longleftrightarrow> (\<forall>k \<in> set ks. plain (jget v k))"
    "safe_ints v \<longleftrightarrow> (\<forall>k \<in> set ks. safe_ints (jget v k))"
    unfolding k(1) plain.simps safe_ints.simps list_all_iff k(3) by (simp_all flip: k(1))
  show "nesting v \<le> n \<longleftrightarrow> (\<forall>k \<in> set ks. Suc (nesting (jget v k)) \<le> n)"
    unfolding k(1) nesting_le k(3) by (simp flip: k(1))
qed

section \<open>The length in UTF-8\<close>

lemma utf8_length_le: "utf8_length s \<le> 3 * length s"
  by (induction s rule: utf8_length.induct) auto

lemma utf8_cons_le: "utf8_length (c # t) \<le> utf8_length [c] + utf8_length t"
proof (cases t)
  case (Cons d cs)
  have "utf8_length (d # cs) = 3 + utf8_length cs" if "low_surrogate d"
    using that by (cases cs) (auto simp: low_surrogate_def high_surrogate_def)
  then show ?thesis by (auto simp: Cons high_surrogate_def)
qed simp

lemma utf8_length_append_le: "utf8_length (s @ t) \<le> utf8_length s + utf8_length t"
proof (induction s rule: utf8_length.induct)
  case (2 c)
  show ?case using utf8_cons_le [of c t] by simp
next
  case (3 c d cs)
  then show ?case by auto
qed simp

lemma set_join: "set (join sep ss) \<subseteq> set sep \<union> \<Union> (set ` set ss)"
  by (induction sep ss rule: join.induct) auto

text \<open>An object whose keys and values are strings of unescaped ASCII characters.\<close>

definition ascii :: "ustr \<Rightarrow> bool" where
  "ascii s \<longleftrightarrow> list_all (\<lambda>c. c < 128) s"

lemma ascii_append [simp]: "ascii (s @ t) \<longleftrightarrow> ascii s \<and> ascii t" "ascii (c # s) \<longleftrightarrow> c < 128 \<and> ascii s" "ascii []"
  by (auto simp: ascii_def)

lemma canonical_ascii:
  assumes "canonical (JObj kvs) d = Inr t"
    and "\<forall>(k, v) \<in> set kvs. list_all unescaped k \<and> ascii k \<and> (\<exists>s. v = JStr s \<and> list_all unescaped s \<and> ascii s)"
  shows "ascii t"
proof -
  let ?field = "\<lambda>p. bindR (canonical (snd p) (d + 1)) (\<lambda>s. Inr (quote (fst p) @ lit '':'' @ s))"
  have d: "\<not> d > 24" using assms(1) by (auto simp: canonical.simps)
  then obtain ss where ss: "seqR (map ?field (sort_key fst kvs)) = Inr ss"
    and t: "t = lit ''{'' @ join (lit '','') ss @ lit ''}''"
    using assms(1) by (auto simp: canonical.simps [of "JObj _"] bindR_Inr_iff)
  have lits: "ascii (lit ''{'')" "ascii (lit ''}'')" "ascii (lit '','')" "ascii (lit '':'')"
    by (simp_all add: lit_def ascii_def of_char_def)
  have field: "ascii s" if mem: "p \<in> set kvs" and run: "?field p = Inr s" for p s
  proof -
    obtain v where vs: "snd p = JStr v" "list_all unescaped v" "ascii v" "list_all unescaped (fst p)" "ascii (fst p)"
    proof -
      have "case p of (k, v) \<Rightarrow> list_all unescaped k \<and> ascii k \<and> (\<exists>s. v = JStr s \<and> list_all unescaped s \<and> ascii s)"
        using assms(2) mem by blast
      then show ?thesis using that by (cases p) auto
    qed
    with run lits(4) show ?thesis
      by (auto simp: canonical.simps quote_def split: if_splits)
  qed
  have "\<forall>s \<in> set ss. ascii s"
  proof
    fix s assume "s \<in> set ss"
    then have "Inr s \<in> set (map ?field (sort_key fst kvs))" using ss unfolding seqR_Inr_iff by simp
    then obtain p where "p \<in> set kvs" "?field p = Inr s" by fastforce
    then show "ascii s" by (rule field)
  qed
  then have "ascii (join (lit '','') ss)"
    using set_join [of "lit '',''" ss] lits(3) by (auto simp: ascii_def list_all_iff)
  then show ?thesis using lits by (simp add: t)
qed

text \<open>A value whose text cannot be too long is encoded within the limit.\<close>

lemma text_fits:
  assumes "plain v" "nesting v \<le> 24" "safe_ints v" "3 * weight v \<le> n"
  shows "\<exists>s. canon v = Inr s \<and> utf8_length s \<le> n"
proof -
  obtain s where s: "canon v = Inr s" using assms(1,2) canonical_defined by blast
  then have "length s \<le> weight v" using assms(3) by (rule canonical_weight)
  then have "utf8_length s \<le> n" using utf8_length_le [of s] assms(4) by linarith
  with s show ?thesis by blast
qed

lemma escape_text: "list_all unescaped (map of_char s) \<Longrightarrow> length (escape (lit s)) = length s"
  by (simp add: lit_def)

end
