(* ===== verification/Bundle.thy ===== *)
theory Bundle
  imports Bytes Encodable
begin

text \<open>
  Identities, manifests and bundles (\<open>packages/core/src/index.ts\<close>): what a received bundle
  must satisfy, and how its content is opened. The cryptographic library is a parameter
  (\<open>crypto\<close>): its hash, its key import, its signatures and its cipher.
\<close>

section \<open>The cryptographic library\<close>

datatype key_kind = Ed25519 | X25519 | OtherKey

record crypto =
  sha :: "bytes \<Rightarrow> ustr"
  spki :: "bytes \<Rightarrow> key_kind option"
  verify_sig :: "bytes \<Rightarrow> bytes \<Rightarrow> bytes \<Rightarrow> bool"
  import_private :: "bytes \<Rightarrow> bytes option"
  dh :: "bytes \<Rightarrow> bytes \<Rightarrow> bytes"
  hkdf :: "bytes \<Rightarrow> bytes \<Rightarrow> bytes \<Rightarrow> bytes"
  gcm_open :: "bytes \<Rightarrow> bytes \<Rightarrow> bytes \<Rightarrow> bytes \<Rightarrow> bytes \<Rightarrow> bytes option"
  parse_json :: "bytes \<Rightarrow> jval option"
  sign :: "bytes \<Rightarrow> bytes \<Rightarrow> bytes"
  x_public :: "bytes \<Rightarrow> bytes"
  gcm_seal :: "bytes \<Rightarrow> bytes \<Rightarrow> bytes \<Rightarrow> bytes \<Rightarrow> bytes \<times> bytes"

datatype bundle_error =
    BadEncoding
  | NotCanonicalEncoding
  | Unencodable json_error
  | BadManifest
  | ExpiredManifest
  | ContentLimit
  | BadPublicKey
  | NoReaders
  | BadCipher
  | BadEnvelope
  | BadKey
  | BadSignature
  | BadBundle
  | BadChunks
  | CorruptContent
  | NoReadAuthority
  | OpenFailed
  | BadJson

definition code :: "code_error + 'a \<Rightarrow> bundle_error + 'a" where
  "code m = (case m of Inl BadCode \<Rightarrow> Inl BadEncoding | Inl NotCanonical \<Rightarrow> Inl NotCanonicalEncoding
     | Inr x \<Rightarrow> Inr x)"

definition encode :: "jval \<Rightarrow> bundle_error + ustr" where
  "encode v = (case canon v of Inl e \<Rightarrow> Inl (Unencodable e) | Inr s \<Rightarrow> Inr s)"

lemma code_Inr_iff [simp]: "code m = Inr x \<longleftrightarrow> m = Inr x"
  by (auto simp: code_def split: sum.splits code_error.splits)

lemma encode_Inr_iff [simp]: "encode v = Inr s \<longleftrightarrow> canon v = Inr s"
  by (auto simp: encode_def split: sum.splits)

definition MAX_CONTENT :: int where "MAX_CONTENT = 4 * 1024 * 1024"
definition CHUNK_SIZE :: int where "CHUNK_SIZE = 24 * 1024"

text \<open>\<open>un64\<close> with its default limit.\<close>

definition un64_any :: "jval \<Rightarrow> code_error + bytes" where
  "un64_any v = un64 v (MAX_CONTENT * 2)"

section \<open>Identities\<close>

definition identity_keys :: "ustr list" where
  "identity_keys = map lit [''id'', ''name'', ''signKey'', ''boxKey'', ''proof'']"

definition publicBytes :: "jval \<Rightarrow> bundle_error + ustr" where
  "publicBytes p = encode (JObj (map (\<lambda>k. (lit k, jget p (lit k))) [''id'', ''name'', ''signKey'', ''boxKey'']))"

text \<open>
  \<open>validateIdentity\<close>: every exception inside gives false. The two keys are imported before
  their types are compared.
\<close>

definition identity_check :: "crypto \<Rightarrow> jval \<Rightarrow> bundle_error + bool" where
  "identity_check C p =
     (let get = (\<lambda>k. jget p (lit k)) in
      if \<not> exactShape p identity_keys \<or> \<not> is_str (get ''name'') \<or>
         length (str_of (get ''name'')) < 1 \<or> length (str_of (get ''name'')) > 64
      then Inr False
      else bindR (code (un64 (get ''signKey'') 256)) (\<lambda>sk.
        if \<not> admittedSigningKey sk \<or> get ''id'' \<noteq> JStr (sha C sk) then Inr False
        else (case spki C sk of None \<Rightarrow> Inl BadKey | Some sp \<Rightarrow>
          bindR (code (un64 (get ''boxKey'') 256)) (\<lambda>bk.
            case spki C bk of None \<Rightarrow> Inl BadKey | Some bp \<Rightarrow>
              if sp \<noteq> Ed25519 \<or> bp \<noteq> X25519 then Inr False
              else bindR (publicBytes p) (\<lambda>text.
                bindR (code (un64 (get ''proof'') 128)) (\<lambda>sig.
                  Inr (verify_sig C sk (utf8 text) sig)))))))"

definition validateIdentity :: "crypto \<Rightarrow> jval \<Rightarrow> bool" where
  "validateIdentity C p = (identity_check C p = Inr True)"

section \<open>Manifests\<close>

definition manifest_keys :: "ustr list" where
  "manifest_keys = map lit [''version'', ''author'', ''kind'', ''created'', ''expires'', ''nonce'',
     ''tag'', ''chunks'', ''keys'', ''publicKey'', ''salt'', ''id'', ''signature'']"

text \<open>\<open>/^[a-z][a-z-]{0,31}$/\<close>\<close>

definition kind_name :: "ustr \<Rightarrow> bool" where
  "kind_name s = (case s of [] \<Rightarrow> False | c # cs \<Rightarrow>
     97 \<le> c \<and> c \<le> 122 \<and> length cs \<le> 31 \<and> list_all (\<lambda>d. 97 \<le> d \<and> d \<le> 122 \<or> d = 45) cs)"

definition chunk_ref_ok :: "jval \<Rightarrow> bool" where
  "chunk_ref_ok c \<longleftrightarrow> exactShape c [lit ''hash'', lit ''size''] \<and>
     hex64 (js_string (jget c (lit ''hash''))) \<and> is_safe_int (jget c (lit ''size'')) \<and>
     1 \<le> int_of (jget c (lit ''size'')) \<and> int_of (jget c (lit ''size'')) \<le> CHUNK_SIZE"

text \<open>\<open>un64(v, max).length !== n\<close> with the error raised when it holds.\<close>

definition sized :: "jval \<Rightarrow> int \<Rightarrow> nat \<Rightarrow> bundle_error \<Rightarrow> bundle_error + bytes" where
  "sized v limit n e = bindR (code (un64 v limit)) (\<lambda>b. if length b \<noteq> n then Inl e else Inr b)"

definition verify_envelope :: "crypto \<Rightarrow> jval \<Rightarrow> bundle_error + unit" where
  "verify_envelope C envelope =
     (let get = (\<lambda>k. jget envelope (lit k)) in
      if \<not> exactShape envelope (map lit [''nonce'', ''data'', ''tag'', ''reader'', ''ephemeral'']) \<or>
         \<not> hex64 (js_string (get ''reader''))
      then Inl BadEnvelope
      else bindR (code (un64 (get ''ephemeral'') 256)) (\<lambda>k.
        case spki C k of None \<Rightarrow> Inl BadKey | Some kind \<Rightarrow>
          if kind \<noteq> X25519 then Inl BadEnvelope
          else bindR (sized (get ''nonce'') 128 12 BadEnvelope) (\<lambda>_.
            bindR (sized (get ''tag'') 128 16 BadEnvelope) (\<lambda>_.
            bindR (sized (get ''data'') 128 32 BadEnvelope) (\<lambda>_. Inr ())))))"

definition manifest_body :: "jval \<Rightarrow> jval" where
  "manifest_body m = JObj (odel (lit ''signature'') (odel (lit ''id'') (fields_of m)))"

definition chunk_refs :: "jval \<Rightarrow> jval list" where
  "chunk_refs m = items_of (jget m (lit ''chunks''))"

definition verifyManifest :: "crypto \<Rightarrow> jval \<Rightarrow> int \<Rightarrow> bundle_error + unit" where
  "verifyManifest C m now =
     (let get = (\<lambda>k. jget m (lit k)); created = int_of (get ''created''); expires = int_of (get ''expires'')
      in
      if \<not> exactShape m manifest_keys then Inl BadManifest
      else bindR (encode m) (\<lambda>text.
      if length text > 100000 then Inl BadManifest
      else if get ''version'' \<noteq> JInt 1 \<or> \<not> validateIdentity C (get ''author'') \<or>
         \<not> kind_name (js_string (get ''kind'')) \<or>
         \<not> is_safe_int (get ''created'') \<or> \<not> is_safe_int (get ''expires'') \<or>
         created > now + 300000 \<or> expires \<le> now \<or> expires \<le> created \<or>
         expires - created > 365 * 86400000 + 10
      then Inl ExpiredManifest
      else if \<not> is_arr (get ''chunks'') \<or> length (chunk_refs m) < 1 \<or>
         int (length (chunk_refs m)) > (MAX_CONTENT + CHUNK_SIZE - 1) div CHUNK_SIZE \<or>
         \<not> list_all chunk_ref_ok (chunk_refs m) \<or>
         sum_list (map (\<lambda>c. int_of (jget c (lit ''size''))) (chunk_refs m)) > MAX_CONTENT \<or>
         \<not> is_arr (get ''keys'') \<or> length (items_of (get ''keys'')) > 64
      then Inl ContentLimit
      else bindR (if get ''publicKey'' \<noteq> JNull
                  then bindR (sized (get ''publicKey'') 48 32 BadPublicKey) (\<lambda>_. Inr ())
                  else Inr ()) (\<lambda>_.
      if get ''publicKey'' = JNull \<and> length (items_of (get ''keys'')) < 1 then Inl NoReaders
      else bindR (sized (get ''nonce'') 32 12 BadCipher) (\<lambda>_.
        bindR (sized (get ''tag'') 32 16 BadCipher) (\<lambda>_.
        bindR (sized (get ''salt'') 32 16 BadCipher) (\<lambda>_.
        bindR (seqR (map (verify_envelope C) (items_of (get ''keys'')))) (\<lambda>_.
        bindR (encode (manifest_body m)) (\<lambda>body.
        if get ''id'' \<noteq> JStr (sha C (utf8 body)) then Inl BadSignature
        else bindR (code (un64_any (jget (get ''author'') (lit ''signKey'')))) (\<lambda>sk.
          case spki C sk of None \<Rightarrow> Inl BadKey | Some _ \<Rightarrow>
            bindR (code (un64 (get ''signature'') 128)) (\<lambda>sig.
            if verify_sig C sk (utf8 body) sig then Inr () else Inl BadSignature))))))))))"

section \<open>Bundles\<close>

text \<open>\<open>!v\<close>, and \<open>Object.keys(v).length\<close> of a value that is neither null nor undefined.\<close>

definition truthy :: "jval \<Rightarrow> bool" where
  "truthy v = (case v of JUndefined \<Rightarrow> False | JNull \<Rightarrow> False | JBool b \<Rightarrow> b | JInt i \<Rightarrow> i \<noteq> 0
     | JStr s \<Rightarrow> s \<noteq> [] | JNonFinite \<Rightarrow> True | _ \<Rightarrow> True)"

definition key_count :: "jval \<Rightarrow> nat" where
  "key_count v = (case v of JObj kvs \<Rightarrow> length kvs | JArr vs \<Rightarrow> length vs | JStr s \<Rightarrow> length s | _ \<Rightarrow> 0)"

definition verify_chunk :: "crypto \<Rightarrow> jval \<Rightarrow> jval \<Rightarrow> bundle_error + bytes" where
  "verify_chunk C chunks c =
     bindR (code (un64 (jget chunks (js_string (jget c (lit ''hash'')))) (CHUNK_SIZE * 2))) (\<lambda>b.
       if int (length b) \<noteq> int_of (jget c (lit ''size'')) \<or> JStr (sha C b) \<noteq> jget c (lit ''hash'')
       then Inl CorruptContent else Inr b)"

definition verifyBundle :: "crypto \<Rightarrow> jval \<Rightarrow> int \<Rightarrow> bundle_error + unit" where
  "verifyBundle C bundle now =
     (let m = jget bundle (lit ''manifest''); chunks = jget bundle (lit ''chunks'') in
      if \<not> exactShape bundle [lit ''manifest'', lit ''chunks''] then Inl BadBundle
      else bindR (verifyManifest C m now) (\<lambda>_.
        if \<not> truthy chunks \<or> key_count chunks > length (chunk_refs m) then Inl BadChunks
        else bindR (seqR (map (verify_chunk C chunks) (chunk_refs m))) (\<lambda>_. Inr ())))"

text \<open>\<open>open\<close>: the sealed value is opened with its nonce and tag.\<close>

definition open_sealed :: "crypto \<Rightarrow> jval \<Rightarrow> jval \<Rightarrow> code_error + bytes \<Rightarrow> bytes \<Rightarrow> bytes \<Rightarrow> bundle_error + bytes" where
  "open_sealed C nonce tag data key ad =
     bindR (code (un64 nonce 32)) (\<lambda>n.
     bindR (code (un64 tag 32)) (\<lambda>t.
     if length n \<noteq> 12 \<or> length t \<noteq> 16 then Inl BadCipher
     else bindR (code data) (\<lambda>d.
       case gcm_open C key n ad d t of None \<Rightarrow> Inl OpenFailed | Some b \<Rightarrow> Inr b)))"

definition content_aad :: bytes where
  "content_aad = utf8 (lit ''relayloom-content-v1'')"

definition reader_info :: bytes where
  "reader_info = utf8 (lit ''relayloom-reader-v1'')"

record private_identity =
  public_id :: ustr
  boxSecret :: ustr

definition open_envelope :: "crypto \<Rightarrow> jval \<Rightarrow> private_identity \<Rightarrow> bundle_error + bytes" where
  "open_envelope C envelope identity =
     bindR (code (un64 (JStr (boxSecret identity)) 256)) (\<lambda>secret.
     case import_private C secret of None \<Rightarrow> Inl BadKey | Some priv \<Rightarrow>
     bindR (code (un64 (jget envelope (lit ''ephemeral'')) 256)) (\<lambda>eph.
     case spki C eph of None \<Rightarrow> Inl BadKey | Some _ \<Rightarrow>
     open_sealed C (jget envelope (lit ''nonce'')) (jget envelope (lit ''tag''))
       (un64_any (jget envelope (lit ''data'')))
       (hkdf C (dh C priv eph) (utf8 (public_id identity)) reader_info)
       (utf8 (public_id identity))))"

definition decryptBundle :: "crypto \<Rightarrow> jval \<Rightarrow> private_identity option \<Rightarrow> int \<Rightarrow> bundle_error + jval" where
  "decryptBundle C bundle identity now =
     bindR (verifyBundle C bundle now) (\<lambda>_.
     let m = jget bundle (lit ''manifest''); chunks = jget bundle (lit ''chunks'') in
     bindR (if truthy (jget m (lit ''publicKey'')) then code (un64_any (jget m (lit ''publicKey'')))
            else (case identity of
                None \<Rightarrow> Inl NoReadAuthority
              | Some me \<Rightarrow>
                  (case find (\<lambda>k. jget k (lit ''reader'') = JStr (public_id me)) (items_of (jget m (lit ''keys''))) of
                     None \<Rightarrow> Inl NoReadAuthority
                   | Some envelope \<Rightarrow> open_envelope C envelope me))) (\<lambda>key.
     bindR (seqR (map (\<lambda>c. code (un64_any (jget chunks (js_string (jget c (lit ''hash'')))))) (chunk_refs m))) (\<lambda>parts.
     bindR (open_sealed C (jget m (lit ''nonce'')) (jget m (lit ''tag''))
         (un64_any (JStr (b64 (concat parts)))) key content_aad) (\<lambda>plain.
       case parse_json C plain of None \<Rightarrow> Inl BadJson | Some v \<Rightarrow> Inr v))))"

section \<open>Creating a bundle\<close>

text \<open>
  The random values of one call: the content key and nonce, the salt, and for each reader the
  ephemeral private key and the nonce of its envelope.
\<close>

record random_values =
  r_key :: bytes
  r_nonce :: bytes
  r_salt :: bytes
  r_ephemeral :: "nat \<Rightarrow> bytes"
  r_wrap :: "nat \<Rightarrow> bytes"

datatype readers = Public | Readers "jval list"

record sender =
  sender_public :: jval
  signSecret :: ustr

definition sealed_fields :: "crypto \<Rightarrow> bytes \<Rightarrow> bytes \<Rightarrow> bytes \<Rightarrow> bytes \<Rightarrow> (ustr, jval) omap" where
  "sealed_fields C nonce data key ad =
     (let (d, t) = gcm_seal C key nonce ad data in
      [(lit ''nonce'', JStr (b64 nonce)), (lit ''data'', JStr (b64 d)), (lit ''tag'', JStr (b64 t))])"

definition wrap :: "crypto \<Rightarrow> bytes \<Rightarrow> bytes \<Rightarrow> bytes \<Rightarrow> jval \<Rightarrow> bundle_error + jval" where
  "wrap C eph nonce key reader =
     bindR (code (un64_any (jget reader (lit ''boxKey'')))) (\<lambda>bk.
     case spki C bk of None \<Rightarrow> Inl BadKey | Some _ \<Rightarrow>
       let rid = utf8 (str_of (jget reader (lit ''id'')));
           key' = hkdf C (dh C eph bk) rid reader_info
       in Inr (JObj ([(lit ''reader'', jget reader (lit ''id'')),
            (lit ''ephemeral'', JStr (b64 (x_public C eph)))] @ sealed_fields C nonce key key' rid)))"

fun split_chunks :: "nat \<Rightarrow> bytes \<Rightarrow> bytes list" where
  "split_chunks n bs = (if bs = [] \<or> n = 0 then [] else take n bs # split_chunks n (drop n bs))"

declare split_chunks.simps [simp del]

definition access_list :: "sender \<Rightarrow> readers \<Rightarrow> jval list" where
  "access_list identity rs = (case rs of Public \<Rightarrow> []
     | Readers xs \<Rightarrow> ovals (fold (\<lambda>r m. oset (jget r (lit ''id'')) r m) (sender_public identity # xs) []))"

definition body_fields ::
    "sender \<Rightarrow> ustr \<Rightarrow> int \<Rightarrow> int \<Rightarrow> bytes \<Rightarrow> bytes \<Rightarrow> jval list \<Rightarrow> jval list \<Rightarrow> bytes option \<Rightarrow> bytes \<Rightarrow> (ustr, jval) omap" where
  "body_fields identity kind created expires nonce tag refs keys pub salt =
     [(lit ''version'', JInt 1), (lit ''author'', sender_public identity), (lit ''kind'', JStr kind),
      (lit ''created'', JInt created), (lit ''expires'', JInt expires),
      (lit ''nonce'', JStr (b64 nonce)), (lit ''tag'', JStr (b64 tag)),
      (lit ''chunks'', JArr refs), (lit ''keys'', JArr keys),
      (lit ''publicKey'', case pub of Some k \<Rightarrow> JStr (b64 k) | None \<Rightarrow> JNull),
      (lit ''salt'', JStr (b64 salt))]"

definition chunk_ref :: "crypto \<Rightarrow> bytes \<Rightarrow> jval" where
  "chunk_ref C c = JObj [(lit ''hash'', JStr (sha C c)), (lit ''size'', JInt (int (length c)))]"

definition chunk_table :: "crypto \<Rightarrow> bytes list \<Rightarrow> (ustr, jval) omap" where
  "chunk_table C cs = fold (\<lambda>c m. oset (sha C c) (JStr (b64 c)) m) cs []"

definition createBundle ::
    "crypto \<Rightarrow> sender \<Rightarrow> ustr \<Rightarrow> jval \<Rightarrow> readers \<Rightarrow> int \<Rightarrow> int \<Rightarrow> random_values \<Rightarrow> bundle_error + jval" where
  "createBundle C identity kind payload readers ttl now rnd =
     bindR (encode payload) (\<lambda>text.
     let plain = utf8 text in
     if int (length plain) > MAX_CONTENT then Inl ContentLimit
     else if \<not> kind_name kind \<or> ttl < 1000 \<or> ttl > 365 * 86400000 then Inl BadManifest
     else let access = access_list identity readers in
       if length access > 64 \<or> \<not> list_all (validateIdentity C) access then Inl NoReaders
       else let (ciphertext, tag) = gcm_seal C (r_key rnd) (r_nonce rnd) content_aad plain;
                cs = split_chunks (nat CHUNK_SIZE) ciphertext
       in bindR (seqR (map (\<lambda>(i, r). wrap C (r_ephemeral rnd i) (r_wrap rnd i) (r_key rnd) r) (enumerate 0 access))) (\<lambda>keys.
       let body = body_fields identity kind now (now + ttl) (r_nonce rnd) tag (map (chunk_ref C) cs) keys
                    (if readers = Public then Some (r_key rnd) else None) (r_salt rnd)
       in bindR (encode (JObj body)) (\<lambda>body_text.
       bindR (code (un64 (JStr (signSecret identity)) 256)) (\<lambda>secret.
       case import_private C secret of None \<Rightarrow> Inl BadKey | Some sk \<Rightarrow>
         Inr (JObj
           [(lit ''manifest'', JObj (body @
              [(lit ''id'', JStr (sha C (utf8 body_text))),
               (lit ''signature'', JStr (b64 (sign C sk (utf8 body_text))))])),
            (lit ''chunks'', JObj (chunk_table C cs))])))))"

section \<open>What an accepted manifest guarantees\<close>

definition live_window :: "jval \<Rightarrow> int \<Rightarrow> bool" where
  "live_window m now \<longleftrightarrow>
     (let created = int_of (jget m (lit ''created'')); expires = int_of (jget m (lit ''expires'')) in
      created \<le> now + 300000 \<and> now < expires \<and> created < expires \<and>
      expires - created \<le> 365 * 86400000 + 10)"

definition content_limits :: "jval \<Rightarrow> bool" where
  "content_limits m \<longleftrightarrow>
     1 \<le> length (chunk_refs m) \<and> length (chunk_refs m) \<le> 171 \<and>
     list_all chunk_ref_ok (chunk_refs m) \<and>
     sum_list (map (\<lambda>c. int_of (jget c (lit ''size''))) (chunk_refs m)) \<le> MAX_CONTENT \<and>
     length (items_of (jget m (lit ''keys''))) \<le> 64 \<and>
     (jget m (lit ''publicKey'') \<noteq> JNull \<or> 1 \<le> length (items_of (jget m (lit ''keys''))))"

definition author_signed :: "crypto \<Rightarrow> jval \<Rightarrow> bool" where
  "author_signed C m \<longleftrightarrow>
     (\<exists>body sk sig. canon (manifest_body m) = Inr body \<and>
        jget m (lit ''id'') = JStr (sha C (utf8 body)) \<and>
        jget (jget m (lit ''author'')) (lit ''signKey'') = JStr (b64 sk) \<and>
        jget m (lit ''signature'') = JStr (b64 sig) \<and>
        verify_sig C sk (utf8 body) sig)"

lemma chunk_limit: "(MAX_CONTENT + CHUNK_SIZE - 1) div CHUNK_SIZE = 171"
  by (simp add: MAX_CONTENT_def CHUNK_SIZE_def)

lemma verifyManifest_facts:
  assumes "verifyManifest C m now = Inr ()"
  shows "exactShape m manifest_keys" "\<exists>text. canon m = Inr text \<and> length text \<le> 100000"
    "validateIdentity C (jget m (lit ''author''))" "live_window m now" "content_limits m"
    "author_signed C m" "list_all (\<lambda>e. verify_envelope C e = Inr ()) (items_of (jget m (lit ''keys'')))"
    "is_safe_int (jget m (lit ''expires''))" "is_safe_int (jget m (lit ''created''))"
proof -
  let ?get = "\<lambda>k. jget m (lit k)"
  from assms obtain txt0 where tx: "exactShape m manifest_keys" "canon m = Inr txt0" "length txt0 \<le> 100000"
    by (auto simp: verifyManifest_def Let_def bindR_Inr_iff split: if_splits)
  note run = assms [unfolded verifyManifest_def Let_def chunk_limit, simplified tx, simplified]
  from run have valid: "validateIdentity C (?get ''author'')" and live: "live_window m now"
    and safe: "is_safe_int (?get ''expires'')" "is_safe_int (?get ''created'')"
    and limits: "content_limits m"
    using tx by (auto simp: live_window_def content_limits_def Let_def bindR_Inr_iff Suc_le_eq not_le not_less
        split: if_splits)
  from run tx obtain u where u: "seqR (map (verify_envelope C) (items_of (?get ''keys''))) = Inr u"
    by (auto simp: bindR_Inr_iff split: if_splits)
  then have env: "list_all (\<lambda>e. verify_envelope C e = Inr ()) (items_of (?get ''keys''))"
    by (auto simp: seqR_map_Inr_iff list_all2_conv_all_nth list_all_length)
  from run tx have signed: "author_signed C m"
    by (auto simp: author_signed_def un64_any_def un64_iff bindR_Inr_iff split: if_splits option.splits)
  show "exactShape m manifest_keys" "\<exists>text. canon m = Inr text \<and> length text \<le> 100000"
    "validateIdentity C (?get ''author'')" "live_window m now" "content_limits m"
    "author_signed C m" "list_all (\<lambda>e. verify_envelope C e = Inr ()) (items_of (?get ''keys''))"
    "is_safe_int (?get ''expires'')" "is_safe_int (?get ''created'')"
    using tx valid live limits signed env safe by auto
qed

section \<open>Content addressing\<close>

definition manifest_of :: "jval \<Rightarrow> jval" where
  "manifest_of b = jget b (lit ''manifest'')"

definition bundle_id :: "jval \<Rightarrow> jval" where
  "bundle_id b = jget (manifest_of b) (lit ''id'')"

definition chunk_bytes :: "jval \<Rightarrow> jval \<Rightarrow> bytes" where
  "chunk_bytes b c =
     (case un64 (jget (jget b (lit ''chunks'')) (js_string (jget c (lit ''hash'')))) (CHUNK_SIZE * 2) of
        Inr x \<Rightarrow> x | Inl _ \<Rightarrow> [])"

definition bundle_content :: "jval \<Rightarrow> bytes" where
  "bundle_content b = concat (map (chunk_bytes b) (chunk_refs (manifest_of b)))"

text \<open>The chunk a reference stands for is stored under its hash, and has that hash and size.\<close>

definition chunk_stored :: "crypto \<Rightarrow> jval \<Rightarrow> jval \<Rightarrow> bool" where
  "chunk_stored C b c \<longleftrightarrow>
     (\<exists>x. chunk_bytes b c = x \<and> jget c (lit ''hash'') = JStr (sha C x) \<and>
        jget (jget b (lit ''chunks'')) (sha C x) = JStr (b64 x) \<and> int (length x) = int_of (jget c (lit ''size'')))"

lemma js_string_JStr [simp]: "js_string (JStr s) = s"
  by simp

lemma verifyBundle_facts:
  assumes "verifyBundle C b now = Inr ()"
  shows "verifyManifest C (manifest_of b) now = Inr ()"
    "list_all (chunk_stored C b) (chunk_refs (manifest_of b))"
    "exactShape b [lit ''manifest'', lit ''chunks'']"
proof -
  from assms show "verifyManifest C (manifest_of b) now = Inr ()" and "exactShape b [lit ''manifest'', lit ''chunks'']"
    by (auto simp: verifyBundle_def manifest_of_def Let_def bindR_Inr_iff split: if_splits)
  from assms obtain xs where "seqR (map (verify_chunk C (jget b (lit ''chunks''))) (chunk_refs (manifest_of b))) = Inr xs"
    by (auto simp: verifyBundle_def manifest_of_def Let_def bindR_Inr_iff split: if_splits)
  then have "list_all2 (\<lambda>c x. verify_chunk C (jget b (lit ''chunks'')) c = Inr x) (chunk_refs (manifest_of b)) xs"
    by (simp add: seqR_map_Inr_iff)
  moreover have "chunk_stored C b c" if run: "verify_chunk C (jget b (lit ''chunks'')) c = Inr x" for c x
  proof -
    let ?v = "jget (jget b (lit ''chunks'')) (js_string (jget c (lit ''hash'')))"
    from run have x: "un64 ?v (CHUNK_SIZE * 2) = Inr x" "int (length x) = int_of (jget c (lit ''size''))"
      "jget c (lit ''hash'') = JStr (sha C x)"
      by (auto simp: verify_chunk_def bindR_Inr_iff split: if_splits)
    moreover from this(1) have "?v = JStr (b64 x)" by (simp add: un64_value)
    ultimately show ?thesis by (simp add: chunk_stored_def chunk_bytes_def)
  qed
  ultimately show "list_all (chunk_stored C b) (chunk_refs (manifest_of b))"
    by (auto simp: list_all2_conv_all_nth list_all_length)
qed

text \<open>
  C1: an accepted bundle was signed by the author it names over every field of its manifest, is
  inside its time window, names at most 171 chunks of at most 24 KiB and 4 MiB in all and at most
  64 readers, and each chunk it carries has exactly the size and the hash the author signed.
\<close>

theorem verifyBundle_sound:
  assumes "verifyBundle C b now = Inr ()"
  shows "author_signed C (manifest_of b) \<and> validateIdentity C (jget (manifest_of b) (lit ''author'')) \<and>
    live_window (manifest_of b) now \<and> content_limits (manifest_of b) \<and>
    list_all (chunk_stored C b) (chunk_refs (manifest_of b)) \<and>
    int (length (bundle_content b)) \<le> MAX_CONTENT"
proof -
  note facts = verifyBundle_facts [OF assms] and manifest = verifyManifest_facts [OF verifyBundle_facts(1) [OF assms]]
  have len: "int (length (concat (map f cs))) = sum_list (map (\<lambda>c. int (length (f c))) cs)"
    for f :: "jval \<Rightarrow> bytes" and cs
    by (induction cs) simp_all
  have "int (length (bundle_content b)) = sum_list (map (\<lambda>c. int (length (chunk_bytes b c))) (chunk_refs (manifest_of b)))"
    unfolding bundle_content_def by (rule len)
  also have "\<dots> = sum_list (map (\<lambda>c. int_of (jget c (lit ''size''))) (chunk_refs (manifest_of b)))"
    using facts(2) by (intro arg_cong [where f = sum_list] map_cong) (auto simp: chunk_stored_def list_all_iff)
  finally show ?thesis using facts manifest by (simp add: content_limits_def)
qed

text \<open>The function \<open>hash\<close> on strings, and the absence of collisions in what two bundles hash.\<close>

definition hash_text :: "crypto \<Rightarrow> ustr \<Rightarrow> ustr" where
  "hash_text C s = sha C (utf8 s)"

definition body_texts :: "jval \<Rightarrow> ustr set" where
  "body_texts b = {s. canon (manifest_body (manifest_of b)) = Inr s}"

definition collision_free :: "crypto \<Rightarrow> jval \<Rightarrow> jval \<Rightarrow> bool" where
  "collision_free C a b \<longleftrightarrow> inj_on (hash_text C) (body_texts a \<union> body_texts b) \<and>
     inj_on (sha C) (chunk_bytes a ` set (chunk_refs (manifest_of a)) \<union> chunk_bytes b ` set (chunk_refs (manifest_of b)))"

lemma jget_manifest_body:
  "k \<noteq> lit ''id'' \<Longrightarrow> k \<noteq> lit ''signature'' \<Longrightarrow> jget (manifest_body m) k = jget m k"
  by (cases m) (auto simp: manifest_body_def jget_def fields_of_def oget_odel)

lemma chunk_bytes_agree:
  assumes "map jnorm cs = map jnorm ds" "list_all (chunk_stored C a) cs" "list_all (chunk_stored C b) ds"
    and "inj_on (sha C) (chunk_bytes a ` set cs \<union> chunk_bytes b ` set ds)"
  shows "map (chunk_bytes a) cs = map (chunk_bytes b) ds"
  using assms
proof (induction cs ds rule: list_induct2')
  case (4 c cs d ds)
  have "jnorm (jget c (lit ''hash'')) = jnorm (jget d (lit ''hash''))"
    using 4(2) jget_jnorm [of c "lit ''hash''"] jget_jnorm [of d "lit ''hash''"] by simp
  moreover have "jget c (lit ''hash'') = JStr (sha C (chunk_bytes a c))"
    "jget d (lit ''hash'') = JStr (sha C (chunk_bytes b d))"
    using 4(3,4) by (simp_all add: chunk_stored_def)
  ultimately have "sha C (chunk_bytes a c) = sha C (chunk_bytes b d)" by simp
  then have "chunk_bytes a c = chunk_bytes b d" by (rule inj_onD [OF 4(5)]) simp_all
  moreover have "inj_on (sha C) (chunk_bytes a ` set cs \<union> chunk_bytes b ` set ds)"
    using 4(5) by (rule inj_on_subset) auto
  ultimately show ?case using 4 by simp
qed simp_all

text \<open>
  C30: an identifier stands for one content. Two accepted bundles with the same identifier (and
  no hash collision among what they hash) have the same signed manifest and the same content,
  whoever sent them and whatever the order of their fields.
\<close>

theorem content_addressed:
  assumes "verifyBundle C a t = Inr ()" "verifyBundle C b u = Inr ()" "bundle_id a = bundle_id b"
    and "collision_free C a b" "fracs_ok (manifest_body (manifest_of a))" "fracs_ok (manifest_body (manifest_of b))"
  shows "jnorm (manifest_body (manifest_of a)) = jnorm (manifest_body (manifest_of b)) \<and>
    bundle_content a = bundle_content b"
proof -
  have signed: "author_signed C (manifest_of a)" "author_signed C (manifest_of b)"
    using assms(1,2) verifyBundle_facts(1) verifyManifest_facts(6) by blast+
  obtain s where s: "canon (manifest_body (manifest_of a)) = Inr s" "bundle_id a = JStr (hash_text C s)"
    using signed(1) by (auto simp: author_signed_def bundle_id_def hash_text_def)
  obtain r where r: "canon (manifest_body (manifest_of b)) = Inr r" "bundle_id b = JStr (hash_text C r)"
    using signed(2) by (auto simp: author_signed_def bundle_id_def hash_text_def)
  have "s = r"
  proof (rule inj_onD)
    show "inj_on (hash_text C) (body_texts a \<union> body_texts b)" using assms(4) by (simp add: collision_free_def)
    show "hash_text C s = hash_text C r" using assms(3) s(2) r(2) by simp
  qed (use s(1) r(1) in \<open>simp_all add: body_texts_def\<close>)
  with s r assms(5,6) have norm: "jnorm (manifest_body (manifest_of a)) = jnorm (manifest_body (manifest_of b))"
    using canonical_injective by blast
  have arr: "\<exists>vs. jget (manifest_of x) (lit ''chunks'') = JArr vs" if "content_limits (manifest_of x)" for x
    using that by (cases "jget (manifest_of x) (lit ''chunks'')")
      (auto simp: content_limits_def chunk_refs_def items_of_def)
  have refs: "map jnorm (chunk_refs (manifest_of a)) = map jnorm (chunk_refs (manifest_of b))"
  proof -
    have "jnorm (jget (manifest_of a) (lit ''chunks'')) = jnorm (jget (manifest_of b) (lit ''chunks''))"
      using norm jget_jnorm [of "manifest_body (manifest_of a)" "lit ''chunks''"]
        jget_jnorm [of "manifest_body (manifest_of b)" "lit ''chunks''"] by (simp add: jget_manifest_body)
    moreover obtain vs ws where "jget (manifest_of a) (lit ''chunks'') = JArr vs"
      "jget (manifest_of b) (lit ''chunks'') = JArr ws"
      using arr verifyManifest_facts(5) verifyBundle_facts(1) assms(1,2) by metis
    ultimately show ?thesis by (simp add: chunk_refs_def items_of_def)
  qed
  have "bundle_content a = bundle_content b"
    unfolding bundle_content_def
  proof (intro arg_cong [where f = concat] chunk_bytes_agree)
    show "map jnorm (chunk_refs (manifest_of a)) = map jnorm (chunk_refs (manifest_of b))" by (rule refs)
    show "list_all (chunk_stored C a) (chunk_refs (manifest_of a))"
      "list_all (chunk_stored C b) (chunk_refs (manifest_of b))"
      using assms(1,2) verifyBundle_facts(2) by blast+
    show "inj_on (sha C) (chunk_bytes a ` set (chunk_refs (manifest_of a)) \<union>
        chunk_bytes b ` set (chunk_refs (manifest_of b)))"
      using assms(4) by (simp add: collision_free_def)
  qed
  with norm show ?thesis by simp
qed

end
