(* ===== verification/Store.thy ===== *)
theory Store
  imports Bundle
begin

text \<open>
  The bounded content store of a node (\<open>packages/core/src/index.ts\<close>, class
  \<open>ContentStore\<close>): its index, the files behind it, eviction, reservations, and the
  reconciliation of a directory after a crash. A file is represented by what the code reads of
  it: its size, the value \<open>JSON.parse\<close> gives (or that it throws), and its hash. Writes to
  disk may fail; whether they do is an argument of the operation.
\<close>

section \<open>State\<close>

definition MAX_STORED_OBJECTS :: int where "MAX_STORED_OBJECTS = 1024"
definition MAX_STORED_BUNDLE :: int where "MAX_STORED_BUNDLE = 6 * 1024 * 1024"

record entry =
  esize :: int
  pinned :: bool
  reserved :: bool
  accessed :: int
  eexpires :: int

record stored_file =
  fsize :: int
  fvalue :: "jval option"
  fprint :: ustr

record store =
  index :: "(ustr, entry) omap"
  files :: "(ustr, stored_file) omap"
  cache :: "(ustr, jval \<times> ustr) omap"
  quota :: int
  maxObjects :: int
  saved :: "(ustr, entry) omap"

datatype store_error =
    BadLimits
  | BadIndex
  | BadReservation
  | BadAddress
  | Unavailable
  | NoFile
  | BadObject
  | BadText
  | WrongAddress
  | NotVerified bundle_error
  | NotEncodable json_error
  | OverQuota
  | Full
  | WriteFailed
  | BadReservations
  | BadQuota

type_synonym 'a op = "store \<Rightarrow> (store_error + 'a) \<times> store"

section \<open>Eviction\<close>

definition expired :: "int \<Rightarrow> ustr \<times> entry \<Rightarrow> bool" where
  "expired now p \<longleftrightarrow> eexpires (snd p) \<le> now"

definition unprotected :: "ustr \<times> entry \<Rightarrow> bool" where
  "unprotected p \<longleftrightarrow> \<not> pinned (snd p) \<and> \<not> reserved (snd p)"

text \<open>The loop over the candidates: stop as soon as the request fits.\<close>

fun select_lru :: "int \<Rightarrow> int \<Rightarrow> (ustr \<times> entry) list \<Rightarrow> int \<Rightarrow> int \<Rightarrow> ustr list \<times> int \<times> int" where
  "select_lru q mx [] bytes cnt = ([], bytes, cnt)"
| "select_lru q mx (c # cs) bytes cnt =
     (if bytes \<le> q \<and> cnt \<le> mx then ([], bytes, cnt)
      else (let (removals, b, n) = select_lru q mx cs (bytes - esize (snd c)) (cnt - 1)
            in (fst c # removals, b, n)))"

definition candidates :: "(ustr, entry) omap \<Rightarrow> int \<Rightarrow> (ustr \<times> entry) list" where
  "candidates idx now =
     sort_key (\<lambda>p. accessed (snd p)) (filter (\<lambda>p. unprotected p \<and> \<not> expired now p) idx)"

definition evictionPlan :: "store \<Rightarrow> int \<Rightarrow> int \<Rightarrow> int \<Rightarrow> int \<Rightarrow> store_error + ustr list" where
  "evictionPlan s needed added q now =
     (let entries = index s; old = filter (expired now) entries;
          bytes = needed + osum esize entries - osum esize old;
          cnt = int (length entries) + added - int (length old);
          (removals, b, n) = select_lru q (maxObjects s) (candidates entries now) bytes cnt
      in if b > q \<or> n > maxObjects s then Inl Full else Inr (map fst old @ removals))"

definition removeEntries :: "ustr list \<Rightarrow> store \<Rightarrow> store" where
  "removeEntries ids s = fold (\<lambda>i s. s\<lparr>files := odel i (files s), index := odel i (index s), cache := odel i (cache s)\<rparr>) ids s"

definition save :: "bool \<Rightarrow> store \<Rightarrow> (store_error + unit) \<times> store" where
  "save ok s = (if ok then (Inr (), s\<lparr>saved := index s\<rparr>) else (Inl WriteFailed, s))"

section \<open>Operations\<close>

definition fileState :: "ustr \<Rightarrow> store \<Rightarrow> store_error + stored_file" where
  "fileState i s =
     (if \<not> hex64 i then Inl BadAddress
      else case oget (files s) i of None \<Rightarrow> Inl NoFile
      | Some f \<Rightarrow> if fsize f < 1 \<or> fsize f > MAX_STORED_BUNDLE then Inl BadObject else Inr f)"

text \<open>What \<open>read\<close> and the constructor check of a file before they trust it.\<close>

definition file_bundle :: "crypto \<Rightarrow> int \<Rightarrow> ustr \<Rightarrow> stored_file \<Rightarrow> store_error + jval" where
  "file_bundle C now i f =
     (case fvalue f of None \<Rightarrow> Inl BadText
      | Some b \<Rightarrow> if bundle_id b \<noteq> JStr i then Inl WrongAddress
          else case verifyBundle C b now of Inl e \<Rightarrow> Inl (NotVerified e) | Inr _ \<Rightarrow> Inr b)"

definition read_bundle :: "crypto \<Rightarrow> int \<Rightarrow> ustr \<Rightarrow> bool \<Rightarrow> jval op" where
  "read_bundle C now i touch s =
     (if \<not> hex64 i then (Inl BadAddress, s)
      else case oget (index s) i of None \<Rightarrow> (Inl Unavailable, s) | Some e \<Rightarrow>
        case bindR (fileState i s) (\<lambda>f. bindR (file_bundle C now i f) (\<lambda>b. Inr (f, b))) of
          Inl err \<Rightarrow> (Inl err, s)
        | Inr (f, b) \<Rightarrow>
            (Inr b, s\<lparr>cache := oset i (manifest_of b, fprint f) (cache s),
                      index := (if touch then oset i (e\<lparr>accessed := now\<rparr>) (index s) else index s)\<rparr>))"

definition reservations :: "store \<Rightarrow> ustr list" where
  "reservations s = sort_key id (map fst (filter (\<lambda>p. reserved (snd p)) (index s)))"

fun read_all :: "crypto \<Rightarrow> int \<Rightarrow> ustr list \<Rightarrow> unit op" where
  "read_all C now [] s = (Inr (), s)"
| "read_all C now (i # ids) s =
     (case read_bundle C now i False s of
        (Inl e, s') \<Rightarrow> (Inl e, s')
      | (Inr _, s') \<Rightarrow> read_all C now ids s')"

definition mark :: "ustr list \<Rightarrow> (ustr, entry) omap \<Rightarrow> (ustr, entry) omap" where
  "mark wanted idx = map (\<lambda>(i, e). (i, e\<lparr>reserved := (i \<in> set wanted)\<rparr>)) idx"

text \<open>After a failed write the old reservations are added back to the new ones.\<close>

definition mark_union :: "(ustr, entry) omap \<Rightarrow> (ustr, entry) omap \<Rightarrow> (ustr, entry) omap" where
  "mark_union previous idx =
     fold (\<lambda>(i, e) m. if reserved e then (case oget m i of Some x \<Rightarrow> oset i (x\<lparr>reserved := True\<rparr>) m | None \<Rightarrow> m) else m)
       previous idx"

definition setReservations :: "crypto \<Rightarrow> int \<Rightarrow> bool \<Rightarrow> ustr list \<Rightarrow> unit op" where
  "setReservations C now ok ids s =
     (if int (length ids) > maxObjects s then (Inl BadReservations, s)
      else case read_all C now (remdups_first ids) s of
        (Inl e, s1) \<Rightarrow> (Inl e, s1)
      | (Inr _, s1) \<Rightarrow>
          if sort_key id (remdups_first ids) = reservations s1 then (Inr (), s1)
          else (let previous = index s1; s2 = s1\<lparr>index := mark ids previous\<rparr> in
            case save ok s2 of
              (Inr _, s3) \<Rightarrow> (Inr (), s3)
            | (Inl e, s3) \<Rightarrow> (Inl e, s3\<lparr>index := mark_union previous (index s3)\<rparr>)))"

definition stats_bytes :: "store \<Rightarrow> int" where
  "stats_bytes s = osum esize (index s)"

definition insert_bundle ::
    "crypto \<Rightarrow> int \<Rightarrow> bool \<Rightarrow> bool \<Rightarrow> jval \<Rightarrow> bool \<Rightarrow> bool \<Rightarrow> bool op" where
  "insert_bundle C now file_ok index_ok bundle pin reserve s =
     (case verifyBundle C bundle now of Inl e \<Rightarrow> (Inl (NotVerified e), s)
      | Inr _ \<Rightarrow>
        let i = str_of (bundle_id bundle) in
        case oget (index s) i of
          Some e \<Rightarrow>
            if reserve then
              (let ids = reservations s;
                   (r, s') = setReservations C now index_ok (if reserved e then ids else ids @ [i]) s
               in (case r of Inl err \<Rightarrow> (Inl err, s') | Inr _ \<Rightarrow> (Inr False, s')))
            else (Inr False, s)
        | None \<Rightarrow>
            case canon bundle of Inl e \<Rightarrow> (Inl (NotEncodable e), s)
            | Inr txt0 \<Rightarrow>
              let size = int (utf8_length txt0) in
              if size > quota s \<or> size > MAX_STORED_BUNDLE then (Inl OverQuota, s)
              else case evictionPlan s size 1 (quota s) now of Inl e \<Rightarrow> (Inl e, s)
              | Inr removals \<Rightarrow>
                if \<not> file_ok then (Inl WriteFailed, s)
                else let print = sha C (utf8 txt0);
                  s1 = s\<lparr>files := oset i \<lparr>fsize = size, fvalue = Some (jnorm bundle), fprint = print\<rparr> (files s)\<rparr>;
                  s2 = removeEntries removals s1;
                  s3 = s2\<lparr>index := oset i \<lparr>esize = size, pinned = pin, reserved = reserve, accessed = now,
                             eexpires = int_of (jget (manifest_of bundle) (lit ''expires''))\<rparr> (index s2),
                          cache := oset i (manifest_of bundle, print) (cache s2)\<rparr>
                in (case save index_ok s3 of (Inl e, s4) \<Rightarrow> (Inl e, s4) | (Inr _, s4) \<Rightarrow> (Inr True, s4)))"

definition has :: "store \<Rightarrow> ustr \<Rightarrow> int \<Rightarrow> bool" where
  "has s i now \<longleftrightarrow> hex64 i \<and> (case oget (index s) i of None \<Rightarrow> False | Some e \<Rightarrow> now < eexpires e)"

text \<open>\<open>list\<close>: a cached manifest is used only while the file still has the hash it was read with.\<close>

fun list_ids :: "crypto \<Rightarrow> int \<Rightarrow> ustr list \<Rightarrow> store \<Rightarrow> jval list \<times> store" where
  "list_ids C now [] s = ([], s)"
| "list_ids C now (i # ids) s =
     (case oget (index s) i of None \<Rightarrow> list_ids C now ids s | Some e \<Rightarrow>
      if eexpires e \<le> now then list_ids C now ids s
      else (let (r, s1) =
          (case fileState i s of Inl err \<Rightarrow> (Inl err, s)
           | Inr f \<Rightarrow> (case oget (cache s) i of
                Some (m, p) \<Rightarrow> if p = fprint f then (Inr m, s)
                   else (case read_bundle C now i False s of (Inl err, s') \<Rightarrow> (Inl err, s') | (Inr b, s') \<Rightarrow> (Inr (manifest_of b), s'))
              | None \<Rightarrow> (case read_bundle C now i False s of (Inl err, s') \<Rightarrow> (Inl err, s') | (Inr b, s') \<Rightarrow> (Inr (manifest_of b), s'))))
        in case r of
          Inl _ \<Rightarrow> list_ids C now ids (s1\<lparr>cache := odel i (cache s1)\<rparr>)
        | Inr m \<Rightarrow> (let (ms, s2) = list_ids C now ids s1 in (m # ms, s2))))"

definition list_manifests :: "crypto \<Rightarrow> int \<Rightarrow> store \<Rightarrow> jval list \<times> store" where
  "list_manifests C now s =
     (let (ms, s') = list_ids C now (okeys (index s)) s in
      (sort_key (\<lambda>m. (int_of (jget m (lit ''created'')), str_of (jget m (lit ''id'')))) ms, s'))"

definition pin_bundle :: "crypto \<Rightarrow> int \<Rightarrow> bool \<Rightarrow> ustr \<Rightarrow> bool \<Rightarrow> unit op" where
  "pin_bundle C now ok i p s =
     (case read_bundle C now i True s of (Inl e, s1) \<Rightarrow> (Inl e, s1)
      | (Inr _, s1) \<Rightarrow>
        (case oget (index s1) i of None \<Rightarrow> (Inl Unavailable, s1)
         | Some e \<Rightarrow> save ok (s1\<lparr>index := oset i (e\<lparr>pinned := p\<rparr>) (index s1)\<rparr>)))"

definition remove_bundle :: "bool \<Rightarrow> ustr \<Rightarrow> unit op" where
  "remove_bundle ok i s =
     (if \<not> hex64 i then (Inl BadAddress, s) else save ok (removeEntries [i] s))"

definition setQuota :: "int \<Rightarrow> bool \<Rightarrow> int \<Rightarrow> unit op" where
  "setQuota now ok q s =
     (if q < 1024 * 1024 \<or> q > 1024 ^ 3 then (Inl BadQuota, s)
      else case evictionPlan s 0 0 q now of Inl e \<Rightarrow> (Inl e, s)
      | Inr removals \<Rightarrow> save ok ((removeEntries removals s)\<lparr>quota := q\<rparr>))"

definition isPinned :: "store \<Rightarrow> ustr \<Rightarrow> bool" where
  "isPinned s i = (case oget (index s) i of None \<Rightarrow> False | Some e \<Rightarrow> pinned e)"

section \<open>Opening a directory\<close>

text \<open>
  While the directory is read, the index holds what \<open>index.json\<close> had (\<open>Inl\<close>, any JSON
  value) or an entry rebuilt from a verified file (\<open>Inr\<close>).
\<close>

definition raw_entry_ok :: "jval \<Rightarrow> bool" where
  "raw_entry_ok v \<longleftrightarrow> (case v of JObj _ \<Rightarrow> \<not> jhas v (lit ''reserved'') \<or> is_bool (jget v (lit ''reserved'')) | _ \<Rightarrow> True)"

definition raw_flag :: "(ustr, jval + entry) omap \<Rightarrow> ustr \<Rightarrow> string \<Rightarrow> (entry \<Rightarrow> bool) \<Rightarrow> bool" where
  "raw_flag r i k f = (case oget r i of Some (Inl v) \<Rightarrow> jget v (lit k) = JBool True | Some (Inr e) \<Rightarrow> f e | None \<Rightarrow> False)"

definition raw_accessed :: "(ustr, jval + entry) omap \<Rightarrow> ustr \<Rightarrow> int \<Rightarrow> int" where
  "raw_accessed r i now = (case oget r i of
     Some (Inl v) \<Rightarrow> if is_safe_int (jget v (lit ''accessed'')) then int_of (jget v (lit ''accessed'')) else now
   | Some (Inr e) \<Rightarrow> accessed e | None \<Rightarrow> now)"

type_synonym loading = "(ustr, jval + entry) omap \<times> (ustr, stored_file) omap"

definition reconcile_file :: "crypto \<Rightarrow> int \<Rightarrow> ustr \<times> stored_file \<Rightarrow> loading \<Rightarrow> loading" where
  "reconcile_file C now p st =
     (let (i, f) = p; (r, fs) = st in
      if fsize f < 1 \<or> fsize f > MAX_STORED_BUNDLE then (odel i r, odel i fs)
      else case file_bundle C now i f of
          Inl _ \<Rightarrow> (odel i r, odel i fs)
        | Inr b \<Rightarrow>
            (oset i (Inr \<lparr>esize = fsize f, pinned = raw_flag r i ''pinned'' pinned,
               reserved = raw_flag r i ''reserved'' reserved, accessed = raw_accessed r i now,
               eexpires = int_of (jget (manifest_of b) (lit ''expires''))\<rparr>) r, fs))"

definition typed_index :: "loading \<Rightarrow> (ustr, entry) omap" where
  "typed_index st =
     (let (r, fs) = st in
      List.map_filter (\<lambda>(i, v). if hex64 i \<and> ohas fs i then (case v of Inr e \<Rightarrow> Some (i, e) | Inl _ \<Rightarrow> None) else None) r)"

text \<open>
  \<open>dir\<close> lists the files of \<open>objects\<close> whose names are addresses; \<open>raw\<close> is the value of
  \<open>index.json\<close>, if there is one.
\<close>

definition open_store ::
    "crypto \<Rightarrow> int \<Rightarrow> bool \<Rightarrow> (ustr, stored_file) omap \<Rightarrow> jval option \<Rightarrow> int \<Rightarrow> int \<Rightarrow> store_error + store" where
  "open_store C now ok dir raw q mx =
     (if q < 1 \<or> q > 1024 ^ 3 \<or> mx < 1 \<or> mx > MAX_STORED_OBJECTS then Inl BadLimits
      else bindR (case raw of None \<Rightarrow> Inr []
          | Some v \<Rightarrow> if \<not> is_obj v then Inl BadIndex
              else if \<not> list_all raw_entry_ok (ovals (fields_of v)) then Inl BadReservation
              else Inr (map (\<lambda>(i, w). (i, Inl w)) (fields_of v))) (\<lambda>r0.
      let (r, fs) = fold (reconcile_file C now) dir (r0, dir);
          s0 = \<lparr>index = typed_index (r, fs), files = fs, cache = [], quota = q, maxObjects = mx, saved = []\<rparr>
      in bindR (evictionPlan s0 0 0 q now) (\<lambda>removals.
         case save ok (removeEntries removals s0) of (Inl e, _) \<Rightarrow> Inl e | (Inr _, s) \<Rightarrow> Inr s)))"

section \<open>Eviction decides before it deletes\<close>

definition protected_live :: "(ustr, entry) omap \<Rightarrow> int \<Rightarrow> (ustr, entry) omap" where
  "protected_live idx now = filter (\<lambda>p. \<not> expired now p \<and> \<not> unprotected p) idx"

lemma osum_filter: "osum c m = osum c (filter P m) + osum c (filter (\<lambda>p. \<not> P p) m)"
  by (induction m) auto

lemma osum_sort_key [simp]: "osum c (sort_key f m) = osum c m"
proof -
  have "osum c (insort_key f x ys) = c (snd x) + osum c ys" for x ys by (induction ys) auto
  then show ?thesis by (induction m) auto
qed

text \<open>The loop removes a prefix of the candidates, the shortest one after which the request fits.\<close>

lemma select_lru_prefix:
  assumes "select_lru q mx cs bytes cnt = (removals, b, n)"
  obtains k where "k \<le> length cs" "removals = map fst (take k cs)" "b = bytes - osum esize (take k cs)"
    "n = cnt - int k" "b \<le> q \<and> n \<le> mx \<or> k = length cs"
    "\<And>j. j < k \<Longrightarrow> \<not> (bytes - osum esize (take j cs) \<le> q \<and> cnt - int j \<le> mx)"
  using assms
proof (induction cs arbitrary: bytes cnt removals b n thesis)
  case (Cons c cs)
  show ?case
  proof (cases "bytes \<le> q \<and> cnt \<le> mx")
    case True
    with Cons.prems show ?thesis by (intro Cons.prems(1) [of 0]) auto
  next
    case False
    obtain rs where rec: "select_lru q mx cs (bytes - esize (snd c)) (cnt - 1) = (rs, b, n)"
      "removals = fst c # rs" using Cons.prems(2) False by (auto split: prod.splits)
    obtain k where k: "k \<le> length cs" "rs = map fst (take k cs)" "b = bytes - esize (snd c) - osum esize (take k cs)"
      "n = cnt - 1 - int k" "b \<le> q \<and> n \<le> mx \<or> k = length cs"
      "\<And>j. j < k \<Longrightarrow> \<not> (bytes - esize (snd c) - osum esize (take j cs) \<le> q \<and> cnt - 1 - int j \<le> mx)"
      using Cons.IH [OF _ rec(1)] by blast
    show ?thesis
    proof (rule Cons.prems(1) [of "Suc k"])
      fix j assume "j < Suc k"
      then show "\<not> (bytes - osum esize (take j (c # cs)) \<le> q \<and> cnt - int j \<le> mx)"
        using k(6) [of "j - 1"] False by (cases j) auto
    qed (use k rec(2) in auto)
  qed
qed simp

lemma live_split:
  "osum esize idx = osum esize (filter (expired now) idx) + osum esize (candidates idx now) + osum esize (protected_live idx now)"
  "length idx = length (filter (expired now) idx) + length (candidates idx now) + length (protected_live idx now)"
  by (induction idx) (auto simp: candidates_def protected_live_def)

text \<open>The plan, with the part of the candidates it takes.\<close>

lemma evictionPlanE:
  assumes "evictionPlan s needed added q now = Inr removals"
  obtains k where "k \<le> length (candidates (index s) now)"
    "removals = map fst (filter (expired now) (index s) @ take k (candidates (index s) now))"
    "needed + osum esize (protected_live (index s) now) + osum esize (drop k (candidates (index s) now)) \<le> q"
    "int (length (protected_live (index s) now) + length (candidates (index s) now) - k) + added \<le> maxObjects s"
    "\<And>j. j < k \<Longrightarrow> \<not> (needed + osum esize (protected_live (index s) now) + osum esize (drop j (candidates (index s) now)) \<le> q \<and>
       int (length (protected_live (index s) now) + length (candidates (index s) now) - j) + added \<le> maxObjects s)"
proof -
  let ?old = "filter (expired now) (index s)" and ?cs = "candidates (index s) now" and ?live = "protected_live (index s) now"
  let ?bytes = "needed + osum esize (index s) - osum esize ?old" and ?cnt = "int (length (index s)) + added - int (length ?old)"
  obtain rs b n where sel: "select_lru q (maxObjects s) ?cs ?bytes ?cnt = (rs, b, n)"
    by (cases "select_lru q (maxObjects s) ?cs ?bytes ?cnt")
  with assms have r: "b \<le> q" "n \<le> maxObjects s" "removals = map fst ?old @ rs"
    by (auto simp: evictionPlan_def Let_def split: if_splits)
  from sel obtain k where k: "k \<le> length ?cs" "rs = map fst (take k ?cs)" "b = ?bytes - osum esize (take k ?cs)"
    "n = ?cnt - int k"
    "\<And>j. j < k \<Longrightarrow> \<not> (?bytes - osum esize (take j ?cs) \<le> q \<and> ?cnt - int j \<le> maxObjects s)"
    by (rule select_lru_prefix) blast
  have split: "osum esize ?cs = osum esize (take j ?cs) + osum esize (drop j ?cs)" for j
    by (simp flip: osum_append)
  have bytes: "?bytes - osum esize (take j ?cs) = needed + osum esize ?live + osum esize (drop j ?cs)" for j
    using live_split(1) [of "index s" now] split [of j] by simp
  have cnt: "j \<le> k \<Longrightarrow> ?cnt - int j = int (length ?live + length ?cs - j) + added" for j
    using live_split(2) [of "index s" now] k(1) by (simp add: of_nat_diff)
  show ?thesis
    using that [of k] k r bytes cnt by (simp add: less_imp_le)
qed

text \<open>
  A request for space is refused exactly when the content that is neither expired nor
  evictable does not leave room for it, in bytes or in objects; and it is decided before
  anything is deleted.
\<close>

theorem evictionPlan_iff:
  assumes "\<forall>p \<in> set (index s). 0 \<le> esize (snd p)"
  shows "(\<exists>removals. evictionPlan s needed added q now = Inr removals) \<longleftrightarrow>
    needed + osum esize (protected_live (index s) now) \<le> q \<and>
    int (length (protected_live (index s) now)) + added \<le> maxObjects s"
proof -
  let ?old = "filter (expired now) (index s)" and ?cs = "candidates (index s) now" and ?live = "protected_live (index s) now"
  have pos: "0 \<le> osum esize (drop j ?cs)" for j
    using assms by (intro osum_nonneg) (fastforce simp: candidates_def dest!: in_set_dropD)
  show ?thesis
  proof
    assume "\<exists>removals. evictionPlan s needed added q now = Inr removals"
    then obtain removals where "evictionPlan s needed added q now = Inr removals" by blast
    then obtain k where "k \<le> length ?cs" "needed + osum esize ?live + osum esize (drop k ?cs) \<le> q"
      "int (length ?live + length ?cs - k) + added \<le> maxObjects s" by (rule evictionPlanE) blast
    with pos [of k] show "needed + osum esize ?live \<le> q \<and> int (length ?live) + added \<le> maxObjects s"
      by (simp add: of_nat_diff)
  next
    assume fits: "needed + osum esize ?live \<le> q \<and> int (length ?live) + added \<le> maxObjects s"
    let ?bytes = "needed + osum esize (index s) - osum esize ?old" and ?cnt = "int (length (index s)) + added - int (length ?old)"
    obtain rs b n where sel: "select_lru q (maxObjects s) ?cs ?bytes ?cnt = (rs, b, n)"
      by (cases "select_lru q (maxObjects s) ?cs ?bytes ?cnt")
    then obtain k where "b = ?bytes - osum esize (take k ?cs)" "n = ?cnt - int k"
      "b \<le> q \<and> n \<le> maxObjects s \<or> k = length ?cs" by (rule select_lru_prefix) blast
    with fits live_split [of "index s" now] have "b \<le> q \<and> n \<le> maxObjects s" by auto
    with sel show "\<exists>removals. evictionPlan s needed added q now = Inr removals"
      by (simp add: evictionPlan_def Let_def)
  qed
qed

definition tiny_store :: store where
  "tiny_store = \<lparr>index = [(replicate 64 97, \<lparr>esize = 5, pinned = False, reserved = False, accessed = 1, eexpires = 9\<rparr>),
       (replicate 64 98, \<lparr>esize = 4, pinned = True, reserved = False, accessed = 0, eexpires = 9\<rparr>)],
     files = [], cache = [], quota = 10, maxObjects = 2, saved = []\<rparr>"

theorem evictionPlan_iff_witness:
  "(\<exists>removals. evictionPlan tiny_store 6 1 10 3 = Inr removals) \<and>
   \<not> (\<exists>removals. evictionPlan tiny_store 7 1 10 3 = Inr removals)"
  by (subst (1 2) evictionPlan_iff)
    (simp_all add: tiny_store_def protected_live_def unprotected_def expired_def)

lemma eviction_keeps:
  assumes "evictionPlan s needed added q now = Inr removals" "owf (index s)" "(i, e) \<in> set (index s)"
  shows "(i \<in> set removals \<longrightarrow> eexpires e \<le> now \<or> \<not> pinned e \<and> \<not> reserved e) \<and>
    (eexpires e \<le> now \<longrightarrow> i \<in> set removals) \<and>
    (\<forall>j f. (j, f) \<in> set (index s) \<and> i \<in> set removals \<and> now < eexpires e \<and>
       j \<notin> set removals \<and> \<not> pinned f \<and> \<not> reserved f \<longrightarrow> accessed e \<le> accessed f)"
proof -
  let ?cs = "candidates (index s) now"
  from assms(1) obtain k where k: "removals = map fst (filter (expired now) (index s) @ take k ?cs)"
    by (rule evictionPlanE) blast
  have same: "f = e" if "(i, f) \<in> set (index s)" for f
    using oget_in_set [OF assms(2)] that assms(3) by (metis option.inject)
  have cand: "p \<in> set ?cs \<longleftrightarrow> p \<in> set (index s) \<and> unprotected p \<and> \<not> expired now p" for p
    by (auto simp: candidates_def)
  have taken: "i \<in> set removals \<longleftrightarrow> expired now (i, e) \<or> (i, e) \<in> set (take k ?cs)"
  proof
    assume "i \<in> set removals"
    then have "\<exists>f. (i, f) \<in> set (index s) \<and> expired now (i, f) \<or> (i, f) \<in> set (take k ?cs)"
      by (auto simp: k)
    then obtain f where "(i, f) \<in> set (index s) \<and> expired now (i, f) \<or> (i, f) \<in> set (take k ?cs)" ..
    with cand same in_set_takeD show "expired now (i, e) \<or> (i, e) \<in> set (take k ?cs)" by metis
  next
    assume "expired now (i, e) \<or> (i, e) \<in> set (take k ?cs)"
    with assms(3) show "i \<in> set removals" by (force simp: k)
  qed
  have "accessed e \<le> accessed f"
    if "(j, f) \<in> set (index s)" "i \<in> set removals" "now < eexpires e" "j \<notin> set removals" "\<not> pinned f" "\<not> reserved f" for j f
  proof -
    have "(i, e) \<in> set (take k ?cs)" using that(2,3) taken by (simp add: expired_def)
    moreover have "(j, f) \<in> set (drop k ?cs)"
    proof -
      have "\<not> expired now (j, f)" "(j, f) \<notin> set (take k ?cs)" using that(1,4) by (force simp: k)+
      with that have "(j, f) \<in> set ?cs" by (simp add: cand unprotected_def)
      with \<open>(j, f) \<notin> set (take k ?cs)\<close> show ?thesis using append_take_drop_id [of k ?cs] by (metis Un_iff set_append)
    qed
    moreover have "sorted (map (\<lambda>p. accessed (snd p)) ?cs)" by (simp add: candidates_def)
    then have "sorted (map (\<lambda>p. accessed (snd p)) (take k ?cs) @ map (\<lambda>p. accessed (snd p)) (drop k ?cs))"
      by (simp flip: map_append)
    ultimately show ?thesis unfolding sorted_append by force
  qed
  moreover have "eexpires e \<le> now \<or> \<not> pinned e \<and> \<not> reserved e" if "i \<in> set removals"
  proof -
    have "expired now (i, e) \<or> (i, e) \<in> set ?cs" using taken that in_set_takeD by fast
    then show ?thesis by (auto simp: cand expired_def unprotected_def)
  qed
  moreover have "i \<in> set removals" if "eexpires e \<le> now" using taken that by (simp add: expired_def)
  ultimately show ?thesis by blast
qed

text \<open>
  C33: eviction never takes live pinned or reserved content. It takes everything that has expired,
  and otherwise only what is needed, least recently used first: had it kept the last one it
  takes, the request would not have fitted.
\<close>

theorem eviction_safe:
  assumes "evictionPlan s needed added q now = Inr removals" "owf (index s)" "(i, e) \<in> set (index s)"
  shows "(i \<in> set removals \<longrightarrow> eexpires e \<le> now \<or> \<not> pinned e \<and> \<not> reserved e) \<and>
    (eexpires e \<le> now \<longrightarrow> i \<in> set removals) \<and>
    (\<forall>j f. (j, f) \<in> set (index s) \<and> i \<in> set removals \<and> now < eexpires e \<and>
       j \<notin> set removals \<and> \<not> pinned f \<and> \<not> reserved f \<longrightarrow> accessed e \<le> accessed f)"
  using assms by (rule eviction_keeps)

theorem eviction_safe_witness:
  "evictionPlan tiny_store 6 1 10 3 = Inr [replicate 64 97] \<and> \<not> pinned (snd (hd (index tiny_store)))"
proof -
  have run: "evictionPlan tiny_store 6 1 10 3 = Inr [replicate 64 97]"
    by (simp add: evictionPlan_def tiny_store_def candidates_def unprotected_def expired_def)
  have wf: "owf (index tiny_store)" by (simp add: tiny_store_def owf_def replicate_eq_replicate)
  show ?thesis
    using run eviction_safe [OF run wf, of "replicate 64 97" "snd (hd (index tiny_store))"]
    by (simp add: tiny_store_def)
qed

end
