(* ===== verification/Bundle_Stored.thy ===== *)
theory Bundle_Stored
  imports Bundle
begin

text \<open>
  A bundle that is written as canonical text and parsed back differs from the original at most
  in the order of object fields. Every check of \<open>verifyBundle\<close> gives the same result on
  both, and a bundle once accepted is accepted until it expires.
\<close>

section \<open>Reordered values\<close>

lemma jnorm_eq_simps [simp]:
  "jnorm v = JStr s \<longleftrightarrow> v = JStr s" "JStr s = jnorm v \<longleftrightarrow> v = JStr s" "jnorm v = JInt i \<longleftrightarrow> v = JInt i"
  "jnorm v = JNull \<longleftrightarrow> v = JNull" "jnorm v = JUndefined \<longleftrightarrow> v = JUndefined"
  by (cases v; auto)+

lemma jnorm_readers [simp]:
  "is_str (jnorm v) = is_str v" "str_of (jnorm v) = str_of v" "is_safe_int (jnorm v) = is_safe_int v"
  "int_of (jnorm v) = int_of v" "is_arr (jnorm v) = is_arr v" "items_of (jnorm v) = map jnorm (items_of v)"
  "is_obj (jnorm v) = is_obj v" "truthy (jnorm v) = truthy v" "key_count (jnorm v) = key_count v"
  by (cases v; simp add: jval_readers truthy_def key_count_def)+

lemma un64_jnorm [simp]: "un64 (jnorm v) n = un64 v n" "un64_any (jnorm v) = un64_any v"
  by (cases v; simp add: un64_def un64_any_def)+

lemma sized_jnorm [simp]: "sized (jnorm v) n k e = sized v n k e"
  by (simp add: sized_def)

lemma exactShape_jnorm [simp]: "exactShape (jnorm v) ks = exactShape v ks"
proof (cases v)
  case (JObj kvs)
  have "fst ` map_prod id jnorm ` set kvs = fst ` set kvs" by (force simp: image_image)
  then have "ohas (sort_key fst (map (map_prod id jnorm) kvs)) = ohas kvs" by (simp add: ohas_def fun_eq_iff)
  then show ?thesis by (simp add: JObj exactShape_def)
qed (simp_all add: exactShape_def)

lemma js_string_jnorm [simp]: "js_string (jnorm v) = js_string v"
proof (induction v rule: js_string.induct)
  case (8 vs)
  then show ?case by (auto simp: comp_def intro!: arg_cong [where f = "join (lit '','')"])
qed simp_all

lemma jnorm_idem: "jnorm (jnorm v) = jnorm v"
proof (induction v)
  case (JArr vs)
  then show ?case by (auto simp: map_idI)
next
  case (JObj kvs)
  then have "map (map_prod id jnorm) (map (map_prod id jnorm) kvs) = map (map_prod id jnorm) kvs"
    by (auto simp: map_prod_def split: prod.splits)
  then have "jnorm (JObj (map (map_prod id jnorm) kvs)) = jnorm (JObj kvs)" by (simp del: map_map)
  moreover have "jnorm (jnorm (JObj kvs)) = jnorm (JObj (map (map_prod id jnorm) kvs))"
  proof -
    have twice: "sort_key fst (sort_key fst xs) = sort_key fst xs" for xs :: "(ustr \<times> jval) list"
      by (rule sort_key_id_if_sorted) simp
    show ?thesis by (simp only: jnorm.simps jnorm_JObj [unfolded jnorm.simps, simplified] twice)
  qed
  ultimately show ?case by simp
qed simp_all

lemmas jnorm_unfold = jget_jnorm jnorm_eq_simps jnorm_readers un64_jnorm sized_jnorm exactShape_jnorm js_string_jnorm

lemma canonical_fields_jnorm:
  "canon (JObj (map (\<lambda>k. (f k, jnorm (g k))) ks)) = canon (JObj (map (\<lambda>k. (f k, g k)) ks))"
proof -
  have "jnorm (JObj (map (\<lambda>k. (f k, jnorm (g k))) ks)) = jnorm (JObj (map (\<lambda>k. (f k, g k)) ks))"
    by (simp add: jnorm_idem comp_def)
  then show ?thesis using canonical_jnorm by metis
qed

section \<open>The checks\<close>

lemma publicBytes_jnorm [simp]: "publicBytes (jnorm p) = publicBytes p"
  unfolding publicBytes_def encode_def jget_jnorm canonical_fields_jnorm ..

lemma validateIdentity_jnorm [simp]: "validateIdentity C (jnorm p) = validateIdentity C p"
  unfolding validateIdentity_def identity_check_def Let_def jnorm_unfold publicBytes_jnorm ..

lemma chunk_ref_ok_jnorm [simp]: "chunk_ref_ok (jnorm c) = chunk_ref_ok c"
  unfolding chunk_ref_ok_def Let_def jnorm_unfold ..

lemma verify_envelope_jnorm [simp]: "verify_envelope C (jnorm e) = verify_envelope C e"
  unfolding verify_envelope_def Let_def jnorm_unfold ..

lemma filter_insort_key:
  "filter P (insort_key f x xs) = (if P x then insort_key f x (filter P xs) else filter P xs)"
  if "sorted (map f xs)" for x :: 'a and f :: "'a \<Rightarrow> 'b::linorder"
  using that by (cases "P x") (simp_all add: filter_insort filter_insort_triv)

lemma manifest_body_jnorm: "canon (manifest_body (jnorm m)) = canon (manifest_body m)"
proof -
  have "filter P (sort_key fst (map (map_prod id jnorm) kvs)) = sort_key fst (map (map_prod id jnorm) (filter P kvs))"
    if "\<And>k v. P (k, jnorm v) = P (k, v)" for P and kvs :: "(ustr \<times> jval) list"
  proof -
    have "filter P (map (map_prod id jnorm) kvs) = map (map_prod id jnorm) (filter P kvs)"
      using that by (induction kvs) auto
    then show ?thesis by (simp add: filter_sort)
  qed
  note drop = this
  show ?thesis
  proof (cases m)
    case (JObj kvs)
    have "manifest_body (jnorm m) = jnorm (manifest_body m)"
      by (simp add: JObj manifest_body_def fields_of_def odel_def drop)
    then show ?thesis by (simp add: canonical_jnorm)
  qed (simp_all add: manifest_body_def fields_of_def)
qed

lemma verifyManifest_jnorm [simp]: "verifyManifest C (jnorm m) now = verifyManifest C m now"
proof -
  have refs: "chunk_refs (jnorm m) = map jnorm (chunk_refs m)" by (simp add: chunk_refs_def jget_jnorm)
  have sizes: "map (\<lambda>c. int_of (jget c k)) (map jnorm cs) = map (\<lambda>c. int_of (jget c k)) cs" for k cs
    by (simp add: jget_jnorm)
  have envs: "map (verify_envelope C) (map jnorm es) = map (verify_envelope C) es" for es by simp
  have oks: "list_all chunk_ref_ok (map jnorm cs) = list_all chunk_ref_ok cs" for cs by (simp add: list.pred_map comp_def)
  show ?thesis
    unfolding verifyManifest_def Let_def refs encode_def manifest_body_jnorm canonical_jnorm jnorm_unfold
      validateIdentity_jnorm sizes envs oks length_map ..
qed

lemma verifyBundle_jnorm [simp]: "verifyBundle C (jnorm b) now = verifyBundle C b now"
proof -
  have chunks: "map (verify_chunk C (jnorm t)) (map jnorm cs) = map (verify_chunk C t) cs" for t cs
  proof -
    have "verify_chunk C (jnorm t) (jnorm c) = verify_chunk C t c" for c
      unfolding verify_chunk_def jnorm_unfold by (simp only: eq_commute [of "JStr _"] jnorm_eq_simps)
    then show ?thesis by simp
  qed
  show ?thesis
    unfolding verifyBundle_def Let_def chunk_refs_def jnorm_unfold verifyManifest_jnorm chunks length_map ..
qed

lemma bundle_id_jnorm [simp]: "bundle_id (jnorm b) = JStr i \<longleftrightarrow> bundle_id b = JStr i"
  by (simp add: bundle_id_def manifest_of_def jget_jnorm)

section \<open>Time\<close>

lemma verifyManifest_later:
  assumes "verifyManifest C m now = Inr ()" "now \<le> later" "later < int_of (jget m (lit ''expires''))"
  shows "verifyManifest C m later = Inr ()"
  using assms by (auto simp: verifyManifest_def Let_def bindR_Inr_iff split: if_splits)

lemma verifyBundle_later:
  assumes "verifyBundle C b now = Inr ()" "now \<le> later"
    and "later < int_of (jget (manifest_of b) (lit ''expires''))"
  shows "verifyBundle C b later = Inr ()"
  using assms verifyManifest_later [of C "manifest_of b" now later]
  by (auto simp: verifyBundle_def manifest_of_def Let_def bindR_Inr_iff split: if_splits)

end
