(* ===== verification/Store_Ops.thy ===== *)
theory Store_Ops
  imports Store Bundle_Stored
begin

text \<open>
  The invariant of the content store over all its operations, what each operation returns, and
  the reconciliation of a directory (\<open>packages/core/src/index.ts\<close>, class
  \<open>ContentStore\<close>).
\<close>

section \<open>Accounting\<close>

lemma removeEntries_Nil [simp]: "removeEntries [] s = s"
  by (simp add: removeEntries_def)

lemma removeEntries_Cons [simp]:
  "removeEntries (i # ids) s =
     removeEntries ids (s\<lparr>files := odel i (files s), index := odel i (index s), cache := odel i (cache s)\<rparr>)"
  by (simp add: removeEntries_def)

lemma removeEntries_index [simp]: "index (removeEntries ids s) = filter (\<lambda>p. fst p \<notin> set ids) (index s)"
  by (induction ids arbitrary: s) (auto simp: odel_def intro!: filter_cong)

lemma removeEntries_files [simp]: "files (removeEntries ids s) = filter (\<lambda>p. fst p \<notin> set ids) (files s)"
  by (induction ids arbitrary: s) (auto simp: odel_def intro!: filter_cong)

lemma removeEntries_cache [simp]: "cache (removeEntries ids s) = filter (\<lambda>p. fst p \<notin> set ids) (cache s)"
  by (induction ids arbitrary: s) (auto simp: odel_def intro!: filter_cong)

lemma removeEntries_rest [simp]:
  "quota (removeEntries ids s) = quota s" "maxObjects (removeEntries ids s) = maxObjects s"
  "saved (removeEntries ids s) = saved s"
  by (induction ids arbitrary: s) simp_all

definition store_inv :: "store \<Rightarrow> bool" where
  "store_inv s \<longleftrightarrow> owf (index s) \<and> owf (files s) \<and>
     (\<forall>(i, e) \<in> set (index s). hex64 i \<and> 1 \<le> esize e \<and> (\<exists>f. oget (files s) i = Some f \<and> fsize f = esize e)) \<and>
     osum esize (index s) \<le> quota s \<and> int (length (index s)) \<le> maxObjects s \<and> 1 \<le> maxObjects s \<and> 1 \<le> quota s"

text \<open>Two indices with the same keys and sizes.\<close>

definition same_sizes :: "(ustr, entry) omap \<Rightarrow> (ustr, entry) omap \<Rightarrow> bool" where
  "same_sizes a b \<longleftrightarrow> map (\<lambda>p. (fst p, esize (snd p))) a = map (\<lambda>p. (fst p, esize (snd p))) b"

lemma same_sizes_refl [simp]: "same_sizes a a"
  by (simp add: same_sizes_def)

lemma same_sizes_trans: "same_sizes a b \<Longrightarrow> same_sizes b c \<Longrightarrow> same_sizes a c"
  by (simp add: same_sizes_def)

lemma same_sizes_facts:
  assumes "same_sizes a b"
  shows "map fst b = map fst a" "osum esize b = osum esize a" "length b = length a"
    "(i, f) \<in> set b \<Longrightarrow> \<exists>e. (i, e) \<in> set a \<and> esize e = esize f"
proof -
  let ?k = "\<lambda>p. (fst p, esize (snd p))"
  from assms have eq: "map ?k b = map ?k a" by (simp add: same_sizes_def)
  from arg_cong [OF eq, of "map fst"] show "map fst b = map fst a" by (simp add: comp_def)
  from arg_cong [OF eq, of "\<lambda>xs. sum_list (map snd xs)"] show "osum esize b = osum esize a"
    by (simp add: osum_def comp_def)
  from arg_cong [OF eq, of length] show "length b = length a" by simp
  assume "(i, f) \<in> set b"
  then have "(i, esize f) \<in> set (map ?k b)" by force
  then show "\<exists>e. (i, e) \<in> set a \<and> esize e = esize f" unfolding eq by auto
qed

lemma same_sizes_oset: "owf m \<Longrightarrow> oget m i = Some e \<Longrightarrow> esize x = esize e \<Longrightarrow> same_sizes m (oset i x m)"
  by (induction m) (auto simp: same_sizes_def owf_def split: if_splits)

lemma store_inv_same_sizes:
  assumes "store_inv s" "same_sizes (index s) (index t)" "files t = files s" "quota t = quota s" "maxObjects t = maxObjects s"
  shows "store_inv t"
proof -
  note f = same_sizes_facts [OF assms(2)]
  have "hex64 i \<and> 1 \<le> esize e \<and> (\<exists>f. oget (files t) i = Some f \<and> fsize f = esize e)"
    if mem: "(i, e) \<in> set (index t)" for i e
  proof -
    obtain e' where "(i, e') \<in> set (index s)" "esize e' = esize e"
      using same_sizes_facts(4) [OF assms(2) mem] by blast
    with assms(1,3) show ?thesis unfolding store_inv_def by fastforce
  qed
  then show ?thesis using assms f(1-3) by (auto simp: store_inv_def owf_def)
qed

lemma store_inv_cache: "store_inv (s\<lparr>cache := c\<rparr>) \<longleftrightarrow> store_inv s" "store_inv (s\<lparr>saved := d\<rparr>) \<longleftrightarrow> store_inv s"
  by (simp_all add: store_inv_def)

lemma store_inv_remove:
  assumes "store_inv s" shows "store_inv (removeEntries ids s)"
proof -
  have sum: "osum esize (filter P (index s)) \<le> osum esize (index s)" for P
    using osum_filter [of esize "index s" P] osum_nonneg [of "filter (\<lambda>p. \<not> P p) (index s)" esize] assms
    by (force simp: store_inv_def)
  have files: "oget (filter (\<lambda>p. fst p \<notin> set ids) m) i = (if i \<in> set ids then None else oget m i)" for m :: "(ustr, 'b) omap" and i
    by (induction m) auto
  have "int (length (filter P (index s))) \<le> maxObjects s" for P
    using assms length_filter_le [of P "index s"] unfolding store_inv_def by linarith
  with assms sum [of "\<lambda>p. fst p \<notin> set ids"] show ?thesis
    by (auto simp: store_inv_def files split: if_splits)
qed

lemma save_facts: "save ok s = (r, t) \<Longrightarrow> t = s\<lparr>saved := (if ok then index s else saved s)\<rparr> \<and> (r = Inr () \<longleftrightarrow> ok)"
  by (auto simp: save_def split: if_splits)

section \<open>Reading\<close>

lemma read_bundle_frame:
  assumes "read_bundle C now i touch s = (r, t)" "owf (index s)"
  shows "same_sizes (index s) (index t)" "\<not> touch \<Longrightarrow> index t = index s" "files t = files s"
    "quota t = quota s" "maxObjects t = maxObjects s" "saved t = saved s"
    "map (\<lambda>p. (fst p, pinned (snd p), reserved (snd p), eexpires (snd p))) (index t) =
     map (\<lambda>p. (fst p, pinned (snd p), reserved (snd p), eexpires (snd p))) (index s)"
proof -
  have keep: "map f (oset k x m) = map f m" if "oget m k = Some e" "f (k, x) = f (k, e)" for f and k :: ustr and x e :: entry and m
    using that by (induction m) (auto split: if_splits)
  show "same_sizes (index s) (index t)" "\<not> touch \<Longrightarrow> index t = index s" "files t = files s"
    "quota t = quota s" "maxObjects t = maxObjects s" "saved t = saved s"
    "map (\<lambda>p. (fst p, pinned (snd p), reserved (snd p), eexpires (snd p))) (index t) =
     map (\<lambda>p. (fst p, pinned (snd p), reserved (snd p), eexpires (snd p))) (index s)"
    using assms same_sizes_oset [of "index s" i]
    by (auto simp: read_bundle_def keep split: if_splits option.splits sum.splits)
qed

lemma read_bundle_sound:
  assumes "read_bundle C now i touch s = (Inr b, t)"
  shows "verifyBundle C b now = Inr ()" "bundle_id b = JStr i" "hex64 i"
    "\<exists>e. oget (index s) i = Some e" "\<exists>f. oget (files s) i = Some f \<and> fvalue f = Some b"
  using assms
  by (auto simp: read_bundle_def file_bundle_def fileState_def bindR_Inr_iff split: if_splits option.splits sum.splits)

text \<open>
  whatever happened to the files on disk, reading by address returns only a bundle that
  carries that address and passes every check of a received bundle at that moment.
\<close>

theorem get_sound:
  assumes "read_bundle C now i touch s = (Inr b, t)"
  shows "bundle_id b = JStr i \<and> verifyBundle C b now = Inr () \<and>
    (\<exists>f. oget (files s) i = Some f \<and> fvalue f = Some b)"
  using read_bundle_sound [OF assms] by blast

section \<open>Reservations\<close>

lemma read_all_frame:
  assumes "read_all C now ids s = (r, t)" "owf (index s)"
  shows "index t = index s \<and> files t = files s \<and> quota t = quota s \<and> maxObjects t = maxObjects s \<and>
    saved t = saved s \<and> (r = Inr () \<longrightarrow> (\<forall>i \<in> set ids. \<exists>e. oget (index s) i = Some e))"
  using assms
proof (induction ids arbitrary: s)
  case (Cons i ids)
  obtain x u where one: "read_bundle C now i False s = (x, u)" by (cases "read_bundle C now i False s")
  note frame = read_bundle_frame [OF one Cons.prems(2)]
  show ?case
  proof (cases x)
    case (Inl e)
    with Cons.prems one frame show ?thesis by auto
  next
    case (Inr b)
    with Cons.prems(1) one have "read_all C now ids u = (r, t)" by simp
    with Cons.IH [OF this] Cons.prems(2) frame read_bundle_sound(4) [OF one [unfolded Inr]] show ?thesis by auto
  qed
qed simp

lemma read_all_no_write: "read_all C now ids s = (Inl e, t) \<Longrightarrow> e \<noteq> WriteFailed"
proof (induction ids arbitrary: s)
  case (Cons i ids)
  then show ?case
    by (auto simp: read_bundle_def fileState_def file_bundle_def bindR_def split: if_splits option.splits sum.splits)
qed simp

lemma mark_union_get:
  "owf prev \<Longrightarrow> oget (mark_union prev m) i =
     map_option (\<lambda>x. x\<lparr>reserved := reserved x \<or> (\<exists>e. oget prev i = Some e \<and> reserved e)\<rparr>) (oget m i)"
proof (induction prev arbitrary: m)
  case Nil
  then show ?case by (cases "oget m i") (simp_all add: mark_union_def)
next
  case (Cons p prev)
  obtain k e where p: "p = (k, e)" by (cases p)
  let ?m = "if reserved e then (case oget m k of Some x \<Rightarrow> oset k (x\<lparr>reserved := True\<rparr>) m | None \<Rightarrow> m) else m"
  have fresh: "oget prev k = None" using Cons.prems by (auto simp: p owf_def oget_def map_of_eq_None_iff)
  have "mark_union (p # prev) m = mark_union prev ?m" by (simp add: mark_union_def p)
  then have "oget (mark_union (p # prev) m) i = oget (mark_union prev ?m) i" by simp
  also have "\<dots> = map_option (\<lambda>x. x\<lparr>reserved := reserved x \<or> (\<exists>e. oget prev i = Some e \<and> reserved e)\<rparr>) (oget ?m i)"
    using Cons by (simp add: p owf_def)
  also have "\<dots> = map_option (\<lambda>x. x\<lparr>reserved := reserved x \<or> (\<exists>e. oget (p # prev) i = Some e \<and> reserved e)\<rparr>) (oget m i)"
    using fresh by (auto simp: p oget_oset split: option.splits)
  finally show ?case .
qed

lemma mark_union_sizes: "owf m \<Longrightarrow> same_sizes m (mark_union prev m)"
proof (induction prev arbitrary: m)
  case (Cons p prev)
  obtain k e where p: "p = (k, e)" by (cases p)
  let ?m = "if reserved e then (case oget m k of Some x \<Rightarrow> oset k (x\<lparr>reserved := True\<rparr>) m | None \<Rightarrow> m) else m"
  have one: "same_sizes m ?m" using Cons.prems by (auto intro: same_sizes_oset split: option.split)
  have wf: "owf ?m" using Cons.prems by (auto split: option.split)
  have step: "mark_union (p # prev) m = mark_union prev ?m" by (simp add: mark_union_def p)
  show ?case unfolding step by (rule same_sizes_trans [OF one Cons.IH [OF wf]])
qed (simp add: mark_union_def)

lemma mark_facts: "same_sizes m (mark ids m)"
  "oget (mark ids m) i = map_option (\<lambda>e. e\<lparr>reserved := (i \<in> set ids)\<rparr>) (oget m i)"
  by (induction m) (auto simp: mark_def same_sizes_def)

lemma reservations_set: "owf (index s) \<Longrightarrow> set (reservations s) = {i. \<exists>e. oget (index s) i = Some e \<and> reserved e}"
  by (simp add: reservations_def oget_iff) (force simp: image_iff)

lemma setReservations_frame:
  assumes "setReservations C now ok ids s = (r, t)" "owf (index s)"
  shows "same_sizes (index s) (index t) \<and> files t = files s \<and> quota t = quota s \<and> maxObjects t = maxObjects s"
proof (cases "int (length ids) > maxObjects s")
  case True
  with assms show ?thesis by (auto simp: setReservations_def)
next
  case False
  obtain x u where all: "read_all C now (remdups_first ids) s = (x, u)"
    by (cases "read_all C now (remdups_first ids) s")
  note f = read_all_frame [OF all assms(2)]
  have union: "same_sizes (index s) (mark_union (index s) (mark ids (index s)))"
  proof -
    have "owf (mark ids (index s))" using assms(2) same_sizes_facts(1) [OF mark_facts(1)] by (simp add: owf_def)
    then show ?thesis using mark_facts(1) mark_union_sizes same_sizes_trans by blast
  qed
  from assms(1) False all f show ?thesis
    by (auto simp: setReservations_def Let_def save_def mark_facts(1) union split: if_splits sum.splits)
qed

text \<open>
  C34: replacing the reservations sets exactly the requested ones, and asks that each of them is
  stored and verifies. If the index cannot be written, no reservation is lost: the old and the
  new ones are all protected. Nothing else of the store changes.
\<close>

theorem reservations_exact:
  assumes "setReservations C now ok ids s = (r, t)" "owf (index s)"
  shows "(r = Inr () \<longrightarrow> set (reservations t) = set ids) \<and>
    (r = Inl WriteFailed \<longrightarrow> set (reservations t) = set ids \<union> set (reservations s)) \<and>
    (r \<noteq> Inr () \<and> r \<noteq> Inl WriteFailed \<longrightarrow> index t = index s) \<and>
    same_sizes (index s) (index t) \<and> files t = files s"
proof (cases "int (length ids) > maxObjects s")
  case True
  with assms show ?thesis by (auto simp: setReservations_def)
next
  case False
  obtain x u where all: "read_all C now (remdups_first ids) s = (x, u)"
    by (cases "read_all C now (remdups_first ids) s")
  note f = read_all_frame [OF all assms(2)]
  note frame = setReservations_frame [OF assms]
  show ?thesis
  proof (cases x)
    case (Inl e)
    with False all have "t = u" "r = Inl e" using assms(1) by (auto simp: setReservations_def)
    moreover have "e \<noteq> WriteFailed" using all Inl read_all_no_write by blast
    ultimately show ?thesis using f frame by simp
  next
    case (Inr v)
    then have known: "\<forall>i \<in> set ids. \<exists>e. oget (index s) i = Some e" using f by simp
    have old: "set (reservations u) = set (reservations s)" using f by (simp add: reservations_def)
    have marked: "set (reservations (w\<lparr>index := mark ids (index s)\<rparr>)) = set ids" for w
    proof -
      have "owf (mark ids (index s))" using assms(2) same_sizes_facts(1) [OF mark_facts(1)] by (simp add: owf_def)
      then show ?thesis using known by (auto simp: reservations_set mark_facts(2))
    qed
    have union: "set (reservations (w\<lparr>index := mark_union (index s) (mark ids (index s))\<rparr>)) = set ids \<union> set (reservations s)" for w
    proof -
      have wf: "owf (mark ids (index s))" using assms(2) same_sizes_facts(1) [OF mark_facts(1)] by (simp add: owf_def)
      then have "owf (mark_union (index s) (mark ids (index s)))"
        using same_sizes_facts(1) [OF mark_union_sizes] by (simp add: owf_def)
      then show ?thesis using known assms(2) by (auto simp: reservations_set mark_union_get mark_facts(2))
    qed
    show ?thesis
    proof (cases "sort_key id (remdups_first ids) = reservations u")
      case True
      then have "set ids = set (reservations u)" by (metis set_sort set_remdups_first)
      with assms(1) False all Inr True old frame show ?thesis by (simp add: setReservations_def)
    next
      case differ: False
      show ?thesis
      proof (cases ok)
        case True
        with assms(1) False all Inr differ f have "r = Inr ()" "index t = mark ids (index s)"
          by (auto simp: setReservations_def Let_def save_def)
        then show ?thesis using marked [of t] frame by (simp add: reservations_def)
      next
        case no: False
        with assms(1) False all Inr differ f have "r = Inl WriteFailed" "index t = mark_union (index s) (mark ids (index s))"
          by (auto simp: setReservations_def Let_def save_def)
        then show ?thesis using union [of t] frame by (simp add: reservations_def)
      qed
    qed
  qed
qed

section \<open>Insertion\<close>

lemma remaining:
  assumes "owf m" "set xs \<subseteq> set m" "distinct xs"
  shows "osum c (filter (\<lambda>p. fst p \<notin> set (map fst xs)) m) = osum c m - osum c xs"
    "length (filter (\<lambda>p. fst p \<notin> set (map fst xs)) m) = length m - length xs" "length xs \<le> length m"
proof -
  have dm: "distinct m" using assms(1) by (simp add: owf_def distinct_map)
  have key: "fst p \<in> set (map fst xs) \<longleftrightarrow> p \<in> set xs" if "p \<in> set m" for p
  proof
    assume "fst p \<in> set (map fst xs)"
    then obtain q where q: "q \<in> set xs" "fst q = fst p" by auto
    then have "q \<in> set m" using assms(2) by blast
    then have "q = p" using that q(2) assms(1) inj_on_eq_iff [of fst "set m"] by (auto simp: owf_def distinct_map)
    with q show "p \<in> set xs" by simp
  qed simp
  have sum: "osum c ys = (\<Sum>p \<in> set ys. c (snd p))" if "distinct ys" for ys :: "('a \<times> 'b) list"
    using that by (simp add: osum_def sum.distinct_set_conv_list)
  let ?rest = "filter (\<lambda>p. fst p \<notin> set (map fst xs)) m"
  have set: "set ?rest = set m - set xs" using key by auto
  have "osum c ?rest = (\<Sum>p \<in> set m - set xs. c (snd p))" using sum [of ?rest] dm set by simp
  then show "osum c ?rest = osum c m - osum c xs"
    using assms(2,3) dm by (simp add: sum sum_diff)
  have "length ?rest = card (set m - set xs)" using dm set distinct_card [of ?rest] by simp
  then show "length ?rest = length m - length xs"
    using assms(2,3) dm by (simp add: card_Diff_subset distinct_card)
  show "length xs \<le> length m" using assms(2,3) dm by (metis List.finite_set card_mono distinct_card)
qed

lemma eviction_fits:
  assumes "evictionPlan s needed added q now = Inr removals" "owf (index s)"
  shows "needed + osum esize (filter (\<lambda>p. fst p \<notin> set removals) (index s)) \<le> q"
    "int (length (filter (\<lambda>p. fst p \<notin> set removals) (index s))) + added \<le> maxObjects s"
proof -
  let ?cs = "candidates (index s) now" and ?old = "filter (expired now) (index s)"
  obtain k where k: "k \<le> length ?cs" "removals = map fst (?old @ take k ?cs)"
    "needed + osum esize (protected_live (index s) now) + osum esize (drop k ?cs) \<le> q"
    "int (length (protected_live (index s) now) + length ?cs - k) + added \<le> maxObjects s"
    using assms(1) by (rule evictionPlanE) blast
  have dm: "distinct (index s)" using assms(2) by (simp add: owf_def distinct_map)
  have sub: "set (?old @ take k ?cs) \<subseteq> set (index s)"
    by (auto simp: candidates_def dest!: in_set_takeD)
  have dist: "distinct (?old @ take k ?cs)"
    using dm by (auto simp: candidates_def dest!: in_set_takeD)
  note rest = remaining [OF assms(2) sub dist, folded k(2)]
  have "osum esize ?cs = osum esize (take k ?cs) + osum esize (drop k ?cs)" by (simp flip: osum_append)
  then show "needed + osum esize (filter (\<lambda>p. fst p \<notin> set removals) (index s)) \<le> q"
    using k(3) live_split(1) [of "index s" now] by (simp add: rest(1))
  show "int (length (filter (\<lambda>p. fst p \<notin> set removals) (index s))) + added \<le> maxObjects s"
    unfolding rest(2) using k(1,4) live_split(2) [of "index s" now] rest(3) by (simp add: of_nat_diff)
qed

text \<open>The branch of \<open>insert\<close> that stores a new object.\<close>

lemma insert_newE:
  assumes "insert_bundle C now file_ok index_ok b pin reserve s = (r, t)" "bundle_id b = JStr i"
    and "verifyBundle C b now = Inr ()" "oget (index s) i = None" "t \<noteq> s"
  obtains tx removals where "canon b = Inr tx" "int (utf8_length tx) \<le> quota s"
    "int (utf8_length tx) \<le> MAX_STORED_BUNDLE"
    "evictionPlan s (int (utf8_length tx)) 1 (quota s) now = Inr removals" "file_ok"
    "index t = oset i \<lparr>esize = int (utf8_length tx), pinned = pin, reserved = reserve, accessed = now,
       eexpires = int_of (jget (manifest_of b) (lit ''expires''))\<rparr> (filter (\<lambda>p. fst p \<notin> set removals) (index s))"
    "files t = filter (\<lambda>p. fst p \<notin> set removals) (oset i \<lparr>fsize = int (utf8_length tx),
       fvalue = Some (jnorm b), fprint = sha C (utf8 tx)\<rparr> (files s))"
    "quota t = quota s" "maxObjects t = maxObjects s" "r = (if index_ok then Inr True else Inl WriteFailed)"
    "saved t = (if index_ok then index t else saved s)"
  using assms
  by (auto simp: insert_bundle_def Let_def str_of_def save_def not_less split: sum.splits if_splits)

lemma verified_id:
  assumes "verifyBundle C b now = Inr ()" "\<And>x. hex64 (sha C x)"
  obtains i where "bundle_id b = JStr i" "hex64 i"
  using verifyManifest_facts(6) [OF verifyBundle_facts(1) [OF assms(1)]] assms(2)
  by (auto simp: author_signed_def bundle_id_def)

lemma insert_old_frame:
  assumes "insert_bundle C now file_ok index_ok b pin reserve s = (r, t)" "owf (index s)"
    and "verifyBundle C b now = Inr ()" "bundle_id b = JStr i" "oget (index s) i = Some e"
  shows "same_sizes (index s) (index t) \<and> files t = files s \<and> quota t = quota s \<and> maxObjects t = maxObjects s \<and> r \<noteq> Inr True"
proof -
  obtain x u where set: "setReservations C now index_ok (if reserved e then reservations s else reservations s @ [i]) s = (x, u)"
    by (cases "setReservations C now index_ok (if reserved e then reservations s else reservations s @ [i]) s")
  note frame = setReservations_frame [OF set assms(2)]
  show ?thesis
    using assms(1,3,4,5) set frame
    by (auto simp: insert_bundle_def Let_def str_of_def split: if_splits sum.splits)
qed

lemma osum_fresh: "oget m i = None \<Longrightarrow> osum c (oset i e m) = osum c m + c e"
proof -
  assume "oget m i = None"
  then have "oset i e m = m @ [(i, e)]" by (intro oset_absent) (simp add: oget_None_iff)
  then show ?thesis by simp
qed

lemma oget_filter_keys: "oget (filter (\<lambda>p. fst p \<notin> K) m) i = (if i \<in> K then None else oget m i)"
  by (induction m) auto

lemma new_object_inv:
  assumes "store_inv s" "oget (index s) i = None" "hex64 i" "canon b = Inr tx" "int (utf8_length tx) \<le> quota s"
    and "evictionPlan s (int (utf8_length tx)) 1 (quota s) now = Inr removals"
    and "index t = oset i \<lparr>esize = int (utf8_length tx), pinned = pin, reserved = reserve, accessed = now,
           eexpires = x\<rparr> (filter (\<lambda>p. fst p \<notin> set removals) (index s))"
    and "files t = filter (\<lambda>p. fst p \<notin> set removals) (oset i \<lparr>fsize = int (utf8_length tx),
           fvalue = v, fprint = pr\<rparr> (files s))"
    and "quota t = quota s" "maxObjects t = maxObjects s" "is_obj b"
  shows "store_inv t" "i \<notin> set removals"
proof -
  let ?rest = "filter (\<lambda>p. fst p \<notin> set removals) (index s)"
  have wf: "owf (index s)" "owf (files s)" using assms(1) by (auto simp: store_inv_def)
  have "set removals \<subseteq> fst ` set (index s)"
    using assms(6) by (rule evictionPlanE) (auto simp: candidates_def dest!: in_set_takeD)
  then show fresh: "i \<notin> set removals" using assms(2) by (auto simp: oget_None_iff)
  have none: "oget ?rest i = None" using assms(2) by (simp add: oget_filter_keys)
  obtain kvs where "b = JObj kvs" using assms(11) by (cases b) (auto simp: is_obj_def)
  then have "tx \<noteq> []" using assms(4) by (auto simp: canonical.simps [of "JObj _"] bindR_Inr_iff lit_def)
  then have pos: "1 \<le> int (utf8_length tx)" using length_le_utf8_length [of tx] by (cases tx) auto
  have entries: "hex64 j \<and> 1 \<le> esize e \<and> (\<exists>f. oget (files t) j = Some f \<and> fsize f = esize e)"
    if mem: "(j, e) \<in> set (index t)" for j e
  proof (cases "j = i")
    case True
    with mem wf(1) have "esize e = int (utf8_length tx)" by (auto simp: assms(7) set_oset)
    with True assms(3) fresh pos show ?thesis by (simp add: assms(8) oget_filter_keys oget_oset)
  next
    case False
    with mem wf(1) have "(j, e) \<in> set (index s)" "j \<notin> set removals" by (auto simp: assms(7) set_oset)
    with assms(1) False show ?thesis by (fastforce simp: store_inv_def assms(8) oget_filter_keys oget_oset)
  qed
  have "osum esize (index t) \<le> quota t"
    using eviction_fits(1) [OF assms(6) wf(1)] osum_fresh [OF none, of esize] by (simp add: assms(7,9))
  moreover have "int (length (index t)) \<le> maxObjects t"
    using eviction_fits(2) [OF assms(6) wf(1)] none
    by (simp add: assms(7,10) length_oset oget_None_iff)
  ultimately show "store_inv t"
    using entries wf assms(1,9,10) by (auto simp: store_inv_def assms(7,8))
qed

lemma insert_inv:
  assumes "insert_bundle C now file_ok index_ok b pin reserve s = (r, t)" "store_inv s" "\<And>x. hex64 (sha C x)"
  shows "store_inv t"
proof (cases "verifyBundle C b now")
  case (Inl e)
  with assms show ?thesis by (simp add: insert_bundle_def)
next
  case (Inr u)
  then have ok: "verifyBundle C b now = Inr ()" by simp
  then obtain i where i: "bundle_id b = JStr i" "hex64 i" using verified_id assms(3) by blast
  have wf: "owf (index s)" "owf (files s)" using assms(2) by (auto simp: store_inv_def)
  show ?thesis
  proof (cases "oget (index s) i")
    case (Some e)
    from insert_old_frame [OF assms(1) wf(1) ok i(1) Some] show ?thesis
      using store_inv_same_sizes [OF assms(2)] by blast
  next
    case None
    show ?thesis
    proof (cases "t = s")
      case True
      with assms(2) show ?thesis by simp
    next
      case False
      obtain tx removals where p: "canon b = Inr tx" "int (utf8_length tx) \<le> quota s"
        "evictionPlan s (int (utf8_length tx)) 1 (quota s) now = Inr removals"
        "index t = oset i \<lparr>esize = int (utf8_length tx), pinned = pin, reserved = reserve, accessed = now,
           eexpires = int_of (jget (manifest_of b) (lit ''expires''))\<rparr> (filter (\<lambda>p. fst p \<notin> set removals) (index s))"
        "files t = filter (\<lambda>p. fst p \<notin> set removals) (oset i \<lparr>fsize = int (utf8_length tx),
           fvalue = Some (jnorm b), fprint = sha C (utf8 tx)\<rparr> (files s))"
        "quota t = quota s" "maxObjects t = maxObjects s"
        using assms(1) i(1) ok None False by (rule insert_newE) blast
      have "is_obj b" using verifyBundle_facts(3) [OF ok] by (cases b) (auto simp: exactShape_def is_obj_def)
      then show ?thesis by (rule new_object_inv(1) [OF assms(2) None i(2) p])
    qed
  qed
qed

text \<open>
  a new bundle that is stored fits the quota and the object limit, carries the flags it was
  given, and costs no live pinned or reserved content: every such entry is still there,
  unchanged, with its file.
\<close>

theorem put_sound:
  assumes "insert_bundle C now file_ok index_ok b pin reserve s = (Inr True, t)" "store_inv s"
    and "\<And>x. hex64 (sha C x)"
  shows "store_inv t \<and>
    (\<exists>i e. bundle_id b = JStr i \<and> oget (index s) i = None \<and> oget (index t) i = Some e \<and>
       pinned e = pin \<and> reserved e = reserve \<and>
       (\<forall>j f. oget (index s) j = Some f \<and> now < eexpires f \<and> (pinned f \<or> reserved f) \<longrightarrow>
          oget (index t) j = Some f \<and> oget (files t) j = oget (files s) j))"
proof -
  have ok: "verifyBundle C b now = Inr ()" using assms(1) by (auto simp: insert_bundle_def split: sum.splits)
  obtain i where i: "bundle_id b = JStr i" "hex64 i" using verified_id [OF ok assms(3)] .
  have wf: "owf (index s)" using assms(2) by (simp add: store_inv_def)
  have none: "oget (index s) i = None"
    using insert_old_frame [OF assms(1) wf ok i(1)] by (cases "oget (index s) i") auto
  have "t \<noteq> s"
  proof
    assume "t = s"
    moreover have "oget (index t) i \<noteq> None"
      using assms(1) ok i(1) none
      by (auto simp: insert_bundle_def Let_def str_of_def save_def oget_oset split: sum.splits if_splits)
    ultimately show False using none by simp
  qed
  then obtain tx removals where p: "evictionPlan s (int (utf8_length tx)) 1 (quota s) now = Inr removals"
      "index t = oset i \<lparr>esize = int (utf8_length tx), pinned = pin, reserved = reserve, accessed = now,
         eexpires = int_of (jget (manifest_of b) (lit ''expires''))\<rparr> (filter (\<lambda>p. fst p \<notin> set removals) (index s))"
      "files t = filter (\<lambda>p. fst p \<notin> set removals) (oset i \<lparr>fsize = int (utf8_length tx),
         fvalue = Some (jnorm b), fprint = sha C (utf8 tx)\<rparr> (files s))"
    using assms(1) i(1) ok none by (metis insert_newE)
  have "oget (index t) j = Some f \<and> oget (files t) j = oget (files s) j"
    if live: "oget (index s) j = Some f" "now < eexpires f" "pinned f \<or> reserved f" for j f
  proof -
    have "j \<notin> set removals"
      using eviction_keeps [OF p(1) wf oget_SomeD [OF live(1)]] live(2,3) by auto
    moreover have "j \<noteq> i" using none live(1) by auto
    ultimately show ?thesis using live(1) by (simp add: p(2,3) oget_oset oget_filter_keys)
  qed
  moreover have "store_inv t" by (rule insert_inv [OF assms])
  ultimately show ?thesis using i none by (auto simp: p(2) oget_oset)
qed

text \<open>
  what was stored is what is read: until the bundle expires, and whether or not the index
  write at the end succeeded, reading its address returns the bundle (with its object fields in
  canonical order).
\<close>

theorem put_get:
  assumes "insert_bundle C now file_ok index_ok b pin reserve s = (r, t)" "oget (index s) i = None"
    and "bundle_id b = JStr i" "hex64 i" "oget (index t) i = Some e" "store_inv s" "\<And>x. hex64 (sha C x)"
    and "now \<le> later" "later < int_of (jget (manifest_of b) (lit ''expires''))"
  shows "\<exists>u. read_bundle C later i touch t = (Inr (jnorm b), u)"
proof -
  have ok: "verifyBundle C b now = Inr ()"
    using assms(1,2,5) by (auto simp: insert_bundle_def split: sum.splits)
  have "t \<noteq> s" using assms(2,5) by auto
  then obtain tx removals where p: "canon b = Inr tx" "int (utf8_length tx) \<le> quota s"
    "int (utf8_length tx) \<le> MAX_STORED_BUNDLE"
    "evictionPlan s (int (utf8_length tx)) 1 (quota s) now = Inr removals"
    "index t = oset i \<lparr>esize = int (utf8_length tx), pinned = pin, reserved = reserve, accessed = now,
       eexpires = int_of (jget (manifest_of b) (lit ''expires''))\<rparr> (filter (\<lambda>p. fst p \<notin> set removals) (index s))"
    "files t = filter (\<lambda>p. fst p \<notin> set removals) (oset i \<lparr>fsize = int (utf8_length tx),
       fvalue = Some (jnorm b), fprint = sha C (utf8 tx)\<rparr> (files s))"
    "quota t = quota s" "maxObjects t = maxObjects s"
    using assms(1,3) ok assms(2) by (metis insert_newE)
  have obj: "is_obj b" using verifyBundle_facts(3) [OF ok] by (cases b) (auto simp: exactShape_def is_obj_def)
  have "i \<notin> set removals"
    by (rule new_object_inv(2) [OF assms(6,2,4) p(1,2,4-8) obj])
  then have fl: "oget (files t) i = Some \<lparr>fsize = int (utf8_length tx), fvalue = Some (jnorm b), fprint = sha C (utf8 tx)\<rparr>"
    by (simp add: p(6) oget_filter_keys oget_oset)
  have "store_inv t" using insert_inv [OF assms(1,6,7)] .
  with assms(5) fl have "1 \<le> int (utf8_length tx)"
    by (fastforce simp: store_inv_def dest: oget_SomeD)
  with fl p(3) assms(4) have state: "fileState i t = Inr \<lparr>fsize = int (utf8_length tx), fvalue = Some (jnorm b), fprint = sha C (utf8 tx)\<rparr>"
    by (simp add: fileState_def)
  have "verifyBundle C (jnorm b) later = Inr ()"
    using verifyBundle_later [OF ok assms(8,9)] by simp
  then show ?thesis
    using assms(3,4,5) state by (simp add: read_bundle_def file_bundle_def)
qed

section \<open>Every operation keeps the invariant\<close>

datatype store_event =
    Put jval bool bool bool bool
  | Get ustr bool
  | Reserve "ustr list" bool
  | Pin ustr bool bool
  | Remove ustr bool
  | Quota int bool
  | List

definition store_step :: "crypto \<Rightarrow> store_event \<times> int \<Rightarrow> store \<Rightarrow> store" where
  "store_step C ev s =
     (let (op, now) = ev in case op of
        Put b pin reserve file_ok index_ok \<Rightarrow> snd (insert_bundle C now file_ok index_ok b pin reserve s)
      | Get i touch \<Rightarrow> snd (read_bundle C now i touch s)
      | Reserve ids ok \<Rightarrow> snd (setReservations C now ok ids s)
      | Pin i p ok \<Rightarrow> snd (pin_bundle C now ok i p s)
      | Remove i ok \<Rightarrow> snd (remove_bundle ok i s)
      | Quota q ok \<Rightarrow> snd (setQuota now ok q s)
      | List \<Rightarrow> snd (list_manifests C now s))"

lemma save_inv: "store_inv s \<Longrightarrow> store_inv (snd (save ok s))"
  by (simp add: save_def store_inv_cache)

lemma read_inv: "store_inv s \<Longrightarrow> store_inv (snd (read_bundle C now i touch s))"
  using store_inv_same_sizes [of s "snd (read_bundle C now i touch s)"]
    read_bundle_frame [of C now i touch s "fst (read_bundle C now i touch s)" "snd (read_bundle C now i touch s)"]
  by (simp add: store_inv_def)

lemma reserve_inv: "store_inv s \<Longrightarrow> store_inv (snd (setReservations C now ok ids s))"
  using store_inv_same_sizes [of s "snd (setReservations C now ok ids s)"]
    setReservations_frame [of C now ok ids s "fst (setReservations C now ok ids s)" "snd (setReservations C now ok ids s)"]
  by (simp add: store_inv_def)

lemma pin_inv:
  assumes "store_inv s" shows "store_inv (snd (pin_bundle C now ok i p s))"
proof -
  obtain r u where run: "read_bundle C now i True s = (r, u)" by (cases "read_bundle C now i True s")
  have u: "store_inv u" using read_inv [OF assms, of C now i True] run by simp
  have "store_inv (u\<lparr>index := oset i (e\<lparr>pinned := p\<rparr>) (index u)\<rparr>)" if "oget (index u) i = Some e" for e
  proof (rule store_inv_same_sizes [OF u])
    have "owf (index u)" using u by (simp add: store_inv_def)
    then show "same_sizes (index u) (index (u\<lparr>index := oset i (e\<lparr>pinned := p\<rparr>) (index u)\<rparr>))"
      using same_sizes_oset that by simp
  qed simp_all
  then show ?thesis using run u save_inv by (auto simp: pin_bundle_def split: sum.split option.split)
qed

lemma quota_inv:
  assumes "store_inv s" shows "store_inv (snd (setQuota now ok q s))"
proof (cases "evictionPlan s 0 0 q now")
  case (Inr removals)
  show ?thesis
  proof (cases "q < 1024 * 1024 \<or> q > 1024 ^ 3")
    case False
    have rem: "store_inv (removeEntries removals s)" using store_inv_remove [OF assms] .
    have "owf (index s)" using assms by (simp add: store_inv_def)
    then have "osum esize (index (removeEntries removals s)) \<le> q"
      using eviction_fits(1) [OF Inr] by simp
    with rem False have "store_inv ((removeEntries removals s)\<lparr>quota := q\<rparr>)" by (auto simp: store_inv_def)
    with False Inr save_inv show ?thesis by (simp add: setQuota_def)
  qed (use assms in \<open>simp add: setQuota_def\<close>)
qed (use assms in \<open>simp add: setQuota_def\<close>)

lemma list_ids_inv: "store_inv s \<Longrightarrow> store_inv (snd (list_ids C now ids s))"
proof (induction ids arbitrary: s)
  case (Cons i ids)
  have r: "store_inv (snd (read_bundle C now i False s))" by (rule read_inv [OF Cons.prems])
  show ?case
    using Cons r by (auto simp: Let_def store_inv_cache case_prod_beta split: option.split sum.split prod.splits)
qed simp

interpretation store_run: step_invariant "store_step C" "\<lambda>s. (\<forall>x. hex64 (sha C x)) \<longrightarrow> store_inv s"
proof
  fix s :: store and ev :: "store_event \<times> int"
  assume inv: "(\<forall>x. hex64 (sha C x)) \<longrightarrow> store_inv s"
  obtain op now where ev: "ev = (op, now)" by (cases ev)
  show "(\<forall>x. hex64 (sha C x)) \<longrightarrow> store_inv (store_step C ev s)"
  proof
    assume h: "\<forall>x. hex64 (sha C x)"
    with inv have s: "store_inv s" by simp
    show "store_inv (store_step C ev s)"
    proof (cases op)
      case (Put b pin reserve fok iok)
      then show ?thesis
        using insert_inv [of C now fok iok b pin reserve s "fst (insert_bundle C now fok iok b pin reserve s)"
          "snd (insert_bundle C now fok iok b pin reserve s)"] s h
        by (simp add: ev store_step_def)
    next
      case (Remove i ok)
      then show ?thesis using s save_inv store_inv_remove
        by (simp add: ev store_step_def remove_bundle_def del: removeEntries_Cons)
    next
      case List
      then show ?thesis using list_ids_inv [OF s] by (simp add: ev store_step_def list_manifests_def case_prod_beta)
    qed (simp_all add: ev store_step_def s read_inv reserve_inv pin_inv quota_inv)
  qed
qed

text \<open>
  C2: whatever operations are run on a store, in any order, with failing disk writes among them,
  its stored bytes stay within the quota and its objects within the limit, and every entry of
  the index has a file of exactly the size it accounts for.
\<close>

theorem store_stays_bounded:
  assumes "store_inv s" "\<And>x. hex64 (sha C x)"
  shows "store_inv (fold (store_step C) evs s)"
  using store_run.run_inv [of C s evs] assms by simp

section \<open>Opening a directory\<close>

definition good_file :: "crypto \<Rightarrow> int \<Rightarrow> ustr \<Rightarrow> stored_file \<Rightarrow> bool" where
  "good_file C now i f \<longleftrightarrow> 1 \<le> fsize f \<and> fsize f \<le> MAX_STORED_BUNDLE \<and> (\<exists>b. file_bundle C now i f = Inr b)"

definition rebuilt :: "(ustr, jval + entry) omap \<Rightarrow> int \<Rightarrow> ustr \<Rightarrow> stored_file \<Rightarrow> entry" where
  "rebuilt r now i f = \<lparr>esize = fsize f, pinned = raw_flag r i ''pinned'' pinned,
     reserved = raw_flag r i ''reserved'' reserved, accessed = raw_accessed r i now,
     eexpires = (case fvalue f of Some b \<Rightarrow> int_of (jget (manifest_of b) (lit ''expires'')) | None \<Rightarrow> 0)\<rparr>"

lemma rebuilt_local: "oget r i = oget r' i \<Longrightarrow> rebuilt r now i f = rebuilt r' now i f"
  by (simp add: rebuilt_def raw_flag_def raw_accessed_def)

lemma reconcile_file_step:
  "reconcile_file C now (i, f) (r, fs) =
     (if good_file C now i f then (oset i (Inr (rebuilt r now i f)) r, fs) else (odel i r, odel i fs))"
  by (auto simp: reconcile_file_def good_file_def rebuilt_def file_bundle_def Let_def not_le
      split: sum.split option.splits if_splits)

lemma reconcile_all:
  assumes "owf ps" "owf r"
  shows "owf (fst (fold (reconcile_file C now) ps (r, fs))) \<and>
    (\<forall>i. oget (fst (fold (reconcile_file C now) ps (r, fs))) i =
       (case oget ps i of None \<Rightarrow> oget r i
        | Some f \<Rightarrow> if good_file C now i f then Some (Inr (rebuilt r now i f)) else None)) \<and>
    snd (fold (reconcile_file C now) ps (r, fs)) =
       filter (\<lambda>p. case oget ps (fst p) of None \<Rightarrow> True | Some f \<Rightarrow> good_file C now (fst p) f) fs"
  using assms
proof (induction ps arbitrary: r fs)
  case (Cons p ps)
  obtain k f where p: "p = (k, f)" by (cases p)
  define r1 where "r1 = (if good_file C now k f then oset k (Inr (rebuilt r now k f)) r else odel k r)"
  define fs1 where "fs1 = (if good_file C now k f then fs else odel k fs)"
  have step: "fold (reconcile_file C now) (p # ps) (r, fs) = fold (reconcile_file C now) ps (r1, fs1)"
    by (simp add: p reconcile_file_step r1_def fs1_def)
  have wf: "owf ps" "owf r1" "oget ps k = None"
    using Cons.prems(1) owf_oset [OF Cons.prems(2)] owf_odel [OF Cons.prems(2)]
    by (simp_all add: r1_def) (auto simp: p owf_def oget_None_iff)
  note IH = Cons.IH [OF wf(1,2), of fs1]
  let ?fin = "fold (reconcile_file C now) ps (r1, fs1)"
  have "oget (fst ?fin) i = (case oget (p # ps) i of None \<Rightarrow> oget r i
      | Some f \<Rightarrow> if good_file C now i f then Some (Inr (rebuilt r now i f)) else None)" for i
    using IH wf(3) rebuilt_local [of r1 i r]
    by (auto simp: p r1_def oget_oset oget_odel split: option.split)
  moreover have "snd ?fin = filter (\<lambda>q. case oget (p # ps) (fst q) of None \<Rightarrow> True | Some f \<Rightarrow> good_file C now (fst q) f) fs"
    using IH wf(3) by (auto simp: p fs1_def odel_def intro!: filter_cong)
  ultimately show ?case using IH unfolding step by blast
qed simp

lemma file_bundle_facts:
  assumes "file_bundle C now i f = Inr b"
  shows "fvalue f = Some b" "bundle_id b = JStr i" "verifyBundle C b now = Inr ()"
  using assms by (auto simp: file_bundle_def split: option.splits if_splits sum.splits)

text \<open>The typed index of a directory whose files have all been checked.\<close>

lemma typed_index_get:
  assumes "owf r"
  shows "owf (typed_index (r, fs))"
    "(i, e) \<in> set (typed_index (r, fs)) \<longleftrightarrow> hex64 i \<and> ohas fs i \<and> oget r i = Some (Inr e)"
proof -
  let ?f = "\<lambda>(i, v). if hex64 i \<and> ohas fs i then (case v of Inr e \<Rightarrow> Some (i, e) | Inl _ \<Rightarrow> None) else None"
  have keys: "fst ` set (List.map_filter ?f m) \<subseteq> fst ` set m" for m :: "(ustr, jval + entry) omap"
    by (auto simp: List.map_filter_def split: if_splits sum.splits) (metis fst_conv imageI)
  have "owf (List.map_filter ?f m)" if "owf m" for m :: "(ustr, jval + entry) omap"
    using that
  proof (induction m)
    case (Cons p m)
    then have "owf (List.map_filter ?f m)" "fst p \<notin> fst ` set (List.map_filter ?f m)"
      using keys [of m] by (auto simp: owf_def)
    then show ?case by (cases p) (auto simp: List.map_filter_simps owf_def split: sum.split)
  qed (simp add: List.map_filter_simps)
  with assms show "owf (typed_index (r, fs))" by (simp add: typed_index_def)
  have "(i, e) \<in> set (List.map_filter ?f r) \<longleftrightarrow> hex64 i \<and> ohas fs i \<and> (i, Inr e) \<in> set r"
    by (force simp: List.map_filter_def split: sum.splits if_splits)
  then show "(i, e) \<in> set (typed_index (r, fs)) \<longleftrightarrow> hex64 i \<and> ohas fs i \<and> oget r i = Some (Inr e)"
    using assms by (simp add: typed_index_def oget_iff)
qed

text \<open>The flags of the index that was on disk.\<close>

definition raw_map :: "jval option \<Rightarrow> (ustr, jval + entry) omap" where
  "raw_map raw = (case raw of None \<Rightarrow> [] | Some v \<Rightarrow> map (\<lambda>(i, w). (i, Inl w)) (fields_of v))"

lemma open_storeE:
  assumes "open_store C now ok dir raw q mx = Inr s" "owf dir" "\<forall>v. raw = Some v \<longrightarrow> owf (fields_of v)"
  obtains removals s0 where
    "owf (index s0)" "owf (files s0)" "quota s0 = q" "maxObjects s0 = mx" "1 \<le> q" "1 \<le> mx"
    "\<forall>i e. (i, e) \<in> set (index s0) \<longleftrightarrow>
       hex64 i \<and> (\<exists>f. oget dir i = Some f \<and> good_file C now i f \<and> e = rebuilt (raw_map raw) now i f)"
    "\<forall>i f. oget (files s0) i = Some f \<longleftrightarrow> oget dir i = Some f \<and> good_file C now i f"
    "evictionPlan s0 0 0 q now = Inr removals" "s = (removeEntries removals s0)\<lparr>saved := index s\<rparr>"
proof -
  have wf0: "owf (raw_map raw)"
    using assms(3) by (auto simp: raw_map_def owf_def comp_def case_prod_beta split: option.split)
  obtain r fs where fold: "fold (reconcile_file C now) dir (raw_map raw, dir) = (r, fs)"
    by (cases "fold (reconcile_file C now) dir (raw_map raw, dir)")
  note rec = reconcile_all [OF assms(2) wf0, of C now dir, unfolded fold fst_conv snd_conv]
  let ?s0 = "\<lparr>index = typed_index (r, fs), files = fs, cache = [], quota = q, maxObjects = mx, saved = []\<rparr>"
  from assms(1) fold obtain removals where ev: "evictionPlan ?s0 0 0 q now = Inr removals"
    and s: "s = (removeEntries removals ?s0)\<lparr>saved := index (removeEntries removals ?s0)\<rparr>" and lim: "1 \<le> q" "1 \<le> mx"
    by (auto simp: open_store_def raw_map_def bindR_Inr_iff Let_def save_def split: if_splits option.splits)
  have good: "filter (\<lambda>p. case oget dir (fst p) of None \<Rightarrow> True | Some f \<Rightarrow> good_file C now (fst p) f) dir =
      filter (\<lambda>p. good_file C now (fst p) (snd p)) dir"
    using oget_in_set [OF assms(2)] by (intro filter_cong) (auto simp: prod_eq_iff)
  then have fs: "fs = filter (\<lambda>p. good_file C now (fst p) (snd p)) dir" using rec by simp
  have fs_get: "oget fs i = Some f \<longleftrightarrow> oget dir i = Some f \<and> good_file C now i f" for i f
    using assms(2) by (simp add: fs oget_iff)
  have no_old: "oget (raw_map raw) i \<noteq> Some (Inr e)" for i e
    by (auto simp: raw_map_def dest!: oget_SomeD split: option.splits)
  have "(i, e) \<in> set (index ?s0) \<longleftrightarrow>
      hex64 i \<and> (\<exists>f. oget dir i = Some f \<and> good_file C now i f \<and> e = rebuilt (raw_map raw) now i f)" for i e
    using rec fs_get [of i] no_old [of i]
    by (auto simp: typed_index_get(2) ohas_iff split: option.splits if_splits)
  then show ?thesis
    using that [of ?s0 removals] typed_index_get(1) [of r fs] rec fs assms(2) lim fs_get ev s
    by simp
qed

text \<open>
  C31: opening a directory after a crash trusts only what it can check. Every entry of the new
  index stands for a file that parses, carries its own address and verifies; sizes and expiry
  come from the file, never from the old index; the limits hold; and a verified file that was
  pinned or reserved is never lost.
\<close>

theorem open_store_sound:
  assumes "open_store C now ok dir raw q mx = Inr s" "owf dir" "\<forall>v. raw = Some v \<longrightarrow> owf (fields_of v)"
  shows "store_inv s \<and>
    (\<forall>(i, e) \<in> set (index s). \<exists>f b. oget dir i = Some f \<and> fvalue f = Some b \<and> bundle_id b = JStr i \<and>
       verifyBundle C b now = Inr () \<and> esize e = fsize f \<and>
       eexpires e = int_of (jget (manifest_of b) (lit ''expires''))) \<and>
    (\<forall>i f. oget dir i = Some f \<and> hex64 i \<and> good_file C now i f \<and>
       (raw_flag (raw_map raw) i ''pinned'' pinned \<or> raw_flag (raw_map raw) i ''reserved'' reserved) \<longrightarrow>
       oget (index s) i = Some (rebuilt (raw_map raw) now i f))"
proof -
  obtain removals s0 where p: "owf (index s0)" "owf (files s0)" "quota s0 = q" "maxObjects s0 = mx" "1 \<le> q" "1 \<le> mx"
    "\<forall>i e. (i, e) \<in> set (index s0) \<longleftrightarrow>
       hex64 i \<and> (\<exists>f. oget dir i = Some f \<and> good_file C now i f \<and> e = rebuilt (raw_map raw) now i f)"
    "\<forall>i f. oget (files s0) i = Some f \<longleftrightarrow> oget dir i = Some f \<and> good_file C now i f"
    "evictionPlan s0 0 0 q now = Inr removals" "s = (removeEntries removals s0)\<lparr>saved := index s\<rparr>"
    using assms by (rule open_storeE)
  have index: "index s = filter (\<lambda>p. fst p \<notin> set removals) (index s0)"
    and files: "files s = filter (\<lambda>p. fst p \<notin> set removals) (files s0)"
    and limits: "quota s = q" "maxObjects s = mx"
    using arg_cong [OF p(10), of index] arg_cong [OF p(10), of files] arg_cong [OF p(10), of quota]
      arg_cong [OF p(10), of maxObjects] p(3,4) by simp_all
  have rebuilt: "\<exists>f b. oget dir i = Some f \<and> fvalue f = Some b \<and> bundle_id b = JStr i \<and>
       verifyBundle C b now = Inr () \<and> esize e = fsize f \<and>
       eexpires e = int_of (jget (manifest_of b) (lit ''expires''))" if "(i, e) \<in> set (index s0)" for i e
    using that p(7) file_bundle_facts by (fastforce simp: good_file_def rebuilt_def)
  have entry: "hex64 i \<and> 1 \<le> esize e \<and> (\<exists>f. oget (files s) i = Some f \<and> fsize f = esize e)"
    if "(i, e) \<in> set (index s)" for i e
    using that p(7,8) by (auto simp: index files oget_filter_keys good_file_def rebuilt_def)
  have "store_inv s"
    using entry eviction_fits [OF p(9,1)] p(1-6) by (auto simp: store_inv_def index files limits)
  moreover have "oget (index s) i = Some (rebuilt (raw_map raw) now i f)"
    if f: "oget dir i = Some f" "hex64 i" "good_file C now i f"
      "raw_flag (raw_map raw) i ''pinned'' pinned \<or> raw_flag (raw_map raw) i ''reserved'' reserved" for i f
  proof -
    let ?e = "rebuilt (raw_map raw) now i f"
    have mem: "(i, ?e) \<in> set (index s0)" using p(7) f by blast
    obtain b where b: "file_bundle C now i f = Inr b" using f(3) by (auto simp: good_file_def)
    have "now < int_of (jget (manifest_of b) (lit ''expires''))"
      using verifyManifest_facts(4) [OF verifyBundle_facts(1) [OF file_bundle_facts(3) [OF b]]]
      by (simp add: live_window_def Let_def)
    then have "now < eexpires ?e" by (simp add: rebuilt_def file_bundle_facts(1) [OF b])
    moreover have "pinned ?e \<or> reserved ?e" using f(4) by (simp add: rebuilt_def)
    ultimately have "i \<notin> set removals" using eviction_keeps [OF p(9,1) mem] by auto
    with mem p(1) show ?thesis by (simp add: index oget_filter_keys oget_iff)
  qed
  ultimately show ?thesis using rebuilt by (fastforce simp: index)
qed

end
