(* ===== verification/Bundle_Create.thy ===== *)
theory Bundle_Create
  imports Bundle
begin

text \<open>
  A bundle that \<open>createBundle\<close> returns is accepted by \<open>verifyBundle\<close> until it expires, and
  \<open>decryptBundle\<close> gives its payload back to every reader
  (\<open>packages/core/src/index.ts\<close>). The laws of the cryptographic library that this rests
  on are named in \<open>crypto_laws\<close>.
\<close>

section \<open>Chunks\<close>

lemma split_chunks_Nil [simp]: "split_chunks n [] = []"
  by (subst split_chunks.simps) simp

lemma concat_split_chunks [simp]: "0 < n \<Longrightarrow> concat (split_chunks n bs) = bs"
proof (induction n bs rule: split_chunks.induct)
  case (1 n bs)
  then show ?case by (subst split_chunks.simps) simp
qed

lemma split_chunks_sizes: "c \<in> set (split_chunks n bs) \<Longrightarrow> 1 \<le> length c \<and> length c \<le> n"
proof (induction n bs rule: split_chunks.induct)
  case (1 n bs)
  then show ?case
    by (cases "bs = [] \<or> n = 0") (auto simp: split_chunks.simps [of n bs] Suc_le_eq)
qed

lemma length_split_chunks: "0 < n \<Longrightarrow> length (split_chunks n bs) = (length bs + n - 1) div n"
proof (induction n bs rule: split_chunks.induct)
  case (1 n bs)
  show ?case
  proof (cases "bs = []")
    case False
    with 1 have "length (split_chunks n bs) = Suc ((length (drop n bs) + n - 1) div n)"
      by (simp add: split_chunks.simps [of n bs])
    also have "\<dots> = (length bs + n - 1) div n"
    proof (cases "length bs \<le> n")
      case True
      with False 1(2) have "(length bs + n - 1) div n = 1"
        by (intro div_nat_eqI) (auto simp: Suc_le_eq neq_Nil_conv)
      with True 1(2) show ?thesis by simp
    next
      case long: False
      then have "length bs + n - 1 = (length (drop n bs) + n - 1) + n" by simp
      with 1(2) show ?thesis using div_add_self2 [of n "length (drop n bs) + n - 1"] by (metis Suc_eq_plus1 neq0_conv)
    qed
    finally show ?thesis .
  next
    case True
    with 1(2) show ?thesis by simp
  qed
qed

lemma split_chunks_empty [simp]: "split_chunks n bs = [] \<longleftrightarrow> bs = [] \<or> n = 0"
  by (simp add: split_chunks.simps [of n bs])

text \<open>The table of chunks holds every chunk under its hash.\<close>

lemma chunk_table_fold:
  assumes "inj_on (sha C) (set cs \<union> S)"
    and "\<forall>c \<in> S. oget m (sha C c) = Some (JStr (b64 c))"
  shows "\<forall>c \<in> set cs \<union> S. oget (fold (\<lambda>c m. oset (sha C c) (JStr (b64 c)) m) cs m) (sha C c) = Some (JStr (b64 c))"
  using assms
proof (induction cs arbitrary: m S)
  case (Cons d cs)
  have "\<forall>c \<in> insert d S. oget (oset (sha C d) (JStr (b64 d)) m) (sha C c) = Some (JStr (b64 c))"
    using Cons.prems by (auto simp: oget_oset inj_on_def)
  with Cons.IH [of "insert d S"] Cons.prems(1) show ?case by simp
qed simp

lemma chunk_table_get:
  "inj_on (sha C) (set cs) \<Longrightarrow> c \<in> set cs \<Longrightarrow> oget (chunk_table C cs) (sha C c) = Some (JStr (b64 c))"
  using chunk_table_fold [of C cs "{}" "[]"] by (simp add: chunk_table_def)

lemma length_chunk_table: "length (chunk_table C cs) \<le> length cs"
proof -
  have "length (fold (\<lambda>c m. oset (sha C c) (JStr (b64 c)) m) cs m) \<le> length m + length cs" for m
  proof (induction cs arbitrary: m)
    case (Cons c cs)
    from Cons [of "oset (sha C c) (JStr (b64 c)) m"] show ?case
      by (simp add: length_oset split: if_splits)
  qed simp
  from this [of "[]"] show ?thesis by (simp add: chunk_table_def)
qed

section \<open>Identities\<close>

lemma validateIdentity_facts:
  assumes "validateIdentity C p"
  obtains sk bk pf name where "exactShape p identity_keys"
    "jget p (lit ''name'') = JStr name" "length name \<le> 64"
    "jget p (lit ''signKey'') = JStr (b64 sk)" "length sk = 44" "spki C sk = Some Ed25519"
    "jget p (lit ''id'') = JStr (sha C sk)"
    "jget p (lit ''boxKey'') = JStr (b64 bk)" "length (b64 bk) \<le> 256" "spki C bk = Some X25519"
    "jget p (lit ''proof'') = JStr (b64 pf)" "length (b64 pf) \<le> 128"
proof -
  have len: "un64 v n = Inr b \<Longrightarrow> v = JStr (b64 b) \<and> int (length (b64 b)) \<le> n" for v n b
    by (cases v) (auto simp: un64_def split: if_splits)
  from assms have shape: "exactShape p identity_keys" "is_str (jget p (lit ''name''))"
      "length (str_of (jget p (lit ''name''))) \<le> 64"
    by (auto simp: validateIdentity_def identity_check_def Let_def split: if_splits)
  from assms obtain sk where sk: "un64 (jget p (lit ''signKey'')) 256 = Inr sk"
    by (auto simp: validateIdentity_def identity_check_def Let_def bindR_Inr_iff split: if_splits)
  then have adm: "admittedSigningKey sk" "jget p (lit ''id'') = JStr (sha C sk)"
    using assms by (auto simp: validateIdentity_def identity_check_def Let_def bindR_Inr_iff split: if_splits)
  from adm assms sk obtain bk where bk: "un64 (jget p (lit ''boxKey'')) 256 = Inr bk"
      "spki C sk = Some Ed25519" "spki C bk = Some X25519"
    by (auto simp: validateIdentity_def identity_check_def Let_def bindR_Inr_iff split: if_splits option.splits)
  with adm assms sk obtain pf where pf: "un64 (jget p (lit ''proof'')) 128 = Inr pf"
    by (auto simp: validateIdentity_def identity_check_def Let_def bindR_Inr_iff split: if_splits option.splits)
  have "length sk = 44" using adm(1) by (simp add: admittedSigningKey_def split: if_splits)
  then show ?thesis
    using that [of "str_of (jget p (lit ''name''))" sk bk pf] shape adm bk len [OF sk] len [OF bk(1)] len [OF pf]
    by (auto simp: is_str_def str_of_def split: jval.splits)
qed

section \<open>The laws the construction rests on\<close>

definition crypto_laws :: "crypto \<Rightarrow> bool" where
  "crypto_laws C \<longleftrightarrow>
     (\<forall>b. hex64 (sha C b)) \<and>
     (\<forall>k n ad d. length (fst (gcm_seal C k n ad d)) = length d \<and> length (snd (gcm_seal C k n ad d)) = 16 \<and>
        gcm_open C k n ad (fst (gcm_seal C k n ad d)) (snd (gcm_seal C k n ad d)) = Some d) \<and>
     (\<forall>x. spki C (x_public C x) = Some X25519 \<and> length (x_public C x) = 44) \<and>
     (\<forall>x y. dh C x (x_public C y) = dh C y (x_public C x))"

definition random_ok :: "random_values \<Rightarrow> bool" where
  "random_ok rnd \<longleftrightarrow> length (r_key rnd) = 32 \<and> length (r_nonce rnd) = 12 \<and> length (r_salt rnd) = 16 \<and>
     (\<forall>i. length (r_wrap rnd i) = 12)"

definition sender_ok :: "crypto \<Rightarrow> sender \<Rightarrow> bool" where
  "sender_ok C identity \<longleftrightarrow>
     validateIdentity C (sender_public identity) \<and>
     (\<forall>secret sk pk m. un64 (JStr (signSecret identity)) 256 = Inr secret \<and> import_private C secret = Some sk \<and>
        jget (sender_public identity) (lit ''signKey'') = JStr (b64 pk) \<longrightarrow>
        verify_sig C pk m (sign C sk m) \<and> length (sign C sk m) = 64)"

lemma b64_unescaped [simp]: "list_all unescaped (b64 b)"
proof -
  have c: "unescaped (b64_char n)" if "n < 64" for n
    using that by (auto simp: unescaped_def b64_char_def)
  have pad: "unescaped 61" by (simp add: unescaped_def)
  show ?thesis by (induction b rule: b64.induct) (simp_all add: c pad)
qed

text \<open>The measures of the values a manifest is made of.\<close>

lemma hex64_measures [simp]: "hex64 s \<Longrightarrow> weight (JStr s) = 66"
  by (simp add: hex64_def [of s])

lemma b64_measures [simp]: "weight (JStr (b64 b)) = 4 * ((length b + 2) div 3) + 2"
  by (simp add: length_b64)

lemma escape_lit: "length (escape (lit k)) \<le> 6 * length k"
  using length_escape [of "lit k"] by simp

section \<open>Envelopes\<close>

lemma wrap_facts:
  assumes "wrap C eph nonce key reader = Inr e" "crypto_laws C" "length nonce = 12" "length key = 32"
    and "jget reader (lit ''id'') = JStr rid" "hex64 rid"
  obtains bk d t where "un64_any (jget reader (lit ''boxKey'')) = Inr bk"
    "(d, t) = gcm_seal C (hkdf C (dh C eph bk) (utf8 rid) reader_info) nonce (utf8 rid) key"
    "length d = 32" "length t = 16"
    "e = JObj [(lit ''reader'', JStr rid), (lit ''ephemeral'', JStr (b64 (x_public C eph))),
       (lit ''nonce'', JStr (b64 nonce)), (lit ''data'', JStr (b64 d)), (lit ''tag'', JStr (b64 t))]"
proof -
  from assms(1,5) obtain bk where bk: "un64_any (jget reader (lit ''boxKey'')) = Inr bk"
    "e = JObj ([(lit ''reader'', JStr rid), (lit ''ephemeral'', JStr (b64 (x_public C eph)))] @
       sealed_fields C nonce key (hkdf C (dh C eph bk) (utf8 rid) reader_info) (utf8 rid))"
    by (auto simp: wrap_def bindR_Inr_iff Let_def str_of_def split: option.splits)
  let ?s = "gcm_seal C (hkdf C (dh C eph bk) (utf8 rid) reader_info) nonce (utf8 rid) key"
  have "length (fst ?s) = 32" "length (snd ?s) = 16" using assms(2,4) by (simp_all add: crypto_laws_def)
  then show ?thesis using that [OF bk(1), of "fst ?s" "snd ?s"] bk(2)
    by (simp add: sealed_fields_def case_prod_beta)
qed

lemma un64_b64: "un64 (JStr (b64 b)) n = Inr b \<longleftrightarrow> int (4 * ((length b + 2) div 3)) \<le> n"
  unfolding length_b64 [symmetric] by (auto simp: un64_def)

lemma un64_b64_iff: "un64 (JStr (b64 a)) n = Inr b \<longleftrightarrow> a = b \<and> int (4 * ((length b + 2) div 3)) \<le> n"
  using un64_value [of "JStr (b64 a)" n b] un64_b64 [of b n] from64_b64 by (metis jval.inject(4))

lemma sized_b64:
  "int (4 * ((length b + 2) div 3)) \<le> n \<Longrightarrow> length b = k \<Longrightarrow> sized (JStr (b64 b)) n k e = Inr b"
  using un64_b64 [of b n] by (simp add: sized_def code_def)

lemma wrap_verifies:
  assumes "wrap C eph nonce key reader = Inr e" "crypto_laws C" "length nonce = 12" "length key = 32"
    and "jget reader (lit ''id'') = JStr rid" "hex64 rid"
  shows "verify_envelope C e = Inr ()" "jget e (lit ''reader'') = JStr rid"
    "plain e" "safe_ints e" "nesting e \<le> 1" "weight e \<le> 430"
proof -
  from assms obtain bk d t where w: "length d = 32" "length t = 16"
    "e = JObj [(lit ''reader'', JStr rid), (lit ''ephemeral'', JStr (b64 (x_public C eph))),
       (lit ''nonce'', JStr (b64 nonce)), (lit ''data'', JStr (b64 d)), (lit ''tag'', JStr (b64 t))]"
    by (rule wrap_facts)
  have pub: "length (x_public C eph) = 44" "spki C (x_public C eph) = Some X25519"
    using assms(2) by (simp_all add: crypto_laws_def)
  have "un64 (JStr (b64 (x_public C eph))) 256 = Inr (x_public C eph)"
    using pub(1) by (simp add: un64_b64)
  moreover have "sized (JStr (b64 nonce)) 128 12 BadEnvelope = Inr nonce"
    "sized (JStr (b64 t)) 128 16 BadEnvelope = Inr t" "sized (JStr (b64 d)) 128 32 BadEnvelope = Inr d"
    using w(1,2) assms(3) by (simp_all add: sized_b64)
  ultimately show "verify_envelope C e = Inr ()"
    using pub(2) assms(6)
    by (simp add: w(3) verify_envelope_def Let_def exactShape_def jget_def ohas_def code_def)
  show "jget e (lit ''reader'') = JStr rid" by (simp add: w(3) jget_def)
  show "plain e" "safe_ints e" by (simp_all add: w(3))
  show "nesting e \<le> 1" by (simp add: w(3) nesting_le)
  show "weight e \<le> 430"
    using escape_lit [of "''reader''"] escape_lit [of "''ephemeral''"] escape_lit [of "''nonce''"]
      escape_lit [of "''data''"] escape_lit [of "''tag''"] w(1,2) pub assms(3,6)
    by (simp add: w(3) del: weight.simps(1))
qed

section \<open>The manifest\<close>

lemma author_measures:
  assumes "validateIdentity C p" "crypto_laws C"
  shows "plain p" "safe_ints p" "nesting p \<le> 1" "weight p \<le> 1100"
proof -
  obtain sk bk pf name where f: "exactShape p identity_keys"
    "jget p (lit ''name'') = JStr name" "length name \<le> 64"
    "jget p (lit ''signKey'') = JStr (b64 sk)" "length sk = 44" "spki C sk = Some Ed25519"
    "jget p (lit ''id'') = JStr (sha C sk)"
    "jget p (lit ''boxKey'') = JStr (b64 bk)" "length (b64 bk) \<le> 256" "spki C bk = Some X25519"
    "jget p (lit ''proof'') = JStr (b64 pf)" "length (b64 pf) \<le> 128"
    using assms(1) by (rule validateIdentity_facts)
  have d: "distinct identity_keys" by (simp add: identity_keys_def)
  note m = exactShape_measures [OF f(1) d]
  show "plain p" "safe_ints p" "nesting p \<le> 1"
    unfolding m using f by (simp_all add: identity_keys_def)
  have "length (escape name) \<le> 384" using length_escape [of name] f(3) by simp
  moreover have "hex64 (sha C sk)" using assms(2) by (simp add: crypto_laws_def)
  moreover have "length (escape (lit ''id'')) \<le> 12" "length (escape (lit ''name'')) \<le> 24"
    "length (escape (lit ''signKey'')) \<le> 42" "length (escape (lit ''boxKey'')) \<le> 36"
    "length (escape (lit ''proof'')) \<le> 30"
    using escape_lit [of "''id''"] escape_lit [of "''name''"] escape_lit [of "''signKey''"]
      escape_lit [of "''boxKey''"] escape_lit [of "''proof''"] by simp_all
  moreover have "weight (JStr (b64 sk)) = 62" using f(5) by (simp add: length_b64)
  moreover have "length (sha C sk) = 64" "length (b64 bk) \<le> 256" "length (b64 pf) \<le> 128"
    using f assms(2) by (simp_all add: crypto_laws_def hex64_def)
  ultimately show "weight p \<le> 1100"
    unfolding m by (simp add: identity_keys_def f(2,4,7,8,11) del: b64_measures)
qed

text \<open>What \<open>createBundle\<close> puts into a manifest.\<close>

definition good_parts :: "crypto \<Rightarrow> sender \<Rightarrow> ustr \<Rightarrow> int \<Rightarrow> int \<Rightarrow> bytes \<Rightarrow> bytes \<Rightarrow> bytes list \<Rightarrow> jval list \<Rightarrow> bytes option \<Rightarrow> bytes \<Rightarrow> bool" where
  "good_parts C identity kind created expires nonce tag cs keys pub salt \<longleftrightarrow>
     crypto_laws C \<and> validateIdentity C (sender_public identity) \<and> kind_name kind \<and>
     safe_integer created \<and> safe_integer expires \<and> created < expires \<and> expires - created \<le> 365 * 86400000 \<and>
     length nonce = 12 \<and> length tag = 16 \<and> length salt = 16 \<and>
     1 \<le> length cs \<and> length cs \<le> 171 \<and> (\<forall>c \<in> set cs. 1 \<le> length c \<and> int (length c) \<le> CHUNK_SIZE) \<and>
     int (length (concat cs)) \<le> MAX_CONTENT \<and>
     length keys \<le> 64 \<and> (pub = None \<longrightarrow> keys \<noteq> []) \<and> (\<forall>k. pub = Some k \<longrightarrow> length k = 32) \<and>
     (\<forall>e \<in> set keys. verify_envelope C e = Inr () \<and> plain e \<and> safe_ints e \<and> nesting e \<le> 1 \<and> weight e \<le> 430)"

lemma chunk_ref_measures:
  assumes "crypto_laws C" "int (length c) \<le> CHUNK_SIZE"
  shows "plain (chunk_ref C c)" "safe_ints (chunk_ref C c)" "nesting (chunk_ref C c) \<le> 1"
    "weight (chunk_ref C c) \<le> 141"
proof -
  have h: "hex64 (sha C c)" using assms(1) by (simp add: crypto_laws_def)
  show "plain (chunk_ref C c)" "nesting (chunk_ref C c) \<le> 1"
    by (simp_all add: chunk_ref_def nesting_le)
  show "safe_ints (chunk_ref C c)"
    using assms(2) by (simp add: chunk_ref_def safe_integer_def MAX_SAFE_def CHUNK_SIZE_def)
  show "weight (chunk_ref C c) \<le> 141"
    using h escape_lit [of "''hash''"] escape_lit [of "''size''"] by (simp add: chunk_ref_def del: weight.simps(1) add: weight.simps(2))
qed

lemma sum_list_le_const: "\<forall>x \<in> set xs. f x \<le> n \<Longrightarrow> sum_list (map f xs) \<le> length xs * (n :: nat)"
  by (induction xs) auto

definition parts_body ::
    "crypto \<Rightarrow> sender \<Rightarrow> ustr \<Rightarrow> int \<Rightarrow> int \<Rightarrow> bytes \<Rightarrow> bytes \<Rightarrow> bytes list \<Rightarrow> jval list \<Rightarrow> bytes option \<Rightarrow> bytes \<Rightarrow> (ustr, jval) omap" where
  "parts_body C identity kind created expires nonce tag cs keys pub salt =
     body_fields identity kind created expires nonce tag (map (chunk_ref C) cs) keys pub salt"

lemma length_kind: "kind_name s \<Longrightarrow> length (escape s) \<le> 192"
  using length_escape [of s] by (cases s) (auto simp: kind_name_def)

lemma fields_measures:
  assumes "good_parts C identity kind created expires nonce tag cs keys pub salt"
    and "v = JObj (parts_body C identity kind created expires nonce tag cs keys pub salt @ extra)"
    and "\<forall>p \<in> set extra. plain (snd p) \<and> safe_ints (snd p) \<and> nesting (snd p) = 0"
  shows "plain v" "safe_ints v" "nesting v \<le> 3"
    "weight v \<le> 60000 + sum_list (map (\<lambda>p. length (escape (fst p)) + weight (snd p) + 4) extra)"
proof -
  note g = assms(1) [unfolded good_parts_def]
  have laws: "crypto_laws C" and valid: "validateIdentity C (sender_public identity)" using g by simp_all
  note author = author_measures [OF valid laws]
  have small: "\<forall>c \<in> set cs. int (length c) \<le> CHUNK_SIZE" using g by simp
  have refs: "\<forall>c \<in> set cs. plain (chunk_ref C c) \<and> safe_ints (chunk_ref C c) \<and> nesting (chunk_ref C c) \<le> 1 \<and>
      weight (chunk_ref C c) \<le> 141"
    using small chunk_ref_measures [OF laws] by simp
  have pub: "plain (case pub of None \<Rightarrow> JNull | Some k \<Rightarrow> JStr (b64 k))"
    "safe_ints (case pub of None \<Rightarrow> JNull | Some k \<Rightarrow> JStr (b64 k))"
    "nesting (case pub of None \<Rightarrow> JNull | Some k \<Rightarrow> JStr (b64 k)) = 0"
    "weight (case pub of None \<Rightarrow> JNull | Some k \<Rightarrow> JStr (b64 k)) \<le> 46"
    using g by (auto simp: length_b64 split: option.split)
  have one: "safe_integer 1" by (simp add: safe_integer_def MAX_SAFE_def)
  show "plain v" "safe_ints v"
    unfolding assms(2) parts_body_def body_fields_def using g author pub refs assms(3) one
    by (auto simp: list_all_iff)
  have "nesting (JArr (map (chunk_ref C) cs)) \<le> 2" using refs by (simp add: nesting_le)
  moreover have "nesting (JArr keys) \<le> 2" using g unfolding nesting_le by simp
  moreover have "nesting (sender_public identity) \<le> 1" by (rule author(3))
  ultimately show "nesting v \<le> 3"
    unfolding assms(2) parts_body_def body_fields_def nesting_le
    using pub(3) assms(3) by (simp add: ball_Un nesting_le)
  have refs_w: "sum_list (map (\<lambda>v. weight v + 1) (map (chunk_ref C) cs)) \<le> 171 * 142"
  proof -
    have "sum_list (map (\<lambda>v. weight v + 1) (map (chunk_ref C) cs)) \<le> length (map (chunk_ref C) cs) * 142"
      using refs by (intro sum_list_le_const) auto
    also have "\<dots> \<le> 171 * 142" using g by simp
    finally show ?thesis .
  qed
  have keys_w: "sum_list (map (\<lambda>v. weight v + 1) keys) \<le> 64 * 431"
  proof -
    have "sum_list (map (\<lambda>v. weight v + 1) keys) \<le> length keys * 431"
      using g by (intro sum_list_le_const) simp
    also have "\<dots> \<le> 64 * 431" using g by simp
    finally show ?thesis .
  qed
  have lits: "sum_list (map (\<lambda>k. length (escape (lit k)))
     [''version'', ''author'', ''kind'', ''created'', ''expires'', ''nonce'', ''tag'', ''chunks'', ''keys'',
      ''publicKey'', ''salt'']) \<le> 372"
    using escape_lit [of "''version''"] escape_lit [of "''author''"] escape_lit [of "''kind''"]
      escape_lit [of "''created''"] escape_lit [of "''expires''"] escape_lit [of "''nonce''"]
      escape_lit [of "''tag''"] escape_lit [of "''chunks''"] escape_lit [of "''keys''"]
      escape_lit [of "''publicKey''"] escape_lit [of "''salt''"] by simp
  have strs: "weight (JStr (b64 nonce)) = 18" "weight (JStr (b64 tag)) = 26" "weight (JStr (b64 salt)) = 26"
    "weight (JStr kind) \<le> 194" using g length_kind [of kind] by (simp_all add: length_b64)
  from author(4) refs_w keys_w lits strs pub(4)
  show "weight v \<le> 60000 + sum_list (map (\<lambda>p. length (escape (fst p)) + weight (snd p) + 4) extra)"
    unfolding assms(2) parts_body_def body_fields_def
    by (simp del: weight.simps(1) b64_measures)
qed

lemma body_get:
  "jget (JObj (parts_body C identity kind created expires nonce tag cs keys pub salt @ extra)) (lit k) =
     (if k = ''version'' then JInt 1 else if k = ''author'' then sender_public identity
      else if k = ''kind'' then JStr kind else if k = ''created'' then JInt created
      else if k = ''expires'' then JInt expires else if k = ''nonce'' then JStr (b64 nonce)
      else if k = ''tag'' then JStr (b64 tag) else if k = ''chunks'' then JArr (map (chunk_ref C) cs)
      else if k = ''keys'' then JArr keys
      else if k = ''publicKey'' then (case pub of Some p \<Rightarrow> JStr (b64 p) | None \<Rightarrow> JNull)
      else if k = ''salt'' then JStr (b64 salt)
      else jget (JObj extra) (lit k))"
  by (simp add: parts_body_def body_fields_def jget_def)

lemma good_parts_encode:
  assumes "good_parts C identity kind created expires nonce tag cs keys pub salt"
    and "body = parts_body C identity kind created expires nonce tag cs keys pub salt"
  obtains s where "canon (JObj body) = Inr s"
proof -
  have "plain (JObj body)" "nesting (JObj body) \<le> 3"
    using fields_measures [OF assms(1), of "JObj body" "[]"] assms(2) by simp_all
  then show ?thesis using canonical_defined [of "JObj body"] that by auto
qed

lemma chunk_ref_valid:
  assumes "crypto_laws C" "1 \<le> length c" "int (length c) \<le> CHUNK_SIZE"
  shows "chunk_ref_ok (chunk_ref C c)" "jget (chunk_ref C c) (lit ''hash'') = JStr (sha C c)"
    "jget (chunk_ref C c) (lit ''size'') = JInt (int (length c))"
proof -
  have "hex64 (sha C c)" "safe_integer (int (length c))"
    using assms by (simp_all add: crypto_laws_def safe_integer_def MAX_SAFE_def CHUNK_SIZE_def)
  with assms(2,3) show "chunk_ref_ok (chunk_ref C c)"
    by (simp add: chunk_ref_ok_def chunk_ref_def exactShape_def ohas_def jget_def is_safe_int_def int_of_def)
qed (simp_all add: chunk_ref_def jget_def)

lemma sum_chunk_sizes:
  "sum_list (map (\<lambda>c. int_of (jget c (lit ''size''))) (map (chunk_ref C) cs)) = int (length (concat cs))"
  by (induction cs) (simp_all add: chunk_ref_def jget_def int_of_def)

lemma manifest_measures:
  assumes "good_parts C identity kind created expires nonce tag cs keys pub salt"
    and "body = parts_body C identity kind created expires nonce tag cs keys pub salt"
    and "length sig = 64"
    and "m = JObj (body @ [(lit ''id'', JStr (sha C d)), (lit ''signature'', JStr (b64 sig))])"
  shows "plain m" "safe_ints m" "nesting m \<le> 3" "weight m \<le> 61000"
proof -
  let ?extra = "[(lit ''id'', JStr (sha C d)), (lit ''signature'', JStr (b64 sig))]"
  have h: "hex64 (sha C d)" using assms(1) by (simp add: good_parts_def crypto_laws_def)
  have measures: "plain m" "safe_ints m" "nesting m \<le> 3"
    "weight m \<le> 60000 + sum_list (map (\<lambda>p. length (escape (fst p)) + weight (snd p) + 4) ?extra)"
    by (rule fields_measures [OF assms(1), of m ?extra]; simp add: assms(2,4))+
  then show "plain m" "safe_ints m" "nesting m \<le> 3" by simp_all
  show "weight m \<le> 61000"
    using measures(4) h assms(3) escape_lit [of "''id''"] escape_lit [of "''signature''"]
    by (simp add: length_b64 hex64_def [of "sha C d"])
qed

lemma created_manifest:
  assumes good: "good_parts C identity kind created expires nonce tag cs keys pub salt"
    and body: "body = parts_body C identity kind created expires nonce tag cs keys pub salt"
    and s: "canon (JObj body) = Inr s"
    and key: "jget (sender_public identity) (lit ''signKey'') = JStr (b64 pk)" "length pk = 44" "spki C pk = Some Ed25519"
    and sig: "verify_sig C pk (utf8 s) sig" "length sig = 64"
    and now: "created \<le> now + 300000" "now < expires"
    and m: "m = JObj (body @ [(lit ''id'', JStr (sha C (utf8 s))), (lit ''signature'', JStr (b64 sig))])"
  shows "verifyManifest C m now = Inr ()"
proof -
  note g = good [unfolded good_parts_def]
  have laws: "crypto_laws C" and h: "hex64 (sha C (utf8 s))" using g by (simp_all add: crypto_laws_def)
  let ?extra = "[(lit ''id'', JStr (sha C (utf8 s))), (lit ''signature'', JStr (b64 sig))]"
  have get: "jget m (lit k) = jget (JObj (parts_body C identity kind created expires nonce tag cs keys pub salt @ ?extra)) (lit k)" for k
    by (simp add: m body)
  note get = get [unfolded body_get]
  note measures = manifest_measures [OF good body sig(2) m]
  obtain tt where tt: "canon m = Inr tt"
    using canonical_defined [of m] measures(1,3) by auto
  then have small: "\<not> length tt > 100000"
    using canonical_weight [OF tt measures(2)] measures(4) by simp
  have shape: "exactShape m manifest_keys"
    by (simp add: m body parts_body_def body_fields_def exactShape_def manifest_keys_def ohas_def)
  have ok: "list_all chunk_ref_ok (map (chunk_ref C) cs)"
    using g chunk_ref_valid(1) [OF laws] by (auto simp: list_all_iff)
  have envs: "seqR (map (verify_envelope C) keys) = Inr (map (\<lambda>_. ()) keys)"
    using g by (simp add: seqR_map_Inr_iff list.rel_map list.rel_refl_strong list_all2_same)
  have mbody: "manifest_body m = JObj body"
    by (simp add: m body manifest_body_def fields_of_def parts_body_def body_fields_def odel_def)
  have refs: "chunk_refs m = map (chunk_ref C) cs" by (simp add: chunk_refs_def get items_of_def)
  have codes: "code (un64_any (JStr (b64 pk))) = Inr pk" "code (un64 (JStr (b64 sig)) 128) = Inr sig"
    "sized (JStr (b64 nonce)) 32 12 BadCipher = Inr nonce" "sized (JStr (b64 tag)) 32 16 BadCipher = Inr tag"
    "sized (JStr (b64 salt)) 32 16 BadCipher = Inr salt"
    using key(2) sig(2) g by (simp_all add: un64_any_def un64_b64 sized_b64 MAX_CONTENT_def)
  have pub: "bindR (if jget m (lit ''publicKey'') \<noteq> JNull
        then bindR (sized (jget m (lit ''publicKey'')) 48 32 BadPublicKey) (\<lambda>_. Inr ()) else Inr ()) f = f ()" for f
    using g by (cases pub) (auto simp: get sized_b64)
  have nokeys: "\<not> (jget m (lit ''publicKey'') = JNull \<and> length keys < 1)"
    using g by (cases pub) (auto simp: get)
  have signed: "jget m (lit ''id'') = JStr (sha C (utf8 s))" "jget m (lit ''signature'') = JStr (b64 sig)"
    by (simp_all add: m jget_def body parts_body_def body_fields_def)
  have nonempty: "cs \<noteq> []" using g by auto
  show ?thesis
    unfolding verifyManifest_def Let_def pub refs mbody chunk_limit sum_chunk_sizes signed
    using shape tt small ok envs codes key sig s now g nokeys
    by (simp add: get encode_def is_arr_def items_of_def is_safe_int_def int_of_def not_less nonempty code_def)
qed

section \<open>The whole construction\<close>

definition content_chunks :: "crypto \<Rightarrow> jval \<Rightarrow> random_values \<Rightarrow> bytes list" where
  "content_chunks C payload rnd =
     (case canon payload of Inl _ \<Rightarrow> [] | Inr s \<Rightarrow>
        split_chunks (nat CHUNK_SIZE) (fst (gcm_seal C (r_key rnd) (r_nonce rnd) content_aad (utf8 s))))"

lemma canon_nonempty: "canon v = Inr s \<Longrightarrow> fracs_ok v \<Longrightarrow> utf8 s \<noteq> []"
proof -
  assume "canon v = Inr s" "fracs_ok v"
  then have "s \<noteq> []" using canonical_hd by fastforce
  then have "utf8_length s \<noteq> 0" using length_le_utf8_length [of s] by (cases s) auto
  then show ?thesis by (metis length_utf8 list.size(3))
qed

lemma access_list_facts:
  "distinct (map (\<lambda>r. jget r (lit ''id'')) (access_list identity rs))"
proof -
  let ?id = "\<lambda>r. jget r (lit ''id'')"
  have keys: "owf m \<and> (\<forall>p \<in> set m. fst p = ?id (snd p)) \<Longrightarrow>
      owf (fold (\<lambda>r m. oset (?id r) r m) xs m) \<and> (\<forall>p \<in> set (fold (\<lambda>r m. oset (?id r) r m) xs m). fst p = ?id (snd p))"
    for xs m
  proof (induction xs arbitrary: m)
    case (Cons a xs)
    have "owf (oset (?id a) a m) \<and> (\<forall>p \<in> set (oset (?id a) a m). fst p = ?id (snd p))"
      using Cons.prems by (auto simp: set_oset)
    from Cons.IH [OF this] show ?case by simp
  qed simp
  show ?thesis
  proof (cases rs)
    case (Readers xs)
    let ?m = "fold (\<lambda>r m. oset (?id r) r m) (sender_public identity # xs) []"
    have "owf ?m" "\<forall>p \<in> set ?m. fst p = ?id (snd p)" using keys [of "[]" "sender_public identity # xs"] by simp_all
    then have "map ?id (ovals ?m) = map fst ?m" by (simp add: ovals_def)
    with \<open>owf ?m\<close> show ?thesis by (simp add: access_list_def Readers owf_def)
  qed (simp add: access_list_def)
qed

text \<open>The intermediate values of a successful call.\<close>

lemma createBundleE:
  assumes "createBundle C identity kind payload rs ttl now rnd = Inr b" "crypto_laws C" "random_ok rnd"
  obtains s ct tag cs keys pub txt0 secret sk body where
    "canon payload = Inr s" "gcm_seal C (r_key rnd) (r_nonce rnd) content_aad (utf8 s) = (ct, tag)"
    "length ct = length (utf8 s)" "length tag = 16" "int (length (utf8 s)) \<le> MAX_CONTENT"
    "kind_name kind" "1000 \<le> ttl" "ttl \<le> 365 * 86400000"
    "length (access_list identity rs) \<le> 64" "list_all (validateIdentity C) (access_list identity rs)"
    "cs = split_chunks (nat CHUNK_SIZE) ct" "cs = content_chunks C payload rnd"
    "list_all2 (\<lambda>(i, r) e. wrap C (r_ephemeral rnd i) (r_wrap rnd i) (r_key rnd) r = Inr e)
       (enumerate 0 (access_list identity rs)) keys"
    "pub = (if rs = Public then Some (r_key rnd) else None)"
    "body = parts_body C identity kind now (now + ttl) (r_nonce rnd) tag cs keys pub (r_salt rnd)"
    "canon (JObj body) = Inr txt0" "un64 (JStr (signSecret identity)) 256 = Inr secret"
    "import_private C secret = Some sk"
    "b = JObj [(lit ''manifest'', JObj (body @ [(lit ''id'', JStr (sha C (utf8 txt0))),
         (lit ''signature'', JStr (b64 (sign C sk (utf8 txt0))))])),
       (lit ''chunks'', JObj (chunk_table C cs))]"
proof -
  from assms(1) obtain s where s: "canon payload = Inr s"
    by (auto simp: createBundle_def bindR_Inr_iff)
  obtain ct tag where seal: "gcm_seal C (r_key rnd) (r_nonce rnd) content_aad (utf8 s) = (ct, tag)"
    by (cases "gcm_seal C (r_key rnd) (r_nonce rnd) content_aad (utf8 s)")
  let ?k = "r_key rnd" and ?n = "r_nonce rnd"
  have "length (fst (gcm_seal C ?k ?n content_aad (utf8 s))) = length (utf8 s)"
    "length (snd (gcm_seal C ?k ?n content_aad (utf8 s))) = 16"
    using assms(2) unfolding crypto_laws_def by blast+
  then have len: "length ct = length (utf8 s)" "length tag = 16" by (simp_all add: seal)
  let ?cs = "split_chunks (nat CHUNK_SIZE) ct" and ?access = "access_list identity rs"
    and ?pub = "if rs = Public then Some (r_key rnd) else None"
  note run = assms(1) [unfolded createBundle_def Let_def encode_def s, simplified, unfolded seal, simplified]
  from run have checks: "int (length (utf8 s)) \<le> MAX_CONTENT" "kind_name kind" "1000 \<le> ttl"
    "ttl \<le> 365 * 86400000" "length ?access \<le> 64" "list_all (validateIdentity C) ?access"
    by (auto simp: not_less split: if_splits)
  from run checks obtain keys where keys:
      "seqR (map (\<lambda>(i, r). wrap C (r_ephemeral rnd i) (r_wrap rnd i) (r_key rnd) r) (enumerate 0 ?access)) = Inr keys"
    by (auto simp: bindR_Inr_iff split: if_splits)
  let ?body = "parts_body C identity kind now (now + ttl) (r_nonce rnd) tag ?cs keys ?pub (r_salt rnd)"
  from run checks keys obtain s' where s': "canon (JObj ?body) = Inr s'"
    by (auto simp: bindR_Inr_iff parts_body_def split: if_splits sum.splits)
  from run checks keys s' obtain secret sk where sk: "un64 (JStr (signSecret identity)) 256 = Inr secret"
      "import_private C secret = Some sk"
    by (auto simp: bindR_Inr_iff parts_body_def split: if_splits sum.splits option.splits)
  have b: "b = JObj [(lit ''manifest'', JObj (?body @ [(lit ''id'', JStr (sha C (utf8 s'))),
         (lit ''signature'', JStr (b64 (sign C sk (utf8 s'))))])),
       (lit ''chunks'', JObj (chunk_table C ?cs))]"
    using run checks keys s' sk by (auto simp: parts_body_def code_def split: if_splits)
  have keys2: "list_all2 (\<lambda>(i, r) e. wrap C (r_ephemeral rnd i) (r_wrap rnd i) (r_key rnd) r = Inr e)
       (enumerate 0 ?access) keys"
    using keys unfolding seqR_map_Inr_iff case_prod_beta .
  have "?cs = content_chunks C payload rnd" by (simp add: content_chunks_def s seal)
  then show ?thesis using that s seal len checks keys2 s' sk b by blast
qed

lemma chunk_count:
  assumes "int (length ct) \<le> MAX_CONTENT" "ct \<noteq> []"
  shows "1 \<le> length (split_chunks (nat CHUNK_SIZE) ct)" "length (split_chunks (nat CHUNK_SIZE) ct) \<le> 171"
proof -
  have "length (split_chunks (nat CHUNK_SIZE) ct) = (length ct + nat CHUNK_SIZE - 1) div nat CHUNK_SIZE"
    by (rule length_split_chunks) (simp add: CHUNK_SIZE_def)
  also have "\<dots> \<le> (4194304 + 24576 - 1) div 24576"
    using assms(1) by (simp add: CHUNK_SIZE_def MAX_CONTENT_def div_le_mono)
  finally show "length (split_chunks (nat CHUNK_SIZE) ct) \<le> 171" by simp
  have "split_chunks (nat CHUNK_SIZE) ct \<noteq> []" using assms(2) by (simp add: CHUNK_SIZE_def)
  then show "1 \<le> length (split_chunks (nat CHUNK_SIZE) ct)" by (simp add: Suc_le_eq)
qed

lemma sender_in_access: "access_list identity (Readers xs) \<noteq> []"
proof -
  have "fold (\<lambda>r m. oset (f r) r m) xs m \<noteq> []" if "m \<noteq> []" for f :: "jval \<Rightarrow> jval" and m
    using that
  proof (induction xs arbitrary: m)
    case (Cons x xs)
    have "oset (f x) x m \<noteq> []" by (cases m) (auto split: if_splits)
    with Cons.IH show ?case by simp
  qed simp
  then show ?thesis by (simp add: access_list_def ovals_def)
qed

lemma created_keys:
  assumes "list_all2 (\<lambda>(i, r) e. wrap C (r_ephemeral rnd i) (r_wrap rnd i) (r_key rnd) r = Inr e) (enumerate 0 access) keys"
    and "crypto_laws C" "random_ok rnd" "list_all (validateIdentity C) access"
  shows "\<forall>e \<in> set keys. verify_envelope C e = Inr () \<and> plain e \<and> safe_ints e \<and> nesting e \<le> 1 \<and> weight e \<le> 430"
    and "list_all2 (\<lambda>r e. jget e (lit ''reader'') = jget r (lit ''id'') \<and>
          (\<exists>eph nonce. length nonce = 12 \<and> wrap C eph nonce (r_key rnd) r = Inr e)) access keys"
proof -
  have len: "length keys = length access" using list_all2_lengthD [OF assms(1)] by simp
  have step: "verify_envelope C (keys ! i) = Inr () \<and> plain (keys ! i) \<and> safe_ints (keys ! i) \<and>
      nesting (keys ! i) \<le> 1 \<and> weight (keys ! i) \<le> 430 \<and>
      jget (keys ! i) (lit ''reader'') = jget (access ! i) (lit ''id'') \<and>
      wrap C (r_ephemeral rnd i) (r_wrap rnd i) (r_key rnd) (access ! i) = Inr (keys ! i)"
    if i: "i < length access" for i
  proof -
    have w: "wrap C (r_ephemeral rnd i) (r_wrap rnd i) (r_key rnd) (access ! i) = Inr (keys ! i)"
      using list_all2_nthD [OF assms(1), of i] i by (simp add: nth_enumerate_eq)
    have "validateIdentity C (access ! i)" using assms(4) i by (simp add: list_all_length)
    then obtain sk where sk: "jget (access ! i) (lit ''id'') = JStr (sha C sk)"
      using validateIdentity_facts by metis
    have h: "hex64 (sha C sk)" "length (r_wrap rnd i) = 12" "length (r_key rnd) = 32"
      using assms(2,3) by (simp_all add: crypto_laws_def random_ok_def)
    show ?thesis using wrap_verifies [OF w assms(2) h(2,3) sk h(1)] w sk by simp
  qed
  show "\<forall>e \<in> set keys. verify_envelope C e = Inr () \<and> plain e \<and> safe_ints e \<and> nesting e \<le> 1 \<and> weight e \<le> 430"
    using step len by (metis in_set_conv_nth)
  show "list_all2 (\<lambda>r e. jget e (lit ''reader'') = jget r (lit ''id'') \<and>
          (\<exists>eph nonce. length nonce = 12 \<and> wrap C eph nonce (r_key rnd) r = Inr e)) access keys"
    using step len assms(3) unfolding list_all2_conv_all_nth random_ok_def by metis
qed

text \<open>What a call of \<open>createBundle\<close> needs besides succeeding.\<close>

definition created_ok :: "crypto \<Rightarrow> sender \<Rightarrow> jval \<Rightarrow> int \<Rightarrow> int \<Rightarrow> random_values \<Rightarrow> bool" where
  "created_ok C identity payload ttl now rnd \<longleftrightarrow>
     crypto_laws C \<and> random_ok rnd \<and> sender_ok C identity \<and> fracs_ok payload \<and>
     0 \<le> now \<and> now \<le> MAX_SAFE - 365 * 86400000 \<and> inj_on (sha C) (set (content_chunks C payload rnd))"

text \<open>What a bundle that was created consists of.\<close>

lemma created_parts:
  assumes run: "createBundle C identity kind payload rs ttl now rnd = Inr b"
    and ok: "created_ok C identity payload ttl now rnd"
  obtains tag cs keys pub s' sig pk body m where
    "good_parts C identity kind now (now + ttl) (r_nonce rnd) tag cs keys pub (r_salt rnd)"
    "body = parts_body C identity kind now (now + ttl) (r_nonce rnd) tag cs keys pub (r_salt rnd)"
    "canon (JObj body) = Inr s'" "cs = content_chunks C payload rnd"
    "jget (sender_public identity) (lit ''signKey'') = JStr (b64 pk)" "length pk = 44" "spki C pk = Some Ed25519"
    "verify_sig C pk (utf8 s') sig" "length sig = 64"
    "m = JObj (body @ [(lit ''id'', JStr (sha C (utf8 s'))), (lit ''signature'', JStr (b64 sig))])"
    "b = JObj [(lit ''manifest'', m), (lit ''chunks'', JObj (chunk_table C cs))]"
proof -
  have laws: "crypto_laws C" "random_ok rnd" "sender_ok C identity" "fracs_ok payload"
    using ok by (simp_all add: created_ok_def)
  obtain s ct tag cs keys pub s' secret sk body where p:
    "canon payload = Inr s" "gcm_seal C (r_key rnd) (r_nonce rnd) content_aad (utf8 s) = (ct, tag)"
    "length ct = length (utf8 s)" "length tag = 16" "int (length (utf8 s)) \<le> MAX_CONTENT"
    "kind_name kind" "1000 \<le> ttl" "ttl \<le> 365 * 86400000"
    "length (access_list identity rs) \<le> 64" "list_all (validateIdentity C) (access_list identity rs)"
    "cs = split_chunks (nat CHUNK_SIZE) ct" "cs = content_chunks C payload rnd"
    "list_all2 (\<lambda>(i, r) e. wrap C (r_ephemeral rnd i) (r_wrap rnd i) (r_key rnd) r = Inr e)
       (enumerate 0 (access_list identity rs)) keys"
    "pub = (if rs = Public then Some (r_key rnd) else None)"
    "body = parts_body C identity kind now (now + ttl) (r_nonce rnd) tag cs keys pub (r_salt rnd)"
    "canon (JObj body) = Inr s'" "un64 (JStr (signSecret identity)) 256 = Inr secret"
    "import_private C secret = Some sk"
    "b = JObj [(lit ''manifest'', JObj (body @ [(lit ''id'', JStr (sha C (utf8 s'))),
         (lit ''signature'', JStr (b64 (sign C sk (utf8 s'))))])),
       (lit ''chunks'', JObj (chunk_table C cs))]"
    using run laws(1,2) by (rule createBundleE)
  have sizes: "\<forall>c \<in> set cs. 1 \<le> length c \<and> int (length c) \<le> CHUNK_SIZE"
    using split_chunks_sizes [of _ "nat CHUNK_SIZE" ct] by (fastforce simp: p(11) CHUNK_SIZE_def)
  have ct: "ct \<noteq> []" "int (length ct) \<le> MAX_CONTENT"
    using canon_nonempty [OF p(1) laws(4)] p(3,5) by auto
  have keys_len: "length keys = length (access_list identity rs)" using list_all2_lengthD [OF p(13)] by simp
  then have keys_ok: "pub = None \<longrightarrow> keys \<noteq> []"
    using sender_in_access by (cases rs) (auto simp: p(14))
  have good: "good_parts C identity kind now (now + ttl) (r_nonce rnd) tag cs keys pub (r_salt rnd)"
    using laws ok p(4,6-9) chunk_count [OF ct(2,1)] sizes ct(2) keys_len keys_ok created_keys(1) [OF p(13) laws(1,2) p(10)]
    by (simp add: good_parts_def created_ok_def sender_ok_def random_ok_def p(11,14) safe_integer_def
        MAX_SAFE_def CHUNK_SIZE_def)
  obtain pk where pk: "jget (sender_public identity) (lit ''signKey'') = JStr (b64 pk)" "length pk = 44" "spki C pk = Some Ed25519"
    using laws(3) unfolding sender_ok_def by (metis validateIdentity_facts)
  have sig: "verify_sig C pk (utf8 s') (sign C sk (utf8 s'))" "length (sign C sk (utf8 s')) = 64"
    using laws(3) p(17,18) pk(1) unfolding sender_ok_def by blast+
  show ?thesis by (rule that [OF good p(15,16,12) pk sig refl p(19)])
qed

lemma created_bundle:
  assumes run: "createBundle C identity kind payload rs ttl now rnd = Inr b"
    and ok: "created_ok C identity payload ttl now rnd"
    and later: "now \<le> later" "later < now + ttl"
  shows "verifyBundle C b later = Inr ()"
proof -
  have laws: "crypto_laws C" using ok by (simp add: created_ok_def)
  obtain tag cs keys pub s' sig pk body m where p:
    "good_parts C identity kind now (now + ttl) (r_nonce rnd) tag cs keys pub (r_salt rnd)"
    "body = parts_body C identity kind now (now + ttl) (r_nonce rnd) tag cs keys pub (r_salt rnd)"
    "canon (JObj body) = Inr s'" "cs = content_chunks C payload rnd"
    "jget (sender_public identity) (lit ''signKey'') = JStr (b64 pk)" "length pk = 44" "spki C pk = Some Ed25519"
    "verify_sig C pk (utf8 s') sig" "length sig = 64"
    "m = JObj (body @ [(lit ''id'', JStr (sha C (utf8 s'))), (lit ''signature'', JStr (b64 sig))])"
    "b = JObj [(lit ''manifest'', m), (lit ''chunks'', JObj (chunk_table C cs))]"
    using run ok by (rule created_parts)
  have manifest: "verifyManifest C m later = Inr ()"
    using later by (intro created_manifest [OF p(1-3) p(5-9) _ _ p(10)]) simp_all
  have refs: "chunk_refs m = map (chunk_ref C) cs"
    by (simp add: chunk_refs_def p(2,10) body_get items_of_def)
  have get: "jget b (lit ''manifest'') = m" "jget b (lit ''chunks'') = JObj (chunk_table C cs)"
    by (simp_all add: p(11) jget_def)
  have "verify_chunk C (JObj (chunk_table C cs)) (chunk_ref C c) = Inr c" if c: "c \<in> set cs" for c
  proof -
    have small: "1 \<le> length c" "int (length c) \<le> CHUNK_SIZE" using p(1) c by (auto simp: good_parts_def)
    have "un64 (jget (JObj (chunk_table C cs)) (sha C c)) (CHUNK_SIZE * 2) = Inr c"
      using chunk_table_get [of C cs c] c ok small
      by (simp add: created_ok_def p(4) jget_def un64_b64 CHUNK_SIZE_def)
    then show ?thesis using chunk_ref_valid(2,3) [OF laws small]
      by (simp add: verify_chunk_def code_def int_of_def)
  qed
  then have "seqR (map (verify_chunk C (JObj (chunk_table C cs))) (map (chunk_ref C) cs)) = Inr cs"
    by (simp add: seqR_map_Inr_iff list_all2_conv_all_nth)
  then show ?thesis
    using manifest length_chunk_table [of C cs]
    by (simp add: verifyBundle_def Let_def get refs truthy_def key_count_def not_less)
      (simp add: p(11) exactShape_def ohas_def)
qed


text \<open>The holder of the private key that belongs to an entry of the access list.\<close>

definition may_read :: "crypto \<Rightarrow> sender \<Rightarrow> readers \<Rightarrow> private_identity \<Rightarrow> bool" where
  "may_read C identity rs me \<longleftrightarrow>
     (\<exists>r \<in> set (access_list identity rs). \<exists>secret priv.
        jget r (lit ''id'') = JStr (public_id me) \<and> un64 (JStr (boxSecret me)) 256 = Inr secret \<and>
        import_private C secret = Some priv \<and> jget r (lit ''boxKey'') = JStr (b64 (x_public C priv)))"

lemma envelope_opens:
  assumes "wrap C eph nonce key r = Inr e" "crypto_laws C" "length nonce = 12" "length key = 32"
    and "jget r (lit ''id'') = JStr (public_id me)" "hex64 (public_id me)"
    and "un64 (JStr (boxSecret me)) 256 = Inr secret" "import_private C secret = Some priv"
    and "jget r (lit ''boxKey'') = JStr (b64 (x_public C priv))"
  shows "open_envelope C e me = Inr key"
proof -
  obtain bk d t where w: "un64_any (jget r (lit ''boxKey'')) = Inr bk"
    "(d, t) = gcm_seal C (hkdf C (dh C eph bk) (utf8 (public_id me)) reader_info) nonce (utf8 (public_id me)) key"
    "length d = 32" "length t = 16"
    "e = JObj [(lit ''reader'', JStr (public_id me)), (lit ''ephemeral'', JStr (b64 (x_public C eph))),
       (lit ''nonce'', JStr (b64 nonce)), (lit ''data'', JStr (b64 d)), (lit ''tag'', JStr (b64 t))]"
    using assms(1-6) by (rule wrap_facts)
  have bk: "bk = x_public C priv" using w(1) assms(9) by (simp add: un64_any_def un64_b64_iff)
  have pub: "length (x_public C eph) = 44" "spki C (x_public C eph) = Some X25519"
    and dh: "dh C priv (x_public C eph) = dh C eph bk"
    using assms(2) unfolding crypto_laws_def bk by blast+
  have "gcm_open C (hkdf C (dh C eph bk) (utf8 (public_id me)) reader_info) nonce (utf8 (public_id me)) d t = Some key"
    using assms(2) w(2) unfolding crypto_laws_def by (metis fst_conv snd_conv)
  moreover have "un64 (JStr (b64 (x_public C eph))) 256 = Inr (x_public C eph)"
    "un64 (JStr (b64 nonce)) 32 = Inr nonce" "un64 (JStr (b64 t)) 32 = Inr t" "un64_any (JStr (b64 d)) = Inr d"
    using pub w(3,4) assms(3) by (simp_all add: un64_b64 un64_any_def MAX_CONTENT_def)
  ultimately show ?thesis
    using assms(7,8) pub(2) w(3,4) assms(3)
    by (simp add: open_envelope_def open_sealed_def w(5) jget_def code_def dh)
qed

lemma find_matching:
  assumes "list_all2 (\<lambda>r e. f e = g r \<and> P r e) rs es" "distinct (map g rs)" "r \<in> set rs"
  shows "\<exists>e. find (\<lambda>e. f e = g r) es = Some e \<and> P r e"
  using assms by (induction rs es rule: list_all2_induct) auto

lemma created_content_opens:
  assumes "gcm_seal C key nonce content_aad d = (ct, tag)" "crypto_laws C" "length nonce = 12"
    and "int (length ct) \<le> MAX_CONTENT"
  shows "open_sealed C (JStr (b64 nonce)) (JStr (b64 tag)) (un64_any (JStr (b64 ct))) key content_aad = Inr d"
proof -
  have "length tag = 16" "gcm_open C key nonce content_aad ct tag = Some d"
    using assms(1,2) unfolding crypto_laws_def by (metis fst_conv snd_conv)+
  moreover have "un64_any (JStr (b64 ct)) = Inr ct"
    using assms(4) by (simp add: un64_any_def un64_b64 MAX_CONTENT_def)
  moreover have "un64 (JStr (b64 nonce)) 32 = Inr nonce" "un64 (JStr (b64 tag)) 32 = Inr tag"
    using assms(3) calculation(1) by (simp_all add: un64_b64)
  ultimately show ?thesis
    using assms(3) by (simp add: open_sealed_def code_def)
qed

lemma reader_key:
  assumes "list_all2 (\<lambda>(i, r) e. wrap C (r_ephemeral rnd i) (r_wrap rnd i) (r_key rnd) r = Inr e)
      (enumerate 0 (access_list identity rs)) keys"
    and "crypto_laws C" "random_ok rnd" "list_all (validateIdentity C) (access_list identity rs)"
    and "rs = Public \<or> (\<exists>me. who = Some me \<and> may_read C identity rs me)"
    and pk: "pk = (if rs = Public then JStr (b64 (r_key rnd)) else JNull)"
  shows "(if truthy pk then code (un64_any pk)
      else (case who of None \<Rightarrow> Inl NoReadAuthority
        | Some me \<Rightarrow> (case find (\<lambda>k. jget k (lit ''reader'') = JStr (public_id me)) keys of
            None \<Rightarrow> Inl NoReadAuthority | Some envelope \<Rightarrow> open_envelope C envelope me))) = Inr (r_key rnd)"
proof (cases "rs = Public")
  case True
  have "length (b64 (r_key rnd)) = 44" using assms(3) by (simp add: length_b64 random_ok_def)
  then have "b64 (r_key rnd) \<noteq> []" by auto
  with True assms(3) show ?thesis
    by (simp add: pk truthy_def un64_any_def un64_b64_iff MAX_CONTENT_def random_ok_def)
next
  case False
  with assms(5) obtain me r secret priv where me: "who = Some me" "r \<in> set (access_list identity rs)"
    "jget r (lit ''id'') = JStr (public_id me)" "un64 (JStr (boxSecret me)) 256 = Inr secret"
    "import_private C secret = Some priv" "jget r (lit ''boxKey'') = JStr (b64 (x_public C priv))"
    by (auto simp: may_read_def)
  obtain e where e: "find (\<lambda>e. jget e (lit ''reader'') = JStr (public_id me)) keys = Some e"
    "\<exists>eph nonce. length nonce = 12 \<and> wrap C eph nonce (r_key rnd) r = Inr e"
    using find_matching [OF created_keys(2) [OF assms(1-4)] access_list_facts me(2)] me(3) by auto
  have "hex64 (public_id me)"
  proof -
    have "validateIdentity C r" using assms(4) me(2) by (simp add: list_all_iff)
    then show ?thesis using me(3) assms(2) by (metis validateIdentity_facts jval.inject(4) crypto_laws_def)
  qed
  moreover have "length (r_key rnd) = 32" using assms(3) by (simp add: random_ok_def)
  ultimately have "open_envelope C e me = Inr (r_key rnd)"
    using e(2) envelope_opens assms(2) me by metis
  with me(1) e(1) False show ?thesis by (simp add: pk truthy_def)
qed

text \<open>
  C5: whoever may read a bundle gets back the payload it was made of: anyone for a public bundle,
  and for a private one each reader in its access list (the sender included) with his own key.
\<close>

theorem bundle_roundtrip:
  assumes run: "createBundle C identity kind payload rs ttl now rnd = Inr b"
    and ok: "created_ok C identity payload ttl now rnd"
    and later: "now \<le> later" "later < now + ttl"
    and reader: "rs = Public \<or> (\<exists>me. who = Some me \<and> may_read C identity rs me)"
    and parse: "\<And>s. canon payload = Inr s \<Longrightarrow> parse_json C (utf8 s) = Some v"
  shows "decryptBundle C b who later = Inr v"
proof -
  have laws: "crypto_laws C" "random_ok rnd" using ok by (simp_all add: created_ok_def)
  obtain s ct tag cs keys pub s' secret sk body where p:
    "canon payload = Inr s" "gcm_seal C (r_key rnd) (r_nonce rnd) content_aad (utf8 s) = (ct, tag)"
    "length ct = length (utf8 s)" "int (length (utf8 s)) \<le> MAX_CONTENT"
    "list_all (validateIdentity C) (access_list identity rs)"
    "cs = split_chunks (nat CHUNK_SIZE) ct" "cs = content_chunks C payload rnd"
    "list_all2 (\<lambda>(i, r) e. wrap C (r_ephemeral rnd i) (r_wrap rnd i) (r_key rnd) r = Inr e)
       (enumerate 0 (access_list identity rs)) keys"
    "pub = (if rs = Public then Some (r_key rnd) else None)"
    "body = parts_body C identity kind now (now + ttl) (r_nonce rnd) tag cs keys pub (r_salt rnd)"
    "b = JObj [(lit ''manifest'', JObj (body @ [(lit ''id'', JStr (sha C (utf8 s'))),
         (lit ''signature'', JStr (b64 (sign C sk (utf8 s'))))])),
       (lit ''chunks'', JObj (chunk_table C cs))]"
    using run laws by (rule createBundleE)
  let ?m = "JObj (body @ [(lit ''id'', JStr (sha C (utf8 s'))), (lit ''signature'', JStr (b64 (sign C sk (utf8 s'))))])"
  have m: "jget b (lit ''manifest'') = ?m" "jget b (lit ''chunks'') = JObj (chunk_table C cs)"
    by (simp_all add: p(11) jget_def)
  note get = body_get [of C identity kind now "now + ttl" "r_nonce rnd" tag cs keys pub "r_salt rnd", folded p(10)]
  have len: "length (r_key rnd) = 32" "length (r_nonce rnd) = 12" using laws(2) by (simp_all add: random_ok_def)
  have parts: "seqR (map (\<lambda>c. code (un64_any (jget (JObj (chunk_table C cs)) (js_string (jget c (lit ''hash''))))))
      (map (chunk_ref C) cs)) = Inr cs"
  proof -
    have "un64_any (jget (JObj (chunk_table C cs)) (js_string (jget (chunk_ref C c) (lit ''hash'')))) = Inr c"
      if c: "c \<in> set cs" for c
    proof -
      have "length c \<le> 24576"
        using split_chunks_sizes [of c "nat CHUNK_SIZE" ct] c by (simp add: p(6) CHUNK_SIZE_def)
      moreover have "oget (chunk_table C cs) (sha C c) = Some (JStr (b64 c))"
        using ok c by (intro chunk_table_get) (simp_all add: created_ok_def p(7))
      ultimately show ?thesis
        by (simp add: jget_def chunk_ref_def un64_any_def un64_b64 MAX_CONTENT_def)
    qed
    then show ?thesis by (simp add: seqR_map_Inr_iff list_all2_conv_all_nth)
  qed
  have "concat cs = ct" by (simp add: p(6) CHUNK_SIZE_def)
  then have content: "open_sealed C (JStr (b64 (r_nonce rnd))) (JStr (b64 tag)) (un64_any (JStr (b64 (concat cs))))
      (r_key rnd) content_aad = Inr (utf8 s)"
    using created_content_opens [OF p(2) laws(1) len(2)] p(3,4) by simp
  have refs: "chunk_refs ?m = map (chunk_ref C) cs" by (simp add: chunk_refs_def get items_of_def)
  have key: "(if truthy (jget ?m (lit ''publicKey'')) then code (un64_any (jget ?m (lit ''publicKey'')))
      else (case who of None \<Rightarrow> Inl NoReadAuthority
        | Some me \<Rightarrow> (case find (\<lambda>k. jget k (lit ''reader'') = JStr (public_id me)) (items_of (jget ?m (lit ''keys''))) of
            None \<Rightarrow> Inl NoReadAuthority | Some envelope \<Rightarrow> open_envelope C envelope me))) = Inr (r_key rnd)"
  proof -
    have pk: "jget ?m (lit ''publicKey'') = (if rs = Public then JStr (b64 (r_key rnd)) else JNull)"
      and ks: "items_of (jget ?m (lit ''keys'')) = keys" by (simp_all add: get p(9) items_of_def)
    show ?thesis unfolding pk ks by (rule reader_key [OF p(8) laws p(5) reader refl])
  qed
  show ?thesis
    unfolding decryptBundle_def Let_def created_bundle [OF run ok later] m refs parts key
    using content parse [OF p(1)] by (simp add: get)
qed

section \<open>The size of a created bundle\<close>

lemma b64_ascii [simp]: "ascii (b64 b)"
proof -
  have c: "b64_char n < 128" if "n < 64" for n using that by (auto simp: b64_char_def)
  show ?thesis by (induction b rule: b64.induct) (auto simp: c ascii_def)
qed

lemma hex64_ascii [simp]: "hex64 s \<Longrightarrow> ascii s"
  by (auto simp: hex64_def ascii_def is_hex_def list_all_iff)

lemma utf8_length_of_ascii: "ascii s \<Longrightarrow> utf8_length s = length s"
  by (simp add: ascii_def utf8_length_ascii)

lemma chunk_table_strings:
  "(k, v) \<in> set (chunk_table C cs) \<Longrightarrow> \<exists>c \<in> set cs. k = sha C c \<and> v = JStr (b64 c)"
proof -
  have "(k, v) \<in> set (fold (\<lambda>c m. oset (sha C c) (JStr (b64 c)) m) cs m) \<Longrightarrow>
      (k, v) \<in> set m \<or> (\<exists>c \<in> set cs. k = sha C c \<and> v = JStr (b64 c))" for m
  proof (induction cs arbitrary: m)
    case (Cons c cs)
    have "set (oset a x m) \<subseteq> insert (a, x) (set m)" for a :: ustr and x :: jval and m
      by (induction m) (auto split: if_splits)
    then have "set (oset (sha C c) (JStr (b64 c)) m) \<subseteq> insert (sha C c, JStr (b64 c)) (set m)" .
    with Cons.IH [of "oset (sha C c) (JStr (b64 c)) m"] Cons.prems show ?case by auto
  qed simp
  from this [of "[]"] show "(k, v) \<in> set (chunk_table C cs) \<Longrightarrow> \<exists>c \<in> set cs. k = sha C c \<and> v = JStr (b64 c)"
    by (simp add: chunk_table_def)
qed

lemma chunk_table_weight:
  assumes "crypto_laws C"
  shows "weight (JObj (chunk_table C cs)) \<le> sum_list (map (\<lambda>c. 4 * ((length c + 2) div 3) + 70) cs) + 2"
proof -
  let ?w = "\<lambda>m :: (ustr \<times> jval) list. sum_list (map (\<lambda>p. length (escape (fst p)) + weight (snd p) + 4) m)"
  have len: "length (sha C c) = 64" "list_all unescaped (sha C c)" for c
    using assms hex64_unescaped by (simp_all add: crypto_laws_def hex64_def)
  have one: "?w (oset k v m) \<le> ?w m + (length (escape k) + weight v + 4)" for k v m by (induction m) auto
  have "?w (fold (\<lambda>c m. oset (sha C c) (JStr (b64 c)) m) cs m) \<le> ?w m + sum_list (map (\<lambda>c. 4 * ((length c + 2) div 3) + 70) cs)" for m
  proof (induction cs arbitrary: m)
    case (Cons c cs)
    have "?w (oset (sha C c) (JStr (b64 c)) m) \<le> ?w m + (4 * ((length c + 2) div 3) + 70)"
      using one [of "sha C c" "JStr (b64 c)" m] len by (simp del: weight.simps add: b64_measures)
    with Cons.IH [of "oset (sha C c) (JStr (b64 c)) m"] show ?case by simp
  qed simp
  from this [of "[]"] show ?thesis by (simp add: chunk_table_def)
qed

lemma base64_total: "3 * sum_list (map (\<lambda>c. 4 * ((length c + 2) div 3) + 70) cs) \<le> 4 * length (concat cs) + 218 * length (cs :: bytes list)"
proof (induction cs)
  case (Cons c cs)
  have "3 * (4 * q + 70) \<le> 4 * n + 218" if "3 * q \<le> n + 2" for q n :: nat using that by simp
  then have "3 * (4 * ((length c + 2) div 3) + 70) \<le> 4 * length c + 218" by simp
  then show ?case using Cons by (simp add: distrib_left)
qed simp

text \<open>
  The text of a created bundle: the chunks in base64 (at most 4/3 of 4 MiB), their names, and
  the manifest.
\<close>

lemma created_size:
  assumes run: "createBundle C identity kind payload rs ttl now rnd = Inr b"
    and ok: "created_ok C identity payload ttl now rnd"
  shows "\<exists>tx. canon b = Inr tx \<and> int (utf8_length tx) \<le> 5800000"
proof -
  have laws: "crypto_laws C" using ok by (simp add: created_ok_def)
  obtain tag cs keys pub s' sig pk body m where p:
    "good_parts C identity kind now (now + ttl) (r_nonce rnd) tag cs keys pub (r_salt rnd)"
    "body = parts_body C identity kind now (now + ttl) (r_nonce rnd) tag cs keys pub (r_salt rnd)"
    "canon (JObj body) = Inr s'" "cs = content_chunks C payload rnd"
    "jget (sender_public identity) (lit ''signKey'') = JStr (b64 pk)" "length pk = 44" "spki C pk = Some Ed25519"
    "verify_sig C pk (utf8 s') sig" "length sig = 64"
    "m = JObj (body @ [(lit ''id'', JStr (sha C (utf8 s'))), (lit ''signature'', JStr (b64 sig))])"
    "b = JObj [(lit ''manifest'', m), (lit ''chunks'', JObj (chunk_table C cs))]"
    using run ok by (rule created_parts)
  let ?t = "JObj (chunk_table C cs)"
  note ms = manifest_measures [OF p(1,2,9,10)]
  have string: "list_all unescaped k \<and> ascii k \<and> (\<exists>s. v = JStr s \<and> list_all unescaped s \<and> ascii s)"
    if "(k, v) \<in> set (chunk_table C cs)" for k v
    using chunk_table_strings [OF that] laws hex64_unescaped by (auto simp: crypto_laws_def b64_measures)
  then have strings: "\<forall>(k, v) \<in> set (chunk_table C cs). list_all unescaped k \<and> ascii k \<and>
      (\<exists>s. v = JStr s \<and> list_all unescaped s \<and> ascii s)" by blast
  have leaf: "plain v \<and> safe_ints v \<and> nesting v = 0" if "(k, v) \<in> set (chunk_table C cs)" for k v
    using string [OF that] by auto
  have t: "plain ?t" "safe_ints ?t" "nesting ?t \<le> 1"
    using leaf by (auto simp: list_all_iff nesting_le)
  have "plain b" "nesting b \<le> 24" using ms t by (simp_all add: p(11) nesting_le)
  then obtain tx where tx: "canon b = Inr tx" using canonical_defined [of b] by auto
  have order: "sort_key fst [(lit ''manifest'', m), (lit ''chunks'', ?t)] = [(lit ''chunks'', ?t), (lit ''manifest'', m)]"
    by (simp add: lit_def of_char_def)
  from tx order obtain tt tm where parts: "canonical ?t 1 = Inr tt" "canonical m 1 = Inr tm"
    "tx = lit ''{'' @ (quote (lit ''chunks'') @ lit '':'' @ tt) @ lit '','' @ (quote (lit ''manifest'') @ lit '':'' @ tm) @ lit ''}''"
    by (auto simp: p(11) canonical.simps [of "JObj [_, _]"] bindR_Inr_iff)
  have "3 * length tt \<le> 4 * length (concat cs) + 218 * length cs + 6"
    using canonical_weight [OF parts(1) t(2)] chunk_table_weight [OF laws, of cs] base64_total [of cs] by linarith
  moreover have "int (length (concat cs)) \<le> MAX_CONTENT" "length cs \<le> 171" using p(1) by (simp_all add: good_parts_def)
  moreover have "utf8_length tt = length tt"
    by (rule utf8_length_of_ascii [OF canonical_ascii [OF parts(1) strings]])
  ultimately have tt_len: "utf8_length tt \<le> 5610000" by (simp add: MAX_CONTENT_def)
  have tm_len: "utf8_length tm \<le> 183000"
    using canonical_weight [OF parts(2) ms(2)] ms(4) utf8_length_le [of tm] by linarith
  have "utf8_length (quote (lit k)) \<le> 18 * length k + 6" for k
    using utf8_length_le [of "quote (lit k)"] escape_lit [of k] by (simp add: quote_def)
  from this [of "''chunks''"] this [of "''manifest''"]
  have names: "utf8_length (quote (lit ''chunks'')) \<le> 114" "utf8_length (quote (lit ''manifest'')) \<le> 150" by simp_all
  have small: "utf8_length (lit [c]) \<le> 3" for c using utf8_length_le [of "lit [c]"] by simp
  have "utf8_length tx \<le> 5800000"
  proof -
    have ap: "utf8_length (x @ y) \<le> a + b" if "utf8_length x \<le> a" "utf8_length y \<le> b" for x y a b
      using utf8_length_append_le [of x y] that by linarith
    have "utf8_length tx \<le> 3 + ((114 + (3 + 5610000)) + (3 + ((150 + (3 + 183000)) + 3)))"
      unfolding parts(3) by (intro ap small names tt_len tm_len)
    then show ?thesis by simp
  qed
  with tx show ?thesis by auto
qed

text \<open>
  every bundle that is created can be stored: its text never exceeds the 6 MiB a store
  accepts for one object.
\<close>

theorem created_fits_store:
  assumes "createBundle C identity kind payload rs ttl now rnd = Inr b"
    and "created_ok C identity payload ttl now rnd"
  shows "\<exists>tx. canon b = Inr tx \<and> int (utf8_length tx) \<le> 6 * 1024 * 1024"
  using created_size [OF assms] by auto

section \<open>When the construction succeeds\<close>

lemma seqR_enumerate:
  "(\<And>i x. x \<in> set xs \<Longrightarrow> \<exists>e. f i x = Inr e) \<Longrightarrow>
   \<exists>es. seqR (map (\<lambda>(i, x). f i x) (enumerate n xs)) = Inr es"
  unfolding seqR_defined by (auto simp: in_set_enumerate_eq)

lemma wrap_defined:
  assumes "validateIdentity C r"
  shows "\<exists>e. wrap C eph nonce key r = Inr e"
proof -
  obtain sk bk pf name where f: "jget r (lit ''boxKey'') = JStr (b64 bk)" "length (b64 bk) \<le> 256" "spki C bk = Some X25519"
    using assms by (rule validateIdentity_facts)
  have "int (4 * ((length bk + 2) div 3)) \<le> MAX_CONTENT * 2"
    using f(2) unfolding length_b64 MAX_CONTENT_def by linarith
  then have "un64_any (JStr (b64 bk)) = Inr bk" unfolding un64_any_def by (simp only: un64_b64)
  with f(1,3) show ?thesis by (simp add: wrap_def Let_def code_def)
qed

lemma createBundle_succeeds:
  assumes laws: "crypto_laws C" "random_ok rnd" "fracs_ok payload"
    and sender: "validateIdentity C (sender_public identity)" "0 \<le> now" "now \<le> MAX_SAFE - 365 * 86400000"
  shows "(\<exists>b. createBundle C identity kind payload rs ttl now rnd = Inr b) \<longleftrightarrow>
    (\<exists>s. canon payload = Inr s \<and> int (utf8_length s) \<le> MAX_CONTENT) \<and> kind_name kind \<and>
    1000 \<le> ttl \<and> ttl \<le> 365 * 86400000 \<and> length (access_list identity rs) \<le> 64 \<and>
    list_all (validateIdentity C) (access_list identity rs) \<and>
    (\<exists>secret sk. un64 (JStr (signSecret identity)) 256 = Inr secret \<and> import_private C secret = Some sk)"
    (is "?made \<longleftrightarrow> ?ok")
proof
  assume ?made
  then obtain b where "createBundle C identity kind payload rs ttl now rnd = Inr b" by blast
  from this laws(1,2) show ?ok by (rule createBundleE) (auto simp: length_utf8)
next
  assume ok: ?ok
  then obtain s secret sk where s: "canon payload = Inr s" "int (length (utf8 s)) \<le> MAX_CONTENT"
    and sk: "un64 (JStr (signSecret identity)) 256 = Inr secret" "import_private C secret = Some sk"
    by (auto simp: length_utf8)
  obtain ct tag where seal: "gcm_seal C (r_key rnd) (r_nonce rnd) content_aad (utf8 s) = (ct, tag)"
    by (cases "gcm_seal C (r_key rnd) (r_nonce rnd) content_aad (utf8 s)")
  let ?k = "r_key rnd" and ?n = "r_nonce rnd" and ?access = "access_list identity rs"
  have "length (fst (gcm_seal C ?k ?n content_aad (utf8 s))) = length (utf8 s)"
    "length (snd (gcm_seal C ?k ?n content_aad (utf8 s))) = 16"
    using laws(1) unfolding crypto_laws_def by blast+
  then have len: "length ct = length (utf8 s)" "length tag = 16" by (simp_all add: seal)
  have "ct \<noteq> []" using canon_nonempty [OF s(1) laws(3)] len(1) by auto
  obtain keys where keys: "seqR (map (\<lambda>(i, r). wrap C (r_ephemeral rnd i) (r_wrap rnd i) (r_key rnd) r) (enumerate 0 ?access)) = Inr keys"
    using seqR_enumerate [of ?access "\<lambda>i r. wrap C (r_ephemeral rnd i) (r_wrap rnd i) (r_key rnd) r" 0] wrap_defined ok
    by (auto simp: list_all_iff)
  then have keys2: "list_all2 (\<lambda>(i, r) e. wrap C (r_ephemeral rnd i) (r_wrap rnd i) (r_key rnd) r = Inr e) (enumerate 0 ?access) keys"
    unfolding seqR_map_Inr_iff case_prod_beta .
  let ?cs = "split_chunks (nat CHUNK_SIZE) ct" and ?pub = "if rs = Public then Some (r_key rnd) else None"
  have sizes: "\<forall>c \<in> set ?cs. 1 \<le> length c \<and> int (length c) \<le> CHUNK_SIZE"
    using split_chunks_sizes [of _ "nat CHUNK_SIZE" ct] by (fastforce simp: CHUNK_SIZE_def)
  have keys_len: "length keys = length ?access" using list_all2_lengthD [OF keys2] by simp
  then have keys_ok: "?pub = None \<longrightarrow> keys \<noteq> []" using sender_in_access by (cases rs) auto
  have good: "good_parts C identity kind now (now + ttl) ?n tag ?cs keys ?pub (r_salt rnd)"
    using laws sender ok len(2) chunk_count [of ct] \<open>ct \<noteq> []\<close> s(2) len(1) sizes keys_len keys_ok
      created_keys(1) [OF keys2 laws(1,2)]
    by (simp add: good_parts_def random_ok_def safe_integer_def MAX_SAFE_def CHUNK_SIZE_def)
  obtain body_text where "canon (JObj (parts_body C identity kind now (now + ttl) ?n tag ?cs keys ?pub (r_salt rnd))) = Inr body_text"
    by (rule good_parts_encode [OF good refl])
  with ok s seal keys sk show ?made
    by (simp add: createBundle_def Let_def encode_def parts_body_def not_less code_def)
qed


section \<open>An example\<close>

text \<open>
  A library that satisfies the laws: constant hash and signature, no encryption. It only shows
  that the hypotheses of the theorems can hold together.
\<close>

definition toy :: crypto where
  "toy = \<lparr> sha = (\<lambda>_. replicate 64 97),
     spki = (\<lambda>b. Some (if take 12 b = key_prefix then Ed25519 else X25519)),
     verify_sig = (\<lambda>_ _ _. True), import_private = Some, dh = (\<lambda>_ _. []), hkdf = (\<lambda>_ _ _. []),
     gcm_open = (\<lambda>_ _ _ d _. Some d), parse_json = (\<lambda>_. Some JNull),
     sign = (\<lambda>_ _. replicate 64 0), x_public = (\<lambda>_. replicate 44 0),
     gcm_seal = (\<lambda>_ _ _ d. (d, replicate 16 0)) \<rparr>"

definition toy_identity :: jval where
  "toy_identity = JObj [(lit ''id'', JStr (replicate 64 97)), (lit ''name'', JStr [97]),
     (lit ''signKey'', JStr (b64 (key_prefix @ 2 # replicate 31 0))),
     (lit ''boxKey'', JStr (b64 (replicate 44 0))), (lit ''proof'', JStr [])]"

definition toy_sender :: sender where
  "toy_sender = \<lparr> sender_public = toy_identity, signSecret = [] \<rparr>"

definition toy_random :: random_values where
  "toy_random = \<lparr> r_key = replicate 32 0, r_nonce = replicate 12 0, r_salt = replicate 16 0,
     r_ephemeral = (\<lambda>_. []), r_wrap = (\<lambda>_. replicate 12 0) \<rparr>"

lemma toy_laws: "crypto_laws toy" "random_ok toy_random"
proof -
  have "take 12 (replicate 44 (0 :: 8 word)) \<noteq> key_prefix" by code_simp
  then show "crypto_laws toy" "random_ok toy_random"
    by (auto simp: crypto_laws_def toy_def random_ok_def toy_random_def hex64_def is_hex_def list_all_iff)
qed

lemma toy_key: "admittedSigningKey (key_prefix @ 2 # replicate 31 0)"
  by code_simp

lemma toy_valid: "validateIdentity toy toy_identity"
proof -
  let ?sk = "key_prefix @ 2 # replicate 31 0" and ?bk = "replicate 44 0"
  have codes: "un64 (JStr (b64 ?sk)) 256 = Inr ?sk" "un64 (JStr (b64 ?bk)) 256 = Inr ?bk" "un64 (JStr []) 128 = Inr []"
  proof -
    have "length ?sk = 44" "length ?bk = 44" by (simp_all add: key_prefix_def)
    then show "un64 (JStr (b64 ?sk)) 256 = Inr ?sk" "un64 (JStr (b64 ?bk)) 256 = Inr ?bk"
      by (simp_all only: un64_b64) simp_all
    show "un64 (JStr []) 128 = Inr []" using un64_b64 [of "[]" 128] by simp
  qed
  have "take 12 ?bk \<noteq> key_prefix" "take 12 ?sk = key_prefix" by code_simp+
  then have kinds: "spki toy ?sk = Some Ed25519" "spki toy ?bk = Some X25519" "sha toy ?sk = replicate 64 97"
    by (simp_all add: toy_def del: take_append)
  have get: "jget toy_identity (lit ''id'') = JStr (replicate 64 97)" "jget toy_identity (lit ''name'') = JStr [97]"
    "jget toy_identity (lit ''signKey'') = JStr (b64 ?sk)" "jget toy_identity (lit ''boxKey'') = JStr (b64 ?bk)"
    "jget toy_identity (lit ''proof'') = JStr []"
    by (simp_all add: toy_identity_def jget_def)
  have shape: "exactShape toy_identity identity_keys"
    by (simp add: toy_identity_def exactShape_def identity_keys_def ohas_def)
  let ?p = "JObj (map (\<lambda>k. (lit k, jget toy_identity (lit k))) [''id'', ''name'', ''signKey'', ''boxKey''])"
  obtain s where "canon ?p = Inr s"
    using canonical_defined [of ?p] by (auto simp: toy_identity_def jget_def nesting_le)
  then show ?thesis
    using codes kinds toy_key get shape
    by (simp add: validateIdentity_def identity_check_def Let_def publicBytes_def encode_def code_def
        is_str_def str_of_def del: b64.simps append.simps) (simp add: toy_def)
qed

lemma null_length: "utf8_length (lit ''null'') = 4"
  using utf8_length_ascii [of "lit ''null''"] by (simp add: lit_def of_char_def)

lemma toy_chunks: "content_chunks toy JNull toy_random = [utf8 (lit ''null'')]"
proof -
  have "split_chunks n bs = [bs]" if "bs \<noteq> []" "length bs \<le> n" for n and bs :: bytes
    using that by (subst split_chunks.simps) (cases n; auto)
  moreover have "canon JNull = Inr (lit ''null'')" by (simp add: canonical.simps)
  ultimately show ?thesis using null_length length_utf8 [of "lit ''null''"]
    by (simp add: content_chunks_def toy_def CHUNK_SIZE_def flip: length_greater_0_conv)
qed

lemma toy_bundle:
  assumes "rs = Public \<or> rs = Readers []"
  shows "\<exists>b. createBundle toy toy_sender [97] JNull rs 2000 0 toy_random = Inr b"
    "created_ok toy toy_sender JNull 2000 0 toy_random"
proof -
  have null: "canon JNull = Inr (lit ''null'')" by (simp add: canonical.simps)
  note text_len = null_length and chunks = toy_chunks
  have secret: "un64 (JStr []) 256 = Inr []" using un64_b64 [of "[]" 256] by simp
  have access: "length (access_list toy_sender rs) \<le> 64" "list_all (validateIdentity toy) (access_list toy_sender rs)"
    using assms toy_valid by (auto simp: access_list_def toy_sender_def ovals_def)
  show "created_ok toy toy_sender JNull 2000 0 toy_random"
    using toy_laws toy_valid
    by (simp add: created_ok_def chunks sender_ok_def toy_sender_def MAX_SAFE_def) (simp add: toy_def)
  have "\<exists>secret sk. un64 (JStr (signSecret toy_sender)) 256 = Inr secret \<and> import_private toy secret = Some sk"
    using secret by (simp add: toy_sender_def) (simp add: toy_def)
  moreover have "\<exists>s. canon JNull = Inr s \<and> int (utf8_length s) \<le> MAX_CONTENT"
    using null text_len by (simp add: MAX_CONTENT_def)
  ultimately show "\<exists>b. createBundle toy toy_sender [97] JNull rs 2000 0 toy_random = Inr b"
    using toy_laws toy_valid access
    by (subst createBundle_succeeds) (simp_all add: toy_sender_def MAX_SAFE_def kind_name_def)
qed



theorem bundle_roundtrip_witness:
  "\<exists>b. createBundle toy toy_sender [97] JNull (Readers []) 2000 0 toy_random = Inr b \<and>
     decryptBundle toy b (Some \<lparr>public_id = replicate 64 97, boxSecret = []\<rparr>) 1 = Inr JNull"
proof -
  let ?me = "\<lparr>public_id = replicate 64 97, boxSecret = []\<rparr>"
  have "un64 (JStr []) 256 = Inr []" using un64_b64 [of "[]" 256] by simp
  then have reads: "may_read toy toy_sender (Readers []) ?me"
    by (simp add: may_read_def access_list_def ovals_def toy_sender_def toy_identity_def jget_def) (simp add: toy_def)
  obtain b where b: "createBundle toy toy_sender [97] JNull (Readers []) 2000 0 toy_random = Inr b"
    using toy_bundle(1) by blast
  have "decryptBundle toy b (Some ?me) 1 = Inr JNull"
    using b toy_bundle(2) [of "Readers []"] reads by (intro bundle_roundtrip [OF b]) (auto simp: toy_def)
  with b show ?thesis by blast
qed

theorem verifyBundle_sound_witness:
  "\<exists>b. verifyBundle toy b 1 = Inr () \<and> author_signed toy (manifest_of b)"
proof -
  obtain b where b: "createBundle toy toy_sender [97] JNull (Readers []) 2000 0 toy_random = Inr b"
    using toy_bundle(1) by blast
  then have "verifyBundle toy b 1 = Inr ()"
    using toy_bundle(2) [of "Readers []"] by (intro created_bundle [OF b]) auto
  with verifyBundle_sound [OF this] show ?thesis by blast
qed

lemma swapped_bundle:
  fixes m t :: jval
  defines "a \<equiv> JObj [(lit ''manifest'', m), (lit ''chunks'', t)]"
    and "b \<equiv> JObj [(lit ''chunks'', t), (lit ''manifest'', m)]"
  shows "verifyBundle C b now = verifyBundle C a now" "manifest_of b = manifest_of a"
    "chunk_bytes b = chunk_bytes a"
proof -
  have get: "jget b (lit ''manifest'') = jget a (lit ''manifest'')" "jget b (lit ''chunks'') = jget a (lit ''chunks'')"
    by (simp_all add: a_def b_def jget_def)
  have "exactShape b ks = exactShape a ks" for ks
    by (simp add: a_def b_def exactShape_def ohas_def insert_commute list_all_iff)
  with get show "verifyBundle C b now = verifyBundle C a now" by (simp add: verifyBundle_def)
  show "manifest_of b = manifest_of a" "chunk_bytes b = chunk_bytes a"
    using get by (simp_all add: manifest_of_def chunk_bytes_def fun_eq_iff)
qed

theorem content_addressed_witness:
  "\<exists>a b. a \<noteq> b \<and> verifyBundle toy a 1 = Inr () \<and> verifyBundle toy b 1 = Inr () \<and>
     bundle_id a = bundle_id b \<and> bundle_content a = bundle_content b \<and> bundle_content a \<noteq> []"
proof -
  obtain a where made: "createBundle toy toy_sender [97] JNull Public 2000 0 toy_random = Inr a"
    using toy_bundle(1) by blast
  obtain s ct tag cs keys pub s' secret sk body where p: "cs = content_chunks toy JNull toy_random"
    "list_all2 (\<lambda>(i, r) e. wrap toy (r_ephemeral toy_random i) (r_wrap toy_random i) (r_key toy_random) r = Inr e)
       (enumerate 0 (access_list toy_sender Public)) keys"
    "body = parts_body toy toy_sender [97] 0 (0 + 2000) (r_nonce toy_random) tag cs keys pub (r_salt toy_random)"
    "a = JObj [(lit ''manifest'', JObj (body @ [(lit ''id'', JStr (sha toy (utf8 s'))),
         (lit ''signature'', JStr (b64 (sign toy sk (utf8 s'))))])),
       (lit ''chunks'', JObj (chunk_table toy cs))]"
    "pub = (if Public = Public then Some (r_key toy_random) else None)"
    using made toy_laws by (rule createBundleE)
  define m t where "m = jget a (lit ''manifest'')" and "t = jget a (lit ''chunks'')"
  define b where "b = JObj [(lit ''chunks'', t), (lit ''manifest'', m)]"
  have a: "a = JObj [(lit ''manifest'', m), (lit ''chunks'', t)]" by (simp add: m_def t_def p(4) jget_def)
  have ok: "verifyBundle toy a 1 = Inr ()"
    using toy_bundle(2) [of Public] by (intro created_bundle [OF made]) auto
  have swap: "verifyBundle toy b 1 = verifyBundle toy a 1" "manifest_of b = manifest_of a" "chunk_bytes b = chunk_bytes a"
    unfolding a b_def by (rule swapped_bundle)+
  have refs: "chunk_refs (manifest_of a) = [chunk_ref toy (utf8 (lit ''null''))]"
    by (simp add: manifest_of_def p(3,4) jget_def p(1) toy_chunks chunk_refs_def parts_body_def body_fields_def items_of_def)
  have "keys = []" using p(2) by (simp add: access_list_def)
  then have fracs: "fracs_ok (manifest_body (manifest_of a))"
    by (simp add: manifest_of_def p(3,4) jget_def manifest_body_def fields_of_def parts_body_def body_fields_def
        odel_def p(1,5) toy_chunks chunk_ref_def toy_sender_def toy_identity_def)
  have free: "collision_free toy a b"
    by (auto simp: collision_free_def swap refs body_texts_def inj_on_def)
  have "chunk_stored toy a (chunk_ref toy (utf8 (lit ''null'')))"
    using verifyBundle_facts(2) [OF ok] refs by simp
  then have "bundle_content a \<noteq> []"
    using null_length length_utf8 [of "lit ''null''"]
    by (auto simp: bundle_content_def refs chunk_stored_def chunk_ref_def jget_def int_of_def)
  moreover have "bundle_id a = bundle_id b" by (simp add: bundle_id_def swap(2))
  moreover have "a \<noteq> b" by (simp add: a b_def)
  ultimately show ?thesis
    using content_addressed [of toy a 1 b 1] ok swap(1,2) free fracs
    by (intro exI [of _ a] exI [of _ b]) simp
qed

theorem created_fits_store_witness:
  "\<exists>b tx. createBundle toy toy_sender [97] JNull Public 2000 0 toy_random = Inr b \<and> canon b = Inr tx \<and>
     int (utf8_length tx) \<le> 6 * 1024 * 1024"
proof -
  obtain b where "createBundle toy toy_sender [97] JNull Public 2000 0 toy_random = Inr b"
    using toy_bundle(1) by blast
  with created_fits_store [OF this] toy_bundle(2) [of Public] show ?thesis by blast
qed

end
