(* ===== verification/Store_Examples.thy ===== *)
theory Store_Examples
  imports Store_Ops Bundle_Create
begin

text \<open>
  The theorems on the content store at a concrete store: a bundle is created, stored in an
  empty store, read back, reserved, and found again when the directory is opened.
\<close>

definition empty_store :: store where
  "empty_store = \<lparr>index = [], files = [], cache = [], quota = 10 ^ 7, maxObjects = 2, saved = []\<rparr>"

lemma empty_store_inv: "store_inv empty_store"
  by (simp add: store_inv_def empty_store_def owf_def)

lemma toy_hash: "hex64 (sha toy x)"
  using toy_laws by (simp add: crypto_laws_def)

lemma stored_toy:
  obtains b t i e where
    "createBundle toy toy_sender [97] JNull (Readers []) 2000 0 toy_random = Inr b"
    "insert_bundle toy 1 True True b True False empty_store = (Inr True, t)"
    "verifyBundle toy b 1 = Inr ()" "bundle_id b = JStr i" "hex64 i" "oget (index t) i = Some e"
    "1 < int_of (jget (manifest_of b) (lit ''expires''))"
proof -
  obtain b where b: "createBundle toy toy_sender [97] JNull (Readers []) 2000 0 toy_random = Inr b"
    using toy_bundle(1) by blast
  have ok: "verifyBundle toy b 1 = Inr ()"
    using toy_bundle(2) [of "Readers []"] by (intro created_bundle [OF b]) auto
  obtain i where i: "bundle_id b = JStr i" "hex64 i" using verified_id [OF ok toy_hash] .
  obtain tx where tx: "canon b = Inr tx" "int (utf8_length tx) \<le> 5800000"
    using created_size [OF b] toy_bundle(2) [of "Readers []"] by auto
  have plan: "evictionPlan empty_store (int (utf8_length tx)) 1 (10 ^ 7) 1 = Inr []"
    using tx(2) by (simp add: evictionPlan_def empty_store_def candidates_def)
  obtain t where t: "insert_bundle toy 1 True True b True False empty_store = (Inr True, t)" "oget (index t) i \<noteq> None"
    using ok i tx plan
    by (auto simp: insert_bundle_def Let_def str_of_def save_def empty_store_def MAX_STORED_BUNDLE_def oget_oset
        split: sum.splits)
  moreover have "1 < int_of (jget (manifest_of b) (lit ''expires''))"
    using verifyManifest_facts(4) [OF verifyBundle_facts(1) [OF ok]] by (simp add: live_window_def Let_def)
  ultimately show thesis using that b ok i by blast
qed

theorem put_sound_witness:
  "\<exists>b t. insert_bundle toy 1 True True b True False empty_store = (Inr True, t) \<and> store_inv t \<and> index t \<noteq> []"
proof -
  obtain b t i e where p: "insert_bundle toy 1 True True b True False empty_store = (Inr True, t)"
    by (rule stored_toy)
  from put_sound [OF p empty_store_inv toy_hash] obtain j where "store_inv t" "oget (index t) j \<noteq> None" by auto
  with p show ?thesis by (intro exI [of _ b] exI [of _ t]) auto
qed

theorem put_get_witness:
  "\<exists>b t i u. insert_bundle toy 1 True True b True False empty_store = (Inr True, t) \<and>
     bundle_id b = JStr i \<and> read_bundle toy 1 i True t = (Inr (jnorm b), u)"
proof -
  obtain b t i e where p: "insert_bundle toy 1 True True b True False empty_store = (Inr True, t)"
    "bundle_id b = JStr i" "hex64 i" "oget (index t) i = Some e"
    "1 < int_of (jget (manifest_of b) (lit ''expires''))"
    by (rule stored_toy)
  have "\<exists>u. read_bundle toy 1 i True t = (Inr (jnorm b), u)"
    by (rule put_get [OF p(1) _ p(2-4) empty_store_inv toy_hash _ p(5)]) (simp_all add: empty_store_def)
  with p(1,2) show ?thesis by blast
qed

text \<open>The stored bundle can be read, which is all the other witnesses need.\<close>

lemma toy_read:
  obtains t i e b u where "store_inv t" "hex64 i" "oget (index t) i = Some e" "read_bundle toy 1 i False t = (Inr b, u)"
    "reservations t = []" "reservations u = []"
proof -
  obtain b t i e where p: "insert_bundle toy 1 True True b True False empty_store = (Inr True, t)"
    "verifyBundle toy b 1 = Inr ()" "bundle_id b = JStr i" "hex64 i" "oget (index t) i = Some e"
    by (rule stored_toy)
  have "t \<noteq> empty_store" using p(5) by (auto simp: empty_store_def)
  have none: "oget (index empty_store) i = None" by (simp add: empty_store_def)
  obtain tx removals where q: "int (utf8_length tx) \<le> MAX_STORED_BUNDLE"
    "evictionPlan empty_store (int (utf8_length tx)) 1 (quota empty_store) 1 = Inr removals"
    "files t = filter (\<lambda>p. fst p \<notin> set removals) (oset i \<lparr>fsize = int (utf8_length tx),
       fvalue = Some (jnorm b), fprint = sha toy (utf8 tx)\<rparr> (files empty_store))"
    "index t = oset i \<lparr>esize = int (utf8_length tx), pinned = True, reserved = False, accessed = 1,
       eexpires = int_of (jget (manifest_of b) (lit ''expires''))\<rparr> (filter (\<lambda>p. fst p \<notin> set removals) (index empty_store))"
    using insert_newE [OF p(1,3,2) none \<open>t \<noteq> empty_store\<close>] by metis
  have "removals = []" using q(2) by (auto simp: empty_store_def evictionPlan_def candidates_def split: if_splits)
  then have f: "oget (files t) i = Some \<lparr>fsize = int (utf8_length tx), fvalue = Some (jnorm b), fprint = sha toy (utf8 tx)\<rparr>"
    by (simp add: q(3) oget_oset)
  have inv: "store_inv t" by (rule insert_inv [OF p(1) empty_store_inv toy_hash])
  then have "1 \<le> int (utf8_length tx)"
    using oget_SomeD [OF p(5)] f by (fastforce simp: store_inv_def)
  then have "\<exists>u. read_bundle toy 1 i False t = (Inr (jnorm b), u) \<and> index u = index t"
    using f q(1) p(2-5) by (simp add: read_bundle_def file_bundle_def fileState_def)
  moreover have "reservations t = []" by (simp add: reservations_def q(4) \<open>removals = []\<close> empty_store_def)
  ultimately show thesis using that inv p(4,5) by (auto simp: reservations_def)
qed

theorem get_sound_witness:
  "\<exists>t i b u. read_bundle toy 1 i False t = (Inr b, u) \<and> bundle_id b = JStr i"
proof -
  obtain t i e b u where r: "read_bundle toy 1 i False t = (Inr b, u)" by (rule toy_read)
  with get_sound [OF r] show ?thesis by blast
qed

theorem store_stays_bounded_witness:
  "\<exists>b. store_inv (fold (store_step toy) [(Put b True False True True, 1)] empty_store) \<and>
     verifyBundle toy b 1 = Inr ()"
proof -
  obtain b where "verifyBundle toy b 1 = Inr ()" by (rule stored_toy)
  with store_stays_bounded [OF empty_store_inv toy_hash] show ?thesis by blast
qed

theorem reservations_exact_witness:
  "\<exists>t i u. setReservations toy 1 False [i] t = (Inl WriteFailed, u) \<and> i \<in> set (reservations u) \<and> reservations t = []"
proof -
  obtain t i e b u where p: "store_inv t" "read_bundle toy 1 i False t = (Inr b, u)"
    "reservations t = []" "reservations u = []"
    by (rule toy_read)
  have "remdups_first [i] = [i]" by (simp add: remdups_first_def)
  then have "\<exists>w. setReservations toy 1 False [i] t = (Inl WriteFailed, w)"
    using p by (simp add: setReservations_def Let_def save_def store_inv_def)
  then obtain w where w: "setReservations toy 1 False [i] t = (Inl WriteFailed, w)" ..
  have "set (reservations w) = {i}"
    using reservations_exact [OF w] p(1,3) by (simp add: store_inv_def)
  with w p(3) show ?thesis by blast
qed

theorem open_store_sound_witness:
  "\<exists>i f s. open_store toy 1 True [(i, f)] (Some (JObj [(i, JObj [(lit ''pinned'', JBool True)])])) (10 ^ 7) 2 = Inr s \<and>
     store_inv s \<and> isPinned s i"
proof -
  obtain b t i e where p: "verifyBundle toy b 1 = Inr ()" "bundle_id b = JStr i" "hex64 i" by (rule stored_toy)
  define f where "f = \<lparr>fsize = 5, fvalue = Some b, fprint = []\<rparr>"
  let ?raw = "Some (JObj [(i, JObj [(lit ''pinned'', JBool True)])])"
  have "\<exists>s. open_store toy 1 True [(i, f)] ?raw (10 ^ 7) 2 = Inr s"
    using p
    by (simp add: open_store_def fields_of_def ovals_def raw_entry_ok_def reconcile_file_def f_def MAX_STORED_OBJECTS_def
        MAX_STORED_BUNDLE_def file_bundle_def typed_index_def evictionPlan_def candidates_def expired_def
        unprotected_def raw_flag_def jget_def save_def Let_def List.map_filter_def jhas_def ohas_def is_obj_def lit_def of_char_def)
  then obtain s where s: "open_store toy 1 True [(i, f)] ?raw (10 ^ 7) 2 = Inr s" ..
  have good: "good_file toy 1 i f"
    using p by (simp add: good_file_def file_bundle_def f_def MAX_STORED_BUNDLE_def)
  have flag: "raw_flag (raw_map ?raw) i ''pinned'' pinned"
    by (simp add: raw_flag_def raw_map_def fields_of_def jget_def)
  have "store_inv s \<and> oget (index s) i = Some (rebuilt (raw_map ?raw) 1 i f)"
    using open_store_sound [OF s] p(3) good flag by (simp add: owf_def fields_of_def)
  then have "store_inv s \<and> isPinned s i" using flag by (simp add: isPinned_def rebuilt_def)
  with s show ?thesis by blast
qed

end
