(* ===== verification/Storage.thy ===== *)
theory Storage
  imports Bundle
begin

text \<open>
  The protected store of a profile (\<open>packages/groups/src/storage.ts\<close>): an index of records,
  signed and encrypted, and the records it lists, each encrypted under the index's references.
  The SQLite file is represented by the rows of its two tables; whether a statement succeeds is
  an argument. The callback of a transaction is a function on the transaction, as it has access
  to nothing else of the store; an exception it lets through is \<open>Inl\<close>, and what it did before is
  kept in the transaction, where the callback may go on after it caught one.
\<close>

section \<open>Records and their index\<close>

datatype registry_error =
    RIntegrity string
  | RCapacity
  | RRefused string
  | RText json_error
  | RDatabase

datatype storage_class = DataClass | CheckpointClass

record index_entry =
  en_key :: ustr
  en_slot :: ustr
  en_revision :: int
  en_digest :: ustr
  en_bytes :: int
  en_class :: storage_class

record registry_limits =
  l_total :: int
  l_reserve :: int

record index_body =
  i_owner :: ustr
  i_store :: ustr
  i_revision :: int
  i_limits :: registry_limits
  i_entries :: "index_entry list"

definition REGISTRY_DOMAIN :: jval where
  "REGISTRY_DOMAIN = JStr (lit ''relayloom/local-group-registry/1'')"

definition MAX_INDEX :: int where "MAX_INDEX = 4 * 1024 * 1024"
definition MAX_RECORD :: int where "MAX_RECORD = 512 * 1024"
definition ENVELOPE_OVERHEAD :: int where "ENVELOPE_OVERHEAD = 61"
definition REGISTRY_total :: int where "REGISTRY_total = 64 * 1024 * 1024"
definition REGISTRY_reserve :: int where "REGISTRY_reserve = 4 * 1024 * 1024"

text \<open>The keys of an object, sorted and joined with commas, are compared as a text.\<close>

definition exact_fields :: "jval \<Rightarrow> string list \<Rightarrow> bool" where
  "exact_fields v ks \<longleftrightarrow> is_obj v \<and>
     join (lit '','') (sort_key id (okeys (fields_of v))) = join (lit '','') (sort_key id (map lit ks))"

text \<open>\<open>/^[a-z0-9][a-z0-9:/._-]{0,159}$/\<close>\<close>

definition key_start :: "nat \<Rightarrow> bool" where
  "key_start c \<longleftrightarrow> 97 \<le> c \<and> c \<le> 122 \<or> 48 \<le> c \<and> c \<le> 57"

definition key_char :: "nat \<Rightarrow> bool" where
  "key_char c \<longleftrightarrow> key_start c \<or> c = 58 \<or> c = 47 \<or> c = 46 \<or> c = 95 \<or> c = 45"

definition valid_key :: "ustr \<Rightarrow> bool" where
  "valid_key k = (case k of [] \<Rightarrow> False | c # cs \<Rightarrow> key_start c \<and> length cs \<le> 159 \<and> list_all key_char cs)"

definition class_text :: "storage_class \<Rightarrow> ustr" where
  "class_text c = (case c of DataClass \<Rightarrow> lit ''data'' | CheckpointClass \<Rightarrow> lit ''checkpoint'')"

definition entry_value :: "index_entry \<Rightarrow> jval" where
  "entry_value e = JObj
     [(lit ''key'', JStr (en_key e)), (lit ''slot'', JStr (en_slot e)), (lit ''revision'', JInt (en_revision e)),
      (lit ''digest'', JStr (en_digest e)), (lit ''bytes'', JInt (en_bytes e)),
      (lit ''storageClass'', JStr (class_text (en_class e)))]"

definition limits_value :: "registry_limits \<Rightarrow> jval" where
  "limits_value l = JObj [(lit ''totalBytes'', JInt (l_total l)), (lit ''reserveBytes'', JInt (l_reserve l))]"

definition index_value :: "index_body \<Rightarrow> jval" where
  "index_value b = JObj
     [(lit ''domain'', REGISTRY_DOMAIN), (lit ''owner'', JStr (i_owner b)), (lit ''storeId'', JStr (i_store b)),
      (lit ''revision'', JInt (i_revision b)), (lit ''limits'', limits_value (i_limits b)),
      (lit ''entries'', JArr (map entry_value (i_entries b)))]"

text \<open>\<open>Buffer.from(canonical(v))\<close>\<close>

definition encode_bytes :: "jval \<Rightarrow> registry_error + bytes" where
  "encode_bytes v = (case canon v of Inl e \<Rightarrow> Inl (RText e) | Inr s \<Rightarrow> Inr (utf8 s))"

definition signed_index :: "index_body \<Rightarrow> ustr \<Rightarrow> jval" where
  "signed_index b sig = JObj [(lit ''body'', index_value b), (lit ''signature'', JStr sig)]"

section \<open>Reading the index\<close>

definition decode_record :: "crypto \<Rightarrow> bytes \<Rightarrow> registry_error + jval" where
  "decode_record C b =
     (case parse_json C b of None \<Rightarrow> Inl (RIntegrity ''json'')
      | Some v \<Rightarrow> bindR (encode_bytes v) (\<lambda>t. if t \<noteq> b then Inl (RIntegrity ''canonical'') else Inr v))"

definition read_limits :: "jval \<Rightarrow> registry_error + registry_limits" where
  "read_limits v =
     (let total = jget v (lit ''totalBytes''); reserve = jget v (lit ''reserveBytes'') in
      if \<not> exact_fields v [''totalBytes'', ''reserveBytes''] then Inl (RIntegrity ''fields'')
      else if \<not> (is_safe_int total \<and> 32768 \<le> int_of total \<and> int_of total \<le> REGISTRY_total \<and>
          is_safe_int reserve \<and> 4096 \<le> int_of reserve \<and> int_of reserve < int_of total \<and>
          int_of reserve \<le> REGISTRY_reserve) then Inl (RIntegrity ''limits'')
      else Inr \<lparr>l_total = int_of total, l_reserve = int_of reserve\<rparr>)"

definition entry_keys_text :: "string list" where
  "entry_keys_text = [''key'', ''slot'', ''revision'', ''digest'', ''bytes'', ''storageClass'']"

definition is_hash :: "jval \<Rightarrow> bool" where
  "is_hash v \<longleftrightarrow> is_str v \<and> hex64 (str_of v)"

definition entry_ok :: "int \<Rightarrow> ustr \<Rightarrow> ustr list \<Rightarrow> jval \<Rightarrow> bool" where
  "entry_ok newest prev slots v \<longleftrightarrow>
     is_str (jget v (lit ''key'')) \<and> valid_key (str_of (jget v (lit ''key''))) \<and> prev < str_of (jget v (lit ''key'')) \<and>
     is_hash (jget v (lit ''slot'')) \<and> str_of (jget v (lit ''slot'')) \<notin> set slots \<and> is_hash (jget v (lit ''digest'')) \<and>
     is_safe_int (jget v (lit ''revision'')) \<and> 0 < int_of (jget v (lit ''revision'')) \<and>
     int_of (jget v (lit ''revision'')) \<le> newest \<and>
     is_safe_int (jget v (lit ''bytes'')) \<and> ENVELOPE_OVERHEAD \<le> int_of (jget v (lit ''bytes'')) \<and>
     int_of (jget v (lit ''bytes'')) \<le> MAX_RECORD + ENVELOPE_OVERHEAD \<and>
     jget v (lit ''storageClass'') \<in> {JStr (lit ''data''), JStr (lit ''checkpoint'')}"

definition read_entry :: "jval \<Rightarrow> index_entry" where
  "read_entry v =
     \<lparr>en_key = str_of (jget v (lit ''key'')), en_slot = str_of (jget v (lit ''slot'')),
      en_revision = int_of (jget v (lit ''revision'')), en_digest = str_of (jget v (lit ''digest'')),
      en_bytes = int_of (jget v (lit ''bytes'')),
      en_class = (if jget v (lit ''storageClass'') = JStr (lit ''data'') then DataClass else CheckpointClass)\<rparr>"

fun read_entries :: "int \<Rightarrow> ustr \<Rightarrow> ustr list \<Rightarrow> jval list \<Rightarrow> registry_error + index_entry list" where
  "read_entries newest prev slots [] = Inr []"
| "read_entries newest prev slots (v # vs) =
     (if \<not> exact_fields v entry_keys_text then Inl (RIntegrity ''fields'')
      else if \<not> entry_ok newest prev slots v then Inl (RIntegrity ''reference'')
      else bindR (read_entries newest (en_key (read_entry v)) (en_slot (read_entry v) # slots) vs)
        (\<lambda>es. Inr (read_entry v # es)))"

text \<open>How much of its limits an index uses, when it is written with so many bytes.\<close>

record capacity =
  c_serialized :: int
  c_ordinary :: int
  c_index :: int
  c_ordinaryIndex :: int
  c_indexReserve :: int

definition rows_bytes :: "index_entry list \<Rightarrow> int" where
  "rows_bytes es = sum_list (map (\<lambda>e. en_bytes e + 64) es)"

definition ordinary :: "index_body \<Rightarrow> index_entry list" where
  "ordinary b = filter (\<lambda>e. en_class e = DataClass) (i_entries b)"

definition checkCapacity :: "index_body \<Rightarrow> int \<Rightarrow> registry_error + capacity" where
  "checkCapacity b indexBytes =
     bindR (encode_bytes (JArr (map entry_value (ordinary b)))) (\<lambda>text.
     let rows = rows_bytes (i_entries b);
         ordinaryIndexBytes = int (length text);
         indexReserveBytes = min (128 * 1024) (l_reserve (i_limits b) div 4);
         ordinaryBytes = rows_bytes (ordinary b) + ordinaryIndexBytes;
         serializedBytes = rows + indexBytes + 64
     in if indexBytes > MAX_INDEX \<or> ordinaryIndexBytes > MAX_INDEX - indexReserveBytes \<or>
           serializedBytes > l_total (i_limits b) \<or> ordinaryBytes > l_total (i_limits b) - l_reserve (i_limits b)
        then Inl RCapacity
        else Inr \<lparr>c_serialized = serializedBytes, c_ordinary = ordinaryBytes, c_index = indexBytes,
          c_ordinaryIndex = ordinaryIndexBytes, c_indexReserve = indexReserveBytes\<rparr>)"

section \<open>The file and its keys\<close>

datatype cell = Blob bytes | NotBlob

record checkpoint_row =
  d_id :: int
  d_store :: ustr
  d_payload :: cell

record database =
  db_checkpoint :: "checkpoint_row list"
  db_records :: "(ustr, cell) omap"

text \<open>An open store: the keys of its owner, and whether it may still be used.\<close>

record registry_handle =
  h_owner :: ustr
  h_public :: bytes
  h_private :: bytes
  h_box :: bytes
  h_pinned :: "ustr option"
  h_closed :: bool
  h_poisoned :: bool

text \<open>The random values of one write, and whether its statements succeed.\<close>

record write_seed =
  q_salt :: bytes
  q_nonce :: bytes
  q_slot :: ustr
  q_sql :: bool

definition record_info :: bytes where
  "record_info = utf8 (lit ''relayloom/local-group-registry/1'')"

definition record_aad :: "ustr \<Rightarrow> ustr \<Rightarrow> ustr \<Rightarrow> int \<Rightarrow> registry_error + bytes" where
  "record_aad owner storeId key revision =
     encode_bytes (JArr [REGISTRY_DOMAIN, JStr owner, JStr storeId, JStr key, JInt revision])"

definition seal_record :: "crypto \<Rightarrow> registry_handle \<Rightarrow> write_seed \<Rightarrow> bytes \<Rightarrow> bytes \<Rightarrow> bytes" where
  "seal_record C h q content aad =
     (let (data, tag) = gcm_seal C (hkdf C (h_box h) (q_salt q) record_info) (q_nonce q) aad content in
      [1] @ q_salt q @ q_nonce q @ tag @ data)"

definition unseal_record :: "crypto \<Rightarrow> registry_handle \<Rightarrow> bytes \<Rightarrow> bytes \<Rightarrow> registry_error + bytes" where
  "unseal_record C h envelope aad =
     (if int (length envelope) < ENVELOPE_OVERHEAD \<or> hd envelope \<noteq> 1 then Inl (RIntegrity ''envelope'')
      else (case gcm_open C (hkdf C (h_box h) (take 32 (drop 1 envelope)) record_info) (take 12 (drop 33 envelope)) aad
                (drop 61 envelope) (take 16 (drop 45 envelope)) of
          None \<Rightarrow> Inl (RIntegrity ''authentication'') | Some p \<Rightarrow> Inr p))"

definition index_key :: ustr where "index_key = lit ''@index''"

text \<open>The signature is decoded with \<open>Buffer.from\<close> and must be the text of its own bytes.\<close>

definition signature_bytes :: "jval \<Rightarrow> bytes option" where
  "signature_bytes v =
     (let s = str_of v; b = from64 s in
      if is_str v \<and> length s = 88 \<and> length b = 64 \<and> b64 b = s then Some b else None)"

definition read_body :: "crypto \<Rightarrow> registry_handle \<Rightarrow> ustr \<Rightarrow> jval \<Rightarrow> registry_error + index_body" where
  "read_body C h storeId checked =
     (let v = jget checked (lit ''body''); sig = jget checked (lit ''signature'') in
      if \<not> exact_fields checked [''body'', ''signature''] \<or>
         \<not> exact_fields v [''domain'', ''owner'', ''storeId'', ''revision'', ''limits'', ''entries''] then Inl (RIntegrity ''fields'')
      else if \<not> (jget v (lit ''domain'') = REGISTRY_DOMAIN \<and> jget v (lit ''owner'') = JStr (h_owner h) \<and>
          jget v (lit ''storeId'') = JStr storeId \<and> is_safe_int (jget v (lit ''revision'')) \<and>
          0 \<le> int_of (jget v (lit ''revision'')) \<and> is_str sig \<and> length (str_of sig) = 88) then Inl (RIntegrity ''identity'')
      else (case signature_bytes sig of None \<Rightarrow> Inl (RIntegrity ''signature'')
        | Some s \<Rightarrow> bindR (encode_bytes v) (\<lambda>text.
          if \<not> verify_sig C (h_public h) text s then Inl (RIntegrity ''signature'')
          else bindR (read_limits (jget v (lit ''limits''))) (\<lambda>l.
            let es = jget v (lit ''entries'') in
            if \<not> is_arr es \<or> length (items_of es) > 131072 then Inl (RIntegrity ''entries'')
            else bindR (read_entries (int_of (jget v (lit ''revision''))) [] [] (items_of es)) (\<lambda>entries.
              Inr \<lparr>i_owner = h_owner h, i_store = storeId, i_revision = int_of (jget v (lit ''revision'')),
                i_limits = l, i_entries = entries\<rparr>)))))"

definition loadIndex :: "crypto \<Rightarrow> registry_handle \<Rightarrow> database \<Rightarrow> registry_error + index_body" where
  "loadIndex C h db =
     (case db_checkpoint db of
        [row] \<Rightarrow>
          (case d_payload row of NotBlob \<Rightarrow> Inl (RIntegrity ''checkpoint'')
           | Blob envelope \<Rightarrow>
             if d_id row \<noteq> 1 \<or> \<not> hex64 (d_store row) \<or> int (length envelope) < ENVELOPE_OVERHEAD \<or>
                int (length envelope) > MAX_INDEX then Inl (RIntegrity ''checkpoint'')
             else if h_pinned h \<noteq> None \<and> h_pinned h \<noteq> Some (d_store row) then Inl (RIntegrity ''other store'')
             else bindR (record_aad (h_owner h) (d_store row) index_key 0) (\<lambda>aad.
               bindR (unseal_record C h envelope aad) (\<lambda>plain.
               bindR (decode_record C plain) (\<lambda>checked.
               bindR (read_body C h (d_store row) checked) (\<lambda>b.
               if length (db_records db) \<noteq> length (i_entries b) then Inl (RIntegrity ''rows'')
               else bindR (checkCapacity b (int (length envelope))) (\<lambda>_. Inr b))))))
      | _ \<Rightarrow> Inl (RIntegrity ''checkpoint''))"

text \<open>The index is sorted, signed, measured and sealed.\<close>

definition sort_index :: "index_body \<Rightarrow> index_body" where
  "sort_index b = b\<lparr>i_entries := sort_key en_key (i_entries b)\<rparr>"

definition saveIndex :: "crypto \<Rightarrow> registry_handle \<Rightarrow> write_seed \<Rightarrow> index_body \<Rightarrow> registry_error + checkpoint_row" where
  "saveIndex C h q b0 =
     (let b = sort_index b0 in
      bindR (encode_bytes (index_value b)) (\<lambda>text.
      bindR (encode_bytes (signed_index b (b64 (sign C (h_private h) text)))) (\<lambda>plain.
      bindR (checkCapacity b (int (length plain) + ENVELOPE_OVERHEAD)) (\<lambda>_.
      bindR (record_aad (h_owner h) (i_store b) index_key 0) (\<lambda>aad.
      if \<not> q_sql q then Inl RDatabase
      else Inr \<lparr>d_id = 1, d_store = i_store b, d_payload = Blob (seal_record C h q plain aad)\<rparr>)))))"

section \<open>Transactions\<close>

record transaction =
  t_body :: index_body
  t_records :: "(ustr, cell) omap"
  t_writable :: bool
  t_changed :: bool
  t_mutations :: nat
  t_failure :: "registry_error option"
  t_aborted :: "registry_error option"
  t_seeds :: "nat \<Rightarrow> write_seed"
  t_writes :: nat

type_synonym 'a action = "transaction \<Rightarrow> (registry_error + 'a) \<times> transaction"

definition tx_return :: "'a \<Rightarrow> 'a action" where
  "tx_return x t = (Inr x, t)"

definition tx_throw :: "registry_error \<Rightarrow> 'a action" where
  "tx_throw e t = (Inl e, t)"

definition tx_bind :: "'a action \<Rightarrow> ('a \<Rightarrow> 'b action) \<Rightarrow> 'b action" where
  "tx_bind m f t = (case m t of (Inl e, t1) \<Rightarrow> (Inl e, t1) | (Inr x, t1) \<Rightarrow> f x t1)"

definition tx_catch :: "'a action \<Rightarrow> (registry_error \<Rightarrow> 'a action) \<Rightarrow> 'a action" where
  "tx_catch m f t = (case m t of (Inl e, t1) \<Rightarrow> f e t1 | (Inr x, t1) \<Rightarrow> (Inr x, t1))"

text \<open>
  A failing statement ends the transaction: every later statement fails with the same error,
  and the transaction is rolled back even if the callback caught it.
\<close>

definition guarded :: "(registry_error + 'a) \<Rightarrow> 'a action" where
  "guarded m t =
     (case t_failure t of Some e \<Rightarrow> (Inl e, t)
      | None \<Rightarrow> (case m of Inl e \<Rightarrow> (Inl e, t\<lparr>t_failure := Some e\<rparr>) | Inr x \<Rightarrow> (Inr x, t)))"

definition tx_check :: "bool \<Rightarrow> transaction \<Rightarrow> registry_error + unit" where
  "tx_check write t =
     (case t_aborted t of Some e \<Rightarrow> Inl e
      | None \<Rightarrow> if write \<and> \<not> t_writable t then Inl (RRefused ''transaction ended or read only'') else Inr ())"

definition tx_generation :: "nat action" where
  "tx_generation t = (bindR (tx_check False t) (\<lambda>_. Inr (t_mutations t)), t)"

definition tx_abort :: "registry_error \<Rightarrow> 'a action" where
  "tx_abort cause t =
     (case tx_check False t of Inl e \<Rightarrow> (Inl e, t)
      | Inr _ \<Rightarrow> (let failure = (case t_failure t of Some e \<Rightarrow> e | None \<Rightarrow> cause) in
          (Inl failure, t\<lparr>t_aborted := Some cause, t_failure := Some failure\<rparr>)))"

definition tx_indexBody :: "index_body action" where
  "tx_indexBody t = (bindR (tx_check False t) (\<lambda>_. Inr (t_body t)), t)"

definition find_entry :: "transaction \<Rightarrow> ustr \<Rightarrow> index_entry option" where
  "find_entry t key = find (\<lambda>e. en_key e = key) (i_entries (t_body t))"

definition tx_keys :: "ustr \<Rightarrow> ustr list action" where
  "tx_keys start t =
     (bindR (tx_check False t) (\<lambda>_. Inr (sort_key id
        (filter (\<lambda>k. take (length start) k = start) (map en_key (i_entries (t_body t)))))), t)"

text \<open>A row is read only if it has the size and the hash the signed index gives for it.\<close>

definition read_row :: "crypto \<Rightarrow> registry_handle \<Rightarrow> transaction \<Rightarrow> index_entry \<Rightarrow> registry_error + bytes" where
  "read_row C h t e =
     (case oget (t_records t) (en_slot e) of
        Some (Blob envelope) \<Rightarrow>
          if int (length envelope) \<noteq> en_bytes e then Inl (RIntegrity ''size'')
          else if sha C envelope \<noteq> en_digest e then Inl (RIntegrity ''digest'')
          else bindR (record_aad (h_owner h) (i_store (t_body t)) (en_key e) (en_revision e)) (unseal_record C h envelope)
      | _ \<Rightarrow> Inl (RIntegrity ''size''))"

definition tx_get :: "crypto \<Rightarrow> registry_handle \<Rightarrow> ustr \<Rightarrow> bytes option action" where
  "tx_get C h key t =
     (case tx_check False t of Inl e \<Rightarrow> (Inl e, t)
      | Inr _ \<Rightarrow>
        if \<not> valid_key key then (Inl (RRefused ''key''), t)
        else (case find_entry t key of None \<Rightarrow> (Inr None, t)
          | Some e \<Rightarrow> guarded (bindR (read_row C h t e) (\<lambda>b. Inr (Some b))) t))"

text \<open>
  A record is sealed, and the index it would give is measured, before any row changes: a
  transaction that is out of room is not at an end.
\<close>

definition next_revision :: "transaction \<Rightarrow> int" where
  "next_revision t = i_revision (t_body t) + 1"

definition new_entry :: "crypto \<Rightarrow> transaction \<Rightarrow> ustr \<Rightarrow> storage_class \<Rightarrow> write_seed \<Rightarrow> bytes \<Rightarrow> index_entry" where
  "new_entry C t key cl q envelope =
     \<lparr>en_key = key, en_slot = q_slot q, en_revision = next_revision t, en_digest = sha C envelope,
      en_bytes = int (length envelope), en_class = cl\<rparr>"

definition others :: "transaction \<Rightarrow> ustr \<Rightarrow> index_entry list" where
  "others t key = filter (\<lambda>e. en_key e \<noteq> key) (i_entries (t_body t))"

definition placeholder :: ustr where "placeholder = replicate 88 65"

definition measure_index :: "index_body \<Rightarrow> registry_error + capacity" where
  "measure_index b =
     bindR (encode_bytes (signed_index b placeholder)) (\<lambda>text.
     checkCapacity b (int (length text) + ENVELOPE_OVERHEAD))"

definition prepare_write ::
    "crypto \<Rightarrow> registry_handle \<Rightarrow> transaction \<Rightarrow> ustr \<Rightarrow> bytes \<Rightarrow> storage_class \<Rightarrow> registry_error + index_entry \<times> bytes" where
  "prepare_write C h t key bs cl =
     (let q = t_seeds t (t_writes t); b = t_body t in
      bindR (record_aad (h_owner h) (i_store b) key (next_revision t)) (\<lambda>aad.
      let envelope = seal_record C h q bs aad; e = new_entry C t key cl q envelope in
      bindR (measure_index (b\<lparr>i_revision := next_revision t, i_entries := others t key @ [e]\<rparr>)) (\<lambda>_.
      Inr (e, envelope))))"

definition write_row :: "transaction \<Rightarrow> index_entry option \<Rightarrow> ustr \<Rightarrow> bytes \<Rightarrow> registry_error + (ustr, cell) omap" where
  "write_row t old slot envelope =
     (let rows = (case old of None \<Rightarrow> t_records t | Some e \<Rightarrow> odel (en_slot e) (t_records t)) in
      if \<not> q_sql (t_seeds t (t_writes t)) \<or> ohas rows slot then Inl RDatabase
      else Inr (rows @ [(slot, Blob envelope)]))"

definition next_seed :: "transaction \<Rightarrow> transaction" where
  "next_seed t = t\<lparr>t_writes := t_writes t + 1\<rparr>"

definition tx_put :: "crypto \<Rightarrow> registry_handle \<Rightarrow> ustr \<Rightarrow> bytes \<Rightarrow> storage_class \<Rightarrow> unit action" where
  "tx_put C h key bs cl t =
     (case tx_check True t of Inl e \<Rightarrow> (Inl e, t)
      | Inr _ \<Rightarrow>
        if \<not> valid_key key \<or> int (length bs) > MAX_RECORD then (Inl (RRefused ''record''), t)
        else (case prepare_write C h t key bs cl of Inl e \<Rightarrow> (Inl e, next_seed t)
          | Inr (e, envelope) \<Rightarrow>
            (case guarded (write_row t (find_entry t key) (en_slot e) envelope) t of
               (Inl err, t1) \<Rightarrow> (Inl err, next_seed t1)
             | (Inr rows, t1) \<Rightarrow>
                 (Inr (), next_seed (t1\<lparr>t_records := rows, t_changed := True, t_mutations := t_mutations t1 + 1,
                    t_body := (t_body t1)\<lparr>i_entries := others t key @ [e]\<rparr>\<rparr>)))))"

definition delete_row :: "transaction \<Rightarrow> index_entry \<Rightarrow> registry_error + (ustr, cell) omap" where
  "delete_row t e =
     (if \<not> q_sql (t_seeds t (t_writes t)) then Inl RDatabase else Inr (odel (en_slot e) (t_records t)))"

definition tx_delete :: "ustr \<Rightarrow> unit action" where
  "tx_delete key t =
     (case tx_check True t of Inl e \<Rightarrow> (Inl e, t)
      | Inr _ \<Rightarrow>
        if \<not> valid_key key then (Inl (RRefused ''key''), t)
        else (case find_entry t key of None \<Rightarrow> (Inr (), t)
          | Some e \<Rightarrow>
            (case guarded (delete_row t e) t of
               (Inl err, t1) \<Rightarrow> (Inl err, next_seed t1)
             | (Inr rows, t1) \<Rightarrow>
                 (Inr (), next_seed (t1\<lparr>t_records := rows, t_changed := True, t_mutations := t_mutations t1 + 1,
                    t_body := (t_body t1)\<lparr>i_entries := remove1 e (i_entries (t_body t1))\<rparr>\<rparr>)))))"

text \<open>The amounts of \<open>accounting\<close>; what it says of SQLite's pages is left out.\<close>

definition tx_accounting :: "capacity action" where
  "tx_accounting t = (bindR (tx_check False t) (\<lambda>_. measure_index (t_body t)), t)"

section \<open>Running a transaction\<close>

text \<open>
  Whether the statements around the callback succeed, and whether a commit that reports a
  failure took effect nevertheless.
\<close>

record sql_outcome =
  v_begin :: bool
  v_commit :: bool
  v_applied :: bool
  v_rollback :: bool
  v_save :: write_seed
  v_writes :: "nat \<Rightarrow> write_seed"

definition is_integrity :: "registry_error \<Rightarrow> bool" where
  "is_integrity e = (case e of RIntegrity _ \<Rightarrow> True | _ \<Rightarrow> False)"

definition poison :: "bool \<Rightarrow> registry_handle \<Rightarrow> registry_handle" where
  "poison p h = (if p then h\<lparr>h_poisoned := True\<rparr> else h)"

definition begin_tx :: "bool \<Rightarrow> (nat \<Rightarrow> write_seed) \<Rightarrow> index_body \<Rightarrow> database \<Rightarrow> transaction" where
  "begin_tx writable seeds b db =
     \<lparr>t_body = b, t_records = db_records db, t_writable = writable, t_changed = False, t_mutations = 0,
      t_failure = None, t_aborted = None, t_seeds = seeds, t_writes = 0\<rparr>"

text \<open>What a callback leaves: its own error, or the failure it caught, or its result.\<close>

definition settle_tx :: "(registry_error + 'a) \<Rightarrow> transaction \<Rightarrow> registry_error + 'a" where
  "settle_tx r t = bindR r (\<lambda>x. case t_failure t of Some e \<Rightarrow> Inl e | None \<Rightarrow> Inr x)"

definition save_tx :: "crypto \<Rightarrow> registry_handle \<Rightarrow> write_seed \<Rightarrow> transaction \<Rightarrow> database \<Rightarrow> registry_error + database" where
  "save_tx C h q t db =
     (if t_writable t \<and> t_changed t
      then bindR (saveIndex C h q ((t_body t)\<lparr>i_revision := next_revision t\<rparr>)) (\<lambda>row.
        Inr \<lparr>db_checkpoint = [row], db_records = t_records t\<rparr>)
      else Inr db)"

definition execute ::
    "crypto \<Rightarrow> bool \<Rightarrow> sql_outcome \<Rightarrow> 'a action \<Rightarrow> registry_handle \<Rightarrow> database \<Rightarrow>
     (registry_error + 'a) \<times> registry_handle \<times> database" where
  "execute C writable v f h db =
     (if h_closed h \<or> h_poisoned h then (Inl (RRefused ''closed, uncertain or active''), h, db)
      else if \<not> v_begin v then (Inl RDatabase, h, db)
      else (case loadIndex C h db of
          Inl e \<Rightarrow> (Inl e, poison (is_integrity e \<or> \<not> v_rollback v) h, db)
        | Inr b \<Rightarrow>
          let h1 = h\<lparr>h_pinned := Some (i_store b)\<rparr> in
          if writable \<and> \<not> safe_integer (i_revision b + 1) then (Inl (RIntegrity ''revision''), poison True h1, db)
          else let (r, t) = f (begin_tx writable (v_writes v) b db) in
            (case bindR (settle_tx r t) (\<lambda>x. bindR (save_tx C h1 (v_save v) t db) (\<lambda>db1. Inr (x, db1))) of
               Inl e \<Rightarrow>
                 (Inl e, poison (is_integrity e \<or> list_ex is_integrity (case t_failure t of None \<Rightarrow> [] | Some c \<Rightarrow> [c]) \<or>
                    \<not> v_rollback v) h1, db)
             | Inr (x, db1) \<Rightarrow>
                 if v_commit v then (Inr x, h1, db1)
                 else (Inl RDatabase, poison True h1, if v_applied v then db1 else db))))"

definition view_registry where
  "view_registry C v f h db = execute C False v f h db"

definition transact where
  "transact C v f h db = execute C True v f h db"

definition close_registry :: "registry_handle \<Rightarrow> registry_handle" where
  "close_registry h = h\<lparr>h_closed := True\<rparr>"

text \<open>
  A new store has an empty index at revision 0. Its keys must be those of its owner: the kind
  and the public part of a private key are a parameter, and the secrets are given decoded.
\<close>

record owner_keys =
  o_public :: jval
  o_sign :: bytes
  o_box :: bytes

definition registry_owner ::
    "crypto \<Rightarrow> (bytes \<Rightarrow> key_kind \<times> bytes) \<Rightarrow> owner_keys \<Rightarrow> ustr option \<Rightarrow> registry_error + registry_handle" where
  "registry_owner C key_pair k pinned =
     (let card = o_public k; sk = jget card (lit ''signKey''); bk = jget card (lit ''boxKey'') in
      if \<not> validateIdentity C card then Inl (RIntegrity ''identity'')
      else if \<not> list_all hex64 (case pinned of None \<Rightarrow> [] | Some i \<Rightarrow> [i]) then Inl (RIntegrity ''store id'')
      else (case Option.bind (import_private C (o_sign k)) (\<lambda>p. Some (p, key_pair p)) of None \<Rightarrow> Inl (RRefused ''key'')
        | Some (signer, kind, pub) \<Rightarrow>
          if kind \<noteq> Ed25519 \<or> JStr (b64 pub) \<noteq> sk then Inl (RIntegrity ''signing key'')
          else (case Option.bind (import_private C (o_box k)) (\<lambda>p. Some (key_pair p)) of None \<Rightarrow> Inl (RRefused ''key'')
            | Some (kind', pub') \<Rightarrow>
              if kind' \<noteq> X25519 \<or> JStr (b64 pub') \<noteq> bk then Inl (RIntegrity ''reading key'')
              else Inr \<lparr>h_owner = str_of (jget card (lit ''id'')), h_public = pub, h_private = signer, h_box = o_box k,
                h_pinned = pinned, h_closed = False, h_poisoned = False\<rparr>)))"

definition create_registry ::
    "crypto \<Rightarrow> registry_handle \<Rightarrow> write_seed \<Rightarrow> ustr \<Rightarrow> jval \<Rightarrow> registry_error + database" where
  "create_registry C h q storeId lim =
     bindR (read_limits lim) (\<lambda>l.
     bindR (saveIndex C h q \<lparr>i_owner = h_owner h, i_store = storeId, i_revision = 0, i_limits = l, i_entries = []\<rparr>) (\<lambda>row.
     Inr \<lparr>db_checkpoint = [row], db_records = []\<rparr>))"

end
