(* ===== verification/Storage_Facts.thy ===== *)
theory Storage_Facts
  imports Storage Bundle_Create
begin

text \<open>
  The transactions of the protected store implement a finite map from keys to bytes: what was
  put is read, nothing else changes, and running out of room changes nothing.
\<close>

section \<open>Sealing and reading a row\<close>

definition gcm_laws :: "crypto \<Rightarrow> bool" where
  "gcm_laws C \<longleftrightarrow> (\<forall>b. hex64 (sha C b)) \<and>
     (\<forall>k n ad d. length (fst (gcm_seal C k n ad d)) = length d \<and> length (snd (gcm_seal C k n ad d)) = 16 \<and>
        gcm_open C k n ad (fst (gcm_seal C k n ad d)) (snd (gcm_seal C k n ad d)) = Some d)"

definition seed_ok :: "write_seed \<Rightarrow> bool" where
  "seed_ok q \<longleftrightarrow> length (q_salt q) = 32 \<and> length (q_nonce q) = 12 \<and> hex64 (q_slot q)"

lemma length_seal_record:
  "gcm_laws C \<Longrightarrow> seed_ok q \<Longrightarrow> length (seal_record C h q b aad) = length b + 61"
  by (auto simp: seal_record_def gcm_laws_def seed_ok_def case_prod_beta Let_def)

lemma unseal_seal:
  assumes "gcm_laws C" "seed_ok q"
  shows "unseal_record C h (seal_record C h q b aad) aad = Inr b"
proof -
  let ?k = "hkdf C (h_box h) (q_salt q) record_info"
  obtain d t where s: "gcm_seal C ?k (q_nonce q) aad b = (d, t)" by fastforce
  from assms s have o: "gcm_open C ?k (q_nonce q) aad d t = Some b" "length t = 16"
    unfolding gcm_laws_def by (metis fst_conv snd_conv)+
  show ?thesis using assms(2) o s
    by (simp add: unseal_record_def seal_record_def seed_ok_def ENVELOPE_OVERHEAD_def Let_def)
qed

lemma record_aad_total: "\<exists>a. record_aad owner store key r = Inr a"
proof -
  have "\<exists>s. canon (JArr [REGISTRY_DOMAIN, JStr owner, JStr store, JStr key, JInt r]) = Inr s"
    unfolding canonical_total by (simp add: REGISTRY_DOMAIN_def nesting_le)
  then show ?thesis by (auto simp: record_aad_def encode_bytes_def)
qed

section \<open>A transaction in good order\<close>

definition entry_wf :: "int \<Rightarrow> index_entry \<Rightarrow> bool" where
  "entry_wf newest e \<longleftrightarrow> valid_key (en_key e) \<and> hex64 (en_slot e) \<and> hex64 (en_digest e) \<and>
     0 < en_revision e \<and> en_revision e \<le> newest \<and>
     ENVELOPE_OVERHEAD \<le> en_bytes e \<and> en_bytes e \<le> MAX_RECORD + ENVELOPE_OVERHEAD"

definition tx_sound :: "crypto \<Rightarrow> registry_handle \<Rightarrow> transaction \<Rightarrow> bool" where
  "tx_sound C h t \<longleftrightarrow>
     gcm_laws C \<and> (\<forall>i. seed_ok (t_seeds t i)) \<and> t_failure t = None \<and> t_aborted t = None \<and>
     0 \<le> i_revision (t_body t) \<and>
     distinct (map en_key (i_entries (t_body t))) \<and> distinct (map en_slot (i_entries (t_body t))) \<and>
     owf (t_records t) \<and> fst ` set (t_records t) = en_slot ` set (i_entries (t_body t)) \<and>
     (\<forall>e \<in> set (i_entries (t_body t)). entry_wf (next_revision t) e \<and> (\<exists>b. read_row C h t e = Inr b))"

definition row_value :: "crypto \<Rightarrow> registry_handle \<Rightarrow> transaction \<Rightarrow> index_entry \<Rightarrow> bytes option" where
  "row_value C h t e = (case read_row C h t e of Inl _ \<Rightarrow> None | Inr b \<Rightarrow> Some b)"

lemma row_value_Some [simp]: "row_value C h t e = Some b \<longleftrightarrow> read_row C h t e = Inr b"
  by (simp add: row_value_def split: sum.split)

definition tx_map :: "crypto \<Rightarrow> registry_handle \<Rightarrow> transaction \<Rightarrow> ustr \<Rightarrow> bytes option" where
  "tx_map C h t key = Option.bind (find_entry t key) (row_value C h t)"

lemma find_entry_iff:
  assumes "distinct (map en_key (i_entries (t_body t)))"
  shows "find_entry t key = Some e \<longleftrightarrow> e \<in> set (i_entries (t_body t)) \<and> en_key e = key"
proof -
  have "find (\<lambda>e. en_key e = key) es = Some e \<longleftrightarrow> e \<in> set es \<and> en_key e = key" if "distinct (map en_key es)" for es
    using that by (induction es) (auto simp: image_iff)
  then show ?thesis using assms by (simp add: find_entry_def)
qed

lemma find_entry_None: "find_entry t key = None \<longleftrightarrow> key \<notin> en_key ` set (i_entries (t_body t))"
  by (auto simp: find_entry_def find_None_iff)

lemma tx_map_Some:
  assumes "tx_sound C h t"
  shows "tx_map C h t key = Some b \<longleftrightarrow> (\<exists>e \<in> set (i_entries (t_body t)). en_key e = key \<and> read_row C h t e = Inr b)"
proof -
  have "distinct (map en_key (i_entries (t_body t)))" using assms by (simp add: tx_sound_def)
  note f = find_entry_iff [OF this]
  show ?thesis
    by (auto simp: tx_map_def bind_eq_Some_conv f)
qed

lemma tx_map_dom:
  assumes "tx_sound C h t"
  shows "dom (tx_map C h t) = en_key ` set (i_entries (t_body t))"
proof -
  have "\<exists>b. read_row C h t e = Inr b" if "e \<in> set (i_entries (t_body t))" for e
    using assms that by (simp add: tx_sound_def)
  then show ?thesis using tx_map_Some [OF assms] by (fastforce simp: dom_def)
qed

text \<open>A row is read the same way in two transactions that agree on the row.\<close>

lemma read_row_cong:
  "oget (t_records t') (en_slot e) = oget (t_records t) (en_slot e) \<Longrightarrow> i_store (t_body t') = i_store (t_body t) \<Longrightarrow>
   read_row C h t' e = read_row C h t e"
  by (auto simp: read_row_def split: option.splits cell.splits)

lemma tx_get_map:
  assumes "tx_sound C h t" "valid_key key"
  shows "tx_get C h key t = (Inr (tx_map C h t key), t)"
proof (cases "find_entry t key")
  case None
  then show ?thesis using assms by (simp add: tx_get_def tx_check_def tx_sound_def tx_map_def)
next
  case (Some e)
  then have "\<exists>b. read_row C h t e = Inr b"
    using assms(1) find_entry_iff [of t key e] by (simp add: tx_sound_def)
  then show ?thesis using assms Some
    by (auto simp: tx_get_def tx_check_def tx_sound_def tx_map_def row_value_def guarded_def)
qed

lemma tx_keys_map:
  assumes "tx_sound C h t"
  shows "fst (tx_keys start t) =
    Inr (sorted_list_of_set {k \<in> dom (tx_map C h t). take (length start) k = start})" "snd (tx_keys start t) = t"
proof -
  let ?ks = "map en_key (i_entries (t_body t))"
  let ?f = "\<lambda>k. take (length start) k = start"
  have d: "distinct ?ks" using assms by (simp add: tx_sound_def)
  then have "sorted_list_of_set (set (filter ?f ?ks)) = sort (filter ?f ?ks)"
    by (simp add: sorted_list_of_set_sort_remdups distinct_remdups_id del: set_filter)
  moreover have "set (filter ?f ?ks) = {k \<in> dom (tx_map C h t). ?f k}"
    by (auto simp: tx_map_dom [OF assms])
  ultimately show "fst (tx_keys start t) = Inr (sorted_list_of_set {k \<in> dom (tx_map C h t). ?f k})"
    using assms by (simp add: tx_keys_def tx_check_def tx_sound_def id_def)
qed (simp add: tx_keys_def)

section \<open>Writing\<close>

lemma option_eqI: "(\<And>b. (x = Some b) = (y = Some b)) \<Longrightarrow> x = y"
  by (cases y) auto

lemma others_sub: "e \<in> set (others t key) \<longleftrightarrow> e \<in> set (i_entries (t_body t)) \<and> en_key e \<noteq> key"
  by (simp add: others_def)

text \<open>What a successful \<open>put\<close> did.\<close>

lemma tx_put_Inr:
  assumes "tx_put C h key bs cl t = (Inr u, t')"
  obtains aad e rows where "record_aad (h_owner h) (i_store (t_body t)) key (next_revision t) = Inr aad"
    "e = new_entry C t key cl (t_seeds t (t_writes t)) (seal_record C h (t_seeds t (t_writes t)) bs aad)"
    "rows = (case find_entry t key of None \<Rightarrow> t_records t | Some e \<Rightarrow> odel (en_slot e) (t_records t))"
    "\<not> ohas rows (en_slot e)" "valid_key key" "int (length bs) \<le> MAX_RECORD" "t_failure t = None" "t_aborted t = None"
    "t_writable t"
    "\<exists>c. measure_index ((t_body t)\<lparr>i_revision := next_revision t, i_entries := others t key @ [e]\<rparr>) = Inr c"
    "t' = next_seed (t\<lparr>t_records := rows @ [(en_slot e, Blob (seal_record C h (t_seeds t (t_writes t)) bs aad))],
       t_changed := True, t_mutations := t_mutations t + 1, t_body := (t_body t)\<lparr>i_entries := others t key @ [e]\<rparr>\<rparr>)"
proof -
  from assms have check: "tx_check True t = Inr ()" and k: "valid_key key" "int (length bs) \<le> MAX_RECORD"
    by (auto simp: tx_put_def split: sum.splits if_splits)
  from check have tc: "t_aborted t = None" "t_writable t" by (auto simp: tx_check_def split: option.splits if_splits)
  from assms check k obtain e envelope where p: "prepare_write C h t key bs cl = Inr (e, envelope)"
    by (auto simp: tx_put_def split: sum.splits)
  with assms check k obtain rows t1 where g: "guarded (write_row t (find_entry t key) (en_slot e) envelope) t = (Inr rows, t1)"
    and t': "t' = next_seed (t1\<lparr>t_records := rows, t_changed := True, t_mutations := t_mutations t1 + 1,
      t_body := (t_body t1)\<lparr>i_entries := others t key @ [e]\<rparr>\<rparr>)"
    by (auto simp: tx_put_def split: sum.splits prod.splits)
  from g have w: "write_row t (find_entry t key) (en_slot e) envelope = Inr rows" "t1 = t" "t_failure t = None"
    by (auto simp: guarded_def split: option.splits sum.splits)
  from p obtain aad where a: "record_aad (h_owner h) (i_store (t_body t)) key (next_revision t) = Inr aad"
    "envelope = seal_record C h (t_seeds t (t_writes t)) bs aad"
    "e = new_entry C t key cl (t_seeds t (t_writes t)) envelope"
    "\<exists>c. measure_index ((t_body t)\<lparr>i_revision := next_revision t, i_entries := others t key @ [e]\<rparr>) = Inr c"
    by (auto simp: prepare_write_def Let_def bindR_Inr_iff)
  show ?thesis
    by (rule that [OF a(1) a(3) [unfolded a(2)] refl _ k w(3) tc a(4)])
      (use w(1) t' a(2) w(2) in \<open>auto simp: write_row_def Let_def split: option.splits if_splits\<close>)
qed

lemma entry_wf_new:
  assumes "gcm_laws C" "seed_ok q" "valid_key key" "int (length bs) \<le> MAX_RECORD" "0 \<le> i_revision (t_body t)"
  shows "entry_wf (next_revision t) (new_entry C t key cl q (seal_record C h q bs aad))"
  using assms length_seal_record [OF assms(1,2), of h bs aad]
  by (simp add: entry_wf_def new_entry_def seed_ok_def gcm_laws_def next_revision_def ENVELOPE_OVERHEAD_def)

lemma oget_append_absent: "k \<notin> fst ` set m \<Longrightarrow> oget (m @ n) k = oget n k"
  by (induction m) auto

lemma oget_append_other: "k \<noteq> j \<Longrightarrow> oget (m @ [(j, v)]) k = oget m k"
  by (induction m) auto

text \<open>The rows left when the record of a key is removed are those of the other entries.\<close>

definition rows_without :: "transaction \<Rightarrow> ustr \<Rightarrow> (ustr, cell) omap" where
  "rows_without t key = (case find_entry t key of None \<Rightarrow> t_records t | Some e \<Rightarrow> odel (en_slot e) (t_records t))"

lemma rows_without:
  assumes "tx_sound C h t"
  shows "fst ` set (rows_without t key) = en_slot ` set (others t key)" "owf (rows_without t key)"
    "x \<in> set (others t key) \<Longrightarrow> oget (rows_without t key) (en_slot x) = oget (t_records t) (en_slot x)"
proof -
  from assms have s: "distinct (map en_key (i_entries (t_body t)))" "distinct (map en_slot (i_entries (t_body t)))"
    "owf (t_records t)" "fst ` set (t_records t) = en_slot ` set (i_entries (t_body t))"
    by (simp_all add: tx_sound_def)
  have same: "en_key a = en_key b \<longleftrightarrow> en_slot a = en_slot b"
    if "a \<in> set (i_entries (t_body t))" "b \<in> set (i_entries (t_body t))" for a b
    using that s(1,2) by (auto simp: distinct_map inj_on_def)
  have old: "o' \<in> set (i_entries (t_body t)) \<and> en_key o' = key" if "find_entry t key = Some o'" for o'
    using that find_entry_iff [OF s(1)] by auto
  show "fst ` set (rows_without t key) = en_slot ` set (others t key)"
  proof (cases "find_entry t key")
    case None
    then have "others t key = i_entries (t_body t)" by (auto simp: others_def find_entry_None filter_id_conv)
    then show ?thesis using s(4) None by (simp add: rows_without_def)
  next
    case (Some o')
    then show ?thesis using s(4) old [OF Some] same unfolding rows_without_def by (auto simp: others_def)
  qed
  show "owf (rows_without t key)" using s(3) by (simp add: rows_without_def split: option.split)
  show "oget (rows_without t key) (en_slot x) = oget (t_records t) (en_slot x)" if "x \<in> set (others t key)"
    using that old same by (auto simp: rows_without_def others_def oget_odel split: option.split)
qed

text \<open>
  A change that keeps some entries with their rows, and adds at most entries that read back,
  keeps the transaction in good order.
\<close>

lemma tx_sound_change:
  assumes "tx_sound C h t"
    and "t_seeds t' = t_seeds t" "t_failure t' = None" "t_aborted t' = None" "i_revision (t_body t') = i_revision (t_body t)"
    and "i_store (t_body t') = i_store (t_body t)"
    and "distinct (map en_key (i_entries (t_body t')))" "distinct (map en_slot (i_entries (t_body t')))"
    and "owf (t_records t')" "fst ` set (t_records t') = en_slot ` set (i_entries (t_body t'))"
    and kept: "\<And>e. e \<in> set (i_entries (t_body t')) \<Longrightarrow>
      e \<in> set (i_entries (t_body t)) \<and> oget (t_records t') (en_slot e) = oget (t_records t) (en_slot e) \<or>
      entry_wf (next_revision t) e \<and> (\<exists>b. read_row C h t' e = Inr b)"
  shows "tx_sound C h t'"
proof -
  have "entry_wf (next_revision t') e \<and> (\<exists>b. read_row C h t' e = Inr b)" if "e \<in> set (i_entries (t_body t'))" for e
    using kept [OF that] assms(1,5,6) read_row_cong [of t' e t C h] by (auto simp: tx_sound_def next_revision_def)
  then show ?thesis using assms(1-10) by (simp add: tx_sound_def)
qed

text \<open>The record that was put reads back; every other row is where it was.\<close>

lemma tx_put_sound:
  assumes put: "tx_put C h key bs cl t = (Inr u, t')" and sound: "tx_sound C h t"
  shows "tx_sound C h t' \<and> tx_map C h t' = (tx_map C h t)(key \<mapsto> bs)"
proof -
  let ?q = "t_seeds t (t_writes t)"
  let ?env = "seal_record C h ?q bs"
  obtain aad e where aad: "record_aad (h_owner h) (i_store (t_body t)) key (next_revision t) = Inr aad"
    and e: "e = new_entry C t key cl ?q (?env aad)" and fresh: "\<not> ohas (rows_without t key) (en_slot e)"
    and k: "valid_key key" "int (length bs) \<le> MAX_RECORD"
    and t': "t' = next_seed (t\<lparr>t_records := rows_without t key @ [(en_slot e, Blob (?env aad))], t_changed := True,
       t_mutations := t_mutations t + 1, t_body := (t_body t)\<lparr>i_entries := others t key @ [e]\<rparr>\<rparr>)"
    using put by (rule tx_put_Inr) (auto simp: rows_without_def)
  note rows = rows_without [OF sound, where key = key]
  have new: "en_slot e \<notin> en_slot ` set (others t key)" using fresh by (simp add: ohas_def rows)
  have ek: "en_key e = key" by (simp add: e new_entry_def)
  have fields: "i_entries (t_body t') = others t key @ [e]" "i_store (t_body t') = i_store (t_body t)"
    "t_records t' = rows_without t key @ [(en_slot e, Blob (?env aad))]"
    by (simp_all add: t' next_seed_def)
  have kept: "oget (t_records t') (en_slot x) = oget (t_records t) (en_slot x)" if "x \<in> set (others t key)" for x
  proof -
    have "en_slot x \<noteq> en_slot e" using new that by (metis imageI)
    then show ?thesis using rows(3) [OF that] by (simp add: fields oget_append_other)
  qed
  have s: "gcm_laws C" "seed_ok ?q" using sound by (simp_all add: tx_sound_def)
  have re: "read_row C h t' e = Inr bs"
  proof -
    have "oget (t_records t') (en_slot e) = Some (Blob (?env aad))"
      using new by (simp add: fields oget_append_absent rows)
    then show ?thesis using aad unseal_seal [OF s, of h bs aad]
      by (simp add: read_row_def fields e new_entry_def)
  qed
  have wf: "entry_wf (next_revision t) e"
    using entry_wf_new [OF s k] sound e by (simp add: tx_sound_def)
  have sound': "tx_sound C h t'"
  proof (rule tx_sound_change [OF sound])
    show "owf (t_records t')" using rows(1,2) new by (auto simp: fields owf_def image_iff)
    show "fst ` set (t_records t') = en_slot ` set (i_entries (t_body t'))" using rows(1) by (simp add: fields)
    show "distinct (map en_key (i_entries (t_body t')))" "distinct (map en_slot (i_entries (t_body t')))"
      using sound new by (auto simp: fields others_def ek distinct_map_filter tx_sound_def)
  qed (use sound re wf kept in \<open>auto simp: t' next_seed_def tx_sound_def others_sub\<close>)
  have "tx_map C h t' j = ((tx_map C h t)(key \<mapsto> bs)) j" for j
  proof (rule option_eqI)
    fix b
    have "read_row C h t' x = read_row C h t x" if "x \<in> set (others t key)" for x
      using read_row_cong [OF kept [OF that] fields(2)] .
    then show "(tx_map C h t' j = Some b) = (((tx_map C h t)(key \<mapsto> bs)) j = Some b)"
      using re by (auto simp: tx_map_Some [OF sound'] tx_map_Some [OF sound] fields ek others_def)
  qed
  then show ?thesis using sound' by blast
qed

lemma tx_delete_Inr:
  assumes "tx_delete key t = (Inr u, t')"
  shows "find_entry t key = None \<and> t' = t \<or>
    (\<exists>e. find_entry t key = Some e \<and> t_failure t = None \<and> t' = next_seed (t\<lparr>t_records := odel (en_slot e) (t_records t),
      t_changed := True, t_mutations := t_mutations t + 1, t_body := (t_body t)\<lparr>i_entries := remove1 e (i_entries (t_body t))\<rparr>\<rparr>))"
  using assms
  by (auto simp: tx_delete_def guarded_def delete_row_def split: sum.splits option.splits if_splits prod.splits)

lemma remove1_others:
  assumes "find_entry t key = Some e" "distinct (map en_key (i_entries (t_body t)))"
  shows "remove1 e (i_entries (t_body t)) = others t key"
proof -
  have "remove1 e es = filter (\<lambda>x. en_key x \<noteq> key) es" if "find (\<lambda>x. en_key x = key) es = Some e" "distinct (map en_key es)" for es
    using that
  proof (induction es)
    case (Cons a es)
    then have "filter (\<lambda>x. en_key x \<noteq> key) es = es" if "en_key a = key"
      using that Cons.prems by (auto simp: filter_id_conv image_iff)
    moreover have "en_key e = key" using Cons.prems(1) unfolding find_Some_iff by auto
    ultimately show ?case using Cons by (auto split: if_splits)
  qed simp
  then show ?thesis using assms by (simp add: find_entry_def others_def)
qed

lemma tx_delete_sound:
  assumes del: "tx_delete key t = (Inr u, t')" and sound: "tx_sound C h t"
  shows "tx_sound C h t' \<and> tx_map C h t' = (tx_map C h t)(key := None)"
proof (cases "find_entry t key")
  case None
  then have "t' = t" using tx_delete_Inr [OF del] by auto
  moreover have "tx_map C h t key = None" using None by (simp add: tx_map_def)
  ultimately show ?thesis using sound by (simp add: fun_upd_idem)
next
  case (Some e)
  have d: "distinct (map en_key (i_entries (t_body t)))" using sound by (simp add: tx_sound_def)
  have t': "t' = next_seed (t\<lparr>t_records := rows_without t key, t_changed := True, t_mutations := t_mutations t + 1,
      t_body := (t_body t)\<lparr>i_entries := others t key\<rparr>\<rparr>)"
    using tx_delete_Inr [OF del] Some remove1_others [OF Some d] by (auto simp: rows_without_def)
  then have entries: "i_entries (t_body t') = others t key" by (simp add: next_seed_def)
  note rows = rows_without [OF sound, where key = key]
  have sound': "tx_sound C h t'"
  proof (rule tx_sound_change [OF sound])
    show "distinct (map en_key (i_entries (t_body t')))" "distinct (map en_slot (i_entries (t_body t')))"
      using sound by (auto simp: t' next_seed_def others_def distinct_map_filter tx_sound_def)
  qed (use sound rows in \<open>auto simp: t' next_seed_def tx_sound_def others_sub\<close>)
  have "read_row C h t' x = read_row C h t x" if "x \<in> set (others t key)" for x
    by (rule read_row_cong) (use rows(3) [OF that] in \<open>simp_all add: t' next_seed_def\<close>)
  then have "tx_map C h t' j = ((tx_map C h t)(key := None)) j" for j
    by (intro option_eqI) (auto simp: tx_map_Some [OF sound'] tx_map_Some [OF sound] entries others_def)
  then show ?thesis using sound' by blast
qed

text \<open>What only moves on to the next random values keeps the good order and the map.\<close>

lemma next_seed_sound [simp]:
  "tx_sound C h (next_seed t) = tx_sound C h t" "tx_map C h (next_seed t) = tx_map C h t"
proof -
  have "read_row C h (next_seed t) e = read_row C h t e" for e
    by (rule read_row_cong) (simp_all add: next_seed_def)
  then have r: "read_row C h (next_seed t) = read_row C h t" by blast
  have f: "find_entry (next_seed t) = find_entry t" by (simp add: fun_eq_iff find_entry_def next_seed_def)
  have v: "row_value C h (next_seed t) = row_value C h t" by (simp add: fun_eq_iff row_value_def r)
  show "tx_sound C h (next_seed t) = tx_sound C h t"
    unfolding tx_sound_def r by (simp add: next_seed_def next_revision_def)
  show "tx_map C h (next_seed t) = tx_map C h t" unfolding tx_map_def f v ..
qed

lemma next_seed_failure [simp]: "t_failure (next_seed t) = t_failure t"
  by (simp add: next_seed_def)

text \<open>An operation that throws leaves the transaction as it was, or at an end.\<close>

lemma tx_put_Inl:
  assumes "tx_put C h key bs cl t = (Inl e, t')"
  shows "t' = t \<or> t' = next_seed t \<or> t_failure t' \<noteq> None"
  using assms
  by (auto simp: tx_put_def guarded_def next_seed_def split: sum.splits option.splits if_splits prod.splits)

lemma tx_delete_Inl:
  assumes "tx_delete key t = (Inl e, t')"
  shows "t' = t \<or> t' = next_seed t \<or> t_failure t' \<noteq> None"
  using assms
  by (auto simp: tx_delete_def guarded_def next_seed_def split: sum.splits option.splits if_splits prod.splits)

section \<open>Callbacks\<close>

text \<open>
  A callback changes the transaction through its operations only, in any order and whatever it
  catches.
\<close>

inductive tx_steps :: "crypto \<Rightarrow> registry_handle \<Rightarrow> transaction \<Rightarrow> transaction \<Rightarrow> bool" for C h where
  steps_none: "tx_steps C h t t"
| steps_put: "tx_steps C h t t1 \<Longrightarrow> tx_put C h key bs cl t1 = (r, t2) \<Longrightarrow> tx_steps C h t t2"
| steps_delete: "tx_steps C h t t1 \<Longrightarrow> tx_delete key t1 = (r, t2) \<Longrightarrow> tx_steps C h t t2"
| steps_get: "tx_steps C h t t1 \<Longrightarrow> tx_get C h key t1 = (r', t2) \<Longrightarrow> tx_steps C h t t2"
| steps_abort: "tx_steps C h t t1 \<Longrightarrow> tx_abort cause t1 = (Inl e :: registry_error + unit, t2) \<Longrightarrow> tx_steps C h t t2"

definition callback :: "crypto \<Rightarrow> registry_handle \<Rightarrow> 'a action \<Rightarrow> bool" where
  "callback C h f \<longleftrightarrow> (\<forall>t. tx_steps C h t (snd (f t)))"

lemma steps_trans: "tx_steps C h t2 t3 \<Longrightarrow> tx_steps C h t1 t2 \<Longrightarrow> tx_steps C h t1 t3"
  by (induction rule: tx_steps.induct) (auto intro: tx_steps.intros)

lemma callback_basic [intro]:
  "callback C h (tx_return x)" "callback C h (tx_throw e)" "callback C h tx_generation" "callback C h tx_indexBody"
  "callback C h (tx_keys s)" "callback C h tx_accounting"
  by (auto simp: callback_def tx_return_def tx_throw_def tx_generation_def tx_indexBody_def tx_keys_def
      tx_accounting_def intro: steps_none)

lemma callback_operations [intro]:
  "callback C h (tx_put C h key bs cl)" "callback C h (tx_delete key)" "callback C h (tx_get C h key)"
  "callback C h (tx_abort e :: unit action)"
  unfolding callback_def
proof -
  have "\<exists>x. tx_abort e t = (Inl x :: registry_error + unit, snd (tx_abort e t :: (registry_error + unit) \<times> transaction))" for t
    by (auto simp: tx_abort_def Let_def split: sum.split)
  then show "\<forall>t. tx_steps C h t (snd (tx_abort e t :: (registry_error + unit) \<times> transaction))"
    using steps_abort [OF steps_none] by metis
qed (auto intro: steps_put [OF steps_none surjective_pairing] steps_delete [OF steps_none surjective_pairing]
      steps_get [OF steps_none surjective_pairing])

lemma callback_bind [intro]:
  assumes "callback C h m" "\<And>x. callback C h (f x)"
  shows "callback C h (tx_bind m f)"
  unfolding callback_def tx_bind_def
proof
  fix t
  show "tx_steps C h t (snd (case m t of (Inl e, t1) \<Rightarrow> (Inl e, t1) | (Inr x, t1) \<Rightarrow> f x t1))"
  proof (cases "fst (m t)")
    case (Inr x)
    then have "tx_steps C h t (snd (f x (snd (m t))))"
      using assms steps_trans unfolding callback_def by blast
    then show ?thesis using Inr by (simp add: case_prod_beta)
  qed (use assms(1) in \<open>simp add: callback_def case_prod_beta\<close>)
qed

lemma callback_catch [intro]:
  assumes "callback C h m" "\<And>e. callback C h (f e)"
  shows "callback C h (tx_catch m f)"
  unfolding callback_def tx_catch_def
proof
  fix t
  show "tx_steps C h t (snd (case m t of (Inl e, t1) \<Rightarrow> f e t1 | (Inr x, t1) \<Rightarrow> (Inr x, t1)))"
  proof (cases "fst (m t)")
    case (Inl e)
    then have "tx_steps C h t (snd (f e (snd (m t))))"
      using assms steps_trans unfolding callback_def by blast
    then show ?thesis using Inl by (simp add: case_prod_beta)
  qed (use assms(1) in \<open>simp add: callback_def case_prod_beta\<close>)
qed

text \<open>At any moment a transaction is in good order or at an end.\<close>

lemma steps_sound:
  assumes "tx_steps C h t t'" "tx_sound C h t \<or> t_failure t \<noteq> None"
  shows "tx_sound C h t' \<or> t_failure t' \<noteq> None"
  using assms
proof (induction rule: tx_steps.induct)
  case (steps_put t t1 key bs cl r t2)
  show ?case
  proof (cases r)
    case (Inr u)
    then have "t_failure t1 = None" using steps_put(2) by (auto elim: tx_put_Inr)
    then show ?thesis using steps_put Inr tx_put_sound by blast
  next
    case (Inl e)
    then show ?thesis using steps_put tx_put_Inl [of C h key bs cl t1 e t2] by auto
  qed
next
  case (steps_delete t t1 key r t2)
  show ?case
  proof (cases r)
    case (Inr u)
    then show ?thesis using steps_delete tx_delete_Inr [of key t1 u t2] tx_delete_sound [of key t1 u t2] by auto
  next
    case (Inl e)
    then show ?thesis using steps_delete tx_delete_Inl [of key t1 e t2] by auto
  qed
next
  case (steps_get t t1 key r t2)
  then have "t2 = t1 \<or> t_failure t2 \<noteq> None"
    by (auto simp: tx_get_def guarded_def split: sum.splits option.splits if_splits)
  then show ?case using steps_get by auto
next
  case (steps_abort t t1 cause e t2)
  then show ?case by (auto simp: tx_abort_def Let_def split: sum.splits option.splits)
qed

section \<open>The interface of a transaction\<close>

text \<open>
  What the profile and the group ledger rely on: a key-value state with an invariant, an
  abstraction to a map, and writes that either change one key or throw. A write that throws
  leaves the map unless the state is at an end.
\<close>

locale key_value =
  fixes good :: "'s \<Rightarrow> bool" and ended :: "'s \<Rightarrow> bool" and content :: "'s \<Rightarrow> ustr \<Rightarrow> bytes option"
    and get :: "ustr \<Rightarrow> 's \<Rightarrow> ('e + bytes option) \<times> 's"
    and put :: "ustr \<Rightarrow> bytes \<Rightarrow> 'c \<Rightarrow> 's \<Rightarrow> ('e + unit) \<times> 's"
    and delete :: "ustr \<Rightarrow> 's \<Rightarrow> ('e + unit) \<times> 's"
  assumes get_content: "good s \<Longrightarrow> valid_key k \<Longrightarrow> get k s = (Inr (content s k), s)"
    and put_content: "good s \<Longrightarrow> put k b c s = (Inr u, s') \<Longrightarrow> good s' \<and> content s' = (content s)(k \<mapsto> b)"
    and put_throws: "good s \<Longrightarrow> put k b c s = (Inl e, s') \<Longrightarrow> good s' \<and> content s' = content s \<or> ended s'"
    and delete_content: "good s \<Longrightarrow> delete k s = (Inr u, s') \<Longrightarrow> good s' \<and> content s' = (content s)(k := None)"
    and delete_throws: "good s \<Longrightarrow> delete k s = (Inl e, s') \<Longrightarrow> good s' \<and> content s' = content s \<or> ended s'"
begin

lemma get_after_put:
  assumes "good s" "put k b c s = (Inr u, s')" "valid_key j"
  shows "get j s' = (Inr (if j = k then Some b else content s j), s')"
  using put_content [OF assms(1,2)] get_content [OF _ assms(3)] by simp

lemma get_after_delete:
  assumes "good s" "delete k s = (Inr u, s')" "valid_key j"
  shows "get j s' = (Inr (if j = k then None else content s j), s')"
  using delete_content [OF assms(1,2)] get_content [OF _ assms(3)] by simp

end

interpretation registry: key_value "tx_sound C h" "\<lambda>t. t_failure t \<noteq> None" "tx_map C h" "tx_get C h" "tx_put C h" tx_delete
  for C h
proof
  show "tx_sound C h s' \<and> tx_map C h s' = tx_map C h s \<or> t_failure s' \<noteq> None"
    if "tx_sound C h s" "tx_put C h k b c s = (Inl e, s')" for s k b c e s'
    using tx_put_Inl [OF that(2)] that(1) by auto
  show "tx_sound C h s' \<and> tx_map C h s' = tx_map C h s \<or> t_failure s' \<noteq> None"
    if "tx_sound C h s" "tx_delete k s = (Inl e, s')" for s k e s'
    using tx_delete_Inl [OF that(2)] that(1) by auto
qed (auto dest: tx_put_sound tx_delete_sound tx_get_map)

text \<open>
  C21: a transaction of the protected store implements a finite map: a read gives the value of
  the key; a successful write or deletion changes that key and no other; a write for which
  there is no room changes nothing; the keys with a prefix are listed in order.
\<close>

theorem registry_refines_map:
  assumes "tx_sound C h t" "valid_key key"
  shows "tx_get C h key t = (Inr (tx_map C h t key), t) \<and>
    (\<forall>t'. tx_put C h key bs cl t = (Inr (), t') \<longrightarrow> tx_sound C h t' \<and> tx_map C h t' = (tx_map C h t)(key \<mapsto> bs)) \<and>
    (\<forall>t'. tx_put C h key bs cl t = (Inl RCapacity, t') \<longrightarrow> tx_sound C h t' \<and> tx_map C h t' = tx_map C h t) \<and>
    (\<forall>t'. tx_delete key t = (Inr (), t') \<longrightarrow> tx_sound C h t' \<and> tx_map C h t' = (tx_map C h t)(key := None)) \<and>
    tx_keys start t = (Inr (sorted_list_of_set {k \<in> dom (tx_map C h t). take (length start) k = start}), t)"
proof (intro conjI allI impI)
  fix t' assume p: "tx_put C h key bs cl t = (Inl RCapacity, t')"
  have "t_failure t' = None"
    using p assms(1)
    by (auto simp: tx_put_def guarded_def write_row_def tx_sound_def Let_def split: sum.splits option.splits if_splits prod.splits)
  then show "tx_sound C h t'" "tx_map C h t' = tx_map C h t" using registry.put_throws [OF assms(1) p] by auto
next
  show "tx_keys start t = (Inr (sorted_list_of_set {k \<in> dom (tx_map C h t). take (length start) k = start}), t)"
    using tx_keys_map [OF assms(1), of start] by (simp add: prod_eq_iff)
qed (use assms in \<open>auto dest: registry.get_content registry.put_content registry.delete_content\<close>)

end
