(* ===== verification/Storage_Commit.thy ===== *)
theory Storage_Commit
  imports Storage_Facts Bundle_Stored
begin

text \<open>
  What the protected store writes it accepts again: a committed index is read back entry by
  entry, and a transaction is all or nothing. A row that was changed behind the index is found.
\<close>

section \<open>The text of an index\<close>

lemma length_join_ge: "sum_list (map length ss) \<le> length (join sep ss)"
  by (induction sep ss rule: join.induct) auto

lemma sum_list_ge: "(\<And>x. x \<in> set xs \<Longrightarrow> n \<le> f x) \<Longrightarrow> n * length xs \<le> sum_list (map f xs)" for n :: nat
  by (induction xs) (auto simp: add_mono)

lemma canonical_array_length:
  assumes "canonical (JArr vs) d = Inr s" "\<And>v u. v \<in> set vs \<Longrightarrow> canonical v (d + 1) = Inr u \<Longrightarrow> n \<le> length u"
  shows "n * length vs \<le> length s"
proof -
  from assms(1) obtain ss where ss: "seqR (map (\<lambda>w. canonical w (d + 1)) vs) = Inr ss"
    and s: "s = lit ''['' @ join (lit '','') ss @ lit '']''"
    by (auto simp: canonical.simps [of "JArr _"] bindR_Inr_iff split: if_splits)
  have l: "length ss = length vs" using ss by (auto simp: seqR_Inr_iff dest: map_eq_imp_length_eq)
  have "n \<le> length t" if "t \<in> set ss" for t
  proof -
    have "Inr t \<in> set (map (\<lambda>w. canonical w (d + 1)) vs)" using ss that by (simp add: seqR_Inr_iff)
    then show ?thesis using assms(2) by (metis (no_types, lifting) imageE list.set_map)
  qed
  then have "n * length ss \<le> sum_list (map length ss)" by (rule sum_list_ge)
  with l length_join_ge [of ss "lit '',''"] show ?thesis by (simp add: s)
qed

lemma canonical_field_length:
  assumes "canonical (JObj kvs) d = Inr s" "(k, v) \<in> set kvs"
  shows "\<exists>u. canonical v (d + 1) = Inr u \<and> length u \<le> length s"
proof -
  let ?field = "\<lambda>p. bindR (canonical (snd p) (d + 1)) (\<lambda>s. Inr (quote (fst p) @ lit '':'' @ s))"
  from assms(1) obtain ss where ss: "seqR (map ?field (sort_key fst kvs)) = Inr ss"
    and s: "s = lit ''{'' @ join (lit '','') ss @ lit ''}''"
    by (auto simp: canonical.simps [of "JObj _"] bindR_Inr_iff split: if_splits)
  have "?field (k, v) \<in> ?field ` set (sort_key fst kvs)" using assms(2) by (intro imageI) simp
  then have "?field (k, v) \<in> Inr ` set ss" using ss unfolding seqR_Inr_iff by (metis list.set_map)
  then obtain t where t: "t \<in> set ss" "?field (k, v) = Inr t" by blast
  have "length t \<le> sum_list (map length ss)" using t(1) by (simp add: member_le_sum_list)
  moreover from t(2) obtain u where "canonical v (d + 1) = Inr u" "length u \<le> length t" by (auto simp: bindR_Inr_iff)
  ultimately show ?thesis using length_join_ge [of ss "lit '',''"] by (auto simp: s intro!: exI [of _ u])
qed

lemma encode_bytes_Inr: "encode_bytes v = Inr t \<longleftrightarrow> (\<exists>s. canon v = Inr s \<and> t = utf8 s)"
  by (auto simp: encode_bytes_def split: sum.splits)

lemma hex64_length: "hex64 s \<Longrightarrow> length s = 64"
  by (simp add: hex64_def)

lemma entry_text_length:
  assumes "canonical (entry_value e) d = Inr s" "hex64 (en_slot e)"
  shows "64 \<le> length s"
proof -
  have "(lit ''slot'', JStr (en_slot e)) \<in> set [(lit ''key'', JStr (en_key e)), (lit ''slot'', JStr (en_slot e))]" by simp
  then obtain u where u: "canonical (JStr (en_slot e)) (d + 1) = Inr u" "length u \<le> length s"
    using canonical_field_length [OF assms(1) [unfolded entry_value_def], of "lit ''slot''" "JStr (en_slot e)"] by auto
  have "length (escape (en_slot e)) = 64" using assms(2) hex64_length by simp
  with u show ?thesis by (auto simp: canonical.simps quote_def split: if_splits)
qed

text \<open>An index of at most \<open>MAX_INDEX\<close> bytes lists fewer entries than the reader's own limit.\<close>

lemma index_text_entries:
  assumes "encode_bytes (signed_index b sig) = Inr t" "\<forall>e \<in> set (i_entries b). hex64 (en_slot e)"
  shows "64 * length (i_entries b) \<le> length t"
proof -
  from assms(1) obtain s where s: "canon (signed_index b sig) = Inr s" "t = utf8 s" by (auto simp: encode_bytes_Inr)
  obtain u where u: "canonical (index_value b) 1 = Inr u" "length u \<le> length s"
    using canonical_field_length [OF s(1) [unfolded signed_index_def], of "lit ''body''" "index_value b"] by auto
  obtain w where w: "canonical (JArr (map entry_value (i_entries b))) 2 = Inr w" "length w \<le> length u"
    using canonical_field_length [OF u(1) [unfolded index_value_def], of "lit ''entries''" "JArr (map entry_value (i_entries b))"]
    by (auto simp: numeral_2_eq_2)
  have "64 * length (map entry_value (i_entries b)) \<le> length w"
    by (rule canonical_array_length [OF w(1)]) (use assms(2) entry_text_length in auto)
  with w u s length_le_utf8_length [of s] show ?thesis by (simp add: length_utf8)
qed

section \<open>Reading back what was written\<close>

lemma sort_mset: "mset xs = mset ys \<Longrightarrow> sort xs = sort ys"
  by (metis properties_for_sort mset_sort sorted_sort)

lemma exact_fields_jnorm [simp]: "exact_fields (jnorm v) ks = exact_fields v ks"
proof (cases v)
  case (JObj kvs)
  let ?m = "map (map_prod id jnorm) kvs"
  have "mset (map fst (sort_key fst ?m)) = image_mset fst (mset ?m)" by (simp only: mset_map mset_sort)
  also have "\<dots> = mset (map fst kvs)" by (simp add: comp_def multiset.map_comp)
  finally have "sort (map fst (sort_key fst ?m)) = sort (map fst kvs)" by (rule sort_mset)
  then show ?thesis by (simp add: exact_fields_def JObj jval_readers okeys_def id_def)
qed (auto simp: exact_fields_def is_obj_def)

lemma exact_fields_written [simp]:
  "exact_fields (entry_value e) entry_keys_text"
  "exact_fields (limits_value l) [''totalBytes'', ''reserveBytes'']"
  "exact_fields (signed_index b sig) [''body'', ''signature'']"
  "exact_fields (index_value b) [''domain'', ''owner'', ''storeId'', ''revision'', ''limits'', ''entries'']"
  by (simp_all add: exact_fields_def entry_value_def limits_value_def signed_index_def index_value_def
      entry_keys_text_def jval_readers okeys_def)

lemma entry_fields [simp]:
  "jget (entry_value e) (lit ''key'') = JStr (en_key e)" "jget (entry_value e) (lit ''slot'') = JStr (en_slot e)"
  "jget (entry_value e) (lit ''revision'') = JInt (en_revision e)" "jget (entry_value e) (lit ''digest'') = JStr (en_digest e)"
  "jget (entry_value e) (lit ''bytes'') = JInt (en_bytes e)"
  "jget (entry_value e) (lit ''storageClass'') = JStr (class_text (en_class e))"
  by (simp_all add: entry_value_def jget_def)

lemma read_entry_value [simp]: "read_entry (jnorm (entry_value e)) = e"
  by (cases "en_class e") (simp_all add: read_entry_def jget_jnorm str_of_def int_of_def class_text_def)

lemma entry_ok_value:
  assumes "entry_wf newest e" "newest \<le> MAX_SAFE" "prev < en_key e" "en_slot e \<notin> set slots"
  shows "entry_ok newest prev slots (jnorm (entry_value e))"
  using assms
  by (cases "en_class e")
    (auto simp: entry_ok_def jget_jnorm entry_wf_def jval_readers is_hash_def safe_integer_def class_text_def
      MAX_SAFE_def MAX_RECORD_def ENVELOPE_OVERHEAD_def)

lemma read_entries_written:
  assumes "sorted_wrt (<) (map en_key es)" "distinct (map en_slot es)" "\<forall>e \<in> set es. entry_wf newest e" "newest \<le> MAX_SAFE"
    and "\<forall>e \<in> set es. prev < en_key e \<and> en_slot e \<notin> set slots"
  shows "read_entries newest prev slots (map (jnorm \<circ> entry_value) es) = Inr es"
  using assms
proof (induction es arbitrary: prev slots)
  case (Cons e es)
  then have "read_entries newest (en_key e) (en_slot e # slots) (map (jnorm \<circ> entry_value) es) = Inr es"
    by (intro Cons.IH) (auto simp: image_iff)
  moreover have "entry_ok newest prev slots (jnorm (entry_value e))" using Cons.prems by (intro entry_ok_value) auto
  ultimately show ?case by (simp add: comp_def)
qed simp

definition limits_ok :: "registry_limits \<Rightarrow> bool" where
  "limits_ok l \<longleftrightarrow> 32768 \<le> l_total l \<and> l_total l \<le> REGISTRY_total \<and> 4096 \<le> l_reserve l \<and> l_reserve l < l_total l \<and>
     l_reserve l \<le> REGISTRY_reserve"

lemma limits_fields [simp]:
  "jget (limits_value l) (lit ''totalBytes'') = JInt (l_total l)" "jget (limits_value l) (lit ''reserveBytes'') = JInt (l_reserve l)"
  by (simp_all add: limits_value_def jget_def)

lemma read_limits_value: "limits_ok l \<Longrightarrow> read_limits (jnorm (limits_value l)) = Inr l"
  by (auto simp: read_limits_def Let_def limits_ok_def jget_jnorm jval_readers
      safe_integer_def MAX_SAFE_def REGISTRY_total_def REGISTRY_reserve_def)

section \<open>The index\<close>

lemma index_fields [simp]:
  "jget (index_value b) (lit ''domain'') = REGISTRY_DOMAIN" "jget (index_value b) (lit ''owner'') = JStr (i_owner b)"
  "jget (index_value b) (lit ''storeId'') = JStr (i_store b)" "jget (index_value b) (lit ''revision'') = JInt (i_revision b)"
  "jget (index_value b) (lit ''limits'') = limits_value (i_limits b)"
  "jget (index_value b) (lit ''entries'') = JArr (map entry_value (i_entries b))"
  "jget (signed_index b sig) (lit ''body'') = index_value b" "jget (signed_index b sig) (lit ''signature'') = JStr sig"
  by (simp_all add: index_value_def signed_index_def jget_def)

definition index_ok :: "registry_handle \<Rightarrow> index_body \<Rightarrow> bool" where
  "index_ok h b \<longleftrightarrow> i_owner b = h_owner h \<and> hex64 (i_store b) \<and> 0 \<le> i_revision b \<and> i_revision b \<le> MAX_SAFE \<and>
     limits_ok (i_limits b) \<and> (\<forall>e \<in> set (i_entries b). entry_wf (i_revision b) e) \<and>
     distinct (map en_key (i_entries b)) \<and> distinct (map en_slot (i_entries b))"

definition signs :: "crypto \<Rightarrow> registry_handle \<Rightarrow> bool" where
  "signs C h \<longleftrightarrow> (\<forall>m. length (sign C (h_private h) m) = 64 \<and> verify_sig C (h_public h) m (sign C (h_private h) m))"

lemma encode_bytes_jnorm [simp]: "encode_bytes (jnorm v) = encode_bytes v"
  by (simp add: encode_bytes_def canonical_jnorm)

lemma signature_bytes_b64: "length s = 64 \<Longrightarrow> signature_bytes (JStr (b64 s)) = Some s"
  by (simp add: signature_bytes_def jval_readers length_b64)

lemma valid_key_nonempty: "valid_key k \<Longrightarrow> [] < k"
  by (cases k) (auto simp: valid_key_def)

lemma read_body_written:
  assumes "index_ok h b" "sorted_wrt (<) (map en_key (i_entries b))" "signs C h" "length (i_entries b) \<le> 131072"
    and "encode_bytes (index_value b) = Inr text"
  shows "read_body C h (i_store b) (jnorm (signed_index b (b64 (sign C (h_private h) text)))) = Inr b"
proof -
  let ?s = "sign C (h_private h) text"
  have s: "length ?s = 64" "verify_sig C (h_public h) text ?s" using assms(3) by (simp_all add: signs_def)
  have entries: "read_entries (i_revision b) [] [] (map (jnorm \<circ> entry_value) (i_entries b)) = Inr (i_entries b)"
    using assms(1,2) by (intro read_entries_written) (auto simp: index_ok_def entry_wf_def valid_key_nonempty)
  have safe: "safe_integer (i_revision b)" using assms(1) by (simp add: index_ok_def safe_integer_def MAX_SAFE_def)
  have dom: "jnorm REGISTRY_DOMAIN = REGISTRY_DOMAIN" by (simp add: REGISTRY_DOMAIN_def)
  show ?thesis
    using s entries safe assms(1,4,5) read_limits_value [of "i_limits b"] length_b64 [of ?s]
    by (simp add: read_body_def Let_def jget_jnorm signature_bytes_b64 jval_readers dom index_ok_def comp_def)
qed

lemma sorted_keys: "distinct (map en_key es) \<Longrightarrow> sorted_wrt (<) (map en_key (sort_key en_key es))"
  using sorted_sort_key [of en_key es] by (simp add: strict_sorted_iff distinct_map)

section \<open>A saved index is loaded\<close>

definition index_text :: "index_body \<Rightarrow> bytes" where
  "index_text b = (case encode_bytes (index_value b) of Inl _ \<Rightarrow> [] | Inr t \<Rightarrow> t)"

definition saved_value :: "crypto \<Rightarrow> registry_handle \<Rightarrow> index_body \<Rightarrow> jval" where
  "saved_value C h b =
     signed_index (sort_index b) (b64 (sign C (h_private h) (index_text (sort_index b))))"

text \<open>\<open>JSON.parse\<close> of the canonical text of a value gives the value with its fields sorted.\<close>

definition parses :: "crypto \<Rightarrow> jval \<Rightarrow> bool" where
  "parses C v \<longleftrightarrow> (\<forall>s. canon v = Inr s \<longrightarrow> parse_json C (utf8 s) = Some (jnorm v))"

lemma sort_index_ok: "index_ok h (sort_index b) = index_ok h b"
proof -
  have "distinct (map f (sort_key en_key es)) = distinct (map f es)" for f :: "index_entry \<Rightarrow> ustr" and es
    by (simp add: distinct_map)
  then show ?thesis by (simp add: index_ok_def sort_index_def)
qed

lemma saveIndex_Inr:
  assumes "saveIndex C h q b0 = Inr row"
  obtains plain aad c where "encode_bytes (index_value (sort_index b0)) = Inr (index_text (sort_index b0))"
    "encode_bytes (saved_value C h b0) = Inr plain"
    "checkCapacity (sort_index b0) (int (length plain) + ENVELOPE_OVERHEAD) = Inr c"
    "record_aad (h_owner h) (i_store b0) index_key 0 = Inr aad"
    "row = \<lparr>d_id = 1, d_store = i_store b0, d_payload = Blob (seal_record C h q plain aad)\<rparr>"
proof -
  have store: "i_store (sort_index b0) = i_store b0" by (simp add: sort_index_def)
  from assms obtain body_text plain c aad where "encode_bytes (index_value (sort_index b0)) = Inr body_text"
    "encode_bytes (signed_index (sort_index b0) (b64 (sign C (h_private h) body_text))) = Inr plain"
    "checkCapacity (sort_index b0) (int (length plain) + ENVELOPE_OVERHEAD) = Inr c"
    "record_aad (h_owner h) (i_store b0) index_key 0 = Inr aad"
    "row = \<lparr>d_id = 1, d_store = i_store b0, d_payload = Blob (seal_record C h q plain aad)\<rparr>"
    by (auto simp: saveIndex_def Let_def bindR_Inr_iff store split: if_splits)
  then show ?thesis by (intro that) (auto simp: index_text_def saved_value_def)
qed

lemma checkCapacity_index: "checkCapacity b n = Inr c \<Longrightarrow> n \<le> MAX_INDEX"
  by (auto simp: checkCapacity_def bindR_Inr_iff Let_def split: if_splits)

lemma loadIndex_saved:
  assumes save: "saveIndex C h q b0 = Inr row" and ok: "index_ok h b0" "signs C h" "seed_ok q" "gcm_laws C"
    and parse: "parses C (saved_value C h b0)"
    and rows: "length rows = length (i_entries b0)" and pinned: "h_pinned h \<in> {None, Some (i_store b0)}"
  shows "loadIndex C h \<lparr>db_checkpoint = [row], db_records = rows\<rparr> = Inr (sort_index b0)"
  using save
proof (rule saveIndex_Inr)
  fix plain aad c
  let ?b = "sort_index b0" and ?env = "seal_record C h q plain aad"
  assume itext: "encode_bytes (index_value ?b) = Inr (index_text ?b)"
    and plain: "encode_bytes (saved_value C h b0) = Inr plain"
    and cap: "checkCapacity ?b (int (length plain) + ENVELOPE_OVERHEAD) = Inr c"
    and aad: "record_aad (h_owner h) (i_store b0) index_key 0 = Inr aad"
    and row: "row = \<lparr>d_id = 1, d_store = i_store b0, d_payload = Blob ?env\<rparr>"
  have env: "int (length ?env) = int (length plain) + ENVELOPE_OVERHEAD"
    using length_seal_record [OF ok(4,3)] by (simp add: ENVELOPE_OVERHEAD_def)
  have ok': "index_ok h ?b" using ok(1) by (simp add: sort_index_ok)
  have "64 * length (i_entries ?b) \<le> length plain"
    by (rule index_text_entries [OF plain [unfolded saved_value_def]]) (use ok' in \<open>simp add: index_ok_def entry_wf_def\<close>)
  then have few: "length (i_entries ?b) \<le> 131072"
    using checkCapacity_index [OF cap] by (simp add: MAX_INDEX_def ENVELOPE_OVERHEAD_def)
  have sorted: "sorted_wrt (<) (map en_key (i_entries ?b))"
    using ok(1) sorted_keys [of "i_entries b0"] by (simp add: sort_index_def index_ok_def)
  have store: "i_store ?b = i_store b0" "length (i_entries ?b) = length (i_entries b0)" by (simp_all add: sort_index_def)
  have "decode_record C plain = Inr (jnorm (saved_value C h b0))"
  proof -
    have "parse_json C plain = Some (jnorm (saved_value C h b0))" using plain parse by (auto simp: parses_def encode_bytes_Inr)
    then show ?thesis using plain by (simp add: decode_record_def)
  qed
  moreover have "read_body C h (i_store b0) (jnorm (saved_value C h b0)) = Inr ?b"
    using read_body_written [OF ok' sorted ok(2) few itext] by (simp add: saved_value_def store)
  ultimately show ?thesis
    using aad unseal_seal [OF ok(4,3), of h plain aad] ok(1) pinned rows cap env checkCapacity_index [OF cap]
    by (auto simp: loadIndex_def row index_ok_def store ENVELOPE_OVERHEAD_def)
qed

section \<open>What loading an index establishes\<close>

lemma read_entries_ok:
  assumes "read_entries newest prev slots vs = Inr es" "newest \<le> MAX_SAFE"
  shows "(\<forall>e \<in> set es. entry_wf newest e \<and> prev < en_key e \<and> en_slot e \<notin> set slots) \<and>
    sorted_wrt (<) (map en_key es) \<and> distinct (map en_slot es)"
  using assms
proof (induction newest prev slots vs arbitrary: es rule: read_entries.induct)
  case (2 newest prev slots v vs)
  from 2(2) obtain es' where r: "entry_ok newest prev slots v" "exact_fields v entry_keys_text" "es = read_entry v # es'"
    "read_entries newest (en_key (read_entry v)) (en_slot (read_entry v) # slots) vs = Inr es'"
    by (auto simp: bindR_Inr_iff split: if_splits)
  have "(\<forall>e \<in> set es'. entry_wf newest e \<and> en_key (read_entry v) < en_key e \<and> en_slot e \<notin> set (en_slot (read_entry v) # slots)) \<and>
      sorted_wrt (<) (map en_key es') \<and> distinct (map en_slot es')"
    using 2(1) r 2(3) by simp
  moreover have "entry_wf newest (read_entry v) \<and> prev < en_key (read_entry v) \<and> en_slot (read_entry v) \<notin> set slots"
    using r(1) by (simp add: entry_ok_def entry_wf_def read_entry_def is_hash_def)
  ultimately show ?case using r(3) by (auto simp: image_iff)
qed simp

lemma read_limits_ok: "read_limits v = Inr l \<Longrightarrow> limits_ok l"
  by (auto simp: read_limits_def limits_ok_def Let_def split: if_splits)

lemma loadIndex_ok:
  assumes "loadIndex C h db = Inr b"
  shows "index_ok h b \<and> h_pinned h \<in> {None, Some (i_store b)} \<and> length (db_records db) = length (i_entries b)"
proof -
  from assms obtain row where row: "db_checkpoint db = [row]"
    by (auto simp: loadIndex_def split: list.splits)
  with assms obtain envelope where env: "d_payload row = Blob envelope" by (auto simp: loadIndex_def split: cell.splits)
  with assms row obtain checked where store: "hex64 (d_store row)" "h_pinned h \<in> {None, Some (d_store row)}"
    and body: "read_body C h (d_store row) checked = Inr b" and n: "length (db_records db) = length (i_entries b)"
    by (auto simp: loadIndex_def bindR_Inr_iff split: if_splits)
  from body obtain v l es where "is_safe_int v" "0 \<le> int_of v" and l: "read_limits l = Inr (i_limits b)"
    and es: "read_entries (int_of v) [] [] es = Inr (i_entries b)"
    and b: "i_owner b = h_owner h" "i_store b = d_store row" "i_revision b = int_of v"
    by (auto simp: read_body_def Let_def bindR_Inr_iff split: if_splits option.splits)
  then have "0 \<le> i_revision b" "i_revision b \<le> MAX_SAFE" by (auto simp: jval_readers safe_integer_def split: jval.splits)
  moreover from this read_entries_ok [OF es] have "\<forall>e \<in> set (i_entries b). entry_wf (i_revision b) e"
    "distinct (map en_key (i_entries b))" "distinct (map en_slot (i_entries b))"
    by (simp_all add: b strict_sorted_iff)
  ultimately show ?thesis using store n b read_limits_ok [OF l] by (simp add: index_ok_def)
qed

section \<open>Transactions\<close>

text \<open>A transaction never changes whose store it is; without a write it changes nothing.\<close>

definition same_store :: "transaction \<Rightarrow> transaction \<Rightarrow> bool" where
  "same_store t t' \<longleftrightarrow> i_owner (t_body t') = i_owner (t_body t) \<and> i_store (t_body t') = i_store (t_body t) \<and>
     i_revision (t_body t') = i_revision (t_body t) \<and> i_limits (t_body t') = i_limits (t_body t) \<and>
     t_writable t' = t_writable t \<and>
     (t_body t' = t_body t \<and> t_records t' = t_records t \<and> t_changed t' = t_changed t \<or> t_writable t \<and> t_changed t')"

lemma same_store_trans: "same_store t1 t2 \<Longrightarrow> same_store t2 t3 \<Longrightarrow> same_store t1 t3"
  by (auto simp: same_store_def)

lemma tx_put_same: "tx_put C h key bs cl t = (r, t') \<Longrightarrow> same_store t t'"
  by (auto simp: tx_put_def guarded_def next_seed_def same_store_def tx_check_def
      split: sum.splits option.splits if_splits prod.splits)

lemma tx_delete_same: "tx_delete key t = (r, t') \<Longrightarrow> same_store t t'"
  by (auto simp: tx_delete_def guarded_def next_seed_def same_store_def tx_check_def
      split: sum.splits option.splits if_splits prod.splits)

lemma steps_same: "tx_steps C h t t' \<Longrightarrow> same_store t t'"
proof (induction rule: tx_steps.induct)
  case (steps_get t t1 key r t2)
  then have "same_store t1 t2" by (auto simp: tx_get_def guarded_def same_store_def split: sum.splits option.splits if_splits)
  with steps_get show ?case by (blast intro: same_store_trans)
next
  case (steps_abort t t1 cause e t2)
  then have "same_store t1 t2" by (auto simp: tx_abort_def same_store_def Let_def split: sum.splits option.splits)
  with steps_abort show ?case by (blast intro: same_store_trans)
next
  case (steps_none t)
  then show ?case by (simp add: same_store_def)
qed (blast intro: same_store_trans tx_put_same tx_delete_same)+

text \<open>What a transaction shows depends on its index and its rows only.\<close>

lemma tx_map_cong:
  assumes "t_records t' = t_records t" "i_store (t_body t') = i_store (t_body t)"
    and "\<And>k. find_entry t' k = find_entry t k"
  shows "tx_map C h t' = tx_map C h t"
proof -
  have "read_row C h t' e = read_row C h t e" for e by (rule read_row_cong) (use assms in simp_all)
  then have "row_value C h t' = row_value C h t" by (intro ext) (simp add: row_value_def)
  with assms(3) show ?thesis unfolding tx_map_def by simp
qed

text \<open>\<open>stored\<close>: the file is accepted, and holds these records.\<close>

definition stored :: "crypto \<Rightarrow> registry_handle \<Rightarrow> database \<Rightarrow> (ustr \<Rightarrow> bytes option) \<Rightarrow> bool" where
  "stored C h db m \<longleftrightarrow> (\<exists>b. loadIndex C h db = Inr b \<and>
     (\<forall>w seeds. (\<forall>i. seed_ok (seeds i)) \<longrightarrow>
       tx_sound C h (begin_tx w seeds b db) \<and> tx_map C h (begin_tx w seeds b db) = m))"

lemma tx_sound_begin:
  assumes "tx_sound C h t" "t_records t = db_records db" "i_store b = i_store (t_body t)"
    and "set (i_entries b) = set (i_entries (t_body t))" "distinct (map en_key (i_entries b))" "distinct (map en_slot (i_entries b))"
    and "i_revision (t_body t) \<le> i_revision b" "\<forall>i. seed_ok (seeds i)"
  shows "tx_sound C h (begin_tx w seeds b db) \<and> tx_map C h (begin_tx w seeds b db) = tx_map C h t"
proof -
  let ?t = "begin_tx w seeds b db"
  have t: "t_records ?t = t_records t" "i_store (t_body ?t) = i_store (t_body t)" "i_entries (t_body ?t) = i_entries b"
    using assms(2,3) by (simp_all add: begin_tx_def)
  have read: "read_row C h ?t e = read_row C h t e" for e by (rule read_row_cong) (simp_all add: t)
  have d: "distinct (map en_key (i_entries (t_body t)))" "distinct (map en_key (i_entries (t_body ?t)))"
    using assms(1,5) by (simp_all add: tx_sound_def t)
  have "find_entry ?t k = find_entry t k" for k
    by (rule option_eqI) (simp add: find_entry_iff [OF d(1)] find_entry_iff [OF d(2)] t assms(4))
  then have m: "tx_map C h ?t = tx_map C h t" using t(1,2) by (intro tx_map_cong)
  have "entry_wf (next_revision ?t) e \<and> (\<exists>x. read_row C h ?t e = Inr x)" if "e \<in> set (i_entries b)" for e
  proof -
    have "entry_wf (next_revision t) e \<and> (\<exists>x. read_row C h t e = Inr x)" using that assms(1,4) by (simp add: tx_sound_def)
    moreover have "next_revision ?t = i_revision b + 1" by (simp add: next_revision_def begin_tx_def)
    ultimately show ?thesis using assms(7) by (simp add: read entry_wf_def next_revision_def)
  qed
  then have "tx_sound C h ?t"
    using assms t by (auto simp: tx_sound_def begin_tx_def)
  with m show ?thesis by blast
qed

lemma seal_pinned [simp]: "seal_record C (h\<lparr>h_pinned := p\<rparr>) = seal_record C h"
  by (intro ext) (simp add: seal_record_def)

lemma save_pinned [simp]: "saveIndex C (h\<lparr>h_pinned := p\<rparr>) = saveIndex C h"
  by (intro ext) (simp add: saveIndex_def cong: if_cong)

text \<open>A transaction that is saved is what the file holds afterwards.\<close>

lemma save_stored:
  assumes sound: "tx_sound C h t" and start: "loadIndex C h db = Inr b" "same_store (begin_tx w seeds b db) t"
    and changed: "t_writable t" "t_changed t" and safe: "safe_integer (i_revision b + 1)"
    and save: "saveIndex C h q ((t_body t)\<lparr>i_revision := next_revision t\<rparr>) = Inr row"
    and laws: "signs C h" "seed_ok q" "parses C (saved_value C h ((t_body t)\<lparr>i_revision := next_revision t\<rparr>))"
  shows "stored C h \<lparr>db_checkpoint = [row], db_records = t_records t\<rparr> (tx_map C h t)"
proof -
  let ?b = "(t_body t)\<lparr>i_revision := next_revision t\<rparr>"
  let ?db = "\<lparr>db_checkpoint = [row], db_records = t_records t\<rparr>"
  from loadIndex_ok [OF start(1)] have ok: "index_ok h b" "h_pinned h \<in> {None, Some (i_store b)}" by auto
  from start(2) have same: "i_owner (t_body t) = i_owner b" "i_store (t_body t) = i_store b" "i_limits (t_body t) = i_limits b"
    "next_revision t = i_revision b + 1"
    by (simp_all add: same_store_def begin_tx_def next_revision_def)
  have ok': "index_ok h ?b"
    using ok(1) sound safe same by (simp add: index_ok_def tx_sound_def safe_integer_def)
  have rows: "length (t_records t) = length (i_entries ?b)"
  proof -
    have "length (map fst (t_records t)) = card (set (map fst (t_records t)))"
      using sound by (intro distinct_card [symmetric]) (simp add: tx_sound_def owf_def)
    also have "set (map fst (t_records t)) = set (map en_slot (i_entries ?b))" using sound by (simp add: tx_sound_def)
    also have "card (set (map en_slot (i_entries ?b))) = length (map en_slot (i_entries ?b))"
      using sound by (intro distinct_card) (simp add: tx_sound_def)
    finally show ?thesis by simp
  qed
  have "gcm_laws C" using sound by (simp add: tx_sound_def)
  then have load: "loadIndex C h ?db = Inr (sort_index ?b)"
    using loadIndex_saved [OF save ok' laws(1,2) _ laws(3) rows] ok(2) same by simp
  have "index_ok h (sort_index ?b)" using ok' by (simp add: sort_index_ok)
  then have "tx_sound C h (begin_tx w' seeds' (sort_index ?b) ?db) \<and> tx_map C h (begin_tx w' seeds' (sort_index ?b) ?db) = tx_map C h t"
    if "\<forall>i. seed_ok (seeds' i)" for w' seeds'
    by (intro tx_sound_begin [OF sound _ _ _ _ _ _ that]) (auto simp: sort_index_def index_ok_def next_revision_def)
  with load show ?thesis by (auto simp: stored_def)
qed

section \<open>All or nothing\<close>

text \<open>What the file would hold if the transaction were committed now.\<close>

lemma save_tx_stored:
  assumes start: "loadIndex C h db = Inr b" "stored C h db m" "callback C h f" "\<forall>i. seed_ok (seeds i)"
    and run: "f (begin_tx w seeds b db) = (r, t)" "t_failure t = None" "w \<longrightarrow> safe_integer (i_revision b + 1)"
    and laws: "signs C h" "seed_ok q" "parses C (saved_value C h ((t_body t)\<lparr>i_revision := next_revision t\<rparr>))"
    and save: "save_tx C h q t db = Inr db1"
  shows "stored C h db1 (tx_map C h t)"
proof -
  let ?t0 = "begin_tx w seeds b db"
  have t0: "tx_sound C h ?t0" "tx_map C h ?t0 = m" using start by (auto simp: stored_def)
  have steps: "tx_steps C h ?t0 t" using start(3) run(1) by (metis callback_def snd_conv)
  have sound: "tx_sound C h t" using steps_sound [OF steps] t0(1) run(2) by auto
  note same = steps_same [OF steps]
  show ?thesis
  proof (cases "t_writable t \<and> t_changed t")
    case True
    then obtain row where row: "saveIndex C h q ((t_body t)\<lparr>i_revision := next_revision t\<rparr>) = Inr row"
      "db1 = \<lparr>db_checkpoint = [row], db_records = t_records t\<rparr>"
      using save by (auto simp: save_tx_def bindR_Inr_iff)
    have "w" using True same by (simp add: same_store_def begin_tx_def)
    then show ?thesis
      unfolding row(2) using True run(3) by (intro save_stored [OF sound start(1) same _ _ _ row(1) laws]) auto
  next
    case False
    then have "t_body t = t_body ?t0" "t_records t = t_records ?t0" using same by (auto simp: same_store_def begin_tx_def)
    then have "tx_map C h t = tx_map C h ?t0" by (intro tx_map_cong) (simp_all add: find_entry_def)
    moreover have "db1 = db" using save False by (simp add: save_tx_def split: if_splits)
    ultimately show ?thesis using start(2) t0(2) by simp
  qed
qed

text \<open>
  C20: a transaction on the protected store is all or nothing. When it returns a result, the file
  is accepted again and holds exactly what the callback left; when it throws, for whatever
  reason, the file holds what it held before, but for a commit whose outcome is unknown, after
  which the store refuses to be used. This is for every callback and every outcome of the
  statements, under laws of the cryptographic library and of JSON.parse.
\<close>

theorem transaction_all_or_nothing:
  assumes "loadIndex C h db = Inr b" "stored C h db m" "callback C h f"
    and "signs C h" "seed_ok (v_save v)" "\<forall>i. seed_ok (v_writes v i)"
    and "t = snd (f (begin_tx w (v_writes v) b db))"
    and "parses C (saved_value C h ((t_body t)\<lparr>i_revision := next_revision t\<rparr>))"
    and "execute C w v f h db = (r, h1, db1)"
  shows "case r of Inr x \<Rightarrow> fst (f (begin_tx w (v_writes v) b db)) = Inr x \<and> stored C h db1 (tx_map C h t)
    | Inl e \<Rightarrow> stored C h db1 m \<or> h_poisoned h1 \<and> stored C h db1 (tx_map C h t)"
proof (cases "h_closed h \<or> h_poisoned h \<or> \<not> v_begin v \<or> w \<and> \<not> safe_integer (i_revision b + 1)")
  case True
  then show ?thesis using assms(1,2,9) by (auto simp: execute_def Let_def split: if_splits)
next
  case False
  let ?h = "h\<lparr>h_pinned := Some (i_store b)\<rparr>"
  obtain r0 where f: "f (begin_tx w (v_writes v) b db) = (r0, t)" using assms(7) by (metis prod.collapse)
  let ?outcome = "bindR (settle_tx r0 t) (\<lambda>x. bindR (save_tx C ?h (v_save v) t db) (\<lambda>db1. Inr (x, db1)))"
  show ?thesis
  proof (cases ?outcome)
    case (Inl e)
    then show ?thesis using False assms(1,2,9) f by (auto simp: execute_def Let_def)
  next
    case (Inr p)
    then obtain x db2 where p: "r0 = Inr x" "t_failure t = None" "save_tx C h (v_save v) t db = Inr db2" "p = (x, db2)"
      by (auto simp: settle_tx_def save_tx_def bindR_Inr_iff split: option.splits if_splits)
    then have "stored C h db2 (tx_map C h t)"
      using save_tx_stored [OF assms(1-3,6) f p(2) _ assms(4,5,8)] False by blast
    then show ?thesis using False assms(1,2,9) f Inr p
      by (auto simp: execute_def Let_def poison_def split: if_splits)
  qed
qed

text \<open>
  C22: a row of the file that was changed, exchanged with another or removed behind the store is
  noticed: under the same signed index, a read gives what was written there or fails with an
  integrity error, unless the new row has the hash of the old one.
\<close>

theorem tampering_detected:
  assumes "tx_sound C h t" "valid_key key"
    and "\<forall>e \<in> set (i_entries (t_body t)). \<forall>x y. oget (t_records t) (en_slot e) = Some (Blob x) \<and>
      oget rows (en_slot e) = Some (Blob y) \<and> sha C x = sha C y \<longrightarrow> x = y"
  shows "fst (tx_get C h key (t\<lparr>t_records := rows\<rparr>)) = fst (tx_get C h key t) \<or>
    (\<exists>reason. fst (tx_get C h key (t\<lparr>t_records := rows\<rparr>)) = Inl (RIntegrity reason))"
proof -
  let ?t = "t\<lparr>t_records := rows\<rparr>"
  have find: "find_entry ?t key = find_entry t key" by (simp add: find_entry_def)
  have check: "tx_check False ?t = tx_check False t" by (simp add: tx_check_def)
  show ?thesis
  proof (cases "find_entry t key")
    case (Some e)
    then have e: "e \<in> set (i_entries (t_body t))" using assms(1) find_entry_iff by (auto simp: tx_sound_def)
    then obtain b where "read_row C h t e = Inr b" using assms(1) by (auto simp: tx_sound_def)
    then obtain x where x: "oget (t_records t) (en_slot e) = Some (Blob x)" "sha C x = en_digest e"
      by (auto simp: read_row_def split: option.splits cell.splits if_splits)
    have "read_row C h ?t e = read_row C h t e \<or> (\<exists>reason. read_row C h ?t e = Inl (RIntegrity reason))"
    proof (cases "\<exists>y. oget rows (en_slot e) = Some (Blob y) \<and> sha C y = en_digest e")
      case True
      then have "oget rows (en_slot e) = oget (t_records t) (en_slot e)" using assms(3) e x by metis
      then have "read_row C h ?t e = read_row C h t e" by (intro read_row_cong) simp_all
      then show ?thesis ..
    qed (auto simp: read_row_def split: option.split cell.split)
    then show ?thesis using assms(1,2) Some
      by (auto simp: tx_get_def check find guarded_def tx_sound_def split: sum.splits)
  qed (simp add: tx_get_def check find split: sum.split)
qed

end
