(* ===== verification/Storage_Examples.thy ===== *)
theory Storage_Examples
  imports Storage_Commit
begin

text \<open>A store on which its properties are applied: it is created, a record is put, and the row is lost.\<close>

section \<open>Texts of ASCII values\<close>

fun ascii_value :: "jval \<Rightarrow> bool" where
  "ascii_value (JStr s) = (list_all unescaped s \<and> ascii s)"
| "ascii_value (JArr vs) = list_all ascii_value vs"
| "ascii_value (JObj kvs) = list_all (\<lambda>p. list_all unescaped (fst p) \<and> ascii (fst p) \<and> ascii_value (snd p)) kvs"
| "ascii_value (JFrac s) = ascii s"
| "ascii_value _ = True"

lemma ascii_lits: "ascii (lit ''{'')" "ascii (lit ''}'')" "ascii (lit '','')" "ascii (lit '':'')" "ascii (lit ''['')"
  "ascii (lit '']'')" "ascii (lit ''null'')" "ascii (lit ''true'')" "ascii (lit ''false'')"
  by (simp_all add: lit_def ascii_def of_char_def)

lemma ascii_join: "\<forall>s \<in> set ss. ascii s \<Longrightarrow> ascii (join (lit '','') ss)"
  using set_join [of "lit '',''" ss] ascii_lits(3) by (auto simp: ascii_def list_all_iff)

lemma ascii_int: "ascii (int_text i)"
  using nat_text_digits by (fastforce simp: int_text_def ascii_def list_all_iff)

lemma canonical_ascii_value: "canonical v d = Inr s \<Longrightarrow> ascii_value v \<Longrightarrow> ascii s"
proof (induction v d arbitrary: s rule: canonical.induct)
  case (1 v d)
  then have d: "\<not> d > 24" by (auto simp: canonical.simps)
  show ?case
  proof (cases v)
    case (JArr vs)
    from 1(3) d obtain ss where ss: "seqR (map (\<lambda>w. canonical w (d + 1)) vs) = Inr ss"
      and s: "s = lit ''['' @ join (lit '','') ss @ lit '']''"
      by (auto simp: JArr canonical.simps [of "JArr _"] bindR_Inr_iff)
    have "\<forall>t \<in> set ss. ascii t"
    proof
      fix t assume "t \<in> set ss"
      then have "Inr t \<in> (\<lambda>w. canonical w (d + 1)) ` set vs" using ss unfolding seqR_Inr_iff by (metis image_eqI list.set_map)
      then obtain w where w: "w \<in> set vs" "canonical w (d + 1) = Inr t" by (metis imageE)
      then show "ascii t" using 1(1) [OF d JArr w] 1(4) by (simp add: JArr list_all_iff)
    qed
    then show ?thesis using ascii_lits by (simp add: s ascii_join)
  next
    case (JObj kvs)
    let ?field = "\<lambda>p. bindR (canonical (snd p) (d + 1)) (\<lambda>s. Inr (quote (fst p) @ lit '':'' @ s))"
    from 1(3) d obtain ss where ss: "seqR (map ?field (sort_key fst kvs)) = Inr ss"
      and s: "s = lit ''{'' @ join (lit '','') ss @ lit ''}''"
      by (auto simp: JObj canonical.simps [of "JObj _"] bindR_Inr_iff)
    have "\<forall>t \<in> set ss. ascii t"
    proof
      fix t assume "t \<in> set ss"
      then have "Inr t \<in> ?field ` set (sort_key fst kvs)" using ss unfolding seqR_Inr_iff by (metis image_eqI list.set_map)
      then obtain p where p: "p \<in> set (sort_key fst kvs)" "?field p = Inr t" by (metis (no_types, lifting) imageE)
      then obtain u where u: "canonical (snd p) (d + 1) = Inr u" "t = quote (fst p) @ lit '':'' @ u"
        by (auto simp: bindR_Inr_iff)
      have "list_all unescaped (fst p) \<and> ascii (fst p) \<and> ascii_value (snd p)"
        using p(1) 1(4) by (auto simp: JObj list_all_iff)
      then show "ascii t" using 1(2) [OF d JObj p(1) u(1)] ascii_lits by (simp add: u quote_def)
    qed
    then show ?thesis using ascii_lits by (simp add: s ascii_join)
  qed (use 1(3,4) d ascii_lits ascii_int in \<open>auto simp: canonical.simps quote_def\<close>)
qed

lemma utf8_ascii: "ascii s \<Longrightarrow> utf8 s = map of_nat s"
  by (induction s rule: utf8.induct) (auto simp: utf8_unit_def high_surrogate_def low_surrogate_def)

lemma utf8_ascii_inject:
  assumes "ascii s" "ascii t" "utf8 s = utf8 t"
  shows "s = t"
proof -
  have "map (of_nat :: nat \<Rightarrow> 8 word) s = map of_nat t" using assms by (simp add: utf8_ascii)
  then have "map unat (map (of_nat :: nat \<Rightarrow> 8 word) s) = map unat (map (of_nat :: nat \<Rightarrow> 8 word) t)" by simp
  moreover have "map unat (map (of_nat :: nat \<Rightarrow> 8 word) u) = u" if "ascii u" for u
    using that by (induction u) (auto simp: unat_of_nat)
  ultimately show ?thesis using assms(1,2) by simp
qed

section \<open>A store with one record\<close>

definition paper :: "(bytes \<Rightarrow> jval option) \<Rightarrow> crypto" where
  "paper p = toy\<lparr>parse_json := p\<rparr>"

definition my_handle :: registry_handle where
  "my_handle = \<lparr>h_owner = replicate 64 97, h_public = [], h_private = [], h_box = [], h_pinned = None,
     h_closed = False, h_poisoned = False\<rparr>"

definition my_seed :: write_seed where
  "my_seed = \<lparr>q_salt = replicate 32 0, q_nonce = replicate 12 0, q_slot = replicate 64 97, q_sql = True\<rparr>"

definition empty_index :: index_body where
  "empty_index = \<lparr>i_owner = replicate 64 97, i_store = replicate 64 98, i_revision = 0,
     i_limits = \<lparr>l_total = 67108864, l_reserve = 4194304\<rparr>, i_entries = []\<rparr>"

definition note_key :: ustr where "note_key = lit ''note''"

definition note_entry :: index_entry where
  "note_entry = \<lparr>en_key = note_key, en_slot = replicate 64 97, en_revision = 1, en_digest = replicate 64 97,
     en_bytes = 64, en_class = DataClass\<rparr>"

definition note_index :: index_body where
  "note_index = empty_index\<lparr>i_revision := 1, i_entries := [note_entry]\<rparr>"

lemma hex_replicate [simp]: "hex64 (replicate 64 97)" "hex64 (replicate 64 98)"
  by (simp_all add: hex64_def is_hex_def list_all_iff)

lemma paper_laws: "gcm_laws (paper p)" "seed_ok my_seed" "signs (paper p) my_handle"
  by (simp_all add: gcm_laws_def paper_def toy_def seed_ok_def my_seed_def signs_def)

lemma note_key_valid: "valid_key note_key"
  by (simp add: note_key_def valid_key_def lit_def key_start_def key_char_def)

text \<open>The texts of the two indexes exist, and are short.\<close>

lemma unescaped_replicate [simp]: "list_all unescaped (replicate n c) \<longleftrightarrow> n = 0 \<or> unescaped c"
  by (induction n) auto

lemma weight_hex [simp]: "weight (JStr (replicate 64 97)) = 66" "weight (JStr (replicate 64 98)) = 66"
  by (simp_all add: unescaped_def)

lemma index_fits:
  assumes "b \<in> {empty_index, note_index}" "length sig = 88" "list_all unescaped sig"
  shows "(\<exists>t. encode_bytes (index_value b) = Inr t) \<and>
    (\<exists>t. encode_bytes (signed_index b sig) = Inr t \<and> length t \<le> 6000) \<and>
    (\<exists>t. encode_bytes (JArr (map entry_value (ordinary b))) = Inr t \<and> length t \<le> 6000)"
proof -
  have fits: "\<exists>t. encode_bytes v = Inr t \<and> length t \<le> 6000"
    if "plain v" "nesting v \<le> 24" "safe_ints v" "weight v \<le> 2000" for v
  proof -
    have "\<exists>s. canon v = Inr s \<and> utf8_length s \<le> 6000" by (rule text_fits) (use that in simp_all)
    then show ?thesis by (auto simp: encode_bytes_Inr length_utf8)
  qed
  have sig: "weight (JStr sig) = 90" using assms(2,3) by simp
  have entry: "plain (entry_value note_entry)" "nesting (entry_value note_entry) \<le> 1" "safe_ints (entry_value note_entry)"
    "weight (entry_value note_entry) \<le> 400"
    by (simp_all add: entry_value_def note_entry_def note_key_def nesting_le safe_integer_def MAX_SAFE_def class_text_def
        escape_text unescaped_def)
  have limits: "plain (limits_value (i_limits empty_index))" "nesting (limits_value (i_limits empty_index)) \<le> 1"
    "safe_ints (limits_value (i_limits empty_index))" "weight (limits_value (i_limits empty_index)) \<le> 100"
    by (simp_all add: limits_value_def empty_index_def nesting_le safe_integer_def MAX_SAFE_def escape_text unescaped_def)
  have entries: "i_entries b = [] \<or> i_entries b = [note_entry]" "i_limits b = i_limits empty_index"
    "i_owner b = replicate 64 97" "i_store b = replicate 64 98" "safe_integer (i_revision b)"
    using assms(1) by (auto simp: note_index_def empty_index_def safe_integer_def MAX_SAFE_def)
  have list: "plain (JArr (map entry_value es)) \<and> nesting (JArr (map entry_value es)) \<le> 2 \<and>
      safe_ints (JArr (map entry_value es)) \<and> weight (JArr (map entry_value es)) \<le> 410" if "es = [] \<or> es = [note_entry]" for es
    using that entry by (auto simp: nesting_le)
  have body: "plain (index_value b)" "nesting (index_value b) \<le> 3" "safe_ints (index_value b)" "weight (index_value b) \<le> 1000"
    using list [OF entries(1)] limits entries(2-5) weight_hex
    by (simp_all add: index_value_def REGISTRY_DOMAIN_def nesting_le escape_text unescaped_def del: weight.simps(1,4) add: weight.simps(1) [of "lit _"])
  have "weight (signed_index b sig) \<le> 2000" "plain (signed_index b sig)" "nesting (signed_index b sig) \<le> 4"
    "safe_ints (signed_index b sig)"
    using body assms(2,3) by (simp_all add: signed_index_def nesting_le escape_text unescaped_def)
  moreover have "ordinary b = [] \<or> ordinary b = [note_entry]" using entries(1) by (auto simp: ordinary_def)
  ultimately show ?thesis using fits body list [of "ordinary b"] by fastforce
qed

lemma b64_sign: "sign (paper p) k m = replicate 64 0" "length (b64 (replicate 64 0)) = 88"
  by (simp_all add: paper_def toy_def length_b64)

lemma index_capacity:
  assumes "b \<in> {empty_index, note_index}" "0 \<le> n" "n \<le> 7000"
  shows "\<exists>c. checkCapacity b n = Inr c"
proof -
  obtain t where t: "encode_bytes (JArr (map entry_value (ordinary b))) = Inr t" "length t \<le> 6000"
    using index_fits [OF assms(1), of "replicate 88 65"] by (auto simp: unescaped_def)
  have "rows_bytes (i_entries b) \<le> 128" "rows_bytes (ordinary b) \<le> 128" "l_total (i_limits b) = 67108864"
    "l_reserve (i_limits b) = 4194304"
    using assms(1) by (auto simp: note_index_def empty_index_def rows_bytes_def ordinary_def note_entry_def)
  then show ?thesis using t assms(2,3) by (simp add: checkCapacity_def Let_def MAX_INDEX_def)
qed

lemma sort_examples [simp]: "sort_index empty_index = empty_index" "sort_index note_index = note_index"
  by (simp_all add: sort_index_def empty_index_def note_index_def)

lemma index_saved:
  assumes "b \<in> {empty_index, note_index}"
  shows "\<exists>row. saveIndex (paper p) my_handle my_seed b = Inr row"
proof -
  have sig: "length (b64 (replicate 64 0)) = 88" "list_all unescaped (b64 (replicate 64 0))" by (simp_all add: length_b64)
  obtain t u where t: "encode_bytes (index_value b) = Inr t"
    "encode_bytes (signed_index b (b64 (replicate 64 0))) = Inr u" "length u \<le> 6000"
    using index_fits [OF assms sig] by blast
  have "\<exists>c. checkCapacity b (int (length u) + ENVELOPE_OVERHEAD) = Inr c"
    by (rule index_capacity [OF assms]) (use t in \<open>simp_all add: ENVELOPE_OVERHEAD_def\<close>)
  moreover obtain a where "record_aad (h_owner my_handle) (i_store b) index_key 0 = Inr a" using record_aad_total by blast
  moreover have "sort_index b = b" using assms by auto
  ultimately show ?thesis using t by (auto simp: saveIndex_def Let_def b64_sign my_seed_def)
qed

definition start_tx :: transaction where
  "start_tx = begin_tx True (\<lambda>_. my_seed) empty_index \<lparr>db_checkpoint = [], db_records = []\<rparr>"

definition note_cell :: cell where
  "note_cell = Blob ([1] @ replicate 32 0 @ replicate 12 0 @ replicate 16 0 @ [1, 2, 3])"

definition note_tx :: transaction where
  "note_tx = next_seed (start_tx\<lparr>t_records := [(replicate 64 97, note_cell)], t_changed := True, t_mutations := 1,
     t_body := empty_index\<lparr>i_entries := [note_entry]\<rparr>\<rparr>)"

lemma start_sound: "(\<forall>i. seed_ok (seeds i)) \<Longrightarrow>
    tx_sound (paper p) my_handle (begin_tx w seeds empty_index \<lparr>db_checkpoint = rows, db_records = []\<rparr>) \<and>
    tx_map (paper p) my_handle (begin_tx w seeds empty_index \<lparr>db_checkpoint = rows, db_records = []\<rparr>) = Map.empty"
  using paper_laws by (auto simp: tx_sound_def begin_tx_def empty_index_def tx_map_def find_entry_def)

lemma put_note: "tx_put (paper p) my_handle note_key [1, 2, 3] DataClass start_tx = (Inr (), note_tx)"
proof -
  obtain a where a: "record_aad (h_owner my_handle) (i_store empty_index) note_key 1 = Inr a" using record_aad_total by blast
  have seal: "seal_record (paper p) my_handle my_seed [1, 2, 3] a = [1] @ replicate 32 0 @ replicate 12 0 @ replicate 16 0 @ [1, 2, 3]"
    by (simp add: seal_record_def paper_def toy_def my_seed_def)
  have fields: "t_body start_tx = empty_index" "t_records start_tx = []" "t_seeds start_tx = (\<lambda>_. my_seed)"
    "t_failure start_tx = None" "t_aborted start_tx = None" "t_writable start_tx" "next_revision start_tx = 1"
    "find_entry start_tx note_key = None" "others start_tx note_key = []"
    by (simp_all add: start_tx_def begin_tx_def next_revision_def find_entry_def others_def empty_index_def)
  have more: "q_sql my_seed" "en_slot note_entry = replicate 64 97" "t_mutations start_tx = 0"
    by (simp_all add: my_seed_def note_entry_def start_tx_def begin_tx_def)
  have entry: "new_entry (paper p) start_tx note_key DataClass my_seed
      ([1] @ replicate 32 0 @ replicate 12 0 @ replicate 16 0 @ [1, 2, 3]) = note_entry"
    by (simp add: new_entry_def fields note_entry_def my_seed_def paper_def toy_def)
  have index: "empty_index\<lparr>i_revision := 1, i_entries := [note_entry]\<rparr> = note_index" by (simp add: note_index_def)
  obtain t where t: "encode_bytes (signed_index note_index placeholder) = Inr t" "length t \<le> 6000"
    using index_fits [of note_index placeholder] by (auto simp: placeholder_def unescaped_def)
  have "\<exists>c. measure_index note_index = Inr c"
    using t index_capacity [of note_index "int (length t) + ENVELOPE_OVERHEAD"]
    by (simp add: measure_index_def ENVELOPE_OVERHEAD_def)
  then have prepare: "prepare_write (paper p) my_handle start_tx note_key [1, 2, 3] DataClass =
      Inr (note_entry, [1] @ replicate 32 0 @ replicate 12 0 @ replicate 16 0 @ [1, 2, 3])"
    using a seal entry by (auto simp: prepare_write_def Let_def fields index simp del: append.simps(2))
  show ?thesis
    using note_key_valid prepare
    by (simp add: tx_put_def tx_check_def fields guarded_def write_row_def ohas_def note_tx_def note_cell_def
        MAX_RECORD_def more del: append.simps(2))
qed

section \<open>The properties at this store\<close>

theorem registry_refines_map_witness:
  "tx_put (paper (\<lambda>_. None)) my_handle note_key [1, 2, 3] DataClass start_tx = (Inr (), note_tx) \<and>
   tx_get (paper (\<lambda>_. None)) my_handle note_key note_tx = (Inr (Some [1, 2, 3]), note_tx) \<and>
   tx_keys [] note_tx = (Inr [note_key], note_tx)"
proof -
  have start: "tx_sound (paper (\<lambda>_. None)) my_handle start_tx" "tx_map (paper (\<lambda>_. None)) my_handle start_tx = Map.empty"
    using start_sound [of "\<lambda>_. my_seed"] paper_laws by (simp_all add: start_tx_def)
  note t1 = registry_refines_map [OF start(1) note_key_valid, of "[1, 2, 3]" DataClass "[]"]
  have noted: "tx_sound (paper (\<lambda>_. None)) my_handle note_tx" "tx_map (paper (\<lambda>_. None)) my_handle note_tx = [note_key \<mapsto> [1, 2, 3]]"
    using t1 put_note start(2) by auto
  show ?thesis
    using put_note registry_refines_map [OF noted(1) note_key_valid, of "[]" DataClass "[]"] noted(2) by simp
qed

lemma note_sound: "tx_sound (paper p) my_handle note_tx" "tx_map (paper p) my_handle note_tx = [note_key \<mapsto> [1, 2, 3]]"
  using registry.put_content [OF _ put_note] start_sound [of "\<lambda>_. my_seed" p True "[]"] paper_laws
  by (auto simp: start_tx_def)

theorem tampering_detected_witness:
  "fst (tx_get (paper (\<lambda>_. None)) my_handle note_key (note_tx\<lparr>t_records := []\<rparr>)) = fst (tx_get (paper (\<lambda>_. None)) my_handle note_key note_tx) \<or>
   (\<exists>reason. fst (tx_get (paper (\<lambda>_. None)) my_handle note_key (note_tx\<lparr>t_records := []\<rparr>)) = Inl (RIntegrity reason))"
  by (rule tampering_detected [OF note_sound(1) note_key_valid]) simp

text \<open>The program that reads the texts of both indexes.\<close>

definition index_document :: "index_body \<Rightarrow> jval" where
  "index_document b = signed_index b (b64 (replicate 64 0))"

definition document_text :: "index_body \<Rightarrow> ustr" where
  "document_text b = (case canon (index_document b) of Inl _ \<Rightarrow> [] | Inr s \<Rightarrow> s)"

definition two_texts :: "bytes \<Rightarrow> jval option" where
  "two_texts bs = (if bs = utf8 (document_text empty_index) then Some (jnorm (index_document empty_index))
     else Some (jnorm (index_document note_index)))"

lemma document_text: "b \<in> {empty_index, note_index} \<Longrightarrow> canon (index_document b) = Inr (document_text b)"
  using index_fits [of b "b64 (replicate 64 0)"]
  by (auto simp: index_document_def document_text_def encode_bytes_Inr length_b64)

definition neat :: "ustr \<Rightarrow> bool" where
  "neat s \<longleftrightarrow> list_all unescaped s \<and> ascii s"

lemma neat_words:
  "neat (lit ''key'')" "neat (lit ''slot'')" "neat (lit ''revision'')" "neat (lit ''digest'')"
  "neat (lit ''bytes'')" "neat (lit ''storageClass'')" "neat (lit ''note'')" "neat (lit ''data'')"
  "neat (lit ''totalBytes'')" "neat (lit ''reserveBytes'')" "neat (lit ''domain'')" "neat (lit ''owner'')"
  "neat (lit ''storeId'')" "neat (lit ''limits'')" "neat (lit ''entries'')" "neat (lit ''body'')"
  "neat (lit ''signature'')" "neat (lit ''relayloom/local-group-registry/1'')"
  by (simp_all add: neat_def lit_def unescaped_def ascii_def)

lemma neat_hex: "neat (replicate 64 97)" "neat (replicate 64 98)"
  by (simp_all add: neat_def unescaped_def ascii_def list_all_iff)

lemma document_ascii: "b \<in> {empty_index, note_index} \<Longrightarrow> ascii (document_text b)"
proof -
  assume b: "b \<in> {empty_index, note_index}"
  have c: "b64_char n < 128" for n by (auto simp: b64_char_def)
  have b64: "ascii (b64 bs)" for bs by (induction bs rule: b64.induct) (simp_all add: c)
  have "ascii_value (JObj kvs) = list_all (\<lambda>p. neat (fst p) \<and> ascii_value (snd p)) kvs" "ascii_value (JStr s) = neat s" for kvs s
    by (simp_all add: neat_def)
  note text_values = this
  have entry: "ascii_value (entry_value note_entry)"
    by (simp add: entry_value_def note_entry_def note_key_def class_text_def text_values neat_words neat_hex del: ascii_value.simps(1,3))
  have limits: "ascii_value (limits_value l)" for l
    by (simp add: limits_value_def text_values neat_words del: ascii_value.simps(1,3))
  have b': "i_owner b = replicate 64 97" "i_store b = replicate 64 98" "set (i_entries b) \<subseteq> {note_entry}"
    using b by (auto simp: empty_index_def note_index_def)
  have "ascii_value (index_value b)"
    using b' entry limits
    by (auto simp: index_value_def REGISTRY_DOMAIN_def text_values neat_words neat_hex list_all_iff simp del: ascii_value.simps(1,3))
  then have "ascii_value (index_document b)"
    using b64 by (simp add: index_document_def signed_index_def text_values neat_words neat_def [of "b64 _"] del: ascii_value.simps(1,3))
  then show ?thesis by (rule canonical_ascii_value [OF document_text [OF b]])
qed

lemma documents_differ: "utf8 (document_text note_index) \<noteq> utf8 (document_text empty_index)"
proof
  assume "utf8 (document_text note_index) = utf8 (document_text empty_index)"
  then have "document_text note_index = document_text empty_index" by (intro utf8_ascii_inject document_ascii) auto
  then have "canon (index_document note_index) = canon (index_document empty_index)" by (simp add: document_text)
  moreover have "fracs_ok (index_document b)" if "b \<in> {empty_index, note_index}" for b
    using that by (auto simp: index_document_def signed_index_def index_value_def empty_index_def note_index_def
        limits_value_def entry_value_def REGISTRY_DOMAIN_def)
  ultimately have "jnorm (index_document note_index) = jnorm (index_document empty_index)"
    using canonical_injective document_text by (metis insertCI)
  then have "jget (jget (jnorm (index_document note_index)) (lit ''body'')) (lit ''revision'') =
      jget (jget (jnorm (index_document empty_index)) (lit ''body'')) (lit ''revision'')" by simp
  then show False by (simp add: jget_jnorm index_document_def note_index_def empty_index_def)
qed

lemma paper_parses:
  "parses (paper two_texts) (saved_value (paper two_texts) my_handle empty_index)"
  "parses (paper two_texts) (saved_value (paper two_texts) my_handle note_index)"
proof -
  have "saved_value (paper two_texts) my_handle b = index_document (sort_index b)" for b
    by (simp add: saved_value_def index_document_def b64_sign)
  then show "parses (paper two_texts) (saved_value (paper two_texts) my_handle empty_index)"
    "parses (paper two_texts) (saved_value (paper two_texts) my_handle note_index)"
    using documents_differ by (simp_all add: parses_def document_text two_texts_def paper_def)
qed

definition my_db :: database where
  "my_db = \<lparr>db_checkpoint = (case saveIndex (paper two_texts) my_handle my_seed empty_index of Inl _ \<Rightarrow> [] | Inr row \<Rightarrow> [row]),
     db_records = []\<rparr>"

definition my_outcome :: sql_outcome where
  "my_outcome = \<lparr>v_begin = True, v_commit = True, v_applied = True, v_rollback = True, v_save = my_seed, v_writes = (\<lambda>_. my_seed)\<rparr>"

lemma my_db_loads: "loadIndex (paper two_texts) my_handle my_db = Inr empty_index"
proof -
  obtain row where row: "saveIndex (paper two_texts) my_handle my_seed empty_index = Inr row" using index_saved by blast
  have "index_ok my_handle empty_index"
    by (simp add: index_ok_def empty_index_def my_handle_def limits_ok_def MAX_SAFE_def REGISTRY_total_def REGISTRY_reserve_def)
  moreover have "length [] = length (i_entries empty_index)" "h_pinned my_handle \<in> {None, Some (i_store empty_index)}"
    by (simp_all add: empty_index_def my_handle_def)
  ultimately show ?thesis
    using loadIndex_saved [OF row _ paper_laws(3,2,1) paper_parses(1), of "[]"] row by (simp add: my_db_def)
qed

lemma my_db_starts: "begin_tx True (\<lambda>_. my_seed) empty_index my_db = start_tx"
  by (simp add: begin_tx_def start_tx_def my_db_def)

lemma note_tx_index: "(t_body note_tx)\<lparr>i_revision := next_revision note_tx\<rparr> = note_index"
  by (simp add: note_tx_def next_seed_def next_revision_def empty_index_def note_index_def)

lemma example_fields:
  "h_closed my_handle = False" "h_poisoned my_handle = False" "v_begin my_outcome" "v_commit my_outcome"
  "v_save my_outcome = my_seed" "safe_integer (i_revision empty_index + 1)"
  by (simp_all add: my_handle_def my_outcome_def empty_index_def safe_integer_def MAX_SAFE_def)

theorem transaction_all_or_nothing_witness:
  "\<exists>h1 db1. execute (paper two_texts) True my_outcome (tx_put (paper two_texts) my_handle note_key [1, 2, 3] DataClass)
      my_handle my_db = (Inr (), h1, db1) \<and> stored (paper two_texts) my_handle db1 [note_key \<mapsto> [1, 2, 3]]"
proof -
  let ?C = "paper two_texts"
  let ?f = "tx_put ?C my_handle note_key [1, 2, 3] DataClass"
  have f: "?f (begin_tx True (v_writes my_outcome) empty_index my_db) = (Inr (), note_tx)"
    by (simp add: my_outcome_def my_db_starts put_note)
  obtain r h1 db1 where run: "execute ?C True my_outcome ?f my_handle my_db = (r, h1, db1)" by (metis prod_cases3)
  have "t_writable note_tx" "t_changed note_tx" "t_failure note_tx = None"
    by (simp_all add: note_tx_def next_seed_def start_tx_def begin_tx_def)
  moreover obtain row where "saveIndex ?C my_handle my_seed note_index = Inr row" using index_saved by blast
  ultimately have r: "r = Inr ()"
    using run f my_db_loads note_tx_index
    by (simp add: execute_def settle_tx_def save_tx_def example_fields Let_def)
  have stored: "stored ?C my_handle my_db Map.empty"
    using my_db_loads start_sound [where p = two_texts and rows = "db_checkpoint my_db"]
    by (auto simp: stored_def my_db_def)
  have "case r of Inr x \<Rightarrow> fst (?f (begin_tx True (v_writes my_outcome) empty_index my_db)) = Inr x \<and> stored ?C my_handle db1 (tx_map ?C my_handle note_tx)
    | Inl e \<Rightarrow> stored ?C my_handle db1 Map.empty \<or> h_poisoned h1 \<and> stored ?C my_handle db1 (tx_map ?C my_handle note_tx)"
    by (rule transaction_all_or_nothing [OF my_db_loads stored _ paper_laws(3) _ _ _ _ run])
      (use f paper_laws(2) paper_parses(2) note_tx_index in \<open>auto simp: my_outcome_def\<close>)
  then show ?thesis using run r note_sound(2) by auto
qed

end
