(* ===== verification/Packet.thy ===== *)
theory Packet
  imports Json
begin

text \<open>
  The routing envelope shared by every transport (\<open>packages/transport/src/protocol.ts\<close>)
  and the limits of the native transport (\<open>packages/transport/src/index.ts\<close>).
\<close>

datatype priority = SOS | Normal | Bulk

definition rank :: "priority \<Rightarrow> nat" where
  "rank p = (case p of SOS \<Rightarrow> 0 | Normal \<Rightarrow> 1 | Bulk \<Rightarrow> 2)"

definition priority_text :: "priority \<Rightarrow> ustr" where
  "priority_text p = (case p of SOS \<Rightarrow> lit ''sos'' | Normal \<Rightarrow> lit ''normal'' | Bulk \<Rightarrow> lit ''bulk'')"

definition parse_priority :: "jval \<Rightarrow> priority option" where
  "parse_priority v =
     (if v = JStr (lit ''sos'') then Some SOS
      else if v = JStr (lit ''normal'') then Some Normal
      else if v = JStr (lit ''bulk'') then Some Bulk
      else None)"

lemma parse_priority_text [simp]: "parse_priority (JStr (priority_text p)) = Some p"
  by (cases p) (simp_all add: parse_priority_def priority_text_def)

lemma rank_inject [simp]: "rank p = rank q \<longleftrightarrow> p = q"
  by (cases p; cases q) (simp_all add: rank_def)

text \<open>
  A validated packet: the fields the routers read, and the whole JSON value, which is what is
  encoded again when the packet is relayed.
\<close>

record packet =
  p_id :: ustr
  p_source :: ustr
  p_created :: int
  p_expires :: int
  p_maxHops :: int
  p_hops :: "ustr list"
  p_prio :: priority
  p_payload :: jval
  p_value :: jval

end
