(* ===== verification/Outbox.thy ===== *)
theory Outbox
  imports Packet
begin

text \<open>
  The bounded record of sends and their confirmations (\<open>packages/content/src/outbox.ts\<close>):
  the reading of a stored outbox, admission of a new send, confirmations, and the status
  shown for an entry.
\<close>

section \<open>State\<close>

definition OUTBOX_pending :: int where "OUTBOX_pending = 128"
definition OUTBOX_bytes :: int where "OUTBOX_bytes = 32 * 1024 * 1024"
definition OUTBOX_total :: int where "OUTBOX_total = 256"

lemmas outbox_limits = OUTBOX_pending_def OUTBOX_bytes_def OUTBOX_total_def

record confirmation =
  receivedAt :: "int option"
  readAt :: "int option"

datatype phase = Preparing | Ready | Unavailable

text \<open>
  The fields an \<open>OutboxItem\<close> shares with its \<open>OutboxEntry\<close>
  (\<open>Omit<OutboxEntry, "fingerprint" | "phase" | "confirmations">\<close>), and the entry.
\<close>

record outbox_fields =
  operationId :: ustr
  oid :: ustr
  author :: ustr
  conversation :: ustr
  preview :: ustr
  created :: int
  expires :: int
  oprio :: priority
  bytes :: int
  attempts :: int
  lastAttemptAt :: int
  nextAttemptAt :: int
  lastError :: ustr
  manualPin :: bool
  groupEpoch :: "ustr option"
  groupStopped :: "bool option"

record outbox_entry = outbox_fields +
  fingerprint :: ustr
  phase :: phase
  confirmations :: "(ustr, confirmation) omap"

type_synonym outbox = "(ustr, outbox_entry) omap"

datatype outbox_error =
    BadOperationId
  | BadState
  | BadEntry
  | BadConfirmations
  | BadConfirmation
  | OverReserved
  | ReserveFull
  | RecordLimit

section \<open>Operations\<close>

text \<open>\<open>operation\<close>: a version 4 UUID in lower case.\<close>

definition uuid_pattern :: "(nat \<Rightarrow> bool) list" where
  "uuid_pattern =
     replicate 8 is_hex @ [(=) 45] @ replicate 4 is_hex @ [(=) 45] @
     [(=) 52] @ replicate 3 is_hex @ [(=) 45] @
     [(\<lambda>c. c = 56 \<or> c = 57 \<or> c = 97 \<or> c = 98)] @ replicate 3 is_hex @ [(=) 45] @
     replicate 12 is_hex"

definition is_operation :: "ustr \<Rightarrow> bool" where
  "is_operation s \<longleftrightarrow> list_all2 (\<lambda>p c. p c) uuid_pattern s"

definition requireOperationId :: "jval \<Rightarrow> outbox_error + ustr" where
  "requireOperationId v =
     (case v of JStr s \<Rightarrow> if is_operation s then Inr s else Inl BadOperationId
      | _ \<Rightarrow> Inl BadOperationId)"

definition outboxPreview :: "ustr \<Rightarrow> ustr" where
  "outboxPreview value =
     (let e = min 160 (length value);
          e' = (if e < length value \<and> 0 < e \<and> high_surrogate (value ! (e - 1)) \<and>
                   low_surrogate (value ! e)
                then e - 1 else e)
      in take e' value)"

definition unconfirmed :: "confirmation \<Rightarrow> bool" where
  "unconfirmed c \<longleftrightarrow> receivedAt c = None \<and> readAt c = None"

definition isPending :: "'a outbox_entry_scheme \<Rightarrow> int \<Rightarrow> bool" where
  "isPending entry now \<longleftrightarrow>
     groupStopped entry \<noteq> Some True \<and>
     phase entry \<noteq> Unavailable \<and>
     now < expires entry \<and>
     list_ex unconfirmed (ovals (confirmations entry))"

datatype status = SPending | SReceived | SRead | SExpired | SUnavailable | SBlocked | SSuperseded

record 'g outbox_item = outbox_fields +
  status :: status
  groupAuthority :: "'g option"
  accepted :: bool
  contentExpired :: bool
  receivedCount :: nat
  readCount :: nat
  recipientCount :: nat
  retained :: bool
  recipients :: "(ustr \<times> confirmation) list"

text \<open>
  Recipients are ordered by \<open>localeCompare\<close> on their addresses; on lower-case hexadecimal
  text of equal length that is the order of the code units.
\<close>

definition outboxItem ::
    "outbox_entry \<Rightarrow> int \<Rightarrow> ustr list \<Rightarrow> bool \<Rightarrow> 'g option \<Rightarrow> 'g outbox_item" where
  "outboxItem entry now blocked available authority =
     (let recipients = sort_key fst (confirmations entry);
          readCount = length (filter (\<lambda>r. readAt (snd r) \<noteq> None) recipients);
          receivedCount = length (filter (\<lambda>r. receivedAt (snd r) \<noteq> None \<or> readAt (snd r) \<noteq> None) recipients);
          contentExpired = (expires entry \<le> now);
          status =
            (if readCount = length recipients then SRead
             else if receivedCount = length recipients then SReceived
             else if groupStopped entry = Some True then SSuperseded
             else if contentExpired then SExpired
             else if phase entry = Unavailable then SUnavailable
             else if list_ex (\<lambda>r. fst r \<in> set blocked) recipients then SBlocked
             else SPending);
          retained = (available \<and> \<not> contentExpired)
      in outbox_fields.extend (outbox_fields.truncate entry)
           (outbox_item.fields status
              (if groupEpoch entry \<noteq> None \<and> groupEpoch entry \<noteq> Some [] then authority else None)
              (phase entry = Ready \<and> retained)
              contentExpired receivedCount readCount (length recipients) retained recipients))"

text \<open>
  \<open>validateOutbox\<close> reads the JSON value of the private state. \<open>address.test(x)\<close> converts
  its argument to a string, so \<open>id\<close> and \<open>fingerprint\<close> are checked through \<open>js_string\<close>;
  the set of identifiers compares strings only (other values are compared by reference).
\<close>

definition numeric_keys :: "ustr list" where
  "numeric_keys = map lit [''created'', ''expires'', ''bytes'', ''attempts'', ''lastAttemptAt'', ''nextAttemptAt'']"

definition entry_keys :: "ustr list" where
  "entry_keys = map lit [''operationId'', ''fingerprint'', ''id'', ''author'', ''conversation'',
     ''preview'', ''created'', ''expires'', ''priority'', ''bytes'', ''phase'', ''attempts'',
     ''lastAttemptAt'', ''nextAttemptAt'', ''lastError'', ''manualPin'', ''confirmations'']"

definition parse_phase :: "jval \<Rightarrow> phase option" where
  "parse_phase v =
     (if v = JStr (lit ''preparing'') then Some Preparing
      else if v = JStr (lit ''ready'') then Some Ready
      else if v = JStr (lit ''unavailable'') then Some Unavailable
      else None)"

definition valid_confirmation :: "ustr \<Rightarrow> ustr \<times> jval \<Rightarrow> bool" where
  "valid_confirmation owner r =
     (hex64 (fst r) \<and> fst r \<noteq> owner \<and> is_obj (snd r) \<and>
      list_all (\<lambda>k. k = lit ''receivedAt'' \<or> k = lit ''readAt'') (okeys (fields_of (snd r))) \<and>
      list_all (\<lambda>t. is_safe_int t \<and> 0 \<le> int_of t) (ovals (fields_of (snd r))) \<and>
      (jget (snd r) (lit ''readAt'') \<noteq> JUndefined \<longrightarrow> jget (snd r) (lit ''receivedAt'') \<noteq> JUndefined))"

definition valid_entry :: "ustr \<Rightarrow> ustr list \<Rightarrow> ustr \<Rightarrow> jval \<Rightarrow> bool" where
  "valid_entry owner ids opid e =
     (let get = (\<lambda>k. jget e (lit k));
          grouped = (is_obj e \<and> (jhas e (lit ''groupEpoch'') \<or> jhas e (lit ''groupStopped'')));
          fields = (if grouped then entry_keys @ [lit ''groupEpoch'', lit ''groupStopped''] else entry_keys)
      in exactShape e fields \<and>
         (grouped \<longrightarrow>
            is_str (get ''groupEpoch'') \<and> hex64 (str_of (get ''groupEpoch'')) \<and>
            is_bool (get ''groupStopped'') \<and> hex64 (js_string (get ''conversation''))) \<and>
         get ''operationId'' = JStr opid \<and>
         get ''author'' = JStr owner \<and>
         hex64 (js_string (get ''id'')) \<and>
         hex64 (js_string (get ''fingerprint'')) \<and>
         \<not> (is_str (get ''id'') \<and> str_of (get ''id'') \<in> set ids) \<and>
         is_str (get ''conversation'') \<and> length (str_of (get ''conversation'')) \<le> 256 \<and>
         str_of (get ''conversation'') \<noteq> [] \<and>
         is_str (get ''preview'') \<and> length (str_of (get ''preview'')) \<le> 160 \<and>
         is_str (get ''lastError'') \<and> length (str_of (get ''lastError'')) \<le> 200 \<and>
         is_bool (get ''manualPin'') \<and>
         parse_priority (get ''priority'') \<noteq> None \<and>
         parse_phase (get ''phase'') \<noteq> None \<and>
         list_all (\<lambda>k. is_safe_int (jget e k) \<and> 0 \<le> int_of (jget e k)) numeric_keys \<and>
         1 \<le> int_of (get ''bytes'') \<and> int_of (get ''bytes'') \<le> 6 * 1024 * 1024 \<and>
         int_of (get ''created'') < int_of (get ''expires'') \<and>
         int_of (get ''attempts'') \<le> 1000000 \<and>
         is_obj (get ''confirmations''))"

text \<open>The typed reading of a checked value (\<open>structuredClone(e as OutboxEntry)\<close>).\<close>

definition opt_int :: "jval \<Rightarrow> int option" where
  "opt_int v = (case v of JInt i \<Rightarrow> Some i | _ \<Rightarrow> None)"

definition confirmation_of :: "jval \<Rightarrow> confirmation" where
  "confirmation_of c =
     \<lparr> receivedAt = opt_int (jget c (lit ''receivedAt'')), readAt = opt_int (jget c (lit ''readAt'')) \<rparr>"

definition entry_of :: "jval \<Rightarrow> outbox_entry" where
  "entry_of e =
     (let get = (\<lambda>k. jget e (lit k)) in
      \<lparr> operationId = str_of (get ''operationId''), oid = js_string (get ''id''),
        author = str_of (get ''author''), conversation = str_of (get ''conversation''),
        preview = str_of (get ''preview''), created = int_of (get ''created''),
        expires = int_of (get ''expires''),
        oprio = (case parse_priority (get ''priority'') of Some p \<Rightarrow> p | None \<Rightarrow> Normal),
        bytes = int_of (get ''bytes''), attempts = int_of (get ''attempts''),
        lastAttemptAt = int_of (get ''lastAttemptAt''), nextAttemptAt = int_of (get ''nextAttemptAt''),
        lastError = str_of (get ''lastError''), manualPin = bool_of (get ''manualPin''),
        groupEpoch = (case get ''groupEpoch'' of JStr s \<Rightarrow> Some s | _ \<Rightarrow> None),
        groupStopped = (case get ''groupStopped'' of JBool b \<Rightarrow> Some b | _ \<Rightarrow> None),
        fingerprint = js_string (get ''fingerprint''),
        phase = (case parse_phase (get ''phase'') of Some p \<Rightarrow> p | None \<Rightarrow> Preparing),
        confirmations = map (\<lambda>r. (fst r, confirmation_of (snd r))) (fields_of (get ''confirmations'')) \<rparr>)"

fun validate_entries ::
    "ustr \<Rightarrow> (ustr, jval) omap \<Rightarrow> ustr list \<Rightarrow> outbox \<Rightarrow> outbox_error + outbox" where
  "validate_entries owner [] ids result = Inr result"
| "validate_entries owner ((opid, e) # rest) ids result =
     bindR (requireOperationId (JStr opid)) (\<lambda>_.
     if \<not> valid_entry owner ids opid e then Inl BadEntry
     else (let readers = fields_of (jget e (lit ''confirmations'')) in
       if readers = [] \<or> length readers > 63 then Inl BadConfirmations
       else if \<not> list_all (valid_confirmation owner) readers then Inl BadConfirmation
       else validate_entries owner rest
              (if is_str (jget e (lit ''id'')) then str_of (jget e (lit ''id'')) # ids else ids)
              (oset opid (entry_of e) result)))"

definition pending_entries :: "outbox \<Rightarrow> int \<Rightarrow> outbox_entry list" where
  "pending_entries ob now = filter (\<lambda>e. isPending e now) (ovals ob)"

definition validateOutbox :: "jval \<Rightarrow> ustr \<Rightarrow> int \<Rightarrow> outbox_error + outbox" where
  "validateOutbox value owner now =
     (if value = JUndefined then Inr []
      else if \<not> is_obj value \<or> int (length (fields_of value)) > OUTBOX_total then Inl BadState
      else bindR (validate_entries owner (fields_of value) [] []) (\<lambda>result.
        (let pending = pending_entries result now in
         if int (length pending) > OUTBOX_pending \<or> sum_list (map bytes pending) > OUTBOX_bytes
         then Inl OverReserved else Inr result)))"

text \<open>
  Admission first checks the reserve, then drops the oldest finished records while the
  table is full.
\<close>

fun drop_terminals :: "outbox_entry list \<Rightarrow> outbox \<Rightarrow> outbox" where
  "drop_terminals [] next = next"
| "drop_terminals (t # ts) next =
     (if int (length next) \<ge> OUTBOX_total then drop_terminals ts (odel (operationId t) next) else next)"

definition terminal_entries :: "outbox \<Rightarrow> int \<Rightarrow> outbox_entry list" where
  "terminal_entries ob now =
     sort_key (\<lambda>e. (created e, oid e)) (filter (\<lambda>e. \<not> isPending e now) (ovals ob))"

definition admitOutbox :: "outbox \<Rightarrow> outbox_entry \<Rightarrow> int \<Rightarrow> outbox_error + outbox" where
  "admitOutbox current entry now =
     (let pending = pending_entries current now in
      if int (length pending) \<ge> OUTBOX_pending \<or>
         sum_list (map bytes pending) + bytes entry > OUTBOX_bytes
      then Inl ReserveFull
      else (let next = drop_terminals (terminal_entries current now) current in
        if int (length next) \<ge> OUTBOX_total then Inl RecordLimit
        else Inr (oset (operationId entry) entry next)))"

text \<open>
  Confirmation events (\<open>delivery\<close>, \<open>receipt\<close>) name the object they confirm and their author.
\<close>

datatype event_kind = Delivery | Receipt | OtherKind

record confirm_event =
  ekind :: event_kind
  eauthor :: ustr
  etarget :: "ustr option"

text \<open>\<open>new Map(values.map(e => [e.id, e]))\<close>: the last record with an identifier wins.\<close>

definition entry_by_id :: "outbox \<Rightarrow> ustr \<Rightarrow> (ustr \<times> outbox_entry) option" where
  "entry_by_id ob i = find (\<lambda>p. oid (snd p) = i) (rev ob)"

definition confirm_one :: "confirm_event \<Rightarrow> int \<Rightarrow> confirmation \<Rightarrow> confirmation \<times> bool" where
  "confirm_one ev now c =
     (let (c1, ch1) = (if receivedAt c = None then (c\<lparr>receivedAt := Some now\<rparr>, True) else (c, False));
          (c2, ch2) = (if ekind ev = Receipt \<and> readAt c1 = None then (c1\<lparr>readAt := Some now\<rparr>, True)
                       else (c1, False))
      in (c2, ch1 \<or> ch2))"

definition apply_confirmation :: "confirm_event \<Rightarrow> int \<Rightarrow> outbox \<Rightarrow> outbox \<times> bool" where
  "apply_confirmation ev now ob =
     (if ekind ev = OtherKind then (ob, False)
      else (case entry_by_id ob (case etarget ev of Some t \<Rightarrow> t | None \<Rightarrow> []) of
          None \<Rightarrow> (ob, False)
        | Some (k, entry) \<Rightarrow>
            (case oget (confirmations entry) (eauthor ev) of
               None \<Rightarrow> (ob, False)
             | Some c \<Rightarrow>
                 if author entry = eauthor ev then (ob, False)
                 else (let (c', ch) = confirm_one ev now c in
                   (oset k (entry\<lparr>confirmations := oset (eauthor ev) c' (confirmations entry)\<rparr>) ob, ch)))))"

fun applyConfirmations :: "outbox \<Rightarrow> confirm_event list \<Rightarrow> int \<Rightarrow> outbox \<times> bool" where
  "applyConfirmations ob [] now = (ob, False)"
| "applyConfirmations ob (ev # evs) now =
     (let (ob1, ch1) = apply_confirmation ev now ob;
          (ob2, ch2) = applyConfirmations ob1 evs now
      in (ob2, ch1 \<or> ch2))"


section \<open>Admission\<close>

definition outbox_wf :: "outbox \<Rightarrow> bool" where
  "outbox_wf ob \<longleftrightarrow> owf ob \<and> (\<forall>k e. (k, e) \<in> set ob \<longrightarrow> operationId e = k \<and> 0 \<le> bytes e)"

lemma outbox_wfD:
  "outbox_wf ob \<Longrightarrow> owf ob"
  "outbox_wf ob \<Longrightarrow> (k, e) \<in> set ob \<Longrightarrow> operationId e = k"
  "outbox_wf ob \<Longrightarrow> (k, e) \<in> set ob \<Longrightarrow> 0 \<le> bytes e"
  by (auto simp: outbox_wf_def)

lemma outbox_wf_odel [simp]: "outbox_wf ob \<Longrightarrow> outbox_wf (odel k ob)"
  by (auto simp: outbox_wf_def set_odel)

text \<open>Dropping takes a prefix of the list it is given, and stops as soon as there is room.\<close>

lemma drop_terminals_prefix:
  "\<exists>n \<le> length ts. drop_terminals ts ob = fold odel (map operationId (take n ts)) ob \<and>
     (n < length ts \<longrightarrow> int (length (drop_terminals ts ob)) < OUTBOX_total) \<and>
     (0 < n \<longrightarrow> int (length ob) \<ge> OUTBOX_total)"
proof (induction ts arbitrary: ob)
  case (Cons t ts)
  show ?case
  proof (cases "int (length ob) \<ge> OUTBOX_total")
    case True
    from Cons.IH [of "odel (operationId t) ob"] obtain n where
      "n \<le> length ts"
      "drop_terminals ts (odel (operationId t) ob) =
         fold odel (map operationId (take n ts)) (odel (operationId t) ob)"
      "n < length ts \<longrightarrow> int (length (drop_terminals ts (odel (operationId t) ob))) < OUTBOX_total"
      by blast
    with True show ?thesis by (intro exI [of _ "Suc n"]) simp
  next
    case False
    then show ?thesis by (intro exI [of _ 0]) simp
  qed
qed simp

lemma fold_odel: "fold odel ks ob = filter (\<lambda>p. fst p \<notin> set ks) ob"
  by (induction ks arbitrary: ob) (auto simp: odel_def intro!: filter_cong)

lemma pending_entries_filter:
  "outbox_wf ob \<Longrightarrow> pending_entries ob now = ovals (filter (\<lambda>p. isPending (snd p) now) ob)"
  by (simp add: pending_entries_def ovals_def filter_map comp_def)

lemma set_terminals:
  "set (terminal_entries ob now) = {e \<in> snd ` set ob. \<not> isPending e now}"
  by (auto simp: terminal_entries_def ovals_def)

text \<open>What is left after dropping a part of the finished records.\<close>

lemma drop_terminals_kept:
  assumes wf: "outbox_wf ob"
  obtains n where "n \<le> length (terminal_entries ob now)"
    and "drop_terminals (terminal_entries ob now) ob =
      filter (\<lambda>p. isPending (snd p) now \<or> snd p \<notin> set (take n (terminal_entries ob now))) ob"
    and "n < length (terminal_entries ob now) \<Longrightarrow>
      int (length (drop_terminals (terminal_entries ob now) ob)) < OUTBOX_total"
    and "0 < n \<Longrightarrow> int (length ob) \<ge> OUTBOX_total"
proof -
  let ?ts = "terminal_entries ob now"
  obtain n where n: "n \<le> length ?ts"
    "drop_terminals ?ts ob = fold odel (map operationId (take n ?ts)) ob"
    "n < length ?ts \<longrightarrow> int (length (drop_terminals ?ts ob)) < OUTBOX_total"
    "0 < n \<longrightarrow> int (length ob) \<ge> OUTBOX_total"
    using drop_terminals_prefix [of ?ts ob] by blast
  have "fst p \<notin> operationId ` set (take n ?ts) \<longleftrightarrow> isPending (snd p) now \<or> snd p \<notin> set (take n ?ts)"
    if p: "p \<in> set ob" for p
  proof -
    have sub: "e \<in> snd ` set ob \<and> \<not> isPending e now" if "e \<in> set (take n ?ts)" for e
      using in_set_takeD [OF that] by (auto simp: set_terminals)
    have op: "operationId (snd p) = fst p" using outbox_wfD(2) [OF wf, of "fst p" "snd p"] p by simp
    have same: "snd p = e" if e: "e \<in> set (take n ?ts)" and o: "operationId e = fst p" for e
    proof -
      obtain k where "(k, e) \<in> set ob" using sub [OF e] by auto
      moreover from this have "k = fst p" using outbox_wfD(2) [OF wf] o by metis
      ultimately show ?thesis
        using oget_in_set [OF outbox_wfD(1) [OF wf], of "fst p"] p by (metis option.inject prod.collapse)
    qed
    show ?thesis
    proof
      assume "fst p \<notin> operationId ` set (take n ?ts)"
      with op show "isPending (snd p) now \<or> snd p \<notin> set (take n ?ts)" by (metis imageI)
    next
      assume "isPending (snd p) now \<or> snd p \<notin> set (take n ?ts)"
      with same sub show "fst p \<notin> operationId ` set (take n ?ts)" by (metis imageE)
    qed
  qed
  then have "drop_terminals ?ts ob = filter (\<lambda>p. isPending (snd p) now \<or> snd p \<notin> set (take n ?ts)) ob"
    unfolding n(2) fold_odel by (intro filter_cong) auto
  with n show ?thesis using that by blast
qed

lemma drop_terminals_wf: "outbox_wf ob \<Longrightarrow> outbox_wf (drop_terminals ts ob)"
  by (induction ts arbitrary: ob) simp_all

lemma drop_terminals_room:
  assumes "outbox_wf ob" "int (length (pending_entries ob now)) < OUTBOX_pending"
  shows "int (length (drop_terminals (terminal_entries ob now) ob)) < OUTBOX_total"
proof -
  let ?ts = "terminal_entries ob now"
  obtain n where n: "n \<le> length ?ts"
    "drop_terminals ?ts ob = filter (\<lambda>p. isPending (snd p) now \<or> snd p \<notin> set (take n ?ts)) ob"
    "n < length ?ts \<Longrightarrow> int (length (drop_terminals ?ts ob)) < OUTBOX_total"
    by (rule drop_terminals_kept [OF assms(1)]) blast
  show ?thesis
  proof (cases "n < length ?ts")
    case False
    with n(1) have "take n ?ts = ?ts" by simp
    then have "drop_terminals ?ts ob = filter (\<lambda>p. isPending (snd p) now) ob"
      unfolding n(2) by (intro filter_cong) (auto simp: set_terminals)
    then have "length (drop_terminals ?ts ob) = length (pending_entries ob now)"
      by (simp add: pending_entries_filter [OF assms(1)] ovals_def)
    with assms(2) show ?thesis by (simp add: outbox_limits)
  qed (rule n(3))
qed

text \<open>
  Admission of a send succeeds exactly when the reserve has room: fewer than 128 pending
  sends and at most 32 MiB pending with the new one. The second limit, on the number of
  records, never refuses a send by itself, because finished records can always be dropped.
\<close>

theorem admit_iff:
  assumes "outbox_wf current"
  shows "(\<exists>next. admitOutbox current entry now = Inr next) \<longleftrightarrow>
    int (length (pending_entries current now)) < OUTBOX_pending \<and>
    sum_list (map bytes (pending_entries current now)) + bytes entry \<le> OUTBOX_bytes"
  using drop_terminals_room [OF assms, of now]
  by (auto simp: admitOutbox_def Let_def not_less)

definition example_entry :: outbox_entry where
  "example_entry = \<lparr> operationId = lit ''op'', oid = lit ''id'', author = lit ''me'', conversation = lit ''c'',
     preview = [], created = 1, expires = 10, oprio = Normal, bytes = 5, attempts = 0,
     lastAttemptAt = 0, nextAttemptAt = 0, lastError = [], manualPin = False,
     groupEpoch = None, groupStopped = None, fingerprint = [], phase = Ready,
     confirmations = [(lit ''you'', \<lparr> receivedAt = None, readAt = None \<rparr>)] \<rparr>"

lemmas example_entry_simps = example_entry_def isPending_def unconfirmed_def ovals_def outbox_limits

theorem admit_iff_witness:
  "outbox_wf [(lit ''op'', example_entry)] \<and>
   (\<exists>next. admitOutbox [(lit ''op'', example_entry)] (example_entry\<lparr>operationId := lit ''o2''\<rparr>) 5 = Inr next)"
proof -
  have wf: "outbox_wf [(lit ''op'', example_entry)]"
    by (simp add: outbox_wf_def owf_def example_entry_def)
  show ?thesis
    using admit_iff [OF wf, of "example_entry\<lparr>operationId := lit ''o2''\<rparr>" 5] wf
    by (simp add: pending_entries_def example_entry_simps)
qed

lemma admitE:
  assumes "admitOutbox current entry now = Inr next" "outbox_wf current"
  obtains mid where "next = oset (operationId entry) entry mid" "outbox_wf mid"
    "mid = drop_terminals (terminal_entries current now) current"
    "int (length mid) < OUTBOX_total"
    "int (length (pending_entries current now)) < OUTBOX_pending"
    "sum_list (map bytes (pending_entries current now)) + bytes entry \<le> OUTBOX_bytes"
  using assms drop_terminals_wf [OF assms(2)]
  by (auto simp: admitOutbox_def Let_def not_le split: if_splits)

text \<open>The limits the code keeps at every moment after an admission.\<close>

definition within_limits :: "outbox \<Rightarrow> int \<Rightarrow> bool" where
  "within_limits ob now \<longleftrightarrow>
     int (length ob) \<le> OUTBOX_total \<and>
     int (length (pending_entries ob now)) \<le> OUTBOX_pending \<and>
     sum_list (map bytes (pending_entries ob now)) \<le> OUTBOX_bytes"

lemma pending_sum_osum:
  "sum_list (map bytes (pending_entries ob now)) =
   osum (\<lambda>e. if isPending e now then bytes e else 0) ob"
  by (induction ob) (auto simp: pending_entries_def ovals_def osum_def)

lemma pending_length_osum:
  "int (length (pending_entries ob now)) = osum (\<lambda>e. if isPending e now then 1 else 0) ob"
  by (induction ob) (auto simp: pending_entries_def ovals_def osum_def)

text \<open>A sum over part of a map is at most the sum over the map.\<close>

lemma osum_filter_le:
  "(\<And>k v. (k, v) \<in> set m \<Longrightarrow> 0 \<le> c v) \<Longrightarrow> osum c (filter P m) \<le> osum c m"
proof (induction m)
  case (Cons p m)
  have "osum c (filter P m) \<le> osum c m" by (rule Cons.IH) (meson Cons.prems list.set_intros(2))
  moreover have "0 \<le> c (snd p)" using Cons.prems [of "fst p" "snd p"] by simp
  ultimately show ?case by simp
qed simp

lemma osum_oset_le:
  assumes "owf m" "\<And>k v. (k, v) \<in> set m \<Longrightarrow> 0 \<le> c v"
  shows "osum c (oset k v m) \<le> osum c m + c v"
  using osum_filter_le [of m c "\<lambda>p. fst p \<noteq> k"] assms by (simp add: osum_oset odel_def)

lemma admit_sum:
  assumes "admitOutbox current entry now = Inr next" "outbox_wf current"
    and "\<And>k v. (k, v) \<in> set current \<Longrightarrow> 0 \<le> c v"
  shows "osum c next \<le> osum c current + c entry"
proof -
  from assms(1,2) obtain mid where mid: "next = oset (operationId entry) entry mid" "outbox_wf mid"
    "mid = drop_terminals (terminal_entries current now) current" by (rule admitE)
  obtain Q where Q: "mid = filter Q current"
    unfolding mid(3) by (rule drop_terminals_kept [OF assms(2), of now]) blast
  have "osum c next \<le> osum c mid + c entry"
    unfolding mid(1) using outbox_wfD(1) [OF mid(2)] assms(3) Q by (intro osum_oset_le) auto
  also have "\<dots> \<le> osum c current + c entry"
    using osum_filter_le [of current c Q] assms(3) Q by simp
  finally show ?thesis .
qed

lemma admit_facts:
  assumes "outbox_wf current" "admitOutbox current entry now = Inr next"
    and "0 \<le> bytes entry"
  shows "within_limits next now \<and> outbox_wf next \<and> oget next (operationId entry) = Some entry \<and>
    (\<forall>k x. oget current k = Some x \<and> isPending x now \<and> k \<noteq> operationId entry \<longrightarrow> oget next k = Some x)"
proof -
  from assms(2,1) obtain mid where mid: "next = oset (operationId entry) entry mid" "outbox_wf mid"
    "mid = drop_terminals (terminal_entries current now) current"
    "int (length mid) < OUTBOX_total"
    "int (length (pending_entries current now)) < OUTBOX_pending"
    "sum_list (map bytes (pending_entries current now)) + bytes entry \<le> OUTBOX_bytes"
    by (rule admitE)
  have pos: "(k, v) \<in> set current \<Longrightarrow> 0 \<le> (if isPending v now then bytes v else 0)" for k v
    using outbox_wfD(3) [OF assms(1)] by simp
  have "int (length next) \<le> OUTBOX_total" using mid(1,4) by (simp add: length_oset)
  moreover have "int (length (pending_entries next now)) \<le> OUTBOX_pending"
  proof -
    let ?one = "\<lambda>e. if isPending e now then 1 else 0"
    have "osum ?one next \<le> osum ?one current + ?one entry"
      by (rule admit_sum [OF assms(2,1)]) simp
    with mid(5) show ?thesis by (simp add: pending_length_osum split: if_splits)
  qed
  moreover have "sum_list (map bytes (pending_entries next now)) \<le> OUTBOX_bytes"
  proof -
    let ?b = "\<lambda>e. if isPending e now then bytes e else 0"
    have "osum ?b next \<le> osum ?b current + ?b entry"
      by (rule admit_sum [OF assms(2,1)]) (rule pos)
    with mid(6) assms(3) show ?thesis by (simp add: pending_sum_osum split: if_splits)
  qed
  moreover have "outbox_wf next"
    using mid(1,2) assms(3) by (auto simp: outbox_wf_def set_oset)
  moreover have "oget mid k = Some x" if "oget current k = Some x" "isPending x now" for k x
  proof -
    have "(k, x) \<in> set mid" using oget_SomeD [OF that(1)] that(2) unfolding mid(3)
      by (rule_tac drop_terminals_kept [OF assms(1), of now]) auto
    then show ?thesis using oget_in_set outbox_wfD(1) [OF mid(2)] by metis
  qed
  ultimately show ?thesis by (auto simp: within_limits_def mid(1) oget_oset)
qed

text \<open>
  A successful admission keeps all three limits (256 records, 128 pending sends, 32 MiB
  pending), stores the new entry, and leaves every other pending entry as it was.
\<close>

theorem admit_sound:
  assumes "outbox_wf current" "admitOutbox current entry now = Inr next"
    and "0 \<le> bytes entry"
  shows "within_limits next now \<and> outbox_wf next \<and> oget next (operationId entry) = Some entry \<and>
    (\<forall>k x. oget current k = Some x \<and> isPending x now \<and> k \<noteq> operationId entry \<longrightarrow> oget next k = Some x)"
  using assms by (rule admit_facts)

theorem admit_sound_witness:
  "\<exists>next. admitOutbox [(lit ''op'', example_entry)] (example_entry\<lparr>operationId := lit ''o2''\<rparr>) 5 = Inr next \<and>
     within_limits next 5"
proof -
  let ?e = "example_entry\<lparr>operationId := lit ''o2''\<rparr>" and ?c = "[(lit ''op'', example_entry)]"
  have wf: "outbox_wf ?c" by (simp add: outbox_wf_def owf_def example_entry_def)
  have run: "admitOutbox ?c ?e 5 = Inr (oset (lit ''o2'') ?e ?c)"
    by (simp add: admitOutbox_def pending_entries_def terminal_entries_def example_entry_simps)
  show ?thesis
    using admit_sound [OF wf run] run by (auto simp: example_entry_def)
qed

text \<open>
  Admission never drops a record unless the table is full, never drops a pending send,
  and drops finished records oldest first, by creation time and then by identifier.
\<close>

theorem admit_drops_oldest:
  assumes "outbox_wf current" "admitOutbox current entry now = Inr next"
    and "(k, x) \<in> set current" "oget next k = None"
  shows "int (length current) \<ge> OUTBOX_total \<and> \<not> isPending x now \<and>
    (\<forall>j y. (j, y) \<in> set current \<and> \<not> isPending y now \<and> j \<noteq> operationId entry \<and> oget next j = Some y \<longrightarrow>
       (created x, oid x) \<le> (created y, oid y))"
proof -
  let ?ts = "terminal_entries current now" and ?key = "\<lambda>e. (created e, oid e)"
  from assms(2,1) obtain mid where mid: "next = oset (operationId entry) entry mid" "outbox_wf mid"
    "mid = drop_terminals ?ts current" by (rule admitE)
  obtain n where n: "n \<le> length ?ts"
    "mid = filter (\<lambda>p. isPending (snd p) now \<or> snd p \<notin> set (take n ?ts)) current"
    "0 < n \<Longrightarrow> int (length current) \<ge> OUTBOX_total"
    unfolding mid(3) by (rule drop_terminals_kept [OF assms(1), of now]) blast
  have k: "k \<noteq> operationId entry" "oget mid k = None"
    using assms(4) by (auto simp: mid(1) oget_oset split: if_splits)
  then have "(k, x) \<notin> set mid" using oget_in_set [OF outbox_wfD(1) [OF mid(2)]] by fastforce
  with assms(3) have x: "\<not> isPending x now" "x \<in> set (take n ?ts)" by (auto simp: n(2))
  have sorted: "sorted (map ?key ?ts)" by (simp add: terminal_entries_def)
  have "?key x \<le> ?key y"
    if y: "(j, y) \<in> set current" "\<not> isPending y now" "j \<noteq> operationId entry" "oget next j = Some y" for j y
  proof -
    have "(j, y) \<in> set mid" using y(3,4) oget_SomeD by (fastforce simp: mid(1) oget_oset)
    with y(2) have "y \<notin> set (take n ?ts)" by (auto simp: n(2))
    with y(1,2) have "y \<in> set (drop n ?ts)"
      using append_take_drop_id [of n ?ts] set_terminals [of current now]
      by (metis (mono_tags, lifting) Un_iff image_eqI mem_Collect_eq set_append snd_conv)
    moreover have "sorted (map ?key (take n ?ts) @ map ?key (drop n ?ts))"
      using sorted by (simp flip: map_append)
    ultimately show ?thesis using x(2) unfolding sorted_append by fastforce
  qed
  moreover have "0 < n" using x(2) by (cases n) auto
  ultimately show ?thesis using x n(3) by blast
qed

definition full_outbox :: outbox where
  "full_outbox = map (\<lambda>i. ([i], example_entry\<lparr>operationId := [i], oid := [i], created := int i, confirmations := []\<rparr>)) [0..<256]"

theorem admit_drops_oldest_witness:
  "\<exists>next k x. admitOutbox full_outbox example_entry 5 = Inr next \<and>
     (k, x) \<in> set full_outbox \<and> oget next k = None \<and> \<not> isPending x 5"
proof -
  have wf: "outbox_wf full_outbox"
    by (auto simp: outbox_wf_def owf_def full_outbox_def example_entry_def distinct_map inj_on_def)
  have none: "pending_entries full_outbox 5 = []"
    by (auto simp: pending_entries_def full_outbox_def ovals_def isPending_def filter_empty_conv)
  then obtain nx where run: "admitOutbox full_outbox example_entry 5 = Inr nx"
    using admit_iff [OF wf, of example_entry 5] by (auto simp: example_entry_def outbox_limits)
  then obtain mid where mid: "nx = oset (operationId example_entry) example_entry mid" "outbox_wf mid"
    "mid = drop_terminals (terminal_entries full_outbox 5) full_outbox"
    "int (length mid) < OUTBOX_total" using wf by (rule admitE)
  obtain Q where Q: "mid = filter Q full_outbox"
    unfolding mid(3) by (rule drop_terminals_kept [OF wf, of 5]) blast
  have "length mid \<noteq> length full_outbox" using mid(4) by (simp add: full_outbox_def outbox_limits)
  then obtain k x where k: "(k, x) \<in> set full_outbox" "(k, x) \<notin> set mid"
    unfolding Q using filter_id_conv [of Q full_outbox] by (auto simp: prod_eq_iff)
  have "oget mid k = None"
  proof (cases "oget mid k")
    case (Some y)
    then have "(k, y) \<in> set mid" by (rule oget_SomeD)
    moreover from this have "y = x"
      using oget_in_set [OF outbox_wfD(1) [OF wf] k(1)] oget_in_set [OF outbox_wfD(1) [OF wf], of k y]
      by (auto simp: Q)
    ultimately show ?thesis using k(2) by simp
  qed
  moreover have "k \<noteq> operationId example_entry"
    using k(1) by (auto simp: full_outbox_def example_entry_def lit_def)
  ultimately have gone: "oget nx k = None" by (simp add: mid(1) oget_oset)
  show ?thesis using admit_drops_oldest [OF wf run k(1) gone] run k(1) gone by blast
qed

section \<open>Status\<close>

text \<open>
  An entry is shown as pending exactly when it counts against the reserve, unless one of
  its recipients is blocked (with no blocked recipient the two agree).
\<close>

theorem status_pending_iff:
  "status (outboxItem entry now [] available authority) = SPending \<longleftrightarrow> isPending entry now"
proof -
  let ?rs = "sort_key fst (confirmations entry)"
  have ex: "(\<exists>r \<in> set xs. unconfirmed (snd r)) \<longleftrightarrow>
      length (filter (\<lambda>r. receivedAt (snd r) \<noteq> None \<or> readAt (snd r) \<noteq> None) xs) \<noteq> length xs"
    for xs :: "(ustr \<times> confirmation) list"
    by (induction xs) (auto simp: unconfirmed_def length_filter_le le_imp_less_Suc less_imp_neq)
  have le: "length (filter (\<lambda>r. readAt (snd r) \<noteq> None) xs) \<le>
      length (filter (\<lambda>r. receivedAt (snd r) \<noteq> None \<or> readAt (snd r) \<noteq> None) xs)"
    for xs :: "(ustr \<times> confirmation) list" by (induction xs) auto
  have le': "length (filter (\<lambda>r. receivedAt (snd r) \<noteq> None \<or> readAt (snd r) \<noteq> None) ?rs) \<le> length ?rs"
    by (rule length_filter_le)
  have none: "list_ex (\<lambda>r. False) xs \<longleftrightarrow> False" for xs :: "(ustr \<times> confirmation) list"
    by (simp add: list_ex_iff)
  define n r where "n = length (filter (\<lambda>r. receivedAt (snd r) \<noteq> None \<or> readAt (snd r) \<noteq> None) ?rs)"
    and "r = length (filter (\<lambda>r. readAt (snd r) \<noteq> None) ?rs)"
  have "list_ex unconfirmed (ovals (confirmations entry)) \<longleftrightarrow> (\<exists>r \<in> set ?rs. unconfirmed (snd r))"
    by (auto simp: ovals_def list_ex_iff)
  then have "list_ex unconfirmed (ovals (confirmations entry)) \<longleftrightarrow> n \<noteq> length ?rs"
    unfolding ex [of ?rs] n_def .
  moreover have "r \<le> n" "n \<le> length ?rs" using le [of ?rs] le' by (simp_all add: n_def r_def)
  ultimately show ?thesis
    unfolding outboxItem_def isPending_def Let_def n_def [symmetric] r_def [symmetric]
    by (auto simp: none outbox_fields.defs outbox_item.defs)
qed

text \<open>
  The counts of an item never exceed its recipients, a read confirmation counts as
  received, and an item is shown as read or received only when every recipient confirmed.
\<close>

theorem status_counts:
  "let it = outboxItem entry now blocked available authority in
     readCount it \<le> receivedCount it \<and> receivedCount it \<le> recipientCount it \<and>
     (status it = SRead \<longleftrightarrow> readCount it = recipientCount it) \<and>
     (status it = SRead \<or> status it = SReceived \<longleftrightarrow> receivedCount it = recipientCount it) \<and>
     \<not> (accepted it \<and> contentExpired it)"
proof -
  have le: "length (filter (\<lambda>r. readAt (snd r) \<noteq> None) xs) \<le>
      length (filter (\<lambda>r. receivedAt (snd r) \<noteq> None \<or> readAt (snd r) \<noteq> None) xs)"
    for xs :: "(ustr \<times> confirmation) list" by (induction xs) auto
  show ?thesis
    using le [of "sort_key fst (confirmations entry)"]
      length_filter_le [of "\<lambda>r. receivedAt (snd r) \<noteq> None \<or> readAt (snd r) \<noteq> None" "sort_key fst (confirmations entry)"]
    by (auto simp: outboxItem_def Let_def outbox_fields.defs outbox_item.defs)
qed

section \<open>Preview\<close>

text \<open>
  A preview is a prefix of the text of at most 160 code units and never ends between the
  two halves of a surrogate pair.
\<close>

theorem preview_bounded:
  "length (outboxPreview v) \<le> 160 \<and> take (length (outboxPreview v)) v = outboxPreview v \<and>
   (let n = length (outboxPreview v) in
      \<not> (0 < n \<and> n < length v \<and> high_surrogate (v ! (n - 1)) \<and> low_surrogate (v ! n)))"
proof -
  have apart: "\<not> (high_surrogate c \<and> low_surrogate c)" for c
    by (simp add: high_surrogate_def low_surrogate_def)
  show ?thesis
    using apart by (auto simp: outboxPreview_def Let_def min_def)
qed

section \<open>Confirmations\<close>

text \<open>
  What processing at time \<open>now\<close> may do to a confirmation, an entry and the outbox: an
  unset time may become \<open>now\<close>, and nothing else changes.
\<close>

definition confirmation_wf :: "outbox \<Rightarrow> bool" where
  "confirmation_wf ob \<longleftrightarrow> owf ob \<and> (\<forall>(k, e) \<in> set ob. owf (confirmations e))"

definition confirm_evolves :: "int \<Rightarrow> confirmation \<Rightarrow> confirmation \<Rightarrow> bool" where
  "confirm_evolves now c d \<longleftrightarrow>
     (receivedAt d = receivedAt c \<or> receivedAt c = None \<and> receivedAt d = Some now) \<and>
     (readAt d = readAt c \<or> readAt c = None \<and> readAt d = Some now \<and> receivedAt d \<noteq> None)"

definition entry_evolves :: "int \<Rightarrow> outbox_entry \<Rightarrow> outbox_entry \<Rightarrow> bool" where
  "entry_evolves now e f \<longleftrightarrow> f = e\<lparr>confirmations := confirmations f\<rparr> \<and>
     list_all2 (\<lambda>p q. fst p = fst q \<and> confirm_evolves now (snd p) (snd q)) (confirmations e) (confirmations f)"

definition evolves :: "int \<Rightarrow> outbox \<Rightarrow> outbox \<Rightarrow> bool" where
  "evolves now = list_all2 (\<lambda>p q. fst p = fst q \<and> entry_evolves now (snd p) (snd q))"

lemma confirm_evolves_refl [simp]: "confirm_evolves now c c"
  by (simp add: confirm_evolves_def)

lemma confirm_evolves_trans:
  "confirm_evolves now c d \<Longrightarrow> confirm_evolves now d e \<Longrightarrow> confirm_evolves now c e"
  unfolding confirm_evolves_def
  by (cases "receivedAt d"; cases "readAt d"; cases "receivedAt c"; cases "readAt c") (simp_all, blast+)

lemma confirm_evolves_antisym:
  "confirm_evolves now c d \<Longrightarrow> confirm_evolves now d c \<Longrightarrow> c = d"
  by (cases c; cases d) (auto simp: confirm_evolves_def)

lemma entry_evolves_refl [simp]: "entry_evolves now e e"
  by (simp add: entry_evolves_def list.rel_refl)

lemma entry_evolves_trans:
  assumes "entry_evolves now e f" "entry_evolves now f g" shows "entry_evolves now e g"
proof -
  have "list_all2 (\<lambda>p q. fst p = fst q \<and> confirm_evolves now (snd p) (snd q)) (confirmations e) (confirmations g)"
    by (rule list_all2_trans [of "\<lambda>p q. fst p = fst q \<and> confirm_evolves now (snd p) (snd q)"
        "\<lambda>p q. fst p = fst q \<and> confirm_evolves now (snd p) (snd q)" _ _ "confirmations f"])
      (use assms in \<open>auto simp: entry_evolves_def elim: confirm_evolves_trans\<close>)
  moreover have "g = e\<lparr>confirmations := confirmations g\<rparr>"
  proof -
    have "g = f\<lparr>confirmations := confirmations g\<rparr>" using assms by (simp add: entry_evolves_def)
    also have "f = e\<lparr>confirmations := confirmations f\<rparr>" using assms by (simp add: entry_evolves_def)
    finally show ?thesis by simp
  qed
  ultimately show ?thesis by (simp add: entry_evolves_def)
qed

lemma entry_evolves_antisym:
  assumes "entry_evolves now e f" "entry_evolves now f e" shows "e = f"
proof -
  have "confirmations e = confirmations f"
    by (rule list_all2_antisym [of "\<lambda>p q. fst p = fst q \<and> confirm_evolves now (snd p) (snd q)"
        "\<lambda>p q. fst p = fst q \<and> confirm_evolves now (snd p) (snd q)"])
      (use assms in \<open>auto simp: entry_evolves_def prod_eq_iff elim: confirm_evolves_antisym\<close>)
  then show ?thesis using assms by (simp add: entry_evolves_def)
qed

lemma evolves_refl [simp]: "evolves now ob ob"
  by (simp add: evolves_def list.rel_refl)

lemma evolves_trans: "evolves now a b \<Longrightarrow> evolves now b c \<Longrightarrow> evolves now a c"
  unfolding evolves_def by (erule (1) list_all2_trans [rotated]) (auto elim: entry_evolves_trans)

lemma evolves_antisym: "evolves now a b \<Longrightarrow> evolves now b a \<Longrightarrow> a = b"
  unfolding evolves_def
  by (erule (1) list_all2_antisym [rotated]) (auto simp: prod_eq_iff elim: entry_evolves_antisym)

lemma find_all2:
  assumes "list_all2 R xs ys" "\<And>x y. R x y \<Longrightarrow> P x \<longleftrightarrow> P y"
  shows "rel_option R (find P xs) (find P ys)"
  using assms by (induction xs ys rule: list_all2_induct) auto

lemma oget_all2:
  "list_all2 (\<lambda>p q. fst p = fst q \<and> R (snd p) (snd q)) m n \<Longrightarrow> rel_option R (oget m k) (oget n k)"
  by (induction m n rule: list_all2_induct) auto

lemma entry_evolves_oid: "entry_evolves now e f \<Longrightarrow> oid f = oid e \<and> author f = author e"
proof -
  assume "entry_evolves now e f"
  then have "f = e\<lparr>confirmations := confirmations f\<rparr>" by (simp add: entry_evolves_def)
  then have "oid f = oid (e\<lparr>confirmations := confirmations f\<rparr>)"
    "author f = author (e\<lparr>confirmations := confirmations f\<rparr>)" by simp_all
  then show ?thesis by simp
qed

lemma entry_by_id_evolves:
  "evolves now a b \<Longrightarrow>
   rel_option (\<lambda>p q. fst p = fst q \<and> entry_evolves now (snd p) (snd q)) (entry_by_id a i) (entry_by_id b i)"
  unfolding entry_by_id_def evolves_def
  by (rule find_all2) (auto dest: entry_evolves_oid)

lemma entry_by_idD: "entry_by_id ob i = Some (k, e) \<Longrightarrow> (k, e) \<in> set ob \<and> oid e = i"
proof -
  assume "entry_by_id ob i = Some (k, e)"
  then obtain n where "n < length (rev ob)" "oid (snd (rev ob ! n)) = i" "(k, e) = rev ob ! n"
    unfolding entry_by_id_def find_Some_iff by blast
  moreover from this have "(k, e) \<in> set (rev ob)" by (metis nth_mem)
  ultimately show ?thesis by (metis set_rev snd_conv)
qed

lemma confirmation_wf_evolves:
  assumes "confirmation_wf a" "evolves now a b" shows "confirmation_wf b"
proof -
  have keys: "map fst xs = map fst ys"
    if "list_all2 (\<lambda>p q. fst p = fst q \<and> R (snd p) (snd q)) xs ys" for R xs ys
    using that by (induction xs ys rule: list_all2_induct) auto
  have "map fst a = map fst b" using assms(2) unfolding evolves_def by (rule keys)
  then have "owf b" using assms(1) by (simp add: confirmation_wf_def owf_def)
  moreover have "owf (confirmations f)" if "(k, f) \<in> set b" for k f
  proof -
    from assms(2) that have "\<exists>e. (k, e) \<in> set a \<and> entry_evolves now e f"
      unfolding evolves_def by (induction a b rule: list_all2_induct) auto
    then obtain e where e: "(k, e) \<in> set a" "entry_evolves now e f" by blast
    then have "owf (confirmations e)" using assms(1) by (auto simp: confirmation_wf_def)
    moreover have "map fst (confirmations e) = map fst (confirmations f)"
      using e(2) keys unfolding entry_evolves_def by blast
    ultimately show ?thesis by (simp add: owf_def)
  qed
  ultimately show ?thesis by (auto simp: confirmation_wf_def)
qed

text \<open>An event with nothing left to record.\<close>

definition settled :: "confirm_event \<Rightarrow> outbox \<Rightarrow> bool" where
  "settled ev ob \<longleftrightarrow> ekind ev = OtherKind \<or>
     (\<forall>k e c. entry_by_id ob (case etarget ev of Some t \<Rightarrow> t | None \<Rightarrow> []) = Some (k, e) \<longrightarrow>
        oget (confirmations e) (eauthor ev) = Some c \<longrightarrow> author e \<noteq> eauthor ev \<longrightarrow>
        receivedAt c \<noteq> None \<and> (ekind ev = Receipt \<longrightarrow> readAt c \<noteq> None))"

lemma confirm_one_evolves: "confirm_evolves now c (fst (confirm_one ev now c))"
  by (auto simp: confirm_one_def confirm_evolves_def)

lemma confirm_one_changed: "snd (confirm_one ev now c) \<longleftrightarrow> fst (confirm_one ev now c) \<noteq> c"
  by (cases c) (auto simp: confirm_one_def)

lemma confirm_one_settles:
  "receivedAt (fst (confirm_one ev now c)) \<noteq> None \<and>
   (ekind ev = Receipt \<longrightarrow> readAt (fst (confirm_one ev now c)) \<noteq> None)"
  by (auto simp: confirm_one_def)

lemma apply_confirmation_evolves:
  assumes "confirmation_wf ob"
  shows "evolves now ob (fst (apply_confirmation ev now ob))"
    and "snd (apply_confirmation ev now ob) \<longleftrightarrow> fst (apply_confirmation ev now ob) \<noteq> ob"
    and "settled ev (fst (apply_confirmation ev now ob))"
proof -
  let ?res = "apply_confirmation ev now ob" and ?id = "case etarget ev of Some t \<Rightarrow> t | None \<Rightarrow> []"
  have "evolves now ob (fst ?res) \<and> (snd ?res \<longleftrightarrow> fst ?res \<noteq> ob) \<and> settled ev (fst ?res)"
  proof (cases "\<exists>k e c. ekind ev \<noteq> OtherKind \<and> entry_by_id ob ?id = Some (k, e) \<and>
      oget (confirmations e) (eauthor ev) = Some c \<and> author e \<noteq> eauthor ev")
    case False
    then have "?res = (ob, False)"
      by (auto simp: apply_confirmation_def split: option.splits prod.splits)
    moreover have "settled ev ob" using False by (auto simp: settled_def)
    ultimately show ?thesis by simp
  next
    case True
    then obtain k e c where kind: "ekind ev \<noteq> OtherKind" and e: "entry_by_id ob ?id = Some (k, e)"
      and c: "oget (confirmations e) (eauthor ev) = Some c" and a: "author e \<noteq> eauthor ev"
      by blast
    define d where "d = fst (confirm_one ev now c)"
    define f where "f = e\<lparr>confirmations := oset (eauthor ev) d (confirmations e)\<rparr>"
    have res: "?res = (oset k f ob, snd (confirm_one ev now c))"
      using kind e c a by (simp add: apply_confirmation_def f_def d_def case_prod_beta)
    have mem: "(k, e) \<in> set ob" using entry_by_idD [OF e] by simp
    then have wf: "owf ob" "owf (confirmations e)" and get: "oget ob k = Some e"
      using assms oget_in_set by (auto simp: confirmation_wf_def)
    have "list_all2 (\<lambda>p q. fst p = fst q \<and> confirm_evolves now (snd p) (snd q))
        (confirmations e) (confirmations f)"
      unfolding f_def using wf(2) c confirm_one_evolves [of now c ev] by (auto simp: d_def intro: oset_all2)
    then have ef: "entry_evolves now e f" by (simp add: entry_evolves_def f_def)
    then have ev: "evolves now ob (oset k f ob)"
      unfolding evolves_def using wf(1) get by (auto intro: oset_all2)
    have "f = e \<longleftrightarrow> d = c"
    proof
      assume "f = e"
      then have "oget (confirmations f) (eauthor ev) = Some c" using c by simp
      then show "d = c" by (simp add: f_def oget_oset)
    qed (simp add: f_def oset_same [OF c])
    moreover have "oset k f ob = ob \<longleftrightarrow> f = e"
      using oset_same [OF get] oget_oset [of k f ob k] get by auto
    moreover have "entry_by_id (oset k f ob) ?id = Some (k, f)"
    proof -
      from entry_by_id_evolves [OF ev, of ?id] e obtain f' where
        f': "entry_by_id (oset k f ob) ?id = Some (k, f')"
        by (auto elim: option.rel_cases)
      then have "(k, f') \<in> set (oset k f ob)" using entry_by_idD by blast
      then have "f' = f" using wf(1) by (auto simp: set_oset)
      with f' show ?thesis by simp
    qed
    ultimately show ?thesis
      using ev confirm_one_changed [of ev now c] confirm_one_settles [of ev now c]
      by (auto simp: res settled_def f_def oget_oset d_def)
  qed
  then show "evolves now ob (fst ?res)" "snd ?res \<longleftrightarrow> fst ?res \<noteq> ob" "settled ev (fst ?res)" by auto
qed

lemma settled_evolves:
  assumes "settled ev a" "evolves now a b" shows "settled ev b"
  unfolding settled_def
proof (rule disjCI)
  let ?id = "case etarget ev of Some t \<Rightarrow> t | None \<Rightarrow> []"
  assume kind: "\<not> (\<forall>k e c. entry_by_id b ?id = Some (k, e) \<longrightarrow> oget (confirmations e) (eauthor ev) = Some c \<longrightarrow>
      author e \<noteq> eauthor ev \<longrightarrow> receivedAt c \<noteq> None \<and> (ekind ev = Receipt \<longrightarrow> readAt c \<noteq> None))"
  show "ekind ev = OtherKind"
  proof (rule ccontr)
    assume other: "ekind ev \<noteq> OtherKind"
    from kind obtain k f d where f: "entry_by_id b ?id = Some (k, f)"
      "oget (confirmations f) (eauthor ev) = Some d" "author f \<noteq> eauthor ev"
      "\<not> (receivedAt d \<noteq> None \<and> (ekind ev = Receipt \<longrightarrow> readAt d \<noteq> None))" by blast
    from entry_by_id_evolves [OF assms(2), of ?id] f(1) obtain e where
      e: "entry_by_id a ?id = Some (k, e)" "entry_evolves now e f" by (auto elim: option.rel_cases)
    from oget_all2 [of "confirm_evolves now" "confirmations e" "confirmations f" "eauthor ev"] e(2) f(2)
    obtain c where "oget (confirmations e) (eauthor ev) = Some c" "confirm_evolves now c d"
      by (auto simp: entry_evolves_def elim: option.rel_cases)
    with assms(1) e f(3,4) other entry_evolves_oid [OF e(2)] show False
      by (fastforce simp: settled_def confirm_evolves_def)
  qed
qed

lemma apply_settled:
  assumes "confirmation_wf ob" "settled ev ob"
  shows "apply_confirmation ev now ob = (ob, False)"
proof (cases "\<exists>k e c. ekind ev \<noteq> OtherKind \<and>
      entry_by_id ob (case etarget ev of Some t \<Rightarrow> t | None \<Rightarrow> []) = Some (k, e) \<and>
      oget (confirmations e) (eauthor ev) = Some c \<and> author e \<noteq> eauthor ev")
  case False
  then show ?thesis by (auto simp: apply_confirmation_def split: option.splits prod.splits)
next
  case True
  then obtain k e c where e: "ekind ev \<noteq> OtherKind"
      "entry_by_id ob (case etarget ev of Some t \<Rightarrow> t | None \<Rightarrow> []) = Some (k, e)"
      "oget (confirmations e) (eauthor ev) = Some c" "author e \<noteq> eauthor ev"
    by blast
  have get: "oget ob k = Some e"
    using entry_by_idD [OF e(2)] assms(1) oget_in_set by (auto simp: confirmation_wf_def)
  have c: "receivedAt c \<noteq> None \<and> (ekind ev = Receipt \<longrightarrow> readAt c \<noteq> None)"
    using assms(2) e unfolding settled_def by blast
  then have "confirm_one ev now c = (c, False)" by (auto simp: confirm_one_def)
  with e get show ?thesis by (simp add: apply_confirmation_def oset_same)
qed

lemma applyConfirmations_facts:
  assumes "confirmation_wf ob"
  shows "evolves now ob (fst (applyConfirmations ob evs now)) \<and>
    (snd (applyConfirmations ob evs now) \<longleftrightarrow> fst (applyConfirmations ob evs now) \<noteq> ob) \<and>
    (\<forall>ev \<in> set evs. settled ev (fst (applyConfirmations ob evs now)))"
  using assms
proof (induction evs arbitrary: ob)
  case (Cons ev evs)
  note one = apply_confirmation_evolves [OF Cons.prems, where ev = ev and now = now]
  let ?ob1 = "fst (apply_confirmation ev now ob)"
  let ?ob2 = "fst (applyConfirmations ?ob1 evs now)"
  have wf: "confirmation_wf ?ob1" using confirmation_wf_evolves [OF Cons.prems one(1)] .
  note rest = Cons.IH [OF wf]
  have eq: "applyConfirmations ob (ev # evs) now =
      (?ob2, snd (apply_confirmation ev now ob) \<or> snd (applyConfirmations ?ob1 evs now))"
    by (simp add: case_prod_beta)
  have "?ob2 = ob \<Longrightarrow> ?ob1 = ob" using rest one(1) evolves_antisym by metis
  then have "snd (apply_confirmation ev now ob) \<or> snd (applyConfirmations ?ob1 evs now) \<longleftrightarrow> ?ob2 \<noteq> ob"
    using one(2) rest by metis
  moreover have "evolves now ob ?ob2" using one(1) rest evolves_trans by blast
  moreover have "settled ev ?ob2" using one(3) rest settled_evolves by blast
  ultimately show ?case using rest unfolding eq by simp
qed simp

text \<open>
  processing confirmation events changes nothing but the times of confirmations the
  recipient already has in the entry; a time already set is kept, a new one is the current
  time, and a reading is never recorded without a reception. The returned flag says exactly
  whether the outbox changed.
\<close>

theorem confirmations_monotone:
  assumes "confirmation_wf ob" "applyConfirmations ob evs now = (ob', changed)"
  shows "evolves now ob ob' \<and> confirmation_wf ob' \<and> (changed \<longleftrightarrow> ob' \<noteq> ob)"
  using applyConfirmations_facts [OF assms(1), of now evs] assms confirmation_wf_evolves by auto

text \<open>
  Confirmations are idempotent: delivering the same events again, in any order and at any
  later time, changes nothing and reports no change.
\<close>

theorem confirmations_idempotent:
  assumes "confirmation_wf ob" "applyConfirmations ob evs now = (ob', changed)" "set again \<subseteq> set evs"
  shows "applyConfirmations ob' again later = (ob', False)"
proof -
  note facts = applyConfirmations_facts [OF assms(1), of now evs]
  from facts assms have wf: "confirmation_wf ob'" and "\<forall>ev \<in> set again. settled ev ob'"
    using confirmation_wf_evolves by auto
  from this(2) show ?thesis by (induction again) (simp_all add: apply_settled [OF wf])
qed

definition example_outbox :: outbox where
  "example_outbox = [(operationId example_entry, example_entry)]"

definition example_receipt :: confirm_event where
  "example_receipt = \<lparr>ekind = Receipt, eauthor = fst (hd (confirmations example_entry)),
     etarget = Some (oid example_entry)\<rparr>"

lemma example_receipt_run:
  "confirmation_wf example_outbox \<and>
   applyConfirmations example_outbox [example_receipt] 5 =
     ([(operationId example_entry, example_entry\<lparr>confirmations :=
        [(lit ''you'', \<lparr> receivedAt = Some 5, readAt = Some 5 \<rparr>)]\<rparr>)], True)"
  by (simp add: confirmation_wf_def example_outbox_def example_receipt_def example_entry_def owf_def
      apply_confirmation_def entry_by_id_def confirm_one_def)

theorem confirmations_monotone_witness:
  "\<exists>ob'. applyConfirmations example_outbox [example_receipt] 5 = (ob', True) \<and>
     evolves 5 example_outbox ob' \<and> ob' \<noteq> example_outbox"
  using confirmations_monotone [of example_outbox "[example_receipt]" 5] example_receipt_run by auto

theorem confirmations_idempotent_witness:
  "\<exists>ob'. applyConfirmations example_outbox [example_receipt] 5 = (ob', True) \<and>
     applyConfirmations ob' [example_receipt] 9 = (ob', False)"
  using confirmations_idempotent [of example_outbox "[example_receipt]" 5 _ _ "[example_receipt]" 9]
    example_receipt_run by auto

section \<open>The stored outbox\<close>

text \<open>What every record of a checked outbox satisfies.\<close>

definition confirmation_ok :: "ustr \<Rightarrow> ustr \<times> confirmation \<Rightarrow> bool" where
  "confirmation_ok owner r \<longleftrightarrow> hex64 (fst r) \<and> fst r \<noteq> owner \<and>
     (\<forall>t. receivedAt (snd r) = Some t \<longrightarrow> 0 \<le> t \<and> safe_integer t) \<and>
     (\<forall>t. readAt (snd r) = Some t \<longrightarrow> 0 \<le> t \<and> safe_integer t \<and> receivedAt (snd r) \<noteq> None)"

definition entry_ok :: "ustr \<Rightarrow> outbox_entry \<Rightarrow> bool" where
  "entry_ok owner e \<longleftrightarrow>
     author e = owner \<and> hex64 (oid e) \<and> hex64 (fingerprint e) \<and>
     0 < length (conversation e) \<and> length (conversation e) \<le> 256 \<and>
     length (preview e) \<le> 160 \<and> length (lastError e) \<le> 200 \<and>
     1 \<le> bytes e \<and> bytes e \<le> 6 * 1024 * 1024 \<and> 0 \<le> created e \<and> created e < expires e \<and>
     0 \<le> attempts e \<and> attempts e \<le> 1000000 \<and> 0 \<le> lastAttemptAt e \<and> 0 \<le> nextAttemptAt e \<and>
     (groupEpoch e = None \<longleftrightarrow> groupStopped e = None) \<and>
     (\<forall>g. groupEpoch e = Some g \<longrightarrow> hex64 g \<and> hex64 (conversation e)) \<and>
     1 \<le> length (confirmations e) \<and> length (confirmations e) \<le> 63 \<and>
     list_all (confirmation_ok owner) (confirmations e)"

lemma valid_confirmation_ok:
  assumes "valid_confirmation owner (k, c)"
  shows "confirmation_ok owner (k, confirmation_of c)"
proof -
  have time: "is_safe_int (jget c f) \<and> 0 \<le> int_of (jget c f)" if "jget c f \<noteq> JUndefined" for f
  proof -
    from that have "jget c f \<in> set (ovals (fields_of c))"
      by (force simp: jget_def fields_of_def ovals_def split: jval.splits option.splits dest!: oget_SomeD)
    with assms show ?thesis by (auto simp: valid_confirmation_def list_all_iff)
  qed
  show ?thesis
    using assms time [of "lit ''receivedAt''"] time [of "lit ''readAt''"]
    by (auto simp: confirmation_ok_def valid_confirmation_def confirmation_of_def opt_int_def
        is_safe_int_def int_of_def split: jval.splits)
qed

text \<open>Of the optional group fields either both or none are read.\<close>

lemma valid_entry_group:
  assumes "valid_entry owner ids opid e"
  shows "groupEpoch (entry_of e) = None \<longleftrightarrow> groupStopped (entry_of e) = None"
    and "groupEpoch (entry_of e) = Some g \<Longrightarrow> hex64 g \<and> hex64 (conversation (entry_of e))"
proof -
  let ?g = "jget e (lit ''groupEpoch'')" and ?s = "jget e (lit ''groupStopped'')"
    and ?c = "jget e (lit ''conversation'')"
  have obj: "is_obj e" using assms unfolding valid_entry_def exactShape_def is_obj_def Let_def
    by (cases e) auto
  have str: "is_str ?c" using assms unfolding valid_entry_def Let_def by blast
  have cases: "?g = JUndefined \<and> ?s = JUndefined \<or>
      is_str ?g \<and> hex64 (str_of ?g) \<and> is_bool ?s \<and> hex64 (js_string ?c)"
  proof (cases "jhas e (lit ''groupEpoch'') \<or> jhas e (lit ''groupStopped'')")
    case True
    with obj assms show ?thesis unfolding valid_entry_def Let_def by blast
  next
    case False
    with obj have "?g = JUndefined \<and> ?s = JUndefined"
      by (cases e) (auto simp: jhas_def jget_def ohas_iff is_obj_def split: option.splits)
    then show ?thesis by simp
  qed
  have "groupEpoch (entry_of e) = (case ?g of JStr s \<Rightarrow> Some s | _ \<Rightarrow> None)"
    "groupStopped (entry_of e) = (case ?s of JBool b \<Rightarrow> Some b | _ \<Rightarrow> None)"
    "conversation (entry_of e) = str_of ?c"
    by (simp_all add: entry_of_def Let_def)
  with cases str show "groupEpoch (entry_of e) = None \<longleftrightarrow> groupStopped (entry_of e) = None"
    and "groupEpoch (entry_of e) = Some g \<Longrightarrow> hex64 g \<and> hex64 (conversation (entry_of e))"
    by (auto simp: is_str_def is_bool_def str_of_def split: jval.splits)
qed

lemma valid_entry_fields:
  assumes "valid_entry owner ids opid e"
  shows "operationId (entry_of e) = opid" "author (entry_of e) = owner"
    "hex64 (oid (entry_of e))" "hex64 (fingerprint (entry_of e))"
    "0 < length (conversation (entry_of e))" "length (conversation (entry_of e)) \<le> 256"
    "length (preview (entry_of e)) \<le> 160" "length (lastError (entry_of e)) \<le> 200"
    "1 \<le> bytes (entry_of e)" "bytes (entry_of e) \<le> 6 * 1024 * 1024"
    "created (entry_of e) < expires (entry_of e)" "attempts (entry_of e) \<le> 1000000"
    "0 \<le> created (entry_of e)" "0 \<le> attempts (entry_of e)"
    "0 \<le> lastAttemptAt (entry_of e)" "0 \<le> nextAttemptAt (entry_of e)"
  using assms unfolding valid_entry_def Let_def
  by (simp_all add: entry_of_def Let_def numeric_keys_def str_of_def)

lemma valid_entry_ok:
  assumes "valid_entry owner ids opid e"
    and "fields_of (jget e (lit ''confirmations'')) \<noteq> []"
    and "length (fields_of (jget e (lit ''confirmations''))) \<le> 63"
    and "list_all (valid_confirmation owner) (fields_of (jget e (lit ''confirmations'')))"
  shows "entry_ok owner (entry_of e)"
proof -
  have conf: "confirmations (entry_of e) =
      map (\<lambda>r. (fst r, confirmation_of (snd r))) (fields_of (jget e (lit ''confirmations'')))"
    by (simp add: entry_of_def Let_def)
  have "list_all (confirmation_ok owner) (confirmations (entry_of e))"
    using assms(4) valid_confirmation_ok [of owner] by (fastforce simp: conf list_all_iff)
  then show ?thesis
    using valid_entry_fields [OF assms(1)] valid_entry_group [OF assms(1)] assms(2,3)
    by (auto simp: entry_ok_def conf Suc_le_eq)
qed

definition stored_ok :: "ustr \<Rightarrow> outbox \<Rightarrow> bool" where
  "stored_ok owner ob \<longleftrightarrow> outbox_wf ob \<and>
     list_all (\<lambda>(k, e). is_operation k \<and> entry_ok owner e) ob"

lemma validate_entries_ok:
  assumes "validate_entries owner es ids acc = Inr result" "stored_ok owner acc"
    and "length acc + length es \<le> n"
  shows "stored_ok owner result \<and> length result \<le> n"
  using assms
proof (induction owner es ids acc rule: validate_entries.induct)
  case (2 owner opid e rest ids acc)
  let ?readers = "fields_of (jget e (lit ''confirmations''))"
  from 2(2) have op: "requireOperationId (JStr opid) = Inr opid" "is_operation opid"
    and entry: "valid_entry owner ids opid e"
    and readers: "?readers \<noteq> []" "length ?readers \<le> 63" "list_all (valid_confirmation owner) ?readers"
    and rest: "validate_entries owner rest (if is_str (jget e (lit ''id'')) then str_of (jget e (lit ''id'')) # ids else ids)
      (oset opid (entry_of e) acc) = Inr result"
    by (auto simp: requireOperationId_def Let_def bindR_Inr_iff not_less split: if_splits)
  have ok: "entry_ok owner (entry_of e)" using entry readers by (rule valid_entry_ok)
  have wf: "owf acc" using 2(3) by (simp add: stored_ok_def outbox_wf_def)
  have "stored_ok owner (oset opid (entry_of e) acc)"
    using 2(3) ok op(2) valid_entry_fields(1,9) [OF entry]
    by (auto simp: stored_ok_def outbox_wf_def set_oset [OF wf] list_all_iff)
  moreover have "length (oset opid (entry_of e) acc) + length rest \<le> n"
    using 2(4) by (simp add: length_oset)
  moreover note 2(1) [OF _ refl]
  ultimately show ?case using entry readers rest by (simp add: not_less)
qed simp

text \<open>
  a stored outbox that is accepted holds at most 256 records, each under its own
  well-formed operation identifier and within every limit of its fields and recipients, and
  what is pending in it stays inside the reserve of 128 sends and 32 MiB.
\<close>

theorem validateOutbox_sound:
  assumes "validateOutbox v owner now = Inr ob"
  shows "stored_ok owner ob \<and> int (length ob) \<le> OUTBOX_total \<and>
    int (length (pending_entries ob now)) \<le> OUTBOX_pending \<and>
    sum_list (map bytes (pending_entries ob now)) \<le> OUTBOX_bytes"
proof (cases "v = JUndefined")
  case True
  with assms show ?thesis
    by (auto simp: validateOutbox_def stored_ok_def outbox_wf_def pending_entries_def ovals_def outbox_limits)
next
  case False
  with assms have "int (length (fields_of v)) \<le> OUTBOX_total"
    "validate_entries owner (fields_of v) [] [] = Inr ob"
    "int (length (pending_entries ob now)) \<le> OUTBOX_pending"
    "sum_list (map bytes (pending_entries ob now)) \<le> OUTBOX_bytes"
    by (auto simp: validateOutbox_def bindR_Inr_iff Let_def not_less split: if_splits)
  then show ?thesis
    using validate_entries_ok [of owner "fields_of v" "[]" "[]" ob "length (fields_of v)"]
    by (simp add: stored_ok_def outbox_wf_def)
qed

text \<open>The JSON value an outbox is stored as.\<close>

definition confirmation_json :: "confirmation \<Rightarrow> jval" where
  "confirmation_json c = JObj
     ((case receivedAt c of Some t \<Rightarrow> [(lit ''receivedAt'', JInt t)] | None \<Rightarrow> []) @
      (case readAt c of Some t \<Rightarrow> [(lit ''readAt'', JInt t)] | None \<Rightarrow> []))"

definition phase_text :: "phase \<Rightarrow> ustr" where
  "phase_text p = (case p of Preparing \<Rightarrow> lit ''preparing'' | Ready \<Rightarrow> lit ''ready'' | Unavailable \<Rightarrow> lit ''unavailable'')"

definition entry_json :: "outbox_entry \<Rightarrow> jval" where
  "entry_json e = JObj
     ([(lit ''operationId'', JStr (operationId e)), (lit ''fingerprint'', JStr (fingerprint e)),
       (lit ''id'', JStr (oid e)), (lit ''author'', JStr (author e)),
       (lit ''conversation'', JStr (conversation e)), (lit ''preview'', JStr (preview e)),
       (lit ''created'', JInt (created e)), (lit ''expires'', JInt (expires e)),
       (lit ''priority'', JStr (priority_text (oprio e))), (lit ''bytes'', JInt (bytes e)),
       (lit ''phase'', JStr (phase_text (phase e))), (lit ''attempts'', JInt (attempts e)),
       (lit ''lastAttemptAt'', JInt (lastAttemptAt e)), (lit ''nextAttemptAt'', JInt (nextAttemptAt e)),
       (lit ''lastError'', JStr (lastError e)), (lit ''manualPin'', JBool (manualPin e)),
       (lit ''confirmations'', JObj (map (\<lambda>r. (fst r, confirmation_json (snd r))) (confirmations e)))] @
      (case groupEpoch e of Some g \<Rightarrow> [(lit ''groupEpoch'', JStr g)] | None \<Rightarrow> []) @
      (case groupStopped e of Some b \<Rightarrow> [(lit ''groupStopped'', JBool b)] | None \<Rightarrow> []))"

definition outbox_json :: "outbox \<Rightarrow> jval" where
  "outbox_json ob = JObj (map (\<lambda>p. (fst p, entry_json (snd p))) ob)"

lemma confirmation_of_json [simp]: "confirmation_of (confirmation_json c) = c"
  by (cases c) (auto simp: confirmation_of_def confirmation_json_def jget_def opt_int_def split: option.splits)

lemma entry_of_json [simp]: "entry_of (entry_json e) = e"
proof -
  have get: "parse_phase (JStr (phase_text p)) = Some p" for p
    by (cases p) (simp_all add: parse_phase_def phase_text_def)
  show ?thesis
    by (cases e; cases "groupEpoch e"; cases "groupStopped e")
      (simp_all add: entry_of_def entry_json_def Let_def jget_def get jval_readers comp_def)
qed

lemma valid_confirmation_json:
  "confirmation_ok owner r \<Longrightarrow> valid_confirmation owner (fst r, confirmation_json (snd r))"
  by (auto simp: confirmation_ok_def valid_confirmation_def confirmation_json_def jval_readers okeys_def
      ovals_def jget_def split: option.splits)

definition safe_entry :: "outbox_entry \<Rightarrow> bool" where
  "safe_entry e \<longleftrightarrow> list_all safe_integer [created e, expires e, lastAttemptAt e, nextAttemptAt e]"

lemma valid_entry_json:
  assumes "entry_ok owner e" "safe_entry e" "oid e \<notin> set ids"
  shows "valid_entry owner ids (operationId e) (entry_json e)"
proof -
  have small: "safe_integer (bytes e)" "safe_integer (attempts e)"
    using assms(1) by (auto simp: entry_ok_def safe_integer_def MAX_SAFE_def)
  have phase: "parse_phase (JStr (phase_text p)) \<noteq> None" for p
    by (cases p) (simp_all add: parse_phase_def phase_text_def)
  show ?thesis
  proof (cases "groupEpoch e")
    case None
    then have "groupStopped e = None" using assms(1) by (simp add: entry_ok_def)
    with None assms small phase show ?thesis
      by (simp add: valid_entry_def Let_def entry_json_def jget_def jhas_def ohas_def jval_readers
          entry_keys_def exactShape_def numeric_keys_def entry_ok_def safe_entry_def)
  next
    case (Some g)
    then obtain b where "groupStopped e = Some b" using assms(1) by (auto simp: entry_ok_def)
    with Some assms small phase show ?thesis
      by (simp add: valid_entry_def Let_def entry_json_def jget_def jhas_def ohas_def jval_readers
          entry_keys_def exactShape_def numeric_keys_def entry_ok_def safe_entry_def)
  qed
qed

lemma entry_json_readers:
  "is_str (jget (entry_json e) (lit ''id''))" "str_of (jget (entry_json e) (lit ''id'')) = oid e"
  "fields_of (jget (entry_json e) (lit ''confirmations'')) =
     map (\<lambda>r. (fst r, confirmation_json (snd r))) (confirmations e)"
  by (simp_all add: entry_json_def jget_def jval_readers)

lemma validate_entries_json:
  assumes "stored_ok owner ob" "list_all (\<lambda>p. safe_entry (snd p)) ob"
    and "distinct (map (\<lambda>p. oid (snd p)) ob)" "\<forall>p \<in> set ob. oid (snd p) \<notin> set ids"
    and "fst ` set acc \<inter> fst ` set ob = {}"
  shows "validate_entries owner (map (\<lambda>p. (fst p, entry_json (snd p))) ob) ids acc = Inr (acc @ ob)"
  using assms
proof (induction ob arbitrary: ids acc)
  case (Cons p ob)
  obtain k e where p: "p = (k, e)" by (cases p)
  from Cons.prems(1) have ok: "entry_ok owner e" "is_operation k" "operationId e = k"
    and rest: "stored_ok owner ob" and fresh: "k \<notin> fst ` set ob"
    by (auto simp: stored_ok_def p outbox_wf_def owf_def)
  have valid: "valid_entry owner ids k (entry_json e)"
    using valid_entry_json [OF ok(1), of ids] Cons.prems ok(3) by (simp add: p)
  have readers: "confirmations e \<noteq> []" "length (confirmations e) \<le> 63"
    "list_all (valid_confirmation owner) (fields_of (jget (entry_json e) (lit ''confirmations'')))"
    using ok(1) valid_confirmation_json [of owner]
    by (auto simp: entry_ok_def entry_json_readers list_all_iff)
  have "validate_entries owner (map (\<lambda>p. (fst p, entry_json (snd p))) ob) (oid e # ids) (acc @ [(k, e)]) =
      Inr ((acc @ [(k, e)]) @ ob)"
    using Cons.prems fresh by (intro Cons.IH rest) (auto simp: p image_iff)
  moreover have "oset k e acc = acc @ [(k, e)]" using Cons.prems(5) by (intro oset_absent) (auto simp: p)
  ultimately show ?case
    using valid readers ok(2)
    by (simp add: p requireOperationId_def Let_def entry_json_readers not_less)
qed simp

text \<open>
  an outbox within the limits, with distinct message identifiers, is accepted when it is
  read back from the JSON value it is stored as, and it is read back unchanged.
\<close>

theorem outbox_roundtrip:
  assumes "stored_ok owner ob" "list_all (\<lambda>p. safe_entry (snd p)) ob" "distinct (map (\<lambda>p. oid (snd p)) ob)"
    and "int (length ob) \<le> OUTBOX_total" "int (length (pending_entries ob now)) \<le> OUTBOX_pending"
    and "sum_list (map bytes (pending_entries ob now)) \<le> OUTBOX_bytes"
  shows "validateOutbox (outbox_json ob) owner now = Inr ob"
proof -
  have "validate_entries owner (map (\<lambda>p. (fst p, entry_json (snd p))) ob) [] [] = Inr ([] @ ob)"
    using assms(1-3) by (intro validate_entries_json) auto
  with assms(4-6) show ?thesis
    by (simp add: validateOutbox_def outbox_json_def is_obj_def fields_of_def not_less)
qed

definition sample_entry :: outbox_entry where
  "sample_entry = example_entry\<lparr>operationId := lit ''01234567-89ab-4cde-8f01-23456789abcd'',
     oid := replicate 64 97, fingerprint := replicate 64 98, author := replicate 64 99,
     confirmations := [(replicate 64 100, \<lparr> receivedAt = Some 3, readAt = None \<rparr>)]\<rparr>"

definition sample_outbox :: outbox where
  "sample_outbox = [(operationId sample_entry, sample_entry)]"

lemma sample_outbox_ok:
  "stored_ok (replicate 64 99) sample_outbox" "list_all (\<lambda>p. safe_entry (snd p)) sample_outbox"
  "distinct (map (\<lambda>p. oid (snd p)) sample_outbox)" "int (length sample_outbox) \<le> OUTBOX_total"
  "int (length (pending_entries sample_outbox 5)) \<le> OUTBOX_pending"
  "sum_list (map bytes (pending_entries sample_outbox 5)) \<le> OUTBOX_bytes"
proof -
  have "is_operation (operationId sample_entry)"
    by (simp add: sample_entry_def is_operation_def uuid_pattern_def lit_def is_hex_def eval_nat_numeral)
  moreover have "entry_ok (replicate 64 99) sample_entry"
    by (simp add: sample_entry_def example_entry_def entry_ok_def confirmation_ok_def hex64_def
        is_hex_def safe_integer_def MAX_SAFE_def list_all_iff replicate_eq_replicate)
  ultimately show "stored_ok (replicate 64 99) sample_outbox"
    by (simp add: stored_ok_def sample_outbox_def outbox_wf_def owf_def)
      (simp add: sample_entry_def example_entry_def)
qed (simp_all add: sample_outbox_def sample_entry_def example_entry_def safe_entry_def safe_integer_def
      MAX_SAFE_def outbox_limits pending_entries_def ovals_def isPending_def unconfirmed_def)

theorem outbox_roundtrip_witness:
  "validateOutbox (outbox_json sample_outbox) (replicate 64 99) 5 = Inr sample_outbox"
  by (rule outbox_roundtrip [OF sample_outbox_ok])

theorem validateOutbox_sound_witness:
  "validateOutbox (outbox_json sample_outbox) (replicate 64 99) 5 = Inr sample_outbox \<and>
   stored_ok (replicate 64 99) sample_outbox \<and> sample_outbox \<noteq> []"
proof -
  have "validateOutbox (outbox_json sample_outbox) (replicate 64 99) 5 = Inr sample_outbox"
    using validate_entries_json [OF sample_outbox_ok(1-3), of "[]" "[]"] sample_outbox_ok(4-6)
    by (simp add: validateOutbox_def outbox_json_def is_obj_def fields_of_def not_less)
  then show ?thesis
    using validateOutbox_sound [of _ "replicate 64 99" 5 sample_outbox] by (simp add: sample_outbox_def)
qed

section \<open>Runs\<close>

text \<open>
  The owner's outbox between two loads: sends that pass the checks of an entry are admitted,
  confirmations are applied, and time passes. A refused admission leaves the state as it was.
\<close>

datatype outbox_event = Admit outbox_entry | Confirm "confirm_event list" | Tick nat

definition outbox_step :: "ustr \<Rightarrow> outbox_event \<Rightarrow> outbox \<times> int \<Rightarrow> outbox \<times> int" where
  "outbox_step owner ev s =
     (let (ob, now) = s in case ev of
        Admit e \<Rightarrow> (if is_operation (operationId e) \<and> entry_ok owner e \<and> owf (confirmations e)
                    then (case admitOutbox ob e now of Inl _ \<Rightarrow> (ob, now) | Inr next \<Rightarrow> (next, now))
                    else (ob, now))
      | Confirm evs \<Rightarrow> (fst (applyConfirmations ob evs now), now)
      | Tick d \<Rightarrow> (ob, now + int d))"

definition outbox_inv :: "outbox \<times> int \<Rightarrow> bool" where
  "outbox_inv s \<longleftrightarrow> outbox_wf (fst s) \<and> confirmation_wf (fst s) \<and> within_limits (fst s) (snd s)"

lemma pending_shrinks:
  assumes "list_all2 (\<lambda>p q. bytes (snd q) = bytes (snd p) \<and> (isPending (snd q) later \<longrightarrow> isPending (snd p) now)) a b"
    and "\<forall>p \<in> set a. 0 \<le> bytes (snd p)"
  shows "length (pending_entries b later) \<le> length (pending_entries a now) \<and>
    sum_list (map bytes (pending_entries b later)) \<le> sum_list (map bytes (pending_entries a now))"
  using assms by (induction a b rule: list_all2_induct) (auto simp: pending_entries_def ovals_def)

lemma within_limits_shrinks:
  assumes "within_limits a now" "outbox_wf a" "length b = length a"
    and "list_all2 (\<lambda>p q. bytes (snd q) = bytes (snd p) \<and> (isPending (snd q) later \<longrightarrow> isPending (snd p) now)) a b"
  shows "within_limits b later"
  using assms pending_shrinks [OF assms(4)] by (fastforce simp: within_limits_def outbox_wf_def)

lemma entry_evolves_pending:
  assumes "entry_evolves now e f" "isPending f t" shows "isPending e t"
proof -
  have f: "f = e\<lparr>confirmations := confirmations f\<rparr>" using assms(1) by (simp add: entry_evolves_def)
  have "isPending (e\<lparr>confirmations := confirmations f\<rparr>) t" using assms(2) f by metis
  then have e: "groupStopped e \<noteq> Some True" "phase e \<noteq> Unavailable" "t < expires e"
    "list_ex unconfirmed (ovals (confirmations f))" by (simp_all add: isPending_def)
  have "list_ex unconfirmed (map snd ys) \<Longrightarrow> list_ex unconfirmed (map snd xs)"
    if "list_all2 (\<lambda>p q. fst p = fst q \<and> confirm_evolves now (snd p) (snd q)) xs ys" for xs ys
    using that by (induction xs ys rule: list_all2_induct)
      (auto simp: unconfirmed_def confirm_evolves_def)
  with assms(1) e show ?thesis by (auto simp: isPending_def entry_evolves_def ovals_def)
qed

lemma entry_evolves_frame:
  "entry_evolves now e f \<Longrightarrow> bytes f = bytes e \<and> operationId f = operationId e"
proof -
  assume "entry_evolves now e f"
  then have "f = e\<lparr>confirmations := confirmations f\<rparr>" by (simp add: entry_evolves_def)
  then have "bytes f = bytes (e\<lparr>confirmations := confirmations f\<rparr>)"
    "operationId f = operationId (e\<lparr>confirmations := confirmations f\<rparr>)" by metis+
  then show ?thesis by simp
qed

lemma evolves_keeps_inv:
  assumes "outbox_inv (ob, now)" "evolves now ob ob'" shows "outbox_inv (ob', now)"
proof -
  have inv: "outbox_wf ob" "confirmation_wf ob" "within_limits ob now"
    using assms(1) by (auto simp: outbox_inv_def)
  have frame: "list_all2 (\<lambda>p q. fst p = fst q \<and> operationId (snd q) = operationId (snd p) \<and>
      bytes (snd q) = bytes (snd p) \<and> (isPending (snd q) now \<longrightarrow> isPending (snd p) now)) ob ob'"
    using assms(2) unfolding evolves_def
    by (rule list_all2_mono) (auto dest: entry_evolves_frame entry_evolves_pending)
  have wf': "confirmation_wf ob'" by (rule confirmation_wf_evolves [OF inv(2) assms(2)])
  have "\<exists>e. (k, e) \<in> set ob \<and> operationId f = operationId e \<and> bytes f = bytes e" if "(k, f) \<in> set ob'" for k f
    using frame that by (induction ob ob' rule: list_all2_induct) auto
  then have "outbox_wf ob'"
    using inv(1) wf' unfolding outbox_wf_def confirmation_wf_def by metis
  moreover have "within_limits ob' now"
    using inv(3,1) list_all2_lengthD [OF frame, symmetric]
    by (rule within_limits_shrinks) (rule list_all2_mono [OF frame], simp)
  ultimately show ?thesis using wf' by (simp add: outbox_inv_def)
qed

lemma admit_keeps_inv:
  assumes "outbox_inv (ob, now)" "entry_ok owner e" "owf (confirmations e)" "admitOutbox ob e now = Inr next"
  shows "outbox_inv (next, now)"
proof -
  have inv: "outbox_wf ob" "confirmation_wf ob" using assms(1) by (auto simp: outbox_inv_def)
  have "0 \<le> bytes e" using assms(2) by (simp add: entry_ok_def)
  note facts = admit_facts [OF inv(1) assms(4) this]
  from assms(4) inv(1) obtain mid where mid: "next = oset (operationId e) e mid" "outbox_wf mid"
    "mid = drop_terminals (terminal_entries ob now) ob" by (rule admitE)
  obtain Q where "mid = filter Q ob" unfolding mid(3) by (rule drop_terminals_kept [OF inv(1), of now]) blast
  with inv(2) mid(1,2) assms(3) have "confirmation_wf next"
    by (auto simp: confirmation_wf_def set_oset outbox_wf_def)
  with facts show ?thesis by (simp add: outbox_inv_def)
qed

interpretation outbox_run: step_invariant "outbox_step owner" outbox_inv
proof
  fix s ev assume "outbox_inv s"
  moreover obtain ob now where s: "s = (ob, now)" by (cases s)
  ultimately have inv: "outbox_inv (ob, now)" by simp
  show "outbox_inv (outbox_step owner ev s)"
  proof (cases ev)
    case (Admit e)
    then show ?thesis using inv admit_keeps_inv [OF inv]
      by (auto simp: s outbox_step_def split: sum.split)
  next
    case (Confirm evs)
    then show ?thesis using evolves_keeps_inv [OF inv] applyConfirmations_facts inv
      by (simp add: s outbox_step_def outbox_inv_def)
  next
    case (Tick d)
    have "list_all2 (\<lambda>p q. bytes (snd q) = bytes (snd p) \<and>
        (isPending (snd q) (now + int d) \<longrightarrow> isPending (snd p) now)) ob ob"
      by (rule list.rel_refl) (auto simp: isPending_def)
    then have "within_limits ob (now + int d)"
      using inv within_limits_shrinks [of ob now ob "now + int d"] by (simp add: outbox_inv_def)
    with inv Tick show ?thesis by (simp add: s outbox_step_def outbox_inv_def)
  qed
qed

text \<open>
  C29: from an outbox within the limits, whatever sends are attempted, confirmations arrive and
  time passes, the outbox stays within its limits: 256 records, 128 pending sends and 32 MiB
  pending, each record under its own identifier.
\<close>

theorem outbox_stays_bounded:
  assumes "outbox_inv s"
  shows "outbox_inv (fold (outbox_step owner) evs s)"
  using assms by (rule outbox_run.run_inv)

theorem outbox_stays_bounded_witness:
  "outbox_inv ([], 0) \<and>
   outbox_inv (fold (outbox_step (replicate 64 99)) [Admit sample_entry, Tick 4, Confirm [example_receipt]] ([], 0))"
proof -
  have "outbox_inv ([], 0)"
    by (simp add: outbox_inv_def outbox_wf_def confirmation_wf_def within_limits_def pending_entries_def
        ovals_def outbox_limits)
  then show ?thesis using outbox_stays_bounded by blast
qed

end
