(* ===== verification/Link.thy ===== *)
theory Link
  imports Packet Bytes
begin

text \<open>
  One connection of the native transport (\<open>packages/transport/src/index.ts\<close>, class
  \<open>Link\<close>): its queue of outgoing transfers, the assemblies of incoming fragments, the
  acknowledgements, and the writer. The writer is asynchronous: \<open>pump\<close> runs up to a write
  and is resumed when the write ends, so other operations run in between; its state is the
  field \<open>pump\<close>. The byte stream itself, its buffering and its timers are outside the
  model: when a write ends, and whether it succeeded, is an event.
\<close>

section \<open>State\<close>

definition MAX_PACKET :: int where "MAX_PACKET = 6 * 1024 * 1024"
definition MAX_PENDING :: int where "MAX_PENDING = 16 * 1024 * 1024"
definition FRAGMENT :: nat where "FRAGMENT = 2048"
definition MAX_FRAME :: nat where "MAX_FRAME = 4096"
definition MAX_TRANSFERS :: nat where "MAX_TRANSFERS = 64"
definition MAX_ASSEMBLIES :: nat where "MAX_ASSEMBLIES = 8"
definition MAX_CONTROL :: nat where "MAX_CONTROL = 64"
definition MAX_ACKS_PER_SECOND :: nat where "MAX_ACKS_PER_SECOND = 64"

datatype medium = Tcp | Serial | Websocket | Reticulum

record retained =
  r_packet :: packet
  encoded :: bytes
  r_bytes :: int
  relayOnly :: bool

text \<open>
  \<open>tag\<close> stands for the identity of the transfer object: the writer keeps a reference to the
  transfer it is sending, which may leave the queue, and come back as a new object, meanwhile.
\<close>

record transfer = retained +
  sent_at :: int
  attempts :: nat
  next_part :: nat
  scheduled :: nat
  inFlight :: bool
  cancelled :: bool
  tag :: nat

record assembly =
  parts :: "(nat, bytes) omap"
  part_total :: nat
  a_bytes :: int
  since :: int
  updated :: int

record counters =
  received :: nat
  forwarded :: nat
  duplicates :: nat
  rejected :: nat
  dropped :: nat
  retransmits :: nat
  rateLimited :: nat

text \<open>What the writer sends: a line break after a reopened serial port, an acknowledgement, a fragment.\<close>

datatype out_frame =
    Blank
  | Ack ustr
  | Part transfer nat nat bytes

datatype pump_state =
    Idle
  | Awaiting out_frame bool
  | Yielded bool

record link =
  medium :: medium
  buffer :: ustr
  pending :: "(ustr, transfer) omap"
  pendingBytes :: int
  assemblies :: "(ustr, assembly) omap"
  assemblyBytes :: int
  active :: bool
  pump :: pump_state
  turn :: nat
  priorityTurns :: "priority \<Rightarrow> nat"
  resynchronize :: bool
  controls :: "ustr list"
  acknowledged :: "(ustr, int) omap"
  receivedWindow :: int
  framesWindow :: nat
  invalidWindow :: nat
  windowStart :: int
  ackWindowStart :: int
  acksWindow :: nat
  connected :: bool
  receivedTotal :: int
  queued :: nat
  notified :: "ustr list"
  fresh :: nat

definition new_link :: "medium \<Rightarrow> int \<Rightarrow> link" where
  "new_link m now =
     \<lparr>medium = m, buffer = [], pending = [], pendingBytes = 0, assemblies = [], assemblyBytes = 0,
      active = True, pump = Idle, turn = 0, priorityTurns = (\<lambda>_. 0), resynchronize = (m = Serial),
      controls = [], acknowledged = [], receivedWindow = 0, framesWindow = 0, invalidWindow = 0,
      windowStart = now, ackWindowStart = now, acksWindow = 0, connected = True, receivedTotal = 0,
      queued = 0, notified = [], fresh = 0\<rparr>"

section \<open>The queue and the assemblies\<close>

definition close :: "link \<Rightarrow> link" where
  "close l =
     (if \<not> active l then l
      else l\<lparr>active := False, connected := False, pending := [], assemblies := [], controls := [],
             acknowledged := [], pendingBytes := 0, assemblyBytes := 0, queued := 0, buffer := []\<rparr>)"

definition removeTransfer :: "ustr \<Rightarrow> link \<Rightarrow> link" where
  "removeTransfer i l = (case oget (pending l) i of None \<Rightarrow> l
     | Some t \<Rightarrow> l\<lparr>pendingBytes := pendingBytes l - r_bytes t, pending := odel i (pending l),
                    queued := length (odel i (pending l))\<rparr>)"

definition notifyCancel :: "ustr \<Rightarrow> link \<Rightarrow> link" where
  "notifyCancel i l = l\<lparr>notified := notified l @ [i]\<rparr>"

text \<open>Setting \<open>cancelled\<close> on the object the writer holds.\<close>

definition mark_cancelled :: "nat \<Rightarrow> pump_state \<Rightarrow> pump_state" where
  "mark_cancelled g p = (case p of
     Awaiting (Part t i n d) ct \<Rightarrow> if tag t = g then Awaiting (Part (t\<lparr>cancelled := True\<rparr>) i n d) ct else p
   | _ \<Rightarrow> p)"

definition cancelTransfer :: "ustr \<Rightarrow> link \<Rightarrow> link" where
  "cancelTransfer i l = (case oget (pending l) i of None \<Rightarrow> l
     | Some t \<Rightarrow> removeTransfer i
         (if inFlight t then l\<lparr>pump := mark_cancelled (tag t) (pump l)\<rparr>
          else if next_part t > 0 then notifyCancel i l else l))"

definition cancelRelayed :: "link \<Rightarrow> link" where
  "cancelRelayed l = fold cancelTransfer (okeys (filter (\<lambda>p. relayOnly (snd p)) (pending l))) l"

definition cancelLocal :: "ustr \<Rightarrow> (jval \<Rightarrow> bool) \<Rightarrow> link \<Rightarrow> ustr list \<times> link" where
  "cancelLocal me match l =
     (let removed = okeys (filter (\<lambda>p. p_source (r_packet (snd p)) = me \<and> match (p_payload (r_packet (snd p)))) (pending l))
      in (removed, fold cancelTransfer removed l))"

definition removeAssembly :: "ustr \<Rightarrow> link \<Rightarrow> link" where
  "removeAssembly i l = (case oget (assemblies l) i of None \<Rightarrow> l
     | Some a \<Rightarrow> l\<lparr>assemblyBytes := assemblyBytes l - a_bytes a, assemblies := odel i (assemblies l)\<rparr>)"

definition discardAssembly :: "ustr \<Rightarrow> link \<Rightarrow> link" where
  "discardAssembly i l = (if hex64 i then removeAssembly i l else l)"

definition stale :: "int \<Rightarrow> assembly \<Rightarrow> bool" where
  "stale now a \<longleftrightarrow> now - updated a > 120000 \<or> now - since a > 3600000"

definition maintain :: "int \<Rightarrow> link \<Rightarrow> link" where
  "maintain now l =
     (let l1 = fold removeAssembly (okeys (filter (\<lambda>p. stale now (snd p)) (assemblies l))) l;
          l2 = fold removeTransfer (okeys (filter (\<lambda>p. p_expires (r_packet (snd p)) \<le> now) (pending l1))) l1;
          l3 = l2\<lparr>acknowledged := filter (\<lambda>p. now - snd p < 1000) (acknowledged l2)\<rparr>
      in if now - ackWindowStart l3 \<ge> 1000 then l3\<lparr>ackWindowStart := now, acksWindow := 0\<rparr> else l3)"

definition acknowledge :: "int \<Rightarrow> ustr \<Rightarrow> counters \<times> link \<Rightarrow> counters \<times> link" where
  "acknowledge now i cl =
     (let (c, l) = cl in
      if i \<in> set (controls l) \<or> now - (case oget (acknowledged l) i of None \<Rightarrow> 0 | Some at \<Rightarrow> at) < 1000 then (c, l)
      else if length (controls l) \<ge> MAX_CONTROL then (c\<lparr>dropped := dropped c + 1\<rparr>, l)
      else (c, l\<lparr>controls := controls l @ [i]\<rparr>))"

section \<open>Incoming fragments\<close>

datatype in_frame = InAck ustr | InPart ustr nat nat bytes

text \<open>The checks of \<open>frame\<close> on a parsed line. Every refusal throws the same error.\<close>

definition parse_frame :: "jval \<Rightarrow> in_frame option" where
  "parse_frame f =
     (let i = jget f (lit ''id''); index = jget f (lit ''index''); n = jget f (lit ''count''); d = jget f (lit ''data'') in
      if \<not> is_obj f \<or> \<not> is_str i \<or> \<not> hex64 (str_of i) then None
      else if jget f (lit ''t'') = JStr (lit ''ack'') then Some (InAck (str_of i))
      else if jget f (lit ''t'') \<noteq> JStr (lit ''part'') \<or> \<not> is_int index \<or> \<not> is_int n \<or> int_of n < 1 \<or>
          int_of n > (MAX_PACKET + int FRAGMENT - 1) div int FRAGMENT \<or> int_of index < 0 \<or> int_of index \<ge> int_of n \<or>
          \<not> is_str d \<or> 10 * length (str_of d) > 14 * FRAGMENT \<or> takeWhile is_b64 (str_of d) = [] \<or>
          \<not> b64_shape (str_of d) then None
      else (let b = from64 (str_of d) in
        if b = [] \<or> length b > FRAGMENT \<or> int_of index < int_of n - 1 \<and> length b \<noteq> FRAGMENT \<or> b64 b \<noteq> str_of d then None
        else Some (InPart (str_of i) (nat (int_of index)) (nat (int_of n)) b)))"

datatype part_result = PartRefused | PartStored | PartComplete bytes

definition join_parts :: "assembly \<Rightarrow> bytes" where
  "join_parts a = concat (map (\<lambda>k. case oget (parts a) k of Some b \<Rightarrow> b | None \<Rightarrow> []) [0..<part_total a])"

definition store_part :: "int \<Rightarrow> ustr \<Rightarrow> nat \<Rightarrow> nat \<Rightarrow> bytes \<Rightarrow> assembly \<Rightarrow> link \<Rightarrow> part_result \<times> link" where
  "store_part now i index n data a l =
     (let prior = oget (parts a) index in
      if n \<noteq> part_total a \<or> prior \<noteq> None \<and> prior \<noteq> Some data then (PartRefused, removeAssembly i l)
      else if prior = None \<and> (a_bytes a + int (length data) > MAX_PACKET \<or>
          assemblyBytes l + int (length data) > MAX_PENDING) then (PartRefused, removeAssembly i l)
      else (let a1 = (if prior = None then a\<lparr>parts := oset index data (parts a),
                         a_bytes := a_bytes a + int (length data), updated := now\<rparr> else a);
                l1 = (if prior = None then l\<lparr>assemblies := oset i a1 (assemblies l),
                         assemblyBytes := assemblyBytes l + int (length data)\<rparr> else l)
            in if length (parts a1) = part_total a1 then (PartComplete (join_parts a1), removeAssembly i l1)
               else (PartStored, l1)))"

definition add_part :: "int \<Rightarrow> ustr \<Rightarrow> nat \<Rightarrow> nat \<Rightarrow> bytes \<Rightarrow> link \<Rightarrow> part_result \<times> link" where
  "add_part now i index n data l =
     (case oget (assemblies l) i of
        Some a \<Rightarrow> store_part now i index n data a l
      | None \<Rightarrow>
          let l1 = maintain now l in
          if length (assemblies l1) \<ge> MAX_ASSEMBLIES then (PartRefused, l1)
          else (let a = \<lparr>parts = [], part_total = n, a_bytes = 0, since = now, updated = now\<rparr>
                in store_part now i index n data a (l1\<lparr>assemblies := oset i a (assemblies l1)\<rparr>)))"

section \<open>Choosing the next fragment\<close>

definition part_count :: "transfer \<Rightarrow> nat" where
  "part_count t = nat ((r_bytes t + int FRAGMENT - 1) div int FRAGMENT)"

abbreviation prio_of :: "transfer \<Rightarrow> priority" where
  "prio_of t \<equiv> p_prio (r_packet t)"

text \<open>A transfer of which some but not all fragments were written.\<close>

definition partial :: "transfer \<Rightarrow> bool" where
  "partial t \<longleftrightarrow> 0 < next_part t \<and> next_part t < part_count t"

definition partials :: "transfer list \<Rightarrow> transfer list" where
  "partials ts = filter partial ts"

definition partial_count :: "transfer list \<Rightarrow> priority \<Rightarrow> nat" where
  "partial_count ts p = length (filter (\<lambda>t. prio_of t = p) (partials ts))"

definition retry_wait :: "medium \<Rightarrow> int" where
  "retry_wait m = (if m = Serial \<or> m = Reticulum then 120000 else 2000)"

definition ready :: "bool \<Rightarrow> medium \<Rightarrow> int \<Rightarrow> transfer \<Rightarrow> bool" where
  "ready low m now t \<longleftrightarrow> \<not> (low \<and> prio_of t = Bulk) \<and>
     (next_part t < part_count t \<or> now - sent_at t \<ge> retry_wait m)"

text \<open>The classes with a ready transfer and none in progress.\<close>

definition waiting :: "bool \<Rightarrow> medium \<Rightarrow> int \<Rightarrow> transfer list \<Rightarrow> priority list" where
  "waiting low m now ts =
     remdups_first (map prio_of (filter (\<lambda>t. partial_count ts (prio_of t) = 0) (filter (ready low m now) ts)))"

definition due :: "bool \<Rightarrow> medium \<Rightarrow> int \<Rightarrow> transfer list \<Rightarrow> transfer \<Rightarrow> bool" where
  "due low m now ts t \<longleftrightarrow> ready low m now t \<and>
     (partial t \<or>
      \<not> (m = Reticulum \<and> prio_of t = Bulk \<and> partial_count ts Bulk \<ge> 1 \<and> r_bytes t > int FRAGMENT) \<and>
      \<not> (if prio_of t = SOS then partial_count ts SOS \<ge> 7
         else partial_count ts Normal + partial_count ts Bulk \<ge> 6 \<or> partial_count ts (prio_of t) \<ge> 5) \<and>
      length (partials ts) < MAX_ASSEMBLIES - length (filter (\<lambda>p. p \<noteq> prio_of t) (waiting low m now ts)))"

definition fair_turn :: "nat \<Rightarrow> bool" where
  "fair_turn n \<longleftrightarrow> (n + 1) mod 4 = 0"

definition service_key :: "link \<Rightarrow> transfer \<Rightarrow> nat \<times> nat \<times> int" where
  "service_key l t =
     (if fair_turn (turn l) then priorityTurns l (prio_of t) else rank (prio_of t),
      scheduled t, p_created (r_packet t))"

definition select :: "bool \<Rightarrow> int \<Rightarrow> link \<Rightarrow> transfer option" where
  "select low now l =
     (let ts = ovals (pending l) in
      case sort_key (service_key l) (filter (due low (medium l) now ts) ts) of [] \<Rightarrow> None | t # _ \<Rightarrow> Some t)"

section \<open>The writer\<close>

text \<open>An update of a transfer object: the queue holds it only while its entry has its \<open>tag\<close>.\<close>

definition update_transfer :: "transfer \<Rightarrow> link \<Rightarrow> link" where
  "update_transfer t l = l\<lparr>pending := map (\<lambda>(i, u). (i, if tag u = tag t then t else u)) (pending l)\<rparr>"

definition fragment_of :: "bytes \<Rightarrow> nat \<Rightarrow> bytes" where
  "fragment_of b k = take FRAGMENT (drop (k * FRAGMENT) b)"

text \<open>
  What the loop makes of the transfer it chose: a transfer that was sent completely starts
  again, and each start counts as an attempt.
\<close>

definition start_transfer :: "transfer \<Rightarrow> transfer" where
  "start_transfer t =
     (let t1 = (if next_part t \<ge> part_count t then t\<lparr>next_part := 0\<rparr> else t);
          t2 = (if next_part t1 = 0 then t1\<lparr>attempts := attempts t1 + 1\<rparr> else t1)
      in t2\<lparr>inFlight := True\<rparr>)"

text \<open>The acknowledgement that may be sent now.\<close>

definition next_ack :: "link \<Rightarrow> ustr option" where
  "next_ack l =
     (if acksWindow l < MAX_ACKS_PER_SECOND then (case controls l of [] \<Rightarrow> None | i # _ \<Rightarrow> Some i) else None)"

text \<open>The body of the loop of \<open>pump\<close>, up to the write it starts.\<close>

definition pump_body :: "bool \<Rightarrow> int \<Rightarrow> bool \<Rightarrow> counters \<times> link \<Rightarrow> counters \<times> link" where
  "pump_body low now controlTurn cl =
     (let (c, l0) = cl; l = maintain now l0;
          chosen = select low now l;
          ack = next_ack l
      in if ack \<noteq> None \<and> (controlTurn \<or> chosen = None) then
           (c, l\<lparr>acksWindow := acksWindow l + 1, acknowledged := oset (the ack) now (acknowledged l),
                 pump := Awaiting (Ack (the ack)) controlTurn\<rparr>)
         else case chosen of
           None \<Rightarrow> (c, l\<lparr>pump := Idle, queued := length (pending l)\<rparr>)
         | Some t \<Rightarrow>
             let n = part_count t; u = start_transfer t;
                 c1 = (if next_part u = 0 \<and> attempts u > 1 then c\<lparr>retransmits := retransmits c + 1\<rparr> else c)
             in (c1, (update_transfer u l)\<lparr>turn := turn l + 1,
                      pump := Awaiting (Part u (next_part u) n (fragment_of (encoded u) (next_part u))) controlTurn\<rparr>))"

text \<open>One turn of the loop: it ends when the link is closed.\<close>

definition pump_loop :: "bool \<Rightarrow> int \<Rightarrow> bool \<Rightarrow> counters \<times> link \<Rightarrow> counters \<times> link" where
  "pump_loop low now controlTurn cl =
     (let (c, l) = cl in
      if \<not> active l then (c, l\<lparr>pump := Idle, queued := length (pending l)\<rparr>)
      else if resynchronize l then (c, l\<lparr>resynchronize := False, pump := Awaiting Blank controlTurn\<rparr>)
      else pump_body low now controlTurn (c, l))"

definition pump_call :: "bool \<Rightarrow> int \<Rightarrow> counters \<times> link \<Rightarrow> counters \<times> link" where
  "pump_call low now cl =
     (let (c, l0) = cl; l = maintain now l0 in
      if pump l \<noteq> Idle \<or> \<not> active l then (c, l) else pump_loop low now True (c, l))"

text \<open>The write ends; \<open>finish\<close> reports success only while the link is active.\<close>

definition write_done :: "bool \<Rightarrow> int \<Rightarrow> bool \<Rightarrow> counters \<times> link \<Rightarrow> counters \<times> link" where
  "write_done low now ok cl =
     (let (c, l) = cl; sent = (ok \<and> active l); idle = (\<lambda>l. l\<lparr>pump := Idle, queued := length (pending l)\<rparr>) in
      case pump l of
        Awaiting Blank ct \<Rightarrow> if sent then pump_body low now ct (c, l) else (c, idle l)
      | Awaiting (Ack i) ct \<Rightarrow>
          if sent then (c, l\<lparr>controls := removeAll i (controls l), pump := Yielded False\<rparr>) else (c, idle l)
      | Awaiting (Part t k n d) ct \<Rightarrow>
          let t1 = t\<lparr>inFlight := False\<rparr>;
              l1 = (if cancelled t \<and> sent then notifyCancel (p_id (r_packet t)) l else l)
          in if \<not> sent then (c, idle (update_transfer t1 l1))
             else (let t2 = t1\<lparr>next_part := next_part t1 + 1, scheduled := turn l\<rparr>;
                       t3 = (if next_part t2 = n then t2\<lparr>sent_at := now\<rparr> else t2)
                   in (c, (update_transfer t3 l1)\<lparr>priorityTurns := (priorityTurns l)(prio_of t := turn l),
                           pump := Yielded True\<rparr>))
      | _ \<Rightarrow> (c, l))"

text \<open>The loop goes on after it yielded.\<close>

definition pump_resume :: "bool \<Rightarrow> int \<Rightarrow> counters \<times> link \<Rightarrow> counters \<times> link" where
  "pump_resume low now cl =
     (case pump (snd cl) of Yielded ct \<Rightarrow> pump_loop low now ct cl | _ \<Rightarrow> cl)"

section \<open>Queueing a packet\<close>

definition evictable :: "priority \<Rightarrow> transfer \<Rightarrow> bool" where
  "evictable p t \<longleftrightarrow> \<not> inFlight t \<and> rank (prio_of t) > rank p \<and> (next_part t = 0 \<or> next_part t = part_count t)"

definition victims :: "priority \<Rightarrow> link \<Rightarrow> (ustr \<times> transfer) list" where
  "victims p l = sort_key (\<lambda>e. (- int (rank (prio_of (snd e))), - p_created (r_packet (snd e))))
     (filter (\<lambda>e. evictable p (snd e)) (pending l))"

definition limit_for :: "priority \<Rightarrow> int" where
  "limit_for p = (if p = SOS then MAX_PENDING else MAX_PENDING - 64 * 1024)"

definition slots_for :: "priority \<Rightarrow> nat" where
  "slots_for p = (if p = SOS then MAX_TRANSFERS else MAX_TRANSFERS - 2)"

lemma victims_in: "e \<in> set (victims p l) \<longleftrightarrow> e \<in> set (pending l) \<and> evictable p (snd e)"
  by (auto simp: victims_def)

text \<open>The loop that makes room. It returns whether there is room now.\<close>

function make_room :: "priority \<Rightarrow> int \<Rightarrow> counters \<times> link \<Rightarrow> bool \<times> counters \<times> link" where
  "make_room p b (c, l) =
     (if length (pending l) \<ge> slots_for p \<or> b + pendingBytes l > limit_for p then
        (case victims p l of
           [] \<Rightarrow> (False, c\<lparr>dropped := dropped c + 1\<rparr>, l)
         | v # _ \<Rightarrow> make_room p b (c\<lparr>dropped := dropped c + 1\<rparr>, removeTransfer (fst v) l))
      else (True, c, l))"
  by pat_completeness auto

lemma removeTransfer_shrinks:
  assumes "e \<in> set (pending l)"
  shows "length (pending (removeTransfer (fst e) l)) < length (pending l)"
proof -
  have "oget (pending l) (fst e) \<noteq> None" using assms by (cases e) (auto simp: oget_None_iff intro: rev_image_eqI)
  moreover have "length (odel (fst e) (pending l)) < length (pending l)"
    unfolding odel_def using assms by (intro length_filter_less) auto
  ultimately show ?thesis by (auto simp: removeTransfer_def)
qed

termination make_room
proof (relation "measure (\<lambda>(p, b, c, l). length (pending l))")
  fix p b c l v vs
  assume "victims p l = v # vs"
  then have "v \<in> set (pending l)" using victims_in [of v p l] by simp
  then show "((p, b, c\<lparr>dropped := dropped c + 1\<rparr>, removeTransfer (fst v) l), p, b, c, l)
      \<in> measure (\<lambda>(p, b, c, l). length (pending l))"
    by (simp add: removeTransfer_shrinks)
qed simp

declare make_room.simps [simp del]

definition new_transfer :: "retained \<Rightarrow> link \<Rightarrow> transfer" where
  "new_transfer v l = retained.extend v
     \<lparr>sent_at = 0, attempts = 0, next_part = 0, scheduled = turn l, inFlight = False, cancelled = False, tag = fresh l\<rparr>"

definition enqueue :: "bool \<Rightarrow> int \<Rightarrow> retained \<Rightarrow> counters \<times> link \<Rightarrow> counters \<times> link" where
  "enqueue low now v cl =
     (let (c, l) = cl; p = r_packet v; i = p_id p in
      if \<not> active l \<or> ohas (pending l) i \<or> p_expires p \<le> now then (c, l)
      else (let (room, c1, l1) = make_room (p_prio p) (r_bytes v) (c, l) in
        if \<not> room then (c1, l1)
        else (let m = oset i (new_transfer v l1) (pending l1) in
          pump_call low now (c1, l1\<lparr>pending := m, fresh := fresh l1 + 1, pendingBytes := pendingBytes l1 + r_bytes v,
            queued := length m\<rparr>))))"

end
