(* ===== verification/Link_Inv.thy ===== *)
theory Link_Inv
  imports Link
begin

text \<open>
  The invariant of a link over all its operations: exact byte accounts, the limits on
  transfers, assemblies and acknowledgements, the reserve for SOS traffic, the bounds on the
  transfers in progress, and the agreement of the queue with the transfer the writer holds.
\<close>

section \<open>Accounts\<close>

lemma odel_none: "oget m i = None \<Longrightarrow> odel i m = m"
  by (simp add: oget_None_iff)

interpretation pending_account: byte_account pending pendingBytes r_bytes removeTransfer
  by unfold_locales (auto simp: removeTransfer_def odel_none split: option.split)

interpretation assembly_account: byte_account assemblies assemblyBytes a_bytes removeAssembly
  by unfold_locales (auto simp: removeAssembly_def odel_none split: option.split)

section \<open>The invariant\<close>

definition transfer_ok :: "nat \<Rightarrow> ustr \<times> transfer \<Rightarrow> bool" where
  "transfer_ok g e \<longleftrightarrow> p_id (r_packet (snd e)) = fst e \<and> r_bytes (snd e) = int (length (encoded (snd e))) \<and>
     1 \<le> r_bytes (snd e) \<and> r_bytes (snd e) \<le> MAX_PACKET \<and> next_part (snd e) \<le> part_count (snd e) \<and> tag (snd e) < g"

definition low_class :: "ustr \<times> transfer \<Rightarrow> bool" where
  "low_class e \<longleftrightarrow> prio_of (snd e) \<noteq> SOS"

definition accounts_inv :: "link \<Rightarrow> bool" where
  "accounts_inv l \<longleftrightarrow> owf (pending l) \<and> pendingBytes l = osum r_bytes (pending l) \<and>
     pendingBytes l \<le> MAX_PENDING \<and> length (pending l) \<le> MAX_TRANSFERS \<and> queued l = length (pending l) \<and>
     length (filter low_class (pending l)) \<le> MAX_TRANSFERS - 2 \<and>
     osum r_bytes (filter low_class (pending l)) \<le> MAX_PENDING - 64 * 1024 \<and>
     list_all (transfer_ok (fresh l)) (pending l) \<and> distinct (map (\<lambda>e. tag (snd e)) (pending l))"

text \<open>Transfers in progress, the one the writer is sending included.\<close>

definition occupies :: "priority set \<Rightarrow> transfer \<Rightarrow> nat" where
  "occupies ps t = (if (partial t \<or> inFlight t) \<and> prio_of t \<in> ps then 1 else 0)"

definition occupied :: "transfer list \<Rightarrow> priority set \<Rightarrow> nat" where
  "occupied ts ps = sum_list (map (occupies ps) ts)"

definition slots_inv :: "transfer list \<Rightarrow> bool" where
  "slots_inv ts \<longleftrightarrow> occupied ts UNIV \<le> MAX_ASSEMBLIES \<and> occupied ts {SOS} \<le> 7 \<and>
     occupied ts {Normal, Bulk} \<le> 6 \<and> occupied ts {Normal} \<le> 5 \<and> occupied ts {Bulk} \<le> 5"

definition writer_ok :: "pump_state \<Rightarrow> (ustr, transfer) omap \<Rightarrow> nat \<Rightarrow> bool" where
  "writer_ok p m g \<longleftrightarrow> (case p of
     Awaiting (Part t k n d) ct \<Rightarrow>
       k = next_part t \<and> n = part_count t \<and> k < n \<and> d = fragment_of (encoded t) k \<and> inFlight t \<and>
       transfer_ok g (p_id (r_packet t), t) \<and>
       (\<forall>e \<in> set m. (inFlight (snd e) \<longrightarrow> tag (snd e) = tag t) \<and> (tag (snd e) = tag t \<longrightarrow> snd e = t))
   | _ \<Rightarrow> \<forall>e \<in> set m. \<not> inFlight (snd e))"

definition writer_inv :: "link \<Rightarrow> bool" where
  "writer_inv l \<longleftrightarrow> writer_ok (pump l) (pending l) (fresh l)"

lemma writer_ok_simps [simp]:
  "writer_ok Idle m g \<longleftrightarrow> (\<forall>e \<in> set m. \<not> inFlight (snd e))"
  "writer_ok (Yielded ct) m g \<longleftrightarrow> (\<forall>e \<in> set m. \<not> inFlight (snd e))"
  "writer_ok (Awaiting Blank ct) m g \<longleftrightarrow> (\<forall>e \<in> set m. \<not> inFlight (snd e))"
  "writer_ok (Awaiting (Ack i) ct) m g \<longleftrightarrow> (\<forall>e \<in> set m. \<not> inFlight (snd e))"
  "writer_ok (Awaiting (Part t k n d) ct) m g \<longleftrightarrow>
     k = next_part t \<and> n = part_count t \<and> k < n \<and> d = fragment_of (encoded t) k \<and> inFlight t \<and>
     transfer_ok g (p_id (r_packet t), t) \<and>
     (\<forall>e \<in> set m. (inFlight (snd e) \<longrightarrow> tag (snd e) = tag t) \<and> (tag (snd e) = tag t \<longrightarrow> snd e = t))"
  by (simp_all add: writer_ok_def)

definition assembly_ok :: "assembly \<Rightarrow> bool" where
  "assembly_ok a \<longleftrightarrow> owf (parts a) \<and> a_bytes a = osum (\<lambda>b. int (length b)) (parts a) \<and> a_bytes a \<le> MAX_PACKET \<and>
     (\<forall>(k, b) \<in> set (parts a). k < part_total a)"

definition assemblies_inv :: "link \<Rightarrow> bool" where
  "assemblies_inv l \<longleftrightarrow> owf (assemblies l) \<and> assemblyBytes l = osum a_bytes (assemblies l) \<and>
     assemblyBytes l \<le> MAX_PENDING \<and> length (assemblies l) \<le> MAX_ASSEMBLIES \<and>
     (\<forall>(i, a) \<in> set (assemblies l). assembly_ok a)"

definition control_inv :: "link \<Rightarrow> bool" where
  "control_inv l \<longleftrightarrow> distinct (controls l) \<and> length (controls l) \<le> MAX_CONTROL \<and>
     acksWindow l \<le> MAX_ACKS_PER_SECOND \<and> owf (acknowledged l)"

definition link_inv :: "link \<Rightarrow> bool" where
  "link_inv l \<longleftrightarrow> accounts_inv l \<and> slots_inv (ovals (pending l)) \<and> writer_inv l \<and> assemblies_inv l \<and> control_inv l"

lemmas link_parts = accounts_inv_def slots_inv_def writer_inv_def assemblies_inv_def control_inv_def

section \<open>Removing transfers\<close>

definition drop_transfers :: "(ustr \<times> transfer \<Rightarrow> bool) \<Rightarrow> link \<Rightarrow> link" where
  "drop_transfers P l = l\<lparr>pending := filter P (pending l), pendingBytes := osum r_bytes (filter P (pending l)),
     queued := length (filter P (pending l))\<rparr>"

lemma osum_filter_mono:
  "(\<And>e. e \<in> set m \<Longrightarrow> P e \<Longrightarrow> 0 \<le> c (snd e)) \<Longrightarrow> (\<And>e. Q e \<Longrightarrow> P e) \<Longrightarrow>
   osum c (filter Q m) \<le> osum c (filter P m)"
proof (induction m)
  case (Cons e m)
  have "osum c (filter Q m) \<le> osum c (filter P m)" using Cons by auto
  moreover have "P e \<Longrightarrow> 0 \<le> c (snd e)" "Q e \<Longrightarrow> P e" using Cons.prems by auto
  ultimately show ?case by auto
qed simp

lemma occupied_filter: "occupied (map snd (filter P m)) ps \<le> occupied (map snd m) ps"
  by (induction m) (auto simp: occupied_def)

lemma slots_filter: "slots_inv (ovals m) \<Longrightarrow> slots_inv (ovals (filter P m))"
  unfolding slots_inv_def ovals_def using occupied_filter [of P m] by (meson order_trans)

lemma accounts_drop:
  assumes "accounts_inv l"
  shows "accounts_inv (drop_transfers P l)"
proof -
  let ?m = "pending l"
  have pos: "\<And>e. e \<in> set ?m \<Longrightarrow> 0 \<le> r_bytes (snd e)"
    using assms by (fastforce simp: accounts_inv_def list_all_iff transfer_ok_def)
  have "osum r_bytes (filter P ?m) \<le> osum r_bytes (filter (\<lambda>_. True) ?m)"
    by (rule osum_filter_mono) (use pos in auto)
  moreover have "osum r_bytes (filter low_class (filter P ?m)) \<le> osum r_bytes (filter low_class ?m)"
    unfolding filter_filter by (rule osum_filter_mono) (use pos in auto)
  moreover have "length (filter Q (filter P m)) \<le> length (filter Q m)" for Q and m :: "(ustr \<times> transfer) list"
    by (induction m) auto
  then have "length (filter low_class (filter P ?m)) \<le> length (filter low_class ?m)" .
  moreover have "length (filter P ?m) \<le> MAX_TRANSFERS"
    using assms length_filter_le [of P ?m] unfolding accounts_inv_def by linarith
  moreover have "distinct (map (\<lambda>e. tag (snd e)) (filter P ?m))"
    using assms by (simp add: accounts_inv_def distinct_map_filter)
  ultimately show ?thesis
    using assms by (simp add: accounts_inv_def drop_transfers_def list_all_iff)
qed

lemma writer_ok_filter: "writer_ok p m g \<Longrightarrow> writer_ok p (filter P m) g"
  by (auto simp: writer_ok_def split: pump_state.splits out_frame.splits)

lemma writer_drop: "writer_inv l \<Longrightarrow> writer_inv (drop_transfers P l)"
  by (simp add: writer_inv_def drop_transfers_def writer_ok_filter)

lemma link_inv_drop: "link_inv l \<Longrightarrow> link_inv (drop_transfers P l)"
  using accounts_drop [of l P] writer_drop [of l P] slots_filter [of "pending l" P]
  by (simp add: link_inv_def) (simp add: drop_transfers_def assemblies_inv_def control_inv_def)

lemma removeTransfer_drop:
  assumes "accounts_inv l"
  shows "removeTransfer i l = drop_transfers (\<lambda>e. fst e \<noteq> i) l"
proof (cases "oget (pending l) i")
  case None
  then have "filter (\<lambda>e. fst e \<noteq> i) (pending l) = pending l"
    using odel_absent [of i "pending l"] by (simp add: oget_None_iff odel_def)
  with None assms show ?thesis by (simp add: removeTransfer_def drop_transfers_def accounts_inv_def)
next
  case (Some t)
  with assms show ?thesis
    using osum_odel [of "pending l" r_bytes i]
    by (simp add: removeTransfer_def drop_transfers_def accounts_inv_def odel_def)
qed

lemma drop_drop: "drop_transfers Q (drop_transfers P l) = drop_transfers (\<lambda>e. P e \<and> Q e) l"
  by (simp add: drop_transfers_def conj_commute)

lemma drop_all: "accounts_inv l \<Longrightarrow> drop_transfers (\<lambda>_. True) l = l"
  by (simp add: drop_transfers_def accounts_inv_def)

lemma removeTransfers_drop:
  "accounts_inv l \<Longrightarrow> fold removeTransfer ks l = drop_transfers (\<lambda>e. fst e \<notin> set ks) l"
proof (induction ks arbitrary: l)
  case (Cons i ks)
  then show ?case
    using Cons.IH [OF accounts_drop [OF Cons.prems]]
    by (simp add: removeTransfer_drop drop_drop conj_commute)
qed (simp add: drop_all)

lemma removeTransfer_inv: "link_inv l \<Longrightarrow> link_inv (removeTransfer i l)"
  using removeTransfer_drop link_inv_drop by (simp add: link_inv_def)

section \<open>Cancelling\<close>

lemma notify_inv [simp]: "link_inv (notifyCancel i l) \<longleftrightarrow> link_inv l"
  by (simp add: link_inv_def link_parts notifyCancel_def)

lemma notify_frame [simp]: "pending (notifyCancel i l) = pending l" "pump (notifyCancel i l) = pump l"
  "fresh (notifyCancel i l) = fresh l"
  by (simp_all add: notifyCancel_def)

text \<open>Marking the transfer of the writer is sound once the transfer has left the queue.\<close>

lemma tag_inj:
  "accounts_inv l \<Longrightarrow> (i, t) \<in> set (pending l) \<Longrightarrow> (j, u) \<in> set (pending l) \<Longrightarrow> tag t = tag u \<Longrightarrow> i = j \<and> t = u"
  by (fastforce simp: accounts_inv_def distinct_map inj_on_def)

lemma mark_writer:
  assumes "writer_inv l" "\<forall>e \<in> set (pending l). tag (snd e) \<noteq> g"
  shows "writer_inv (l\<lparr>pump := mark_cancelled g (pump l)\<rparr>)"
  using assms
  by (auto simp: writer_inv_def writer_ok_def mark_cancelled_def transfer_ok_def part_count_def
      split: pump_state.splits out_frame.splits)

lemma cancelTransfer_inv:
  assumes inv: "link_inv l"
  shows "link_inv (cancelTransfer i l)"
proof (cases "oget (pending l) i")
  case None
  with inv show ?thesis by (simp add: cancelTransfer_def)
next
  case (Some t)
  have acc: "accounts_inv l" using inv by (simp add: link_inv_def)
  let ?d = "drop_transfers (\<lambda>e. fst e \<noteq> i) l"
  have drop: "link_inv ?d" using inv by (rule link_inv_drop)
  have "removeTransfer i (l\<lparr>pump := mark_cancelled (tag t) (pump l)\<rparr>) =
      (removeTransfer i l)\<lparr>pump := mark_cancelled (tag t) (pump l)\<rparr>"
    by (simp add: removeTransfer_def Some)
  moreover have "link_inv (?d\<lparr>pump := mark_cancelled (tag t) (pump l)\<rparr>)"
  proof -
    have "\<forall>e \<in> set (pending ?d). tag (snd e) \<noteq> tag t"
      using tag_inj [OF acc oget_SomeD [OF Some]] by (fastforce simp: drop_transfers_def)
    then have "writer_inv (?d\<lparr>pump := mark_cancelled (tag t) (pump ?d)\<rparr>)"
      using drop by (intro mark_writer) (simp_all add: link_inv_def)
    moreover have "pump ?d = pump l" by (simp add: drop_transfers_def)
    ultimately show ?thesis using drop
      by (simp add: link_inv_def) (simp add: accounts_inv_def assemblies_inv_def control_inv_def)
  qed
  moreover have "link_inv (removeTransfer i (notifyCancel i l))" using inv by (simp add: removeTransfer_inv)
  ultimately show ?thesis
    using Some removeTransfer_inv [OF inv] by (simp add: cancelTransfer_def removeTransfer_drop [OF acc])
qed

lemma fold_inv: "(\<And>x s. P s \<Longrightarrow> P (f x s)) \<Longrightarrow> P s \<Longrightarrow> P (fold f xs s)"
  by (induction xs arbitrary: s) auto

lemma cancelRelayed_inv: "link_inv l \<Longrightarrow> link_inv (cancelRelayed l)"
  unfolding cancelRelayed_def by (rule fold_inv [of link_inv]) (auto intro: cancelTransfer_inv)

lemma cancelLocal_inv: "link_inv l \<Longrightarrow> link_inv (snd (cancelLocal me match l))"
  unfolding cancelLocal_def Let_def snd_conv by (rule fold_inv [of link_inv]) (auto intro: cancelTransfer_inv)

lemma close_inv: "link_inv l \<Longrightarrow> link_inv (close l)"
  by (auto simp: link_inv_def link_parts close_def occupied_def ovals_def MAX_PENDING_def writer_ok_def
      split: pump_state.splits out_frame.splits)

section \<open>Assemblies\<close>

lemma assemblies_frame:
  assumes "link_inv l" "assemblies_inv (l\<lparr>assemblies := m, assemblyBytes := b\<rparr>)"
  shows "link_inv (l\<lparr>assemblies := m, assemblyBytes := b\<rparr>)"
  using assms by (simp add: link_inv_def) (simp add: accounts_inv_def writer_inv_def control_inv_def)

lemma assembly_bytes_nonneg: "assembly_ok a \<Longrightarrow> 0 \<le> a_bytes a"
  by (simp add: assembly_ok_def osum_nonneg)

lemma removeAssembly_eq:
  "removeAssembly i l = l\<lparr>assemblies := assemblies (removeAssembly i l), assemblyBytes := assemblyBytes (removeAssembly i l)\<rparr>"
  by (simp add: removeAssembly_def split: option.split)

lemma removeAssembly_inv:
  assumes "link_inv l"
  shows "link_inv (removeAssembly i l)"
proof -
  have a: "assemblies_inv l" using assms by (simp add: link_inv_def)
  have "assemblyBytes (removeAssembly i l) \<le> assemblyBytes l"
    using a oget_SomeD [of "assemblies l" i] assembly_bytes_nonneg
    by (force simp: removeAssembly_def assemblies_inv_def split: option.split)
  moreover have "length (assemblies (removeAssembly i l)) \<le> length (assemblies l)"
    by (simp add: assembly_account.entries_remove length_odel_le)
  ultimately have "assemblies_inv (removeAssembly i l)"
    using a assembly_account.exact_remove [of l i]
    by (auto simp: assemblies_inv_def assembly_account.entries_remove set_odel)
  then show ?thesis
    using assemblies_frame [OF assms] removeAssembly_eq [of i l] by metis
qed

lemma discardAssembly_inv: "link_inv l \<Longrightarrow> link_inv (discardAssembly i l)"
  by (simp add: discardAssembly_def removeAssembly_inv)

lemma control_frame:
  assumes "link_inv l"
  shows "link_inv (l\<lparr>acknowledged := filter P (acknowledged l)\<rparr>)" "link_inv (l\<lparr>ackWindowStart := w, acksWindow := 0\<rparr>)"
  using assms by (simp_all add: link_inv_def link_parts)

lemma maintain_inv:
  assumes "link_inv l"
  shows "link_inv (maintain now l)"
proof -
  let ?l1 = "fold removeAssembly (okeys (filter (\<lambda>p. stale now (snd p)) (assemblies l))) l"
  have l1: "link_inv ?l1" by (rule fold_inv [of link_inv]) (auto intro: removeAssembly_inv assms)
  have "link_inv (fold removeTransfer ks ?l1)" for ks
    by (rule fold_inv [of link_inv]) (auto intro: removeTransfer_inv l1)
  then show ?thesis
    unfolding maintain_def Let_def by (auto intro!: control_frame)
qed

lemma acknowledge_inv: "link_inv l \<Longrightarrow> link_inv (snd (acknowledge now i (c, l)))"
  by (auto simp: acknowledge_def link_inv_def link_parts MAX_CONTROL_def)

lemma osum_replace:
  "owf m \<Longrightarrow> osum c (oset k v m) = osum c m - (case oget m k of None \<Rightarrow> 0 | Some w \<Rightarrow> c w) + c v"
  by (simp add: osum_oset osum_odel)

lemma assembly_add:
  assumes "assembly_ok a" "oget (parts a) index = None" "index < part_total a"
    and "a_bytes a + int (length data) \<le> MAX_PACKET"
  shows "assembly_ok (a\<lparr>parts := oset index data (parts a), a_bytes := a_bytes a + int (length data), updated := now\<rparr>)"
  using assms by (auto simp: assembly_ok_def osum_replace set_oset)

lemma store_part_inv:
  assumes inv: "link_inv l" and a: "oget (assemblies l) i = Some a" and index: "index < n"
  shows "link_inv (snd (store_part now i index n data a l))"
proof (cases "n = part_total a \<and> oget (parts a) index = None \<and> a_bytes a + int (length data) \<le> MAX_PACKET \<and>
    assemblyBytes l + int (length data) \<le> MAX_PENDING")
  case True
  define a1 where "a1 = a\<lparr>parts := oset index data (parts a), a_bytes := a_bytes a + int (length data), updated := now\<rparr>"
  have asm: "assemblies_inv l" using inv by (simp add: link_inv_def)
  then have ok: "assembly_ok a" using oget_SomeD [OF a] by (auto simp: assemblies_inv_def)
  have ok1: "assembly_ok a1"
    unfolding a1_def by (rule assembly_add) (use True ok index in auto)
  have "i \<in> fst ` set (assemblies l)" using oget_SomeD [OF a] by force
  then have "assemblies_inv (l\<lparr>assemblies := oset i a1 (assemblies l), assemblyBytes := assemblyBytes l + int (length data)\<rparr>)"
    using asm True ok1 a
    by (auto simp: assemblies_inv_def osum_replace set_oset length_oset a1_def)
  then have "link_inv (l\<lparr>assemblies := oset i a1 (assemblies l), assemblyBytes := assemblyBytes l + int (length data)\<rparr>)"
    by (rule assemblies_frame [OF inv])
  then show ?thesis
    using True inv by (simp add: store_part_def Let_def a1_def removeAssembly_inv)
next
  case False
  then show ?thesis
    using inv by (auto simp: store_part_def Let_def removeAssembly_inv)
qed

lemma removeTransfers_frame: "assemblies (fold removeTransfer ks l) = assemblies l"
proof (induction ks arbitrary: l)
  case (Cons k ks)
  have "assemblies (removeTransfer k l) = assemblies l" by (simp add: removeTransfer_def split: option.split)
  with Cons show ?case by simp
qed simp

lemma maintain_assemblies: "set (assemblies (maintain now l)) \<subseteq> set (assemblies l)"
  by (auto simp: maintain_def Let_def removeTransfers_frame assembly_account.entries_removes)

lemma add_part_inv:
  assumes "link_inv l" "index < n"
  shows "link_inv (snd (add_part now i index n data l))"
proof (cases "oget (assemblies l) i")
  case None
  let ?l1 = "maintain now l"
  let ?a = "\<lparr>parts = [], part_total = n, a_bytes = 0, since = now, updated = now\<rparr>"
  have l1: "link_inv ?l1" using assms(1) by (rule maintain_inv)
  show ?thesis
  proof (cases "length (assemblies ?l1) \<ge> MAX_ASSEMBLIES")
    case True
    with None l1 show ?thesis by (simp add: add_part_def)
  next
    case False
    let ?l2 = "?l1\<lparr>assemblies := oset i ?a (assemblies ?l1)\<rparr>"
    have new: "oget (assemblies ?l1) i = None"
    proof -
      have "set (assemblies ?l1) \<subseteq> set (assemblies l)"
        by (simp add: maintain_assemblies)
      with None show ?thesis by (auto simp: oget_None_iff)
    qed
    have "assembly_ok ?a" by (simp add: assembly_ok_def MAX_PACKET_def)
    then have "assemblies_inv (?l1\<lparr>assemblies := oset i ?a (assemblies ?l1), assemblyBytes := assemblyBytes ?l1\<rparr>)"
      using l1 False new
      by (auto simp: link_inv_def assemblies_inv_def osum_replace set_oset length_oset new new [unfolded oget_None_iff])
    then have "link_inv ?l2" using assemblies_frame [OF l1] by fastforce
    then show ?thesis
      using None False store_part_inv [of ?l2 i ?a index n now data] assms(2)
      by (simp add: add_part_def Let_def oget_oset)
  qed
next
  case (Some a)
  with assms show ?thesis by (simp add: add_part_def store_part_inv)
qed

section \<open>The writer\<close>

definition same_retained :: "transfer \<Rightarrow> transfer \<Rightarrow> bool" where
  "same_retained t u \<longleftrightarrow> r_packet t = r_packet u \<and> encoded t = encoded u \<and> r_bytes t = r_bytes u"

definition replace_transfer :: "transfer \<Rightarrow> ustr \<times> transfer \<Rightarrow> ustr \<times> transfer" where
  "replace_transfer t e = (fst e, if tag (snd e) = tag t then t else snd e)"

lemma replace_transfer_simps [simp]:
  "fst (replace_transfer t e) = fst e" "snd (replace_transfer t e) = (if tag (snd e) = tag t then t else snd e)"
  by (simp_all add: replace_transfer_def)

lemma update_transfer_map: "update_transfer t l = l\<lparr>pending := map (replace_transfer t) (pending l)\<rparr>"
  by (simp add: update_transfer_def replace_transfer_def case_prod_beta)

lemma update_accounts:
  assumes "accounts_inv l" "next_part t \<le> part_count t"
    and same: "\<And>e. e \<in> set (pending l) \<Longrightarrow> tag (snd e) = tag t \<Longrightarrow> same_retained t (snd e)"
  shows "accounts_inv (update_transfer t l)"
proof -
  let ?m = "pending l"
  have keep: "r_bytes (snd (replace_transfer t e)) = r_bytes (snd e)" "low_class (replace_transfer t e) = low_class e"
    "fst (replace_transfer t e) = fst e" "tag (snd (replace_transfer t e)) = tag (snd e)"
    "transfer_ok g e \<Longrightarrow> transfer_ok g (replace_transfer t e)" if "e \<in> set ?m" for e g
    using same [OF that] assms(2)
    by (auto simp: replace_transfer_def low_class_def same_retained_def transfer_ok_def)
  have "filter low_class (map (replace_transfer t) ?m) = map (replace_transfer t) (filter low_class ?m)"
    unfolding filter_map by (simp add: comp_def keep(2) cong: filter_cong)
  moreover have "osum r_bytes (map (replace_transfer t) n) = osum r_bytes n" if "set n \<subseteq> set ?m" for n
    unfolding osum_def map_map comp_def
    by (rule arg_cong [of _ _ sum_list], rule map_cong [OF refl]) (use that keep(1) in blast)
  moreover have "map fst (map (replace_transfer t) ?m) = map fst ?m"
    "map (\<lambda>e. tag (snd e)) (map (replace_transfer t) ?m) = map (\<lambda>e. tag (snd e)) ?m"
    using keep(3,4) by simp_all
  moreover have "list_all (transfer_ok (fresh l)) (map (replace_transfer t) ?m)"
    using assms(1) keep(5) by (auto simp: accounts_inv_def list_all_iff)
  ultimately show ?thesis
    using assms(1) by (simp add: accounts_inv_def update_transfer_map owf_def del: map_map)
qed

lemma occupied_replace:
  assumes "\<And>e. e \<in> set m \<Longrightarrow> tag (snd e) = tag t \<Longrightarrow>
      prio_of t = prio_of (snd e) \<and> (partial t \<or> inFlight t \<longrightarrow> partial (snd e) \<or> inFlight (snd e))"
  shows "occupied (map snd (map (replace_transfer t) m)) ps \<le> occupied (map snd m) ps"
  unfolding occupied_def map_map comp_def
  by (rule sum_list_mono) (use assms in \<open>auto simp: occupies_def replace_transfer_def\<close>)

lemma occupied_start:
  assumes "distinct (map (\<lambda>e. tag (snd e)) m)" "(i, u) \<in> set m" "tag t = tag u" "prio_of t = prio_of u"
    and "\<not> partial u" "\<not> inFlight u"
  shows "occupied (map snd (map (replace_transfer t) m)) ps \<le> occupied (map snd m) ps + (if prio_of t \<in> ps then 1 else 0)"
  using assms
proof (induction m)
  case (Cons e m)
  show ?case
  proof (cases "tag (snd e) = tag t")
    case True
    with Cons.prems have "\<And>f. f \<in> set m \<Longrightarrow> tag (snd f) \<noteq> tag t" by force
    then have "occupied (map snd (map (replace_transfer t) m)) ps \<le> occupied (map snd m) ps"
      by (intro occupied_replace) auto
    moreover have "occupies ps t \<le> (if prio_of t \<in> ps then 1 else 0)" by (simp add: occupies_def)
    ultimately show ?thesis using True by (auto simp: occupied_def split: if_splits)
  next
    case False
    with Cons.prems have "(i, u) \<in> set m" by auto
    with Cons.IH Cons.prems False show ?thesis by (simp add: occupied_def)
  qed
qed simp

lemma update_inv:
  assumes inv: "link_inv l" and t: "next_part t \<le> part_count t"
    and same: "\<And>e. e \<in> set (pending l) \<Longrightarrow> tag (snd e) = tag t \<Longrightarrow> same_retained t (snd e)"
    and slots: "slots_inv (map snd (map (replace_transfer t) (pending l)))"
    and writer: "writer_ok p (map (replace_transfer t) (pending l)) (fresh l)"
  shows "link_inv ((update_transfer t l)\<lparr>pump := p\<rparr>)"
proof -
  have "accounts_inv (update_transfer t l)"
    using inv t same by (intro update_accounts) (simp_all add: link_inv_def)
  then show ?thesis
    using inv slots writer
    by (simp add: link_inv_def link_parts update_transfer_map ovals_def)
qed

lemma quiet_occupied:
  assumes "\<forall>t \<in> set ts. \<not> inFlight t"
  shows "occupied ts UNIV = length (partials ts)" "occupied ts {p} = partial_count ts p"
    "occupied ts {Normal, Bulk} = partial_count ts Normal + partial_count ts Bulk"
proof -
  show "occupied ts UNIV = length (partials ts)"
    using assms by (induction ts) (auto simp: occupied_def occupies_def partials_def)
  show "occupied ts {p} = partial_count ts p"
    using assms by (induction ts) (auto simp: occupied_def occupies_def partial_count_def partials_def)
  show "occupied ts {Normal, Bulk} = partial_count ts Normal + partial_count ts Bulk"
    using assms by (induction ts) (auto simp: occupied_def occupies_def partial_count_def partials_def)
qed

text \<open>While no fragment is being written, no queued transfer is in flight.\<close>

definition quiet :: "link \<Rightarrow> bool" where
  "quiet l \<longleftrightarrow> (\<forall>e \<in> set (pending l). \<not> inFlight (snd e))"

lemma maintain_frame:
  "pump (maintain now l) = pump l" "active (maintain now l) = active l" "turn (maintain now l) = turn l"
  "set (pending (maintain now l)) \<subseteq> set (pending l)" "priorityTurns (maintain now l) = priorityTurns l"
  "fresh (maintain now l) = fresh l" "resynchronize (maintain now l) = resynchronize l" "medium (maintain now l) = medium l"
proof -
  have a: "pump (fold removeAssembly ks l) = pump l \<and> active (fold removeAssembly ks l) = active l \<and>
      turn (fold removeAssembly ks l) = turn l \<and> pending (fold removeAssembly ks l) = pending l \<and>
      priorityTurns (fold removeAssembly ks l) = priorityTurns l \<and> fresh (fold removeAssembly ks l) = fresh l \<and>
      resynchronize (fold removeAssembly ks l) = resynchronize l \<and> medium (fold removeAssembly ks l) = medium l" for ks l
    by (induction ks arbitrary: l) (auto simp: removeAssembly_def split: option.split)
  have t: "pump (fold removeTransfer ks l) = pump l \<and> active (fold removeTransfer ks l) = active l \<and>
      turn (fold removeTransfer ks l) = turn l \<and>
      priorityTurns (fold removeTransfer ks l) = priorityTurns l \<and> fresh (fold removeTransfer ks l) = fresh l \<and>
      resynchronize (fold removeTransfer ks l) = resynchronize l \<and> medium (fold removeTransfer ks l) = medium l" for ks l
    by (induction ks arbitrary: l) (auto simp: removeTransfer_def split: option.split)
  show "pump (maintain now l) = pump l" "active (maintain now l) = active l" "turn (maintain now l) = turn l"
    "priorityTurns (maintain now l) = priorityTurns l"
    "fresh (maintain now l) = fresh l" "resynchronize (maintain now l) = resynchronize l" "medium (maintain now l) = medium l"
    using a t by (simp_all add: maintain_def Let_def)
  show "set (pending (maintain now l)) \<subseteq> set (pending l)"
    using a by (auto simp: maintain_def Let_def pending_account.entries_removes)
qed

lemma quiet_maintain: "quiet l \<Longrightarrow> quiet (maintain now l)"
  using maintain_frame(4) by (auto simp: quiet_def)

lemma idle_inv: "link_inv l \<Longrightarrow> quiet l \<Longrightarrow> link_inv (l\<lparr>pump := p, queued := length (pending l)\<rparr>)"
  if "p = Idle \<or> (\<exists>ct. p = Yielded ct)"
  using that by (auto simp: link_inv_def link_parts quiet_def)

lemma select_due:
  assumes "select low now l = Some t"
  shows "t \<in> set (ovals (pending l))" "due low (medium l) now (ovals (pending l)) t"
proof -
  have "t \<in> set (filter (due low (medium l) now (ovals (pending l))) (ovals (pending l)))"
    using assms set_sort [of "service_key l" "filter (due low (medium l) now (ovals (pending l))) (ovals (pending l))"]
    by (auto simp: select_def Let_def simp del: set_sort split: list.splits)
  then show "t \<in> set (ovals (pending l))" "due low (medium l) now (ovals (pending l)) t" by auto
qed

text \<open>The limits checked by \<open>select\<close> are the limits on the transfers in progress.\<close>

lemma start_slots:
  assumes inv: "link_inv l" "quiet l" and mem: "(i, u) \<in> set (pending l)"
    and due: "due low (medium l) now (ovals (pending l)) u"
    and t: "tag t = tag u" "same_retained t u" "partial u \<longrightarrow> partial t"
  shows "slots_inv (map snd (map (replace_transfer t) (pending l)))"
proof -
  let ?m = "pending l" and ?ts = "map snd (pending l)"
  have prio: "prio_of t = prio_of u" using t(2) by (simp add: same_retained_def)
  have q: "\<forall>t \<in> set ?ts. \<not> inFlight t" using inv(2) by (auto simp: quiet_def)
  note occ = quiet_occupied [OF q]
  have old: "slots_inv ?ts" using inv(1) by (simp add: link_inv_def ovals_def)
  have tags: "distinct (map (\<lambda>e. tag (snd e)) ?m)" using inv(1) by (simp add: link_inv_def accounts_inv_def)
  have unique: "snd e = u" if "e \<in> set ?m" "tag (snd e) = tag t" for e
    using tag_inj [of l "fst e" "snd e" i u] inv(1) that mem t(1) by (simp add: link_inv_def)
  show ?thesis
  proof (cases "partial u")
    case True
    have "occupied (map snd (map (replace_transfer t) ?m)) ps \<le> occupied ?ts ps" for ps
      by (rule occupied_replace) (use unique True prio in auto)
    with old show ?thesis unfolding slots_inv_def by (meson order_trans)
  next
    case False
    have up: "occupied (map snd (map (replace_transfer t) ?m)) ps \<le> occupied ?ts ps + (if prio_of t \<in> ps then 1 else 0)" for ps
      by (rule occupied_start [OF tags mem t(1) prio False]) (use inv(2) mem in \<open>auto simp: quiet_def\<close>)
    have limits: "length (partials ?ts) < MAX_ASSEMBLIES"
      "prio_of u = SOS \<Longrightarrow> partial_count ?ts SOS < 7"
      "prio_of u \<noteq> SOS \<Longrightarrow> partial_count ?ts Normal + partial_count ?ts Bulk < 6 \<and> partial_count ?ts (prio_of u) < 5"
      using due False by (auto simp: due_def ovals_def split: if_splits)
    have "prio_of u = SOS \<or> prio_of u = Normal \<or> prio_of u = Bulk" by (cases "prio_of u") auto
    then show ?thesis
      using up [of UNIV] up [of "{SOS}"] up [of "{Normal, Bulk}"] up [of "{Normal}"] up [of "{Bulk}"] old limits
      unfolding slots_inv_def occ prio MAX_ASSEMBLIES_def by (elim disjE) simp_all
  qed
qed

lemma part_count_pos: "1 \<le> r_bytes t \<Longrightarrow> 0 < part_count t"
  by (simp add: part_count_def FRAGMENT_def)

lemma part_count_cong [simp]: "part_count (t\<lparr>next_part := a\<rparr>) = part_count t" "part_count (t\<lparr>attempts := b\<rparr>) = part_count t"
  "part_count (t\<lparr>inFlight := c\<rparr>) = part_count t" "part_count (t\<lparr>scheduled := d\<rparr>) = part_count t"
  "part_count (t\<lparr>sent_at := e\<rparr>) = part_count t"
  by (simp_all add: part_count_def)


lemma start_transfer_frame:
  "r_packet (start_transfer t) = r_packet t" "encoded (start_transfer t) = encoded t" "r_bytes (start_transfer t) = r_bytes t"
  "tag (start_transfer t) = tag t" "inFlight (start_transfer t)" "part_count (start_transfer t) = part_count t"
  "next_part (start_transfer t) = (if next_part t \<ge> part_count t then 0 else next_part t)"
  by (simp_all add: start_transfer_def Let_def)

lemma pump_body_cases:
  assumes "pump_body low now ct (c, l0) = (c', l')"
  obtains i where "i \<in> set (controls (maintain now l0))" "acksWindow (maintain now l0) < MAX_ACKS_PER_SECOND" "c' = c"
      "l' = (maintain now l0)\<lparr>acksWindow := acksWindow (maintain now l0) + 1,
        acknowledged := oset i now (acknowledged (maintain now l0)), pump := Awaiting (Ack i) ct\<rparr>"
  | "select low now (maintain now l0) = None" "c' = c"
      "l' = (maintain now l0)\<lparr>pump := Idle, queued := length (pending (maintain now l0))\<rparr>"
  | t where "select low now (maintain now l0) = Some t"
      "c' = (if next_part (start_transfer t) = 0 \<and> attempts (start_transfer t) > 1 then c\<lparr>retransmits := retransmits c + 1\<rparr> else c)"
      "l' = (update_transfer (start_transfer t) (maintain now l0))\<lparr>turn := turn (maintain now l0) + 1,
        pump := Awaiting (Part (start_transfer t) (next_part (start_transfer t)) (part_count t)
          (fragment_of (encoded (start_transfer t)) (next_part (start_transfer t)))) ct\<rparr>"
proof -
  let ?l = "maintain now l0"
  have ack: "i \<in> set (controls ?l) \<and> acksWindow ?l < MAX_ACKS_PER_SECOND" if "next_ack ?l = Some i" for i
    using that by (auto simp: next_ack_def split: if_splits list.splits)
  show ?thesis
  proof (cases "next_ack ?l \<noteq> None \<and> (ct \<or> select low now ?l = None)")
    case True
    then obtain i where i: "next_ack ?l = Some i" by blast
    with True ack [OF i] that(1) [of i] assms show ?thesis by (simp add: pump_body_def Let_def)
  next
    case False
    have body: "pump_body low now ct (c, l0) = (case select low now ?l of
        None \<Rightarrow> (c, ?l\<lparr>pump := Idle, queued := length (pending ?l)\<rparr>)
      | Some t \<Rightarrow> ((if next_part (start_transfer t) = 0 \<and> attempts (start_transfer t) > 1
            then c\<lparr>retransmits := retransmits c + 1\<rparr> else c),
          (update_transfer (start_transfer t) ?l)\<lparr>turn := turn ?l + 1,
            pump := Awaiting (Part (start_transfer t) (next_part (start_transfer t)) (part_count t)
              (fragment_of (encoded (start_transfer t)) (next_part (start_transfer t)))) ct\<rparr>))"
      using False unfolding pump_body_def Let_def by (simp only: prod.case if_False)
    show ?thesis
    proof (cases "select low now ?l")
      case None
      show ?thesis by (rule that(2) [OF None]) (use body assms None in simp_all)
    next
      case (Some t)
      show ?thesis by (rule that(3) [OF Some]) (use body assms Some in simp_all)
    qed
  qed
qed

lemma pump_body_inv:
  assumes inv: "link_inv l0" "quiet l0" and run: "pump_body low now ct (c, l0) = (c', l')"
  shows "link_inv l'"
proof -
  let ?l = "maintain now l0"
  have l: "link_inv ?l" "quiet ?l" using inv by (simp_all add: maintain_inv quiet_maintain)
  from run show ?thesis
  proof (cases rule: pump_body_cases)
    case (1 i)
    with l show ?thesis by (simp add: link_inv_def link_parts quiet_def)
  next
    case 2
    with l show ?thesis by (simp add: idle_inv)
  next
    case (3 t)
    let ?t = "start_transfer t"
    from select_due [OF 3(1)] obtain i where mem: "(i, t) \<in> set (pending ?l)"
      and due: "due low (medium ?l) now (ovals (pending ?l)) t" by (auto simp: ovals_def)
    have ok: "transfer_ok (fresh ?l) (i, t)" using l(1) mem by (auto simp: link_inv_def accounts_inv_def list_all_iff)
    have pos: "0 < part_count t" using ok by (simp add: transfer_ok_def part_count_pos)
    have same: "same_retained ?t t" by (simp add: same_retained_def start_transfer_frame)
    have unique: "snd e = t" if "e \<in> set (pending ?l)" "tag (snd e) = tag ?t" for e
      using tag_inj [of ?l "fst e" "snd e" i t] l(1) that mem by (simp add: link_inv_def start_transfer_frame)
    have nxt: "next_part ?t < part_count ?t" using pos by (simp add: start_transfer_frame)
    have okt: "transfer_ok (fresh ?l) (p_id (r_packet ?t), ?t)"
      using ok nxt by (simp add: transfer_ok_def start_transfer_frame)
    let ?p = "Awaiting (Part ?t (next_part ?t) (part_count t) (fragment_of (encoded ?t) (next_part ?t))) ct"
    have "slots_inv (map snd (map (replace_transfer ?t) (pending ?l)))"
      by (rule start_slots [OF l mem due]) (auto simp: same partial_def start_transfer_frame)
    moreover have "writer_ok ?p (map (replace_transfer ?t) (pending ?l)) (fresh ?l)"
      using nxt okt l(2) by (auto simp: start_transfer_frame quiet_def)
    ultimately have "link_inv ((update_transfer ?t ?l)\<lparr>pump := ?p\<rparr>)"
      using nxt same unique by (intro update_inv [OF l(1)]) auto
    then show ?thesis unfolding 3(3) by (simp add: link_inv_def link_parts)
  qed
qed

lemma pump_loop_inv:
  assumes "link_inv l" "quiet l" "pump_loop low now ct (c, l) = (c', l')"
  shows "link_inv l'"
proof (cases "active l \<and> \<not> resynchronize l")
  case True
  with assms show ?thesis by (simp add: pump_loop_def pump_body_inv [OF assms(1,2)])
next
  case False
  have "link_inv (l\<lparr>resynchronize := False, pump := Awaiting Blank ct\<rparr>)"
    using assms(1,2) by (simp add: link_inv_def link_parts quiet_def)
  with False assms(3) idle_inv [OF _ assms(1,2), of Idle] show ?thesis
    by (cases "active l") (auto simp: pump_loop_def)
qed

text \<open>Outside a fragment write the writer invariant says that the link is quiet.\<close>

lemma writer_quiet:
  assumes "link_inv l" "\<And>t k n d ct. pump l \<noteq> Awaiting (Part t k n d) ct"
  shows "quiet l"
proof (cases "pump l")
  case (Awaiting f ct)
  then have "f \<noteq> Part t k n d" for t k n d using assms(2) [of t k n d ct] by auto
  with Awaiting assms(1) show ?thesis by (cases f) (auto simp: link_inv_def writer_inv_def quiet_def)
qed (use assms in \<open>auto simp: link_inv_def writer_inv_def quiet_def\<close>)

lemma pump_call_inv:
  assumes "link_inv l" "pump_call low now (c, l) = (c', l')"
  shows "link_inv l'"
proof -
  let ?l = "maintain now l"
  have l: "link_inv ?l" using assms(1) by (rule maintain_inv)
  show ?thesis
  proof (cases "pump ?l \<noteq> Idle \<or> \<not> active ?l")
    case True
    with assms(2) l show ?thesis by (simp add: pump_call_def)
  next
    case False
    then have "quiet ?l" using l by (intro writer_quiet) auto
    with False assms(2) l show ?thesis by (auto simp: pump_call_def intro: pump_loop_inv)
  qed
qed

lemma pump_resume_inv:
  assumes "link_inv l" "pump_resume low now (c, l) = (c', l')"
  shows "link_inv l'"
proof (cases "\<exists>ct. pump l = Yielded ct")
  case True
  then have "quiet l" using assms(1) by (intro writer_quiet) auto
  with True assms show ?thesis by (auto simp: pump_resume_def intro: pump_loop_inv)
next
  case False
  with assms show ?thesis by (auto simp: pump_resume_def split: pump_state.splits)
qed

text \<open>The transfer after its fragment was written.\<close>

definition end_transfer :: "int \<Rightarrow> nat \<Rightarrow> nat \<Rightarrow> transfer \<Rightarrow> transfer" where
  "end_transfer now tn n t =
     (let t2 = t\<lparr>inFlight := False, next_part := next_part t + 1, scheduled := tn\<rparr>
      in if next_part t2 = n then t2\<lparr>sent_at := now\<rparr> else t2)"

lemma end_transfer_frame:
  "r_packet (end_transfer now tn n t) = r_packet t" "encoded (end_transfer now tn n t) = encoded t"
  "r_bytes (end_transfer now tn n t) = r_bytes t" "tag (end_transfer now tn n t) = tag t"
  "\<not> inFlight (end_transfer now tn n t)" "part_count (end_transfer now tn n t) = part_count t"
  "next_part (end_transfer now tn n t) = next_part t + 1"
  by (simp_all add: end_transfer_def Let_def)

lemma after_write_inv:
  assumes inv: "link_inv l" and pump: "pump l = Awaiting (Part t k n d) ct"
    and u: "tag u = tag t" "same_retained u t" "\<not> inFlight u" "next_part u \<le> part_count u"
    and p: "p = Idle \<or> (\<exists>ct. p = Yielded ct)"
  shows "link_inv ((update_transfer u l)\<lparr>pump := p\<rparr>)"
proof -
  have w: "inFlight t" "\<And>e. e \<in> set (pending l) \<Longrightarrow> inFlight (snd e) \<Longrightarrow> tag (snd e) = tag t"
    "\<And>e. e \<in> set (pending l) \<Longrightarrow> tag (snd e) = tag t \<Longrightarrow> snd e = t"
    using inv by (auto simp: link_inv_def writer_inv_def pump)
  have prio: "prio_of u = prio_of t" using u(2) by (simp add: same_retained_def)
  have "occupied (map snd (map (replace_transfer u) (pending l))) ps \<le> occupied (map snd (pending l)) ps" for ps
    by (rule occupied_replace) (use w u(1) prio in auto)
  moreover have "slots_inv (map snd (pending l))" using inv by (simp add: link_inv_def ovals_def)
  ultimately have "slots_inv (map snd (map (replace_transfer u) (pending l)))"
    unfolding slots_inv_def by (meson order_trans)
  moreover have "writer_ok p (map (replace_transfer u) (pending l)) (fresh l)"
    using p w u(1,3) by auto
  ultimately show ?thesis
    using w(3) u by (intro update_inv [OF inv]) auto
qed

lemma queued_inv: "link_inv (l\<lparr>pump := p\<rparr>) \<Longrightarrow> link_inv (l\<lparr>pump := p, queued := length (pending l)\<rparr>)"
  by (simp add: link_inv_def link_parts)

lemma write_done_inv:
  assumes inv: "link_inv l" and run: "write_done low now ok (c, l) = (c', l')"
  shows "link_inv l'"
proof (cases "pump l")
  case (Awaiting f ct)
  show ?thesis
  proof (cases f)
    case Blank
    with Awaiting have "quiet l" using inv by (intro writer_quiet) auto
    with Awaiting Blank run inv show ?thesis
      by (auto simp: write_done_def idle_inv split: if_splits intro: pump_body_inv)
  next
    case (Ack i)
    with Awaiting have "quiet l" using inv by (intro writer_quiet) auto
    note quiet = this
    have "length (removeAll i (controls l)) \<le> MAX_CONTROL"
      using inv length_removeAll_less_eq [of i "controls l"] unfolding link_inv_def control_inv_def by linarith
    then have "link_inv (l\<lparr>controls := removeAll i (controls l), pump := Yielded False\<rparr>)"
      using inv quiet by (simp add: link_inv_def link_parts quiet_def distinct_removeAll)
    with idle_inv [OF _ inv quiet, of Idle] Awaiting Ack run show ?thesis
      by (cases "ok \<and> active l") (auto simp: write_done_def Let_def)
  next
    case (Part t k n d)
    let ?l = "if cancelled t \<and> ok \<and> active l then notifyCancel (p_id (r_packet t)) l else l"
    have l: "link_inv ?l" "pump ?l = Awaiting (Part t k n d) ct" "pending ?l = pending l" "turn ?l = turn l"
      using inv Awaiting Part by (simp_all add: notify_frame(1,2)) (simp add: notifyCancel_def)
    have t: "k = next_part t" "n = part_count t" "k < n" using inv by (simp_all add: link_inv_def writer_inv_def Awaiting Part)
    show ?thesis
    proof (cases "ok \<and> active l")
      case True
      have "link_inv ((update_transfer (end_transfer now (turn l) n t) ?l)\<lparr>pump := Yielded True\<rparr>)"
        by (rule after_write_inv [OF l(1,2)]) (use t in \<open>auto simp: end_transfer_frame same_retained_def\<close>)
      moreover have "l' = (update_transfer (end_transfer now (turn l) n t) ?l)\<lparr>priorityTurns := (priorityTurns l)(prio_of t := turn l),
          pump := Yielded True\<rparr>"
        using run True Awaiting Part by (auto simp: write_done_def Let_def end_transfer_def)
      ultimately show ?thesis by (simp add: link_inv_def link_parts)
    next
      case False
      have "link_inv ((update_transfer (t\<lparr>inFlight := False\<rparr>) ?l)\<lparr>pump := Idle\<rparr>)"
        by (rule after_write_inv [OF l(1,2)]) (use t in \<open>auto simp: same_retained_def\<close>)
      then have "link_inv ((update_transfer (t\<lparr>inFlight := False\<rparr>) l)\<lparr>pump := Idle\<rparr>)" using False by auto
      then have "link_inv ((update_transfer (t\<lparr>inFlight := False\<rparr>) l)\<lparr>pump := Idle,
          queued := length (pending (update_transfer (t\<lparr>inFlight := False\<rparr>) l))\<rparr>)" by (rule queued_inv)
      moreover have "l' = (update_transfer (t\<lparr>inFlight := False\<rparr>) l)\<lparr>pump := Idle,
          queued := length (pending (update_transfer (t\<lparr>inFlight := False\<rparr>) l))\<rparr>"
        using run False Awaiting Part by (auto simp: write_done_def Let_def)
      ultimately show ?thesis by simp
    qed
  qed
qed (use assms in \<open>auto simp: write_done_def\<close>)

lemma new_link_inv: "link_inv (new_link m now)"
  by (simp add: link_inv_def link_parts new_link_def occupied_def ovals_def MAX_PENDING_def)

lemma parse_frame_part: "parse_frame f = Some (InPart i k n d) \<Longrightarrow> k < n \<and> d \<noteq> [] \<and> length d \<le> FRAGMENT"
  by (auto simp: parse_frame_def Let_def nat_less_iff split: if_splits)

end
