(* ===== verification/Link_Queue.thy ===== *)
theory Link_Queue
  imports Link_Inv
begin

text \<open>
  Queueing a packet on a link: the loop that makes room, what it may evict, and the invariant
  over whole runs of a link.
\<close>

section \<open>Making room\<close>

lemma make_roomE:
  assumes "make_room p b (c, l) = (room, c', l')" "accounts_inv l"
  obtains ks where "l' = fold removeTransfer ks l" "\<forall>k \<in> set ks. \<exists>t. oget (pending l) k = Some t \<and> evictable p t"
    "room \<Longrightarrow> length (pending l') < slots_for p \<and> b + pendingBytes l' \<le> limit_for p"
    "\<not> room \<Longrightarrow> \<forall>e \<in> set (pending l'). \<not> evictable p (snd e)"
    "\<not> room \<Longrightarrow> slots_for p \<le> length (pending l') \<or> limit_for p < b + pendingBytes l'"
  using assms
proof (induction p b "(c, l)" arbitrary: c l thesis rule: make_room.induct)
  case (1 p b c l)
  show ?case
  proof (cases "length (pending l) \<ge> slots_for p \<or> b + pendingBytes l > limit_for p")
    case False
    with "1.prems"(2) show ?thesis by (intro "1.prems"(1) [of "[]"]) (auto simp: make_room.simps)
  next
    case full: True
    show ?thesis
    proof (cases "victims p l")
      case Nil
      then have "\<forall>e \<in> set (pending l). \<not> evictable p (snd e)" using victims_in [of _ p l] by auto
      with Nil full "1.prems"(2) show ?thesis
        by (intro "1.prems"(1) [of "[]"]) (auto simp: make_room.simps)
    next
      case (Cons v vs)
      let ?l1 = "removeTransfer (fst v) l"
      have acc: "accounts_inv ?l1"
        using removeTransfer_drop [OF "1.prems"(3)] accounts_drop [OF "1.prems"(3)] by simp
      have wf: "owf (pending l)" using "1.prems"(3) by (simp add: accounts_inv_def)
      have v: "v \<in> set (pending l)" "evictable p (snd v)" using victims_in [of v p l] Cons by simp_all
      have run: "make_room p b (c\<lparr>dropped := dropped c + 1\<rparr>, ?l1) = (room, c', l')"
        using "1.prems"(2) full Cons by (simp add: make_room.simps [of p b c l])
      obtain ks where ks: "l' = fold removeTransfer ks ?l1"
        "\<forall>k \<in> set ks. \<exists>t. oget (pending ?l1) k = Some t \<and> evictable p t"
        "room \<Longrightarrow> length (pending l') < slots_for p \<and> b + pendingBytes l' \<le> limit_for p"
        "\<not> room \<Longrightarrow> \<forall>e \<in> set (pending l'). \<not> evictable p (snd e)"
        "\<not> room \<Longrightarrow> slots_for p \<le> length (pending l') \<or> limit_for p < b + pendingBytes l'"
        using "1.hyps" [OF full Cons _ run acc] by blast
      have "\<exists>t. oget (pending l) k = Some t \<and> evictable p t" if "k \<in> set (fst v # ks)" for k
        using that ks(2) v oget_in_set [OF wf, of "fst v" "snd v"]
        by (cases "k = fst v") (auto simp: pending_account.entries_remove oget_odel split: if_splits)
      then show ?thesis using ks by (intro "1.prems"(1) [of "fst v # ks"]) auto
    qed
  qed
qed

section \<open>Enqueueing\<close>

definition retained_ok :: "retained \<Rightarrow> bool" where
  "retained_ok v \<longleftrightarrow> r_bytes v = int (length (encoded v)) \<and> 1 \<le> r_bytes v \<and> r_bytes v \<le> MAX_PACKET"

lemma new_transfer_frame:
  "r_packet (new_transfer v l) = r_packet v" "encoded (new_transfer v l) = encoded v" "r_bytes (new_transfer v l) = r_bytes v"
  "next_part (new_transfer v l) = 0" "\<not> inFlight (new_transfer v l)" "tag (new_transfer v l) = fresh l"
  by (simp_all add: new_transfer_def retained.extend_def)

definition add_transfer :: "retained \<Rightarrow> link \<Rightarrow> link" where
  "add_transfer v l =
     (let m = oset (p_id (r_packet v)) (new_transfer v l) (pending l) in
      l\<lparr>pending := m, fresh := fresh l + 1, pendingBytes := pendingBytes l + r_bytes v, queued := length m\<rparr>)"

lemma add_transfer_inv:
  assumes inv: "link_inv l" and v: "retained_ok v" and new: "oget (pending l) (p_id (r_packet v)) = None"
    and room: "length (pending l) < slots_for (p_prio (r_packet v))" "r_bytes v + pendingBytes l \<le> limit_for (p_prio (r_packet v))"
  shows "link_inv (add_transfer v l)"
proof -
  let ?i = "p_id (r_packet v)" and ?t = "new_transfer v l" and ?m = "pending l"
  have m: "oset ?i ?t ?m = ?m @ [(?i, ?t)]" using new by (intro oset_absent) (simp add: oget_None_iff)
  have acc: "accounts_inv l" using inv by (simp add: link_inv_def)
  have tags: "tag (snd e) < fresh l" if "e \<in> set ?m" for e
    using acc that by (auto simp: accounts_inv_def list_all_iff transfer_ok_def)
  have old: "list_all (transfer_ok (Suc (fresh l))) ?m"
    using acc by (fastforce simp: accounts_inv_def list_all_iff transfer_ok_def)
  have "transfer_ok (Suc (fresh l)) (?i, ?t)"
    using v by (simp add: transfer_ok_def retained_ok_def new_transfer_frame)
  moreover have "low_class (?i, ?t) \<longleftrightarrow> p_prio (r_packet v) \<noteq> SOS" by (simp add: low_class_def new_transfer_frame)
  moreover have "Suc (length (filter low_class ?m)) \<le> MAX_TRANSFERS - 2" if "p_prio (r_packet v) \<noteq> SOS"
    using room(1) that length_filter_le [of low_class ?m] unfolding slots_for_def by (simp del: length_filter_le)
  moreover have "osum r_bytes (filter low_class ?m) \<le> osum r_bytes ?m"
    using osum_filter_mono [of ?m "\<lambda>_. True" r_bytes low_class] acc
    by (fastforce simp: accounts_inv_def list_all_iff transfer_ok_def)
  moreover have "distinct (map (\<lambda>e. tag (snd e)) (?m @ [(?i, ?t)]))"
    using acc tags by (force simp: accounts_inv_def new_transfer_frame)
  moreover have "owf (?m @ [(?i, ?t)])"
    using acc new by (simp add: accounts_inv_def owf_def oget_None_iff)
  ultimately have "accounts_inv (add_transfer v l)"
    using acc room old
    by (auto simp: accounts_inv_def add_transfer_def m new_transfer_frame slots_for_def limit_for_def MAX_TRANSFERS_def split: if_splits)
  moreover have "slots_inv (ovals (?m @ [(?i, ?t)]))"
  proof -
    have "occupied (ovals (?m @ [(?i, ?t)])) ps = occupied (ovals ?m) ps" for ps
      by (simp add: occupied_def ovals_def occupies_def partial_def new_transfer_frame)
    then show ?thesis using inv by (simp add: link_inv_def slots_inv_def)
  qed
  moreover have "writer_ok (pump l) (?m @ [(?i, ?t)]) (Suc (fresh l))"
    using inv tags
    by (auto simp: link_inv_def writer_inv_def writer_ok_def new_transfer_frame transfer_ok_def
        split: pump_state.splits out_frame.splits)
  ultimately show ?thesis
    using inv by (simp add: link_inv_def writer_inv_def add_transfer_def m assemblies_inv_def control_inv_def)
qed

lemma enqueue_cases:
  assumes "enqueue low now v (c, l) = (c', l')" "accounts_inv l"
  obtains "\<not> active l \<or> oget (pending l) (p_id (r_packet v)) \<noteq> None \<or> p_expires (r_packet v) \<le> now" "c' = c" "l' = l"
  | ks where "active l" "oget (pending l) (p_id (r_packet v)) = None" "now < p_expires (r_packet v)"
      "\<forall>k \<in> set ks. \<exists>t. oget (pending l) k = Some t \<and> evictable (p_prio (r_packet v)) t"
      "l' = fold removeTransfer ks l" "\<forall>e \<in> set (pending l'). \<not> evictable (p_prio (r_packet v)) (snd e)"
      "slots_for (p_prio (r_packet v)) \<le> length (pending l') \<or> limit_for (p_prio (r_packet v)) < r_bytes v + pendingBytes l'"
  | ks c1 l1 where "active l" "oget (pending l) (p_id (r_packet v)) = None" "now < p_expires (r_packet v)"
      "\<forall>k \<in> set ks. \<exists>t. oget (pending l) k = Some t \<and> evictable (p_prio (r_packet v)) t"
      "l1 = fold removeTransfer ks l" "length (pending l1) < slots_for (p_prio (r_packet v))"
      "r_bytes v + pendingBytes l1 \<le> limit_for (p_prio (r_packet v))"
      "pump_call low now (c1, add_transfer v l1) = (c', l')"
proof -
  obtain room c1 l1 where room: "make_room (p_prio (r_packet v)) (r_bytes v) (c, l) = (room, c1, l1)"
    by (cases "make_room (p_prio (r_packet v)) (r_bytes v) (c, l)") auto
  from room assms(2) obtain ks where ks: "l1 = fold removeTransfer ks l"
    "\<forall>k \<in> set ks. \<exists>t. oget (pending l) k = Some t \<and> evictable (p_prio (r_packet v)) t"
    "room \<Longrightarrow> length (pending l1) < slots_for (p_prio (r_packet v)) \<and> r_bytes v + pendingBytes l1 \<le> limit_for (p_prio (r_packet v))"
    "\<not> room \<Longrightarrow> \<forall>e \<in> set (pending l1). \<not> evictable (p_prio (r_packet v)) (snd e)"
    "\<not> room \<Longrightarrow> slots_for (p_prio (r_packet v)) \<le> length (pending l1) \<or> limit_for (p_prio (r_packet v)) < r_bytes v + pendingBytes l1"
    by (rule make_roomE) blast
  show thesis
  proof (cases "\<not> active l \<or> oget (pending l) (p_id (r_packet v)) \<noteq> None \<or> p_expires (r_packet v) \<le> now")
    case True
    with assms(1) show ?thesis by (intro that(1)) (auto simp: enqueue_def ohas_iff)
  next
    case False
    then have go: "active l" "oget (pending l) (p_id (r_packet v)) = None" "now < p_expires (r_packet v)" by auto
    show ?thesis
    proof (cases room)
      case True
      with go assms(1) room have "pump_call low now (c1, add_transfer v l1) = (c', l')"
        by (simp add: enqueue_def ohas_iff add_transfer_def Let_def)
      with True go ks show ?thesis by (intro that(3) [of ks l1 c1]) auto
    next
      case no: False
      with go assms(1) room have "l' = l1" by (simp add: enqueue_def ohas_iff Let_def)
      with no go ks show ?thesis by (intro that(2) [of ks]) auto
    qed
  qed
qed

lemma enqueue_inv:
  assumes "link_inv l" "retained_ok v" "enqueue low now v (c, l) = (c', l')"
  shows "link_inv l'"
proof -
  have acc: "accounts_inv l" using assms(1) by (simp add: link_inv_def)
  have gone: "link_inv (fold removeTransfer ks l)" for ks
    by (rule fold_inv [of link_inv]) (auto intro: removeTransfer_inv assms(1))
  from assms(3) acc show ?thesis
  proof (cases rule: enqueue_cases)
    case 1
    with assms show ?thesis by simp
  next
    case (2 ks)
    with gone show ?thesis by simp
  next
    case (3 ks c1 l1)
    have "oget (pending l1) (p_id (r_packet v)) = None"
      using 3(2) by (auto simp: 3(5) pending_account.entries_removes oget_None_iff)
    with 3 gone have "link_inv (add_transfer v l1)" by (intro add_transfer_inv) (auto simp: assms(2))
    with 3(8) show ?thesis by (rule pump_call_inv [rotated])
  qed
qed
section \<open>What queueing may cost\<close>

lemma pump_call_pending:
  assumes "pump_call low now (c, l) = (c', l')" "i \<in> fst ` set (pending (maintain now (maintain now l)))"
  shows "i \<in> fst ` set (pending l')"
proof -
  have upd: "fst ` set (pending (update_transfer t l)) = fst ` set (pending l)" for t and l :: link
    by (force simp: update_transfer_map)
  have body: "fst ` set (pending l2) = fst ` set (pending (maintain now l1))"
    if "pump_body low now ct (c1, l1) = (c2, l2)" for ct c1 l1 c2 l2
    using that by (cases rule: pump_body_cases) (simp_all add: upd)
  have again: "fst ` set (pending (maintain now l1)) \<subseteq> fst ` set (pending l1)" for l1
    using maintain_frame(4) by (rule image_mono)
  have i: "i \<in> fst ` set (pending (maintain now l))" using assms(2) again [of "maintain now l"] by (rule rev_subsetD)
  show ?thesis
  proof (cases "pump (maintain now l) = Idle \<and> active (maintain now l) \<and> \<not> resynchronize (maintain now l)")
    case True
    with assms(1) have "pump_body low now True (c, maintain now l) = (c', l')" by (simp add: pump_call_def pump_loop_def)
    from body [OF this] assms(2) show ?thesis by simp
  next
    case False
    with assms(1) i show ?thesis
      by (auto simp: pump_call_def pump_loop_def Let_def simp del: set_map split: if_splits)
  qed
qed

lemma maintain_pending: "pending (maintain now l) = filter (\<lambda>e. fst e \<notin> fst ` {e \<in> set (pending l). p_expires (r_packet (snd e)) \<le> now}) (pending l)"
proof -
  have "pending (fold removeAssembly ks l) = pending l" for ks l
    by (induction ks arbitrary: l) (auto simp: removeAssembly_def split: option.split)
  moreover have "set (okeys (filter P m)) = fst ` {e \<in> set m. P e}" for P and m :: "(ustr, transfer) omap"
    by (simp add: okeys_def)
  ultimately show ?thesis
    by (simp add: maintain_def Let_def pending_account.entries_removes)
qed

lemma live_kept:
  assumes "owf (pending l)" "(i, t) \<in> set (pending l)" "now < p_expires (r_packet t)"
  shows "(i, t) \<in> set (pending (maintain now l))"
proof -
  have "p_expires (r_packet u) > now" if "(i, u) \<in> set (pending l)" for u
    using that assms oget_in_set [OF assms(1)] by (metis option.inject)
  then have "i \<notin> fst ` {e \<in> set (pending l). p_expires (r_packet (snd e)) \<le> now}" by force
  with assms(2) show ?thesis by (simp add: maintain_pending)
qed

lemma pump_keeps_live:
  assumes "pump_call low now (c, l) = (c', l')" "owf (pending l)" "(i, t) \<in> set (pending l)" "now < p_expires (r_packet t)"
  shows "oget (pending l') i \<noteq> None"
proof -
  have "owf (pending (maintain now l))" using assms(2) by (simp add: maintain_pending)
  then have "(i, t) \<in> set (pending (maintain now (maintain now l)))"
    using assms(2-4) by (intro live_kept)
  then have "i \<in> fst ` set (pending (maintain now (maintain now l)))" by force
  from pump_call_pending [OF assms(1) this] show ?thesis by (simp add: oget_None_iff)
qed

lemma enqueue_protects_facts:
  assumes inv: "link_inv l" and run: "enqueue low now v (c, l) = (c', l')"
    and t: "oget (pending l) i = Some t" "now < p_expires (r_packet t)"
    and kept: "rank (prio_of t) \<le> rank (p_prio (r_packet v)) \<or> inFlight t \<or> partial t"
  shows "oget (pending l') i \<noteq> None"
proof -
  have acc: "accounts_inv l" using inv by (simp add: link_inv_def)
  then have wf: "owf (pending l)" by (simp add: accounts_inv_def)
  have "transfer_ok (fresh l) (i, t)" using acc oget_SomeD [OF t(1)] by (auto simp: accounts_inv_def list_all_iff)
  with kept have no: "\<not> evictable (p_prio (r_packet v)) t"
    by (auto simp: evictable_def partial_def transfer_ok_def)
  have stays: "oget (pending (fold removeTransfer ks l)) i = Some t"
    if "\<forall>k \<in> set ks. \<exists>t. oget (pending l) k = Some t \<and> evictable (p_prio (r_packet v)) t" for ks
  proof -
    have "i \<notin> set ks" using that no t(1) by auto
    with t(1) show ?thesis
      by (simp add: pending_account.entries_removes oget_iff wf)
  qed
  from run acc show ?thesis
  proof (cases rule: enqueue_cases)
    case 1
    with t(1) show ?thesis by simp
  next
    case (2 ks)
    with stays [of ks] show ?thesis by simp
  next
    case (3 ks c1 l1)
    have l1: "oget (pending l1) i = Some t" using stays [OF 3(4)] 3(5) by simp
    have wf1: "owf (pending l1)" using wf by (simp add: 3(5) pending_account.entries_removes)
    have "i \<noteq> p_id (r_packet v)" using 3(2) t(1) by auto
    then have mem: "(i, t) \<in> set (pending (add_transfer v l1))" "owf (pending (add_transfer v l1))"
      using l1 wf1 by (auto simp: add_transfer_def Let_def set_oset oget_iff)
    show ?thesis by (rule pump_keeps_live [OF 3(8) mem(2,1) t(2)])
  qed
qed

text \<open>
  C13: queueing a packet costs nothing of the same or a higher priority and nothing that is
  already under way: a transfer of a rank at most that of the new packet, or of which some
  fragments were sent, or one is being written, stays in the queue unless it has expired.
\<close>

theorem enqueue_protects:
  assumes "link_inv l" "enqueue low now v (c, l) = (c', l')" "oget (pending l) i = Some t" "now < p_expires (r_packet t)"
    and "rank (prio_of t) \<le> rank (p_prio (r_packet v)) \<or> inFlight t \<or> partial t"
  shows "oget (pending l') i \<noteq> None"
  using assms by (rule enqueue_protects_facts)

lemma sos_split:
  "length m = length (filter low_class m) + length (filter (\<lambda>e. \<not> low_class e) m)"
  "osum r_bytes m = osum r_bytes (filter low_class m) + osum r_bytes (filter (\<lambda>e. \<not> low_class e) m)"
  by (induction m) auto

lemma sos_room:
  assumes inv: "link_inv l" and few: "length (filter (\<lambda>e. \<not> low_class e) (pending l)) < 2"
    and small: "osum r_bytes (filter (\<lambda>e. \<not> low_class e) (pending l)) + b \<le> 64 * 1024"
  shows "make_room SOS b (c, l) = (True, c, l)"
proof -
  have "length (pending l) < MAX_TRANSFERS" "b + pendingBytes l \<le> MAX_PENDING"
    using inv few small sos_split [of "pending l"]
    by (simp_all add: link_inv_def accounts_inv_def MAX_TRANSFERS_def)
  then show ?thesis by (subst make_room.simps) (simp add: slots_for_def limit_for_def)
qed

text \<open>
  the reserve for emergencies works: whatever is queued, an SOS packet is queued at once,
  and nothing is evicted for it, while fewer than two SOS packets are queued and they leave
  64 KiB of room.
\<close>

theorem sos_always_queued:
  assumes "link_inv l" "active l" "oget (pending l) (p_id (r_packet v)) = None" "now < p_expires (r_packet v)"
    and "p_prio (r_packet v) = SOS" "length (filter (\<lambda>e. prio_of (snd e) = SOS) (pending l)) < 2"
    and "osum r_bytes (filter (\<lambda>e. prio_of (snd e) = SOS) (pending l)) + r_bytes v \<le> 64 * 1024"
  shows "enqueue low now v (c, l) = pump_call low now (c, add_transfer v l) \<and>
    oget (pending (snd (enqueue low now v (c, l)))) (p_id (r_packet v)) \<noteq> None"
proof -
  have room: "make_room SOS (r_bytes v) (c, l) = (True, c, l)"
    using assms by (intro sos_room) (simp_all add: low_class_def)
  have run: "enqueue low now v (c, l) = pump_call low now (c, add_transfer v l)"
    using assms(2-5) room by (simp add: enqueue_def ohas_iff add_transfer_def Let_def)
  have wf: "owf (pending l)" using assms(1) by (simp add: link_inv_def accounts_inv_def)
  then have "(p_id (r_packet v), new_transfer v l) \<in> set (pending (add_transfer v l))" "owf (pending (add_transfer v l))"
    by (simp_all add: add_transfer_def Let_def set_oset)
  moreover obtain c' l' where "pump_call low now (c, add_transfer v l) = (c', l')" by fastforce
  ultimately have "oget (pending l') (p_id (r_packet v)) \<noteq> None"
    using assms(4) by (intro pump_keeps_live) (auto simp: new_transfer_frame)
  with run \<open>pump_call _ _ _ = _\<close> show ?thesis by simp
qed

end
