(* ===== verification/Link_Fair.thy ===== *)
theory Link_Fair
  imports Link_Queue
begin

text \<open>
  The operations of a link as one step relation, and the fairness of its writer: under any
  interleaving of operations no class of traffic that has something to send is starved.
\<close>

section \<open>Steps\<close>

text \<open>
  A failed write closes the link (\<open>destroy\<close>) before the writer is resumed.
\<close>

datatype link_event =
    Enqueue retained
  | Fragment jval
  | Acknowledge ustr
  | PumpCall
  | WriteDone bool
  | Resume
  | CancelRelayed
  | CancelLocal ustr "jval \<Rightarrow> bool"
  | Discard ustr
  | Close

definition link_step :: "bool \<Rightarrow> int \<Rightarrow> link_event \<Rightarrow> counters \<times> link \<Rightarrow> counters \<times> link" where
  "link_step low now ev cl = (let (c, l) = cl in
     case ev of
       Enqueue v \<Rightarrow> enqueue low now v (c, l)
     | Fragment f \<Rightarrow> (c, case parse_frame f of
           None \<Rightarrow> l
         | Some (InAck i) \<Rightarrow> removeTransfer i l
         | Some (InPart i k n d) \<Rightarrow> snd (add_part now i k n d l))
     | Acknowledge i \<Rightarrow> acknowledge now i (c, l)
     | PumpCall \<Rightarrow> pump_call low now (c, l)
     | WriteDone ok \<Rightarrow> write_done low now ok (c, if ok then l else close l)
     | Resume \<Rightarrow> pump_resume low now (c, l)
     | CancelRelayed \<Rightarrow> (c, cancelRelayed l)
     | CancelLocal me match \<Rightarrow> (c, snd (cancelLocal me match l))
     | Discard i \<Rightarrow> (c, discardAssembly i l)
     | Close \<Rightarrow> (c, close l))"

text \<open>The operations between two fragments do not touch the turns.\<close>

definition same_turns :: "link \<Rightarrow> link \<Rightarrow> bool" where
  "same_turns l l' \<longleftrightarrow> turn l' = turn l \<and> priorityTurns l' = priorityTurns l"

lemma same_turns_refl [simp]: "same_turns l l"
  by (simp add: same_turns_def)

lemma same_turns_trans: "same_turns a b \<Longrightarrow> same_turns b c \<Longrightarrow> same_turns a c"
  by (simp add: same_turns_def)

lemma same_turns_fold: "(\<And>x s. same_turns s (f x s)) \<Longrightarrow> same_turns s (fold f xs s)"
  by (induction xs arbitrary: s) (auto intro: same_turns_trans)

text \<open>The class of the fragment the writer is sending.\<close>

definition sending :: "pump_state \<Rightarrow> priority option" where
  "sending p = (case p of Awaiting (Part t k n d) ct \<Rightarrow> Some (prio_of t) | _ \<Rightarrow> None)"

lemma sending_simps [simp]: "sending Idle = None" "sending (Yielded b) = None" "sending (Awaiting Blank b) = None"
  "sending (Awaiting (Ack i) b) = None" "sending (Awaiting (Part t k n d) b) = Some (prio_of t)"
  by (simp_all add: sending_def)

text \<open>Operations that leave the writer alone.\<close>

definition aside :: "link \<Rightarrow> link \<Rightarrow> bool" where
  "aside l l' \<longleftrightarrow> same_turns l l' \<and> sending (pump l') = sending (pump l) \<and> (active l' \<longrightarrow> active l)"

lemma aside_refl [simp]: "aside l l"
  by (simp add: aside_def)

lemma aside_trans: "aside a b \<Longrightarrow> aside b c \<Longrightarrow> aside a c"
  by (auto simp: aside_def same_turns_def)

lemma aside_fold: "(\<And>x s. aside s (f x s)) \<Longrightarrow> aside s (fold f xs s)"
  by (induction xs arbitrary: s) (auto intro: aside_trans)

lemma aside_removeTransfer: "aside l (removeTransfer i l)"
  by (simp add: aside_def same_turns_def removeTransfer_def split: option.split)

lemma aside_removeAssembly: "aside l (removeAssembly i l)"
  by (simp add: aside_def same_turns_def removeAssembly_def split: option.split)

lemma sending_mark [simp]: "sending (mark_cancelled g p) = sending p"
  by (auto simp: sending_def mark_cancelled_def split: pump_state.split out_frame.split)

lemma aside_cancelTransfer: "aside l (cancelTransfer i l)"
  by (simp add: aside_def same_turns_def cancelTransfer_def removeTransfer_def notifyCancel_def split: option.split)

lemma aside_maintain: "aside l (maintain now l)"
  by (simp add: aside_def same_turns_def maintain_frame)

lemma aside_store_part: "aside l (snd (store_part now i k n d a l))"
proof -
  have "aside l (removeAssembly i (l\<lparr>assemblies := m, assemblyBytes := b\<rparr>))" for m b
    using aside_removeAssembly [of "l\<lparr>assemblies := m, assemblyBytes := b\<rparr>" i] by (simp add: aside_def same_turns_def)
  moreover have "aside l (l\<lparr>assemblies := m, assemblyBytes := b\<rparr>)" for m b by (simp add: aside_def same_turns_def)
  ultimately show ?thesis
    using aside_removeAssembly by (simp add: store_part_def Let_def)
qed

lemma aside_add_part: "aside l (snd (add_part now i k n d l))"
proof (cases "oget (assemblies l) i")
  case None
  have "aside (maintain now l) (snd (store_part now i k n d a (maintain now l\<lparr>assemblies := m\<rparr>)))" for a m
    using aside_store_part [of "maintain now l\<lparr>assemblies := m\<rparr>"] by (simp add: aside_def same_turns_def)
  from aside_trans [OF aside_maintain this] None aside_maintain show ?thesis by (simp add: add_part_def Let_def)
qed (simp add: add_part_def aside_store_part)

lemma aside_close: "aside l (close l)"
  by (simp add: aside_def same_turns_def close_def)

lemmas aside_ops = aside_removeTransfer aside_removeAssembly aside_cancelTransfer aside_maintain aside_add_part aside_close

section \<open>Where a fragment is started\<close>

text \<open>A step that starts a fragment chose the transfer at a state \<open>ls\<close> with the turns it began with.\<close>

definition starts :: "bool \<Rightarrow> int \<Rightarrow> link \<Rightarrow> transfer \<Rightarrow> link \<Rightarrow> bool" where
  "starts low now ls t l' \<longleftrightarrow> select low now ls = Some t \<and> turn l' = turn ls + 1 \<and>
     priorityTurns l' = priorityTurns ls \<and> sending (pump l') = Some (prio_of t) \<and> active ls \<and> sending (pump ls) = None"

definition outcome :: "bool \<Rightarrow> int \<Rightarrow> link \<Rightarrow> link \<Rightarrow> bool" where
  "outcome low now l l' \<longleftrightarrow>
     (active l' \<longrightarrow> active l) \<and> (same_turns l l' \<and> sending (pump l') = None \<or>
     (\<exists>ls t. aside l ls \<and> starts low now ls t l'))"

lemma pump_body_outcome:
  assumes "pump_body low now ct (c, l) = (c', l')" "active l" "sending (pump l) = None"
  shows "outcome low now l l'"
  using assms(1)
proof (cases rule: pump_body_cases)
  case (3 t)
  have "starts low now (maintain now l) t l'"
    using 3(1) assms(2,3) by (simp add: starts_def 3(3) update_transfer_map start_transfer_frame maintain_frame)
  then show ?thesis using assms(2) aside_maintain by (auto simp: outcome_def)
qed (use assms(2) in \<open>auto simp: outcome_def same_turns_def maintain_frame\<close>)

lemma pump_loop_outcome:
  assumes "pump_loop low now ct (c, l) = (c', l')" "sending (pump l) = None"
  shows "outcome low now l l'"
proof (cases "active l \<and> \<not> resynchronize l")
  case True
  with assms show ?thesis by (simp add: pump_loop_def pump_body_outcome)
next
  case False
  with assms show ?thesis by (auto simp: pump_loop_def outcome_def same_turns_def split: if_splits)
qed

lemma outcome_aside: "aside l l1 \<Longrightarrow> outcome low now l1 l' \<Longrightarrow> outcome low now l l'"
  using aside_trans by (fastforce simp: outcome_def aside_def same_turns_def)

lemma pump_call_outcome:
  assumes "pump_call low now (c, l) = (c', l')"
  shows "aside l l' \<or> outcome low now l l' \<and> sending (pump l) = None"
proof (cases "pump (maintain now l) \<noteq> Idle \<or> \<not> active (maintain now l)")
  case True
  with assms aside_maintain show ?thesis by (auto simp: pump_call_def)
next
  case False
  with assms have "pump_loop low now True (c, maintain now l) = (c', l')" by (simp add: pump_call_def)
  from outcome_aside [OF aside_maintain pump_loop_outcome [OF this]] False show ?thesis
    by (auto simp: maintain_frame)
qed

lemma enqueue_outcome:
  assumes "enqueue low now v (c, l) = (c', l')" "accounts_inv l"
  shows "aside l l' \<or> outcome low now l l' \<and> sending (pump l) = None"
  using assms
proof (cases rule: enqueue_cases)
  case 1
  then show ?thesis by simp
next
  case (2 ks)
  then show ?thesis by (auto intro: aside_fold aside_ops)
next
  case (3 ks c1 l1)
  have "aside l l1" unfolding 3(5) by (rule aside_fold) (rule aside_ops)
  moreover have "aside l1 (add_transfer v l1)" by (simp add: aside_def same_turns_def add_transfer_def Let_def)
  ultimately have a: "aside l (add_transfer v l1)" by (rule aside_trans)
  from pump_call_outcome [OF 3(8)] show ?thesis
  proof
    assume "aside (add_transfer v l1) l'"
    with a show ?thesis by (blast intro: aside_trans)
  next
    assume "outcome low now (add_transfer v l1) l' \<and> sending (pump (add_transfer v l1)) = None"
    with a show ?thesis by (auto intro: outcome_aside simp: aside_def)
  qed
qed

section \<open>Every step\<close>

definition event_ok :: "link_event \<Rightarrow> bool" where
  "event_ok ev = (case ev of Enqueue v \<Rightarrow> retained_ok v | _ \<Rightarrow> True)"

lemma link_step_inv:
  assumes "link_inv l" "event_ok ev" "link_step low now ev (c, l) = (c', l')"
  shows "link_inv l'"
proof (cases ev)
  case (Fragment f)
  with assms show ?thesis
    by (auto simp: link_step_def removeTransfer_inv add_part_inv dest: parse_frame_part split: option.splits in_frame.splits)
next
  case (WriteDone ok)
  have "link_inv (if ok then l else close l)" using assms(1) by (simp add: close_inv)
  with assms(3) WriteDone show ?thesis by (auto simp: link_step_def intro: write_done_inv)
next
  case (Acknowledge i)
  with assms acknowledge_inv [of l now i c] show ?thesis by (simp add: link_step_def)
qed (use assms in \<open>auto simp: link_step_def event_ok_def intro: enqueue_inv pump_call_inv pump_resume_inv
      cancelRelayed_inv cancelLocal_inv discardAssembly_inv close_inv\<close>)

lemma write_done_outcome:
  assumes "write_done low now ok (c, l) = (c', l')"
  shows "if sending (pump l) = None then aside l l' \<or> outcome low now l l'
    else turn l' = turn l \<and> (active l' \<longrightarrow> active l) \<and> sending (pump l') = None \<and>
      (active l' \<and> ok \<longrightarrow> priorityTurns l' = (priorityTurns l)(the (sending (pump l)) := turn l))"
proof (cases "pump l")
  case (Awaiting f ct)
  show ?thesis
  proof (cases f)
    case Blank
    show ?thesis
    proof (cases "ok \<and> active l")
      case True
      with Awaiting Blank assms have "pump_body low now ct (c, l) = (c', l')" by (simp add: write_done_def)
      from pump_body_outcome [OF this] True Awaiting Blank show ?thesis by simp
    next
      case False
      with Awaiting Blank assms show ?thesis by (auto simp: write_done_def outcome_def same_turns_def)
    qed
  next
    case (Ack i)
    with Awaiting assms show ?thesis
      by (auto simp: write_done_def outcome_def same_turns_def split: if_splits)
  next
    case (Part t k n d)
    with Awaiting assms show ?thesis
      by (auto simp: write_done_def Let_def update_transfer_map notifyCancel_def split: if_splits)
  qed
qed (use assms in \<open>auto simp: write_done_def\<close>)

text \<open>
  Every step either leaves the turns alone, or records the fragment that was sent, or starts a
  fragment, or closes the link.
\<close>

lemma link_step_cases:
  assumes "link_step low now ev (c, l) = (c', l')" "link_inv l"
  shows "(active l' \<longrightarrow> active l) \<and>
    (\<not> active l' \<or>
     same_turns l l' \<and> sending (pump l') = sending (pump l) \<or>
     turn l' = turn l \<and> sending (pump l) \<noteq> None \<and> sending (pump l') = None \<and>
       priorityTurns l' = (priorityTurns l)(the (sending (pump l)) := turn l) \<or>
     (\<exists>ls t. aside l ls \<and> starts low now ls t l'))"
proof -
  have by_aside: ?thesis if "aside l l'" using that by (auto simp: aside_def)
  have out: ?thesis if "outcome low now l l' \<and> sending (pump l) = None" using that by (auto simp: outcome_def)
  have acc: "accounts_inv l" using assms(2) by (simp add: link_inv_def)
  show ?thesis
  proof (cases ev)
    case (Enqueue v)
    with assms(1) have "enqueue low now v (c, l) = (c', l')" by (simp add: link_step_def)
    from enqueue_outcome [OF this acc] by_aside out show ?thesis by blast
  next
    case PumpCall
    with assms(1) have "pump_call low now (c, l) = (c', l')" by (simp add: link_step_def)
    from pump_call_outcome [OF this] by_aside out show ?thesis by blast
  next
    case Resume
    show ?thesis
    proof (cases "\<exists>ct. pump l = Yielded ct")
      case True
      then obtain ct where ct: "pump l = Yielded ct" by blast
      with assms(1) Resume have "pump_loop low now ct (c, l) = (c', l')" by (simp add: link_step_def pump_resume_def)
      from pump_loop_outcome [OF this] out ct show ?thesis by simp
    next
      case False
      with assms(1) Resume have "l' = l" by (auto simp: link_step_def pump_resume_def split: pump_state.splits)
      with by_aside show ?thesis by simp
    qed
  next
    case (WriteDone ok)
    let ?l = "if ok then l else close l"
    have l: "aside l ?l" using aside_close by simp
    from assms(1) WriteDone have "write_done low now ok (c, ?l) = (c', l')" by (simp add: link_step_def)
    note w = write_done_outcome [OF this]
    have shut: "\<not> active ?l" if "\<not> ok" using that by (simp add: close_def)
    show ?thesis
    proof (cases "sending (pump l) = None")
      case True
      then have n: "sending (pump ?l) = None" using l by (simp add: aside_def)
      with w have "aside ?l l' \<or> outcome low now ?l l'" by simp
      with l n True by_aside out show ?thesis by (meson aside_trans outcome_aside)
    next
      case False
      then have "sending (pump ?l) = sending (pump l)" using l by (simp add: aside_def)
      with w False l shut show ?thesis by (auto simp: aside_def same_turns_def)
    qed
  next
    case (Fragment f)
    with assms(1) have "aside l l'"
      by (auto simp: link_step_def aside_ops split: option.splits in_frame.splits)
    with by_aside show ?thesis by blast
  next
    case (Acknowledge i)
    with assms(1) have "aside l l'"
      by (auto simp: link_step_def acknowledge_def aside_def same_turns_def split: if_splits)
    with by_aside show ?thesis by blast
  next
    case CancelRelayed
    have "aside l (cancelRelayed l)" unfolding cancelRelayed_def by (rule aside_fold) (rule aside_ops)
    with CancelRelayed assms(1) by_aside show ?thesis by (simp add: link_step_def)
  next
    case (CancelLocal me m)
    have "aside l (snd (cancelLocal me m l))" unfolding cancelLocal_def Let_def snd_conv by (rule aside_fold) (rule aside_ops)
    with CancelLocal assms(1) by_aside show ?thesis by (simp add: link_step_def)
  next
    case (Discard i)
    with assms(1) by_aside show ?thesis by (auto simp: link_step_def discardAssembly_def aside_ops split: if_splits)
  next
    case Close
    with assms(1) by_aside show ?thesis by (auto simp: link_step_def aside_ops)
  qed
qed

section \<open>No class is starved\<close>

text \<open>
  The states of a link from its creation, with the choices its writer has made so far (the
  latest first): the state it chose in, whether the node was in low power, the time, and the
  transfer chosen.
\<close>

type_synonym choice = "link \<times> bool \<times> int \<times> transfer"

inductive serves :: "link \<Rightarrow> choice list \<Rightarrow> bool" where
  created: "serves (new_link m now) []"
| other: "serves l tr \<Longrightarrow> event_ok ev \<Longrightarrow> link_step low now ev (c, l) = (c', l') \<Longrightarrow>
    \<not> (\<exists>ls t. aside l ls \<and> starts low now ls t l') \<Longrightarrow> serves l' tr"
| chosen: "serves l tr \<Longrightarrow> event_ok ev \<Longrightarrow> link_step low now ev (c, l) = (c', l') \<Longrightarrow>
    aside l ls \<Longrightarrow> starts low now ls t l' \<Longrightarrow> serves l' ((ls, low, now, t) # tr)"

definition after_choice :: "link \<Rightarrow> transfer \<Rightarrow> priority \<Rightarrow> nat" where
  "after_choice ls t = (priorityTurns ls)(prio_of t := turn ls + 1)"

fun linked :: "choice list \<Rightarrow> bool" where
  "linked ((ls, _, _, t) # (ls0, low0, now0, t0) # tr) \<longleftrightarrow>
     turn ls = turn ls0 + 1 \<and> priorityTurns ls = after_choice ls0 t0 \<and> linked ((ls0, low0, now0, t0) # tr)"
| "linked _ \<longleftrightarrow> True"

definition choice_ok :: "choice \<Rightarrow> bool" where
  "choice_ok x = (case x of (ls, low, now, t) \<Rightarrow> select low now ls = Some t \<and> (\<forall>p. priorityTurns ls p \<le> turn ls))"

definition turns_match :: "link \<Rightarrow> choice list \<Rightarrow> bool" where
  "turns_match l tr \<longleftrightarrow>
     (active l \<longrightarrow> (\<forall>p. priorityTurns l p \<le> turn l) \<and> (case tr of [] \<Rightarrow> sending (pump l) = None
        | (ls, low, now, t) # _ \<Rightarrow> turn l = turn ls + 1 \<and>
            (sending (pump l) = Some (prio_of t) \<and> priorityTurns l = priorityTurns ls \<or>
             sending (pump l) = None \<and> priorityTurns l = after_choice ls t)))"

lemma serves_inv:
  assumes "serves l tr"
  shows "link_inv l" "turns_match l tr" "linked tr" "list_all choice_ok tr"
  using assms
proof (induction rule: serves.induct)
  case (created m now)
  show "link_inv (new_link m now)" by (rule new_link_inv)
  show "turns_match (new_link m now) []" by (simp add: turns_match_def new_link_def)
  show "linked []" "list_all choice_ok []" by simp_all
next
  case (other l tr ev low now c c' l')
  show "link_inv l'" using link_step_inv [OF other.IH(1) other.hyps(2,3)] .
  show "linked tr" "list_all choice_ok tr" by fact+
  have "(active l' \<longrightarrow> active l) \<and> (\<not> active l' \<or> same_turns l l' \<and> sending (pump l') = sending (pump l) \<or>
     turn l' = turn l \<and> sending (pump l) \<noteq> None \<and> sending (pump l') = None \<and>
       priorityTurns l' = (priorityTurns l)(the (sending (pump l)) := turn l))"
    using link_step_cases [OF other.hyps(3) other.IH(1)] other.hyps(4) by blast
  then show "turns_match l' tr"
    using other.IH(2) by (auto simp: turns_match_def same_turns_def after_choice_def split: list.splits)
next
  case (chosen l tr ev low now c c' l' ls t)
  show "link_inv l'" using link_step_inv [OF chosen.IH(1) chosen.hyps(2,3)] .
  have s: "select low now ls = Some t" "turn l' = turn ls + 1" "priorityTurns l' = priorityTurns ls"
    "sending (pump l') = Some (prio_of t)" "active l" "sending (pump l) = None"
    "turn ls = turn l" "priorityTurns ls = priorityTurns l"
    using chosen.hyps(4,5) by (auto simp: starts_def aside_def same_turns_def)
  have le: "priorityTurns l p \<le> turn l" for p using chosen.IH(2) s(5) by (simp add: turns_match_def)
  then have "priorityTurns l' p \<le> turn l'" for p unfolding s(2,3,7,8) by (simp add: le_SucI)
  then show "turns_match l' ((ls, low, now, t) # tr)" using s by (simp add: turns_match_def)
  have "choice_ok (ls, low, now, t)" using s le by (simp add: choice_ok_def)
  then show "list_all choice_ok ((ls, low, now, t) # tr)" using chosen.IH(4) by simp
  show "linked ((ls, low, now, t) # tr)"
    using chosen.IH(2,3) s by (cases tr) (auto simp: turns_match_def)
qed

lemma hd_sort_key: "sort_key f xs = t # ts \<Longrightarrow> u \<in> set xs \<Longrightarrow> f t \<le> f u"
proof -
  assume s: "sort_key f xs = t # ts" and u: "u \<in> set xs"
  have "sorted (map f (t # ts))" using sorted_sort_key [of f xs] s by simp
  moreover have "u \<in> set (t # ts)" using u set_sort [of f xs] s by simp
  ultimately show "f t \<le> f u" by auto
qed

text \<open>On every fourth turn the class that waited longest is served first.\<close>

lemma select_fair:
  assumes "select low now l = Some t" "fair_turn (turn l)" "u \<in> set (ovals (pending l))"
    and "due low (medium l) now (ovals (pending l)) u"
  shows "priorityTurns l (prio_of t) \<le> priorityTurns l (prio_of u)"
proof -
  from assms(1) obtain ts where
    "sort_key (service_key l) (filter (due low (medium l) now (ovals (pending l))) (ovals (pending l))) = t # ts"
    by (auto simp: select_def Let_def split: list.splits)
  then have "service_key l t \<le> service_key l u" by (rule hd_sort_key) (use assms(3,4) in simp)
  with assms(2) show ?thesis by (auto simp: service_key_def)
qed

lemma rotation:
  fixes pt :: "nat \<Rightarrow> priority \<Rightarrow> nat" and ch :: "nat \<Rightarrow> priority"
  assumes step: "\<And>j. j < 11 \<Longrightarrow> pt (Suc j) = (pt j)(ch j := T + j + 1)"
    and le: "\<And>q. pt 0 q \<le> T"
    and fair: "\<And>j. j < 12 \<Longrightarrow> (T + j + 1) mod 4 = 0 \<Longrightarrow> pt j (ch j) \<le> pt j p"
  shows "\<exists>j < 12. ch j = p"
proof (rule ccontr)
  assume "\<not> (\<exists>j < 12. ch j = p)"
  then have other: "ch j \<noteq> p" if "j < 12" for j using that by blast
  have still: "pt j p = pt 0 p" if "j < 12" for j
    using that
  proof (induction j)
    case (Suc j)
    then show ?case using step [of j] other [of j] by auto
  qed simp
  have up: "T < pt k (ch j)" if "j < k" "k < 12" for j k
    using that
  proof (induction k)
    case (Suc k)
    show ?case
    proof (cases "j = k")
      case False
      then have "T < pt k (ch j)" using Suc by simp
      then show ?thesis using step [of k] Suc.prems(2) by simp
    qed (use step [of k] Suc.prems in simp)
  qed simp
  obtain i where i: "i < 4" "(T + i + 1) mod 4 = 0"
  proof -
    have "(T + (3 - T mod 4) + 1) mod 4 = 0" by presburger
    then show thesis using that [of "3 - T mod 4"] by simp
  qed
  have low: "pt k (ch k) \<le> T" if "k \<in> {i, i + 4, i + 8}" for k
  proof -
    have "k < 12" "(T + k + 1) mod 4 = 0" using that i by (auto, presburger+)
    then show ?thesis using fair [of k] still [of k] le [of p] by simp
  qed
  have diff: "ch j \<noteq> ch k" if "j < k" "k \<in> {i, i + 4, i + 8}" for j k
    using low [OF that(2)] up [of j k] that i(1) by auto
  have "ch i \<noteq> ch (i + 4)" "ch i \<noteq> ch (i + 8)" "ch (i + 4) \<noteq> ch (i + 8)"
    using diff [of i "i + 4"] diff [of i "i + 8"] diff [of "i + 4" "i + 8"] by simp_all
  moreover have "ch i \<noteq> p" "ch (i + 4) \<noteq> p" "ch (i + 8) \<noteq> p" using other i(1) by auto
  ultimately show False by (cases p; cases "ch i"; cases "ch (i + 4)"; cases "ch (i + 8)") auto
qed

lemma linked_nth:
  assumes "linked tr" "Suc n < length tr"
  shows "turn (fst (tr ! n)) = turn (fst (tr ! Suc n)) + 1 \<and>
    priorityTurns (fst (tr ! n)) = after_choice (fst (tr ! Suc n)) (snd (snd (snd (tr ! Suc n))))"
  using assms by (induction tr arbitrary: n rule: linked.induct) (auto simp: nth_Cons split: nat.split)

lemma no_starvation_facts:
  assumes run: "serves l tr" and len: "12 \<le> length tr"
    and waits: "\<forall>(ls, low, now, t) \<in> set (take 12 tr).
      \<exists>u \<in> set (ovals (pending ls)). prio_of u = p \<and> due low (medium ls) now (ovals (pending ls)) u"
  shows "\<exists>(ls, low, now, t) \<in> set (take 12 tr). prio_of t = p"
proof -
  define x where "x j = tr ! (11 - j)" for j
  define T where "T = turn (fst (x 0))"
  define pt where "pt j = priorityTurns (fst (x j))" for j
  define ch where "ch j = prio_of (snd (snd (snd (x j))))" for j
  have link: "turn (fst (x (Suc j))) = turn (fst (x j)) + 1 \<and> pt (Suc j) = after_choice (fst (x j)) (snd (snd (snd (x j))))"
    if "j < 11" for j
  proof -
    have "Suc (11 - Suc j) = 11 - j" using that by simp
    then show ?thesis
      using linked_nth [OF serves_inv(3) [OF run], of "11 - Suc j"] len by (simp add: x_def pt_def)
  qed
  have turn: "turn (fst (x j)) = T + j" if "j < 12" for j
    using that by (induction j) (use link in \<open>auto simp: T_def\<close>)
  have mem: "x j \<in> set (take 12 tr)" if "j < 12" for j
  proof -
    have "take 12 tr ! (11 - j) \<in> set (take 12 tr)" using len by (intro nth_mem) simp
    then show ?thesis by (simp add: x_def)
  qed
  have ok: "choice_ok (x j)" if "j < 12" for j
    using mem [OF that] serves_inv(4) [OF run] by (auto simp: list_all_iff dest: in_set_takeD)
  have "\<exists>j < 12. ch j = p"
  proof (rule rotation [of pt ch T])
    show "pt (Suc j) = (pt j)(ch j := T + j + 1)" if "j < 11" for j
      using link [OF that] turn [of j] that by (simp add: after_choice_def pt_def ch_def)
    show "pt 0 q \<le> T" for q
      using ok [of 0] by (simp add: choice_ok_def pt_def T_def case_prod_beta)
    show "pt j (ch j) \<le> pt j p" if "j < 12" "(T + j + 1) mod 4 = 0" for j
    proof -
      obtain ls low now t where xj: "x j = (ls, low, now, t)" by (cases "x j")
      have "(ls, low, now, t) \<in> set (take 12 tr)" using mem [of j] \<open>j < 12\<close> xj by simp
      with waits obtain u where u: "u \<in> set (ovals (pending ls))" "prio_of u = p"
        "due low (medium ls) now (ovals (pending ls)) u" by blast
      have "fair_turn (turn ls)" using turn [OF that(1)] that(2) xj by (simp add: fair_turn_def)
      then show ?thesis
        using select_fair [of low now ls t u] ok [OF that(1)] u xj by (simp add: choice_ok_def pt_def ch_def)
    qed
  qed
  then obtain j where "j < 12" "ch j = p" by blast
  with mem [of j] show ?thesis by (intro bexI [of _ "x j"]) (auto simp: ch_def case_prod_beta)
qed


text \<open>A link that repeats one small packet every two seconds.\<close>

definition pulse :: retained where
  "pulse = \<lparr>r_packet = \<lparr>p_id = [1], p_source = [2], p_created = 0, p_expires = 1000000, p_maxHops = 12, p_hops = [[2]],
     p_prio = Normal, p_payload = JNull, p_value = JNull\<rparr>, encoded = [0], r_bytes = 1, relayOnly = False\<rparr>"

definition beat :: "nat \<Rightarrow> transfer" where
  "beat n = retained.extend pulse \<lparr>sent_at = 2000 * int n, attempts = Suc n, next_part = 1, scheduled = Suc n,
     inFlight = False, cancelled = False, tag = 0\<rparr>"

definition beating :: "nat \<Rightarrow> link" where
  "beating n = \<lparr>medium = Tcp, buffer = [], pending = [([1], beat n)], pendingBytes = 1, assemblies = [], assemblyBytes = 0,
      active = True, pump = Yielded True, turn = Suc n, priorityTurns = (\<lambda>_. 0)(Normal := Suc n), resynchronize = False,
      controls = [], acknowledged = [], receivedWindow = 0, framesWindow = 0, invalidWindow = 0,
      windowStart = 0, ackWindowStart = 2000 * int n, acksWindow = 0, connected = True, receivedTotal = 0,
      queued = 1, notified = [], fresh = 1\<rparr>"

definition no_counters :: counters where
  "no_counters = \<lparr>received = 0, forwarded = 0, duplicates = 0, rejected = 0, dropped = 0, retransmits = 0, rateLimited = 0\<rparr>"

lemmas run_defs = link_step_def pump_resume_def pump_call_def pump_loop_def pump_body_def maintain_def stale_def
  select_def due_def ready_def partials_def partial_def partial_count_def part_count_def waiting_def retry_wait_def
  next_ack_def start_transfer_def update_transfer_def write_done_def fragment_of_def okeys_def ovals_def
  beat_def pulse_def retained.extend_def FRAGMENT_def MAX_ASSEMBLIES_def remdups_first_def

lemma beat_facts: "r_bytes (beat n) = 1" "next_part (beat n) = 1" "prio_of (beat n) = Normal" "part_count (beat n) = 1"
  "sent_at (beat n) = 2000 * int n" "p_expires (r_packet (beat n)) = 1000000" "\<not> inFlight (beat n)"
  by (simp_all add: run_defs)

definition starting :: "nat \<Rightarrow> link" where
  "starting n = (beating n)\<lparr>ackWindowStart := 2000 * int (Suc n)\<rparr>"

lemma maintain_beating: "n < 20 \<Longrightarrow> maintain (2000 * int (Suc n)) (beating n) = starting n"
  by (simp add: maintain_def beating_def starting_def okeys_def beat_facts)

lemma due_beat: "due False Tcp (2000 * int (Suc n)) [beat n] (beat n)"
  by (simp add: due_def ready_def waiting_def partials_def partial_def partial_count_def beat_facts retry_wait_def
      remdups_first_def MAX_ASSEMBLIES_def)

lemma starting_facts: "pending (starting n) = [([1], beat n)]" "medium (starting n) = Tcp" "controls (starting n) = []"
  "turn (starting n) = Suc n" "active (starting n)" "pump (starting n) = Yielded True" "active (beating n)"
  "pump (beating n) = Yielded True" "\<not> resynchronize (beating n)"
  by (simp_all add: starting_def beating_def)

lemma select_beating: "select False (2000 * int (Suc n)) (starting n) = Some (beat n)"
  using due_beat [of n] by (simp add: select_def starting_facts ovals_def)

definition writing_beat :: "nat \<Rightarrow> link" where
  "writing_beat n = (let u = start_transfer (beat n) in
     (update_transfer u (starting n))\<lparr>turn := turn (starting n) + 1,
        pump := Awaiting (Part u (next_part u) 1 (fragment_of (encoded u) (next_part u))) True\<rparr>)"

lemma beat_starts:
  assumes "n < 20"
  shows "\<exists>c'. link_step False (2000 * int (Suc n)) Resume (c, beating n) = (c', writing_beat n)"
    "starts False (2000 * int (Suc n)) (starting n) (beat n) (writing_beat n)" "aside (beating n) (starting n)"
proof -
  show "\<exists>c'. link_step False (2000 * int (Suc n)) Resume (c, beating n) = (c', writing_beat n)"
    using maintain_beating [OF assms] select_beating [of n]
    by (simp add: link_step_def pump_resume_def pump_loop_def pump_body_def starting_facts next_ack_def beat_facts
        writing_beat_def Let_def del: of_nat_Suc)
  show "starts False (2000 * int (Suc n)) (starting n) (beat n) (writing_beat n)"
    using select_beating [of n]
    by (simp add: starts_def writing_beat_def Let_def update_transfer_map start_transfer_frame starting_facts del: of_nat_Suc)
  show "aside (beating n) (starting n)" by (simp add: aside_def same_turns_def starting_def)
qed

lemma beat_ends:
  shows "\<exists>c'. link_step False (2000 * int (Suc n)) (WriteDone True) (c, writing_beat n) = (c', beating (Suc n))"
proof -
  let ?u = "start_transfer (beat n)"
  have u: "?u = (beat n)\<lparr>next_part := 0, attempts := Suc (Suc n), inFlight := True\<rparr>"
    by (simp add: start_transfer_def beat_facts) (simp add: beat_def retained.extend_def)
  have "beat (Suc n) = (beat n)\<lparr>next_part := 1, attempts := Suc (Suc n), inFlight := False, scheduled := Suc (Suc n),
      sent_at := 2000 * int (Suc n)\<rparr>"
    by (simp add: beat_def retained.extend_def pulse_def)
  then show ?thesis
    by (simp add: link_step_def write_done_def writing_beat_def u update_transfer_map Let_def starting_def beating_def
        replace_transfer_def fun_eq_iff) (simp add: beat_def retained.extend_def pulse_def)
qed

lemma beat_recorded:
  assumes "serves (writing_beat n) tr"
  shows "serves (beating (Suc n)) tr"
proof -
  obtain c' where step: "link_step False (2000 * int (Suc n)) (WriteDone True) (no_counters, writing_beat n) = (c', beating (Suc n))"
    using beat_ends by blast
  have "\<not> (\<exists>ls t. aside (writing_beat n) ls \<and> starts False (2000 * int (Suc n)) ls t (beating (Suc n)))"
    by (simp add: starts_def starting_facts)
  from serves.other [OF assms _ step this] show ?thesis by (simp add: event_ok_def)
qed

text \<open>The first packet: the link is created and the packet is queued.\<close>

lemma first_beat: "\<exists>ls t. serves (beating 0) [(ls, False, 0, t)] \<and> (\<exists>u \<in> set (ovals (pending ls)). prio_of u = Normal \<and>
    due False (medium ls) 0 (ovals (pending ls)) u)"
proof -
  define l0 where "l0 = new_link Tcp 0"
  define ls where "ls = add_transfer pulse l0"
  define t where "t = new_transfer pulse l0"
  have pend: "pending ls = [([1], t)]" "medium ls = Tcp" "controls ls = []" "active ls" "pump ls = Idle" "\<not> resynchronize ls"
    by (simp_all add: ls_def t_def add_transfer_def l0_def new_link_def pulse_def)
  have tf: "r_bytes t = 1" "next_part t = 0" "prio_of t = Normal" "part_count t = 1" "p_expires (r_packet t) = 1000000"
    by (simp_all add: t_def new_transfer_frame part_count_def FRAGMENT_def) (simp_all add: pulse_def)
  have due: "due False Tcp 0 [t] t"
    by (simp add: due_def ready_def waiting_def partials_def partial_def partial_count_def tf retry_wait_def
        remdups_first_def MAX_ASSEMBLIES_def)
  have "assemblies ls = []" "acknowledged ls = []" "ackWindowStart ls = 0" "ls\<lparr>acknowledged := []\<rparr> = ls"
    by (simp_all add: ls_def add_transfer_def l0_def new_link_def)
  then have maintain: "maintain 0 ls = ls"
    by (simp add: maintain_def pend okeys_def tf)
  have select: "select False 0 ls = Some t" using due by (simp add: select_def pend ovals_def)
  define u where "u = start_transfer t"
  define l1 where "l1 = (update_transfer u ls)\<lparr>turn := turn ls + 1,
      pump := Awaiting (Part u (next_part u) 1 (fragment_of (encoded u) (next_part u))) True\<rparr>"
  have room: "make_room Normal 1 (no_counters, l0) = (True, no_counters, l0)"
    by (subst make_room.simps) (simp add: l0_def new_link_def slots_for_def limit_for_def MAX_TRANSFERS_def MAX_PENDING_def)
  have "enqueue False 0 pulse (no_counters, l0) = pump_call False 0 (no_counters, ls)"
    using room by (simp add: enqueue_def ls_def add_transfer_def Let_def pulse_def ohas_def) (simp add: l0_def new_link_def)
  then have "\<exists>c'. link_step False 0 (Enqueue pulse) (no_counters, l0) = (c', l1)"
    using maintain select pend tf
    by (simp add: link_step_def pump_call_def pump_loop_def pump_body_def next_ack_def l1_def u_def Let_def)
  moreover have "starts False 0 ls t l1"
    using select pend by (simp add: starts_def l1_def update_transfer_map u_def start_transfer_frame)
  moreover have "aside l0 ls" by (simp add: aside_def same_turns_def ls_def add_transfer_def Let_def)
  moreover have "event_ok (Enqueue pulse)"
    by (simp add: event_ok_def retained_ok_def pulse_def MAX_PACKET_def)
  ultimately have s1: "serves l1 [(ls, False, 0, t)]"
    using serves.chosen [OF serves.created [of Tcp 0]] unfolding l0_def by metis
  have u: "u = t\<lparr>attempts := 1, inFlight := True\<rparr>" using tf
    by (simp add: u_def start_transfer_def) (simp add: t_def new_transfer_def retained.extend_def)
  have "beat 0 = t\<lparr>attempts := 1, next_part := 1, scheduled := 1\<rparr>"
    by (simp add: beat_def t_def new_transfer_def retained.extend_def l0_def new_link_def)
  then have step: "link_step False 0 (WriteDone True) (no_counters, l1) = (no_counters, beating 0)"
    using tf
    by (simp add: link_step_def write_done_def l1_def u update_transfer_map Let_def beating_def replace_transfer_def pend)
      (simp add: ls_def add_transfer_def l0_def new_link_def t_def new_transfer_def retained.extend_def pulse_def fun_eq_iff)
  have no: "\<not> (\<exists>ks k. aside l1 ks \<and> starts False 0 ks k (beating 0))" by (simp add: starts_def starting_facts)
  have "serves (beating 0) [(ls, False, 0, t)]"
    by (rule serves.other [OF s1 _ step no]) (simp add: event_ok_def)
  with due pend tf show ?thesis by (auto simp: ovals_def)
qed

lemma beating_serves:
  assumes "n < 20"
  shows "\<exists>tr. serves (beating n) tr \<and> length tr = Suc n \<and>
    (\<forall>(ls, low, now, t) \<in> set tr. \<exists>u \<in> set (ovals (pending ls)). prio_of u = Normal \<and>
       due low (medium ls) now (ovals (pending ls)) u)"
  using assms
proof (induction n)
  case 0
  from first_beat obtain ls t where "serves (beating 0) [(ls, False, 0, t)]"
    "\<exists>u \<in> set (ovals (pending ls)). prio_of u = Normal \<and> due False (medium ls) 0 (ovals (pending ls)) u" by blast
  then show ?case by (intro exI [of _ "[(ls, False, 0, t)]"]) simp
next
  case (Suc n)
  then obtain tr where tr: "serves (beating n) tr" "length tr = Suc n"
    "\<forall>(ls, low, now, t) \<in> set tr. \<exists>u \<in> set (ovals (pending ls)). prio_of u = Normal \<and>
       due low (medium ls) now (ovals (pending ls)) u" by auto
  let ?x = "(starting n, False, 2000 * int (Suc n), beat n)"
  have n: "n < 20" using Suc.prems by simp
  obtain c' where step: "link_step False (2000 * int (Suc n)) Resume (no_counters, beating n) = (c', writing_beat n)"
    using beat_starts(1) [OF n] by blast
  have "serves (writing_beat n) (?x # tr)"
    by (rule serves.chosen [OF tr(1) _ step beat_starts(3,2)]) (use n in \<open>simp_all add: event_ok_def\<close>)
  then have "serves (beating (Suc n)) (?x # tr)" by (rule beat_recorded)
  moreover have "\<exists>u \<in> set (ovals (pending (starting n))). prio_of u = Normal \<and>
      due False (medium (starting n)) (2000 * int (Suc n)) (ovals (pending (starting n))) u"
    using due_beat [of n] by (simp add: starting_facts ovals_def beat_facts)
  ultimately show ?case using tr(2,3) by (intro exI [of _ "?x # tr"]) auto
qed


section \<open>The queue at a concrete link\<close>

definition alarm :: "priority \<Rightarrow> retained" where
  "alarm p = pulse\<lparr>r_packet := (r_packet pulse)\<lparr>p_id := [3], p_prio := p\<rparr>\<rparr>"

lemma beating_inv: "link_inv (beating 0)"
proof -
  obtain ls t where "serves (beating 0) [(ls, False, 0, t)]" using first_beat by blast
  then show ?thesis by (rule serves_inv(1))
qed

lemma beating_pending: "pending (beating 0) = [([1], beat 0)]"
  by (simp add: beating_def)

theorem enqueue_protects_witness:
  "oget (pending (snd (enqueue False 1 (alarm Normal) (no_counters, beating 0)))) [1] \<noteq> None"
proof -
  obtain c' l' where run: "enqueue False 1 (alarm Normal) (no_counters, beating 0) = (c', l')" by fastforce
  have "oget (pending l') [1] \<noteq> None"
    by (rule enqueue_protects [OF beating_inv run, of _ "beat 0"])
      (simp_all add: beating_pending beat_facts alarm_def)
  with run show ?thesis by simp
qed

theorem sos_always_queued_witness:
  "oget (pending (snd (enqueue False 1 (alarm SOS) (no_counters, beating 0)))) [3] \<noteq> None"
proof -
  have "enqueue False 1 (alarm SOS) (no_counters, beating 0) = pump_call False 1 (no_counters, add_transfer (alarm SOS) (beating 0)) \<and>
    oget (pending (snd (enqueue False 1 (alarm SOS) (no_counters, beating 0)))) (p_id (r_packet (alarm SOS))) \<noteq> None"
    by (rule sos_always_queued [OF beating_inv]) (simp_all add: beating_pending starting_facts beat_facts alarm_def pulse_def)
  moreover have "p_id (r_packet (alarm SOS)) = [3]" by (simp add: alarm_def)
  ultimately show ?thesis by metis
qed

end
