(* ===== verification/Link_Parts.thy ===== *)
theory Link_Parts
  imports Link_Inv
begin

text \<open>
  Fragmentation and reassembly: what the writer of one link sends for a packet is what the
  reader of another puts together again, in whatever order the fragments arrive.
\<close>

section \<open>Fragments\<close>

definition fragments :: "bytes \<Rightarrow> nat" where
  "fragments e = (length e + FRAGMENT - 1) div FRAGMENT"

lemma part_count_fragments: "r_bytes t = int (length (encoded t)) \<Longrightarrow> 1 \<le> r_bytes t \<Longrightarrow> part_count t = fragments (encoded t)"
  by (simp add: part_count_def fragments_def FRAGMENT_def zdiv_int [symmetric] flip: of_nat_add)

lemma fragments_bounds: "e \<noteq> [] \<Longrightarrow> (fragments e - 1) * FRAGMENT < length e \<and> length e \<le> fragments e * FRAGMENT \<and> 0 < fragments e"
  unfolding fragments_def FRAGMENT_def by (cases "length e") auto

lemma length_fragment:
  assumes "k < fragments e"
  shows "k < fragments e - 1 \<Longrightarrow> length (fragment_of e k) = FRAGMENT"
    "0 < length (fragment_of e k)" "length (fragment_of e k) \<le> FRAGMENT"
proof -
  have "e \<noteq> []" using assms by (auto simp: fragments_def FRAGMENT_def)
  then have b: "(fragments e - 1) * FRAGMENT < length e" using fragments_bounds by blast
  have len: "length (fragment_of e k) = min (length e - k * FRAGMENT) FRAGMENT" by (simp add: fragment_of_def)
  have "k * FRAGMENT \<le> (fragments e - 1) * FRAGMENT" using assms by (intro mult_le_mono1) simp
  with b show "0 < length (fragment_of e k)" by (simp add: len FRAGMENT_def)
  show "length (fragment_of e k) \<le> FRAGMENT" by (simp add: len)
  show "length (fragment_of e k) = FRAGMENT" if "k < fragments e - 1"
  proof -
    have "(k + 1) * FRAGMENT \<le> (fragments e - 1) * FRAGMENT" using that by (intro mult_le_mono1) simp
    with b show ?thesis by (simp add: len)
  qed
qed

lemma take_fragments: "concat (map (fragment_of e) [0..<n]) = take (n * FRAGMENT) e"
  by (induction n) (simp_all add: fragment_of_def take_add [symmetric] add.commute)

lemma concat_fragments: "concat (map (fragment_of e) [0..<fragments e]) = e"
proof (cases "e = []")
  case False
  then show ?thesis using fragments_bounds [OF False] by (simp add: take_fragments)
qed (simp add: take_fragments fragment_of_def)

lemma sum_fragments_le:
  assumes "K \<subseteq> {..<fragments e}"
  shows "(\<Sum>k \<in> K. length (fragment_of e k)) \<le> length e"
proof -
  have "(\<Sum>k \<in> K. length (fragment_of e k)) \<le> (\<Sum>k < fragments e. length (fragment_of e k))"
    using assms by (intro sum_mono2) auto
  also have "\<dots> = length (concat (map (fragment_of e) [0..<fragments e]))"
    by (simp add: length_concat comp_def interv_sum_list_conv_sum_set_nat atLeast0LessThan)
  finally show ?thesis by (simp only: concat_fragments)
qed

section \<open>The frame on the wire\<close>

definition frame_json :: "ustr \<Rightarrow> nat \<Rightarrow> nat \<Rightarrow> bytes \<Rightarrow> jval" where
  "frame_json i k n d = JObj [(lit ''t'', JStr (lit ''part'')), (lit ''id'', JStr i), (lit ''index'', JInt (int k)),
     (lit ''count'', JInt (int n)), (lit ''data'', JStr (b64 d))]"

lemma frame_roundtrip:
  assumes "hex64 i" "k < fragments e" "int (length e) \<le> MAX_PACKET"
  shows "parse_frame (frame_json i k (fragments e) (fragment_of e k)) = Some (InPart i k (fragments e) (fragment_of e k))"
proof -
  let ?d = "fragment_of e k"
  have d: "?d \<noteq> []" "length ?d \<le> FRAGMENT" "k < fragments e - 1 \<Longrightarrow> length ?d = FRAGMENT"
    using length_fragment [OF assms(2)] by auto
  have "takeWhile is_b64 (b64 ?d) \<noteq> []" using d(1) by (cases ?d rule: b64.cases) auto
  moreover have "10 * length (b64 ?d) \<le> 14 * FRAGMENT" using d(2) by (simp add: length_b64 FRAGMENT_def)
  moreover have "int (fragments e) \<le> (MAX_PACKET + int FRAGMENT - 1) div int FRAGMENT"
  proof -
    have "length e + 2047 \<le> 6 * 1024 * 1024 + 2047" using assms(3) by (simp add: MAX_PACKET_def)
    then have "fragments e \<le> (6 * 1024 * 1024 + 2047) div 2048" unfolding fragments_def FRAGMENT_def by (intro div_le_mono) simp
    then show ?thesis by (simp add: MAX_PACKET_def FRAGMENT_def)
  qed
  ultimately show ?thesis
    using assms d
    by (auto simp: parse_frame_def frame_json_def jget_def Let_def is_obj_def is_str_def str_of_def is_int_def int_of_def
        from64_b64 b64_shape_b64)
qed

section \<open>Reassembly\<close>

text \<open>Frames arriving one after the other, and the texts that are complete.\<close>

fun arrivals :: "(int \<times> jval) list \<Rightarrow> link \<Rightarrow> bytes list \<times> link" where
  "arrivals [] l = ([], l)"
| "arrivals ((now, f) # fs) l =
     (case parse_frame f of
        Some (InPart i k n d) \<Rightarrow>
          (let (r, l1) = add_part now i k n d l; (bs, l2) = arrivals fs l1 in
           (case r of PartComplete b \<Rightarrow> (b # bs, l2) | _ \<Rightarrow> (bs, l2)))
      | _ \<Rightarrow> arrivals fs l)"

definition holds :: "bytes \<Rightarrow> nat set \<Rightarrow> assembly \<Rightarrow> bool" where
  "holds e S a \<longleftrightarrow> part_total a = fragments e \<and> S \<subseteq> {..<fragments e} \<and>
     (\<forall>k. oget (parts a) k = (if k \<in> S then Some (fragment_of e k) else None))"

definition collecting :: "ustr \<Rightarrow> bytes \<Rightarrow> nat set \<Rightarrow> link \<Rightarrow> bool" where
  "collecting i e S l \<longleftrightarrow> link_inv l \<and> int (length e) \<le> MAX_PACKET \<and> (\<exists>a. oget (assemblies l) i = Some a \<and> holds e S a \<and>
     assemblyBytes l - a_bytes a + int (length e) \<le> MAX_PENDING)"

lemma osum_sum:
  "owf m \<Longrightarrow> osum c m = (\<Sum>k \<in> fst ` set m. c (the (oget m k)))"
proof (induction m)
  case (Cons p m)
  obtain k v where p: "p = (k, v)" by (cases p)
  with Cons.prems have "k \<notin> fst ` set m" "owf m" by (auto simp: owf_def)
  then have "(\<Sum>j \<in> fst ` set m. c (the (oget (p # m) j))) = (\<Sum>j \<in> fst ` set m. c (the (oget m j)))"
    using p by (intro sum.cong) auto
  with Cons.IH \<open>owf m\<close> \<open>k \<notin> fst ` set m\<close> p show ?case by (simp add: sum.insert)
qed simp

lemma holds_facts:
  assumes "holds e S a" "assembly_ok a"
  shows "fst ` set (parts a) = S" "a_bytes a = int (\<Sum>k \<in> S. length (fragment_of e k))" "length (parts a) = card S" "finite S"
proof -
  have keys: "k \<in> fst ` set (parts a) \<longleftrightarrow> k \<in> S" for k
    using assms(1) oget_None_iff [of "parts a" k] by (auto simp: holds_def split: if_splits)
  then show S: "fst ` set (parts a) = S" by auto
  then show "finite S" by (metis List.finite_set finite_imageI)
  have wf: "owf (parts a)" using assms(2) by (simp add: assembly_ok_def)
  have "a_bytes a = (\<Sum>k \<in> S. int (length (the (oget (parts a) k))))"
    using assms(2) osum_sum [OF wf, of "\<lambda>b. int (length b)"] S by (simp add: assembly_ok_def)
  also have "\<dots> = (\<Sum>k \<in> S. int (length (fragment_of e k)))"
    using assms(1) by (intro sum.cong) (auto simp: holds_def)
  finally show "a_bytes a = int (\<Sum>k \<in> S. length (fragment_of e k))" by simp
  show "length (parts a) = card S"
    using wf S distinct_card [of "map fst (parts a)"] by (simp add: owf_def)
qed

lemma holds_join: "holds e {..<fragments e} a \<Longrightarrow> join_parts a = e"
proof -
  assume h: "holds e {..<fragments e} a"
  then have "join_parts a = concat (map (fragment_of e) [0..<fragments e])"
    unfolding join_parts_def by (intro arg_cong [of _ _ concat] map_cong) (auto simp: holds_def)
  then show ?thesis by (simp add: concat_fragments)
qed

lemma collect_step:
  assumes c: "collecting i e S l" and k: "k < fragments e"
  shows "\<exists>l'. add_part now i k (fragments e) (fragment_of e k) l =
      (if insert k S = {..<fragments e} then PartComplete e else PartStored, l') \<and> link_inv l' \<and>
      (if insert k S = {..<fragments e} then oget (assemblies l') i = None else collecting i e (insert k S) l')"
proof -
  let ?d = "fragment_of e k"
  obtain a where a: "oget (assemblies l) i = Some a" "holds e S a" "assemblyBytes l - a_bytes a + int (length e) \<le> MAX_PENDING"
    and inv: "link_inv l" and small: "int (length e) \<le> MAX_PACKET" using c by (auto simp: collecting_def)
  have ok: "assembly_ok a" using inv oget_SomeD [OF a(1)] by (auto simp: link_inv_def assemblies_inv_def)
  note h = holds_facts [OF a(2) ok]
  have run: "add_part now i k (fragments e) ?d l = store_part now i k (fragments e) ?d a l" using a(1) by (simp add: add_part_def)
  have inv': "link_inv (snd (add_part now i k (fragments e) ?d l))" using inv k by (rule add_part_inv)
  have total: "part_total a = fragments e" "S \<subseteq> {..<fragments e}" using a(2) by (simp_all add: holds_def)
  have complete: "length (parts x) = part_total x \<longleftrightarrow> T = {..<fragments e}" if "holds e T x" "assembly_ok x" for T x
  proof -
    have "T \<subseteq> {..<fragments e}" "part_total x = fragments e" using that(1) by (simp_all add: holds_def)
    then show ?thesis using holds_facts(3) [OF that] card_subset_eq [of "{..<fragments e}" T] by auto
  qed
  have gone: "oget (assemblies (removeAssembly i x)) i = None" for x
    by (simp add: assembly_account.entries_remove oget_odel)
  show ?thesis
  proof (cases "k \<in> S")
    case True
    then have "oget (parts a) k = Some ?d" using a(2) by (simp add: holds_def)
    moreover have "insert k S = S" using True by auto
    ultimately show ?thesis
      using run inv' total complete [OF a(2) ok] holds_join [of e a] a(2) c gone
      by (cases "S = {..<fragments e}") (simp_all add: store_part_def Let_def)
  next
    case False
    define a1 where "a1 = a\<lparr>parts := oset k ?d (parts a), a_bytes := a_bytes a + int (length ?d), updated := now\<rparr>"
    define l1 where "l1 = l\<lparr>assemblies := oset i a1 (assemblies l), assemblyBytes := assemblyBytes l + int (length ?d)\<rparr>"
    have prior: "oget (parts a) k = None" using a(2) False by (simp add: holds_def)
    have "(\<Sum>j \<in> insert k S. length (fragment_of e j)) \<le> length e"
      using total(2) k by (intro sum_fragments_le) auto
    then have room: "a_bytes a + int (length ?d) \<le> int (length e)"
      using h(2,4) False by (simp add: sum.insert del: of_nat_sum)
    have holds1: "holds e (insert k S) a1" using a(2) k total(2) by (auto simp: holds_def a1_def oget_oset)
    have ok1: "assembly_ok a1"
      unfolding a1_def by (rule assembly_add) (use ok prior k total small room in auto)
    have fits: "a_bytes a + int (length ?d) \<le> MAX_PACKET" "assemblyBytes l + int (length ?d) \<le> MAX_PENDING"
      using room small a(3) by linarith+
    have "store_part now i k (fragments e) ?d a l =
        (if length (parts a1) = part_total a1 then (PartComplete (join_parts a1), removeAssembly i l1) else (PartStored, l1))"
      using prior total fits by (simp add: store_part_def Let_def a1_def l1_def)
    moreover have "collecting i e (insert k S) l1" if "link_inv l1"
      using that a(3) holds1 small by (simp add: collecting_def l1_def oget_oset a1_def)
    ultimately show ?thesis
      using run inv' complete [OF holds1 ok1] holds_join [of e a1] holds1 gone
      by (cases "insert k S = {..<fragments e}") simp_all
  qed
qed

lemma collect_first:
  assumes inv: "link_inv l" and none: "oget (assemblies l) i = None" "length (assemblies l) < MAX_ASSEMBLIES"
    and e: "int (length e) \<le> MAX_PACKET" "assemblyBytes l + int (length e) \<le> MAX_PENDING" and k: "k < fragments e"
  shows "\<exists>l1. collecting i e {} l1 \<and> add_part now i k (fragments e) (fragment_of e k) l =
    add_part now i k (fragments e) (fragment_of e k) l1"
proof -
  let ?m = "maintain now l" and ?a = "\<lparr>parts = [], part_total = fragments e, a_bytes = 0, since = now, updated = now\<rparr>"
  let ?l1 = "?m\<lparr>assemblies := oset i ?a (assemblies ?m)\<rparr>"
  have m: "link_inv ?m" using inv by (rule maintain_inv)
  have old: "\<And>j a. (j, a) \<in> set (assemblies l) \<Longrightarrow> 0 \<le> a_bytes a"
    using inv assembly_bytes_nonneg by (auto simp: link_inv_def assemblies_inv_def)
  have eq: "assemblies ?m = filter (\<lambda>p. fst p \<notin> set (okeys (filter (\<lambda>p. stale now (snd p)) (assemblies l)))) (assemblies l)"
    by (simp add: maintain_def Let_def removeTransfers_frame assembly_account.entries_removes)
  have few: "length (assemblies ?m) < MAX_ASSEMBLIES" using none(2) by (simp add: eq le_less_trans [OF length_filter_le])
  have new: "oget (assemblies ?m) i = None" using none(1) by (auto simp: eq oget_None_iff)
  have "osum a_bytes (assemblies ?m) \<le> osum a_bytes (filter (\<lambda>_. True) (assemblies l))"
    unfolding eq by (rule osum_filter_mono) (use old in auto)
  then have bytes: "assemblyBytes ?m \<le> assemblyBytes l"
    using inv m by (simp add: link_inv_def assemblies_inv_def)
  have "assembly_ok ?a" by (simp add: assembly_ok_def MAX_PACKET_def)
  then have "assemblies_inv (?m\<lparr>assemblies := oset i ?a (assemblies ?m), assemblyBytes := assemblyBytes ?m\<rparr>)"
    using m few new by (auto simp: link_inv_def assemblies_inv_def osum_replace set_oset length_oset new new [unfolded oget_None_iff])
  then have "link_inv ?l1" using assemblies_frame [OF m] by fastforce
  then have "collecting i e {} ?l1"
    using e bytes by (simp add: collecting_def holds_def oget_oset)
  moreover have "add_part now i k (fragments e) d l = add_part now i k (fragments e) d ?l1" for d
    using none(1) few by (simp add: add_part_def Let_def oget_oset)
  ultimately show ?thesis by blast
qed

definition frames :: "ustr \<Rightarrow> bytes \<Rightarrow> (int \<times> nat) list \<Rightarrow> (int \<times> jval) list" where
  "frames i e ks = map (\<lambda>(now, k). (now, frame_json i k (fragments e) (fragment_of e k))) ks"

lemma arrivals_collect:
  assumes "collecting i e S l" "hex64 i" "snd ` set ks \<subseteq> {..<fragments e}" "k < fragments e"
    and "S \<union> snd ` set ks \<noteq> {..<fragments e}" "insert k (S \<union> snd ` set ks) = {..<fragments e}"
  shows "\<exists>l'. arrivals (frames i e (ks @ [(now, k)])) l = ([e], l') \<and> link_inv l' \<and> oget (assemblies l') i = None"
  using assms
proof (induction ks arbitrary: S l)
  case Nil
  have small: "int (length e) \<le> MAX_PACKET" using Nil.prems(1) by (simp add: collecting_def)
  obtain l' where "add_part now i k (fragments e) (fragment_of e k) l = (PartComplete e, l')"
    "link_inv l'" "oget (assemblies l') i = None"
    using collect_step [OF Nil.prems(1,4), of now] Nil.prems(6) by auto
  then show ?case using frame_roundtrip [OF Nil.prems(2,4) small] by (simp add: frames_def)
next
  case (Cons x ks)
  obtain at j where x: "x = (at, j)" by (cases x)
  have small: "int (length e) \<le> MAX_PACKET" using Cons.prems(1) by (simp add: collecting_def)
  have j: "j < fragments e" using Cons.prems(3) x by auto
  have "insert j S \<noteq> {..<fragments e}" using Cons.prems(3,5) x by auto
  then obtain l1 where l1: "add_part at i j (fragments e) (fragment_of e j) l = (PartStored, l1)" "collecting i e (insert j S) l1"
    using collect_step [OF Cons.prems(1) j, of at] by auto
  have "\<exists>l'. arrivals (frames i e (ks @ [(now, k)])) l1 = ([e], l') \<and> link_inv l' \<and> oget (assemblies l') i = None"
    by (rule Cons.IH [OF l1(2)]) (use Cons.prems x in auto)
  then show ?case using l1(1) frame_roundtrip [OF Cons.prems(2) j small] x by (auto simp: frames_def)
qed

text \<open>
  C9: fragments reassemble. Whatever the order in which the frames of a packet arrive, however
  often they are repeated, and whatever else is being assembled, nothing is delivered before
  the last missing frame; then exactly the bytes that were sent are delivered, once, and the
  assembly is gone.
\<close>

theorem reassembly_roundtrip:
  assumes "link_inv l" "oget (assemblies l) i = None" "length (assemblies l) < MAX_ASSEMBLIES" "hex64 i"
    and "e \<noteq> []" "int (length e) \<le> MAX_PACKET" "assemblyBytes l + int (length e) \<le> MAX_PENDING"
    and "snd ` set ks \<subset> {..<fragments e}" "insert k (snd ` set ks) = {..<fragments e}"
  shows "\<exists>l'. arrivals (frames i e (ks @ [(now, k)])) l = ([e], l') \<and> link_inv l' \<and> oget (assemblies l') i = None"
proof -
  obtain at j rest where first: "ks @ [(now, k)] = (at, j) # rest" by (cases "ks @ [(now, k)]") auto
  have "j \<in> insert k (snd ` set ks)" using arg_cong [OF first, of "\<lambda>x. snd ` set x"] by auto
  then have j: "j < fragments e" using assms(9) by auto
  have k: "k < fragments e" using assms(9) by auto
  obtain l1 where l1: "collecting i e {} l1"
    "add_part at i j (fragments e) (fragment_of e j) l = add_part at i j (fragments e) (fragment_of e j) l1"
    using collect_first [OF assms(1-3,6,7) j] by blast
  have "arrivals (frames i e (ks @ [(now, k)])) l = arrivals (frames i e (ks @ [(now, k)])) l1"
    unfolding first frames_def using l1(2) frame_roundtrip [OF assms(4) j assms(6)] by simp
  moreover have "\<exists>l'. arrivals (frames i e (ks @ [(now, k)])) l1 = ([e], l') \<and> link_inv l' \<and> oget (assemblies l') i = None"
    by (rule arrivals_collect [OF l1(1) assms(4) _ k]) (use assms(8,9) in auto)
  ultimately show ?thesis by simp
qed

theorem reassembly_roundtrip_witness:
  "\<exists>e l'. fragments e = 3 \<and>
     arrivals (frames (replicate 64 97) e ([(0, 2), (5, 0), (6, 2)] @ [(7, 1)])) (new_link Tcp 0) = ([e], l')"
proof -
  define e where "e = replicate 5000 (0 :: 8 word)"
  define i where "i = replicate 64 (97 :: nat)"
  have len: "length e = 5000" by (simp only: e_def length_replicate)
  then have n: "fragments e = 3" by (simp add: fragments_def FRAGMENT_def)
  have inv: "link_inv (new_link Tcp 0)"
    by (simp add: link_inv_def link_parts new_link_def occupied_def ovals_def MAX_PENDING_def)
  have i: "hex64 i" by (simp add: hex64_def is_hex_def list_all_iff i_def)
  have sets: "snd ` set [(0 :: int, 2 :: nat), (5, 0), (6, 2)] \<subset> {..<fragments e}"
    "insert 1 (snd ` set [(0 :: int, 2 :: nat), (5, 0), (6, 2)]) = {..<fragments e}"
  proof -
    have three: "{..<3 :: nat} = {0, 1, 2}" by (simp add: numeral_eq_Suc lessThan_Suc insert_commute)
    have "snd ` set [(0 :: int, 2 :: nat), (5, 0), (6, 2)] = {0, 2}" by (simp add: insert_commute)
    moreover have "{0, 2 :: nat} \<subset> {0, 1, 2}" by (simp add: psubset_eq) force
    moreover have "insert 1 {0, 2 :: nat} = {0, 1, 2}" by blast
    ultimately show "snd ` set [(0 :: int, 2 :: nat), (5, 0), (6, 2)] \<subset> {..<fragments e}"
      "insert 1 (snd ` set [(0 :: int, 2 :: nat), (5, 0), (6, 2)]) = {..<fragments e}"
      unfolding n three by simp_all
  qed
  have "\<exists>l'. arrivals (frames i e ([(0, 2), (5, 0), (6, 2)] @ [(7, 1)])) (new_link Tcp 0) = ([e], l') \<and>
      link_inv l' \<and> oget (assemblies l') i = None"
    by (rule reassembly_roundtrip [OF inv _ _ i _ _ _ sets])
      (use len in \<open>auto simp: new_link_def MAX_ASSEMBLIES_def MAX_PACKET_def MAX_PENDING_def\<close>)
  with n show ?thesis unfolding i_def by blast
qed

end
