(* ===== verification/Router.thy ===== *)
theory Router
  imports Link_Queue Bundle
begin

text \<open>
  The router of a node (\<open>packages/transport/src/index.ts\<close>, class \<open>Router\<close>): which packets
  it accepts, the table of packets it has seen, the packets it keeps to offer to later
  connections, and what it sends to its links. Sockets and serial ports are outside the model;
  a link is known by a number. What the listeners of \<open>payload\<close> do is not part of an
  operation: each delivery is recorded in \<open>deliveries\<close>, as the packet (of which the listeners
  are given the payload, the path, the source and the identifier) and the medium.
\<close>

section \<open>State\<close>

definition MAX_SEEN :: nat where "MAX_SEEN = 4096"
definition MAX_LINKS :: nat where "MAX_LINKS = 24"
definition MAX_HOPS :: int where "MAX_HOPS = 12"
definition MAX_TTL :: int where "MAX_TTL = 3600000"

record router =
  rid :: ustr
  relay :: bool
  lowPower :: bool
  stopped :: bool
  seen :: "(ustr, int) omap"
  links :: "(nat, link) omap"
  retainedMap :: "(ustr, retained) omap"
  retainedBytes :: int
  count_of :: counters
  deliveries :: "(packet \<times> medium) list"
  nextLink :: nat

datatype router_error =
    BadRouter
  | PacketTooLarge
  | PacketText json_error
  | BadPacket
  | PayloadRefused
  | BadBroadcast

definition new_router :: "ustr \<Rightarrow> bool \<Rightarrow> router_error + router" where
  "new_router i rel =
     (if i = [] \<or> length i > 128 then Inl BadRouter
      else Inr \<lparr>rid = i, relay = rel, lowPower = False, stopped = False, seen = [], links = [], retainedMap = [],
        retainedBytes = 0,
        count_of = \<lparr>received = 0, forwarded = 0, duplicates = 0, rejected = 0, dropped = 0, retransmits = 0, rateLimited = 0\<rparr>,
        deliveries = [], nextLink = 0\<rparr>)"

section \<open>Packets\<close>

definition packet_body :: "jval \<Rightarrow> jval" where
  "packet_body v = JObj (odel (lit ''hops'') (odel (lit ''id'') (fields_of v)))"

definition hop_ok :: "jval \<Rightarrow> bool" where
  "hop_ok h \<longleftrightarrow> is_str h \<and> str_of h \<noteq> [] \<and> length (str_of h) \<le> 128"

definition packet_of :: "jval \<Rightarrow> packet" where
  "packet_of v =
     \<lparr>p_id = str_of (jget v (lit ''id'')), p_source = str_of (jget v (lit ''source'')),
      p_created = int_of (jget v (lit ''created'')), p_expires = int_of (jget v (lit ''expires'')),
      p_maxHops = int_of (jget v (lit ''maxHops'')), p_hops = map str_of (items_of (jget v (lit ''hops''))),
      p_prio = (case parse_priority (jget v (lit ''priority'')) of Some p \<Rightarrow> p | None \<Rightarrow> Normal),
      p_payload = jget v (lit ''payload''), p_value = v\<rparr>"

text \<open>The conditions of \<open>receive\<close>, before anything changes.\<close>

definition check_packet :: "crypto \<Rightarrow> int \<Rightarrow> jval \<Rightarrow> router_error + packet" where
  "check_packet C now v =
     (case canon (packet_body v) of Inl e \<Rightarrow> Inl (PacketText e)
      | Inr s \<Rightarrow>
        let p = packet_of v; hs = jget v (lit ''hops'') in
        if JStr (sha C (utf8 s)) \<noteq> jget v (lit ''id'') \<or>
           \<not> hop_ok (jget v (lit ''source'')) \<or>
           parse_priority (jget v (lit ''priority'')) = None \<or>
           \<not> is_safe_int (jget v (lit ''created'')) \<or> \<not> is_safe_int (jget v (lit ''expires'')) \<or>
           p_created p > now + 300000 \<or> p_expires p \<le> now \<or> p_expires p \<le> p_created p \<or>
           p_expires p - p_created p > MAX_TTL \<or>
           \<not> is_int (jget v (lit ''maxHops'')) \<or> p_maxHops p < 1 \<or> p_maxHops p > MAX_HOPS \<or>
           \<not> is_arr hs \<or> items_of hs = [] \<or> int (length (items_of hs)) > p_maxHops p \<or>
           hd (items_of hs) \<noteq> jget v (lit ''source'') \<or> \<not> list_all hop_ok (items_of hs) \<or>
           \<not> distinct (items_of hs)
        then Inl BadPacket else Inr p)"

section \<open>The table of seen packets\<close>

definition hasSeen :: "int \<Rightarrow> ustr \<Rightarrow> router \<Rightarrow> bool \<times> router" where
  "hasSeen now i r = (case oget (seen r) i of None \<Rightarrow> (False, r)
     | Some e \<Rightarrow> if e \<le> now then (False, r\<lparr>seen := odel i (seen r)\<rparr>) else (True, r))"

definition remember :: "packet \<Rightarrow> router \<Rightarrow> router" where
  "remember p r = r\<lparr>seen := oset (p_id p) (p_expires p)
     (if length (okeys (seen r)) \<ge> MAX_SEEN then odel (hd (okeys (seen r))) (seen r) else seen r)\<rparr>"

section \<open>Retained packets\<close>

definition removeRetained :: "ustr \<Rightarrow> router \<Rightarrow> router" where
  "removeRetained i r = (case oget (retainedMap r) i of None \<Rightarrow> r
     | Some v \<Rightarrow> r\<lparr>retainedBytes := retainedBytes r - r_bytes v, retainedMap := odel i (retainedMap r)\<rparr>)"

definition drop_expired :: "int \<Rightarrow> router \<Rightarrow> router" where
  "drop_expired now r = fold removeRetained (okeys (filter (\<lambda>e. p_expires (r_packet (snd e)) \<le> now) (retainedMap r))) r"

definition retain_victims :: "priority \<Rightarrow> router \<Rightarrow> (ustr \<times> retained) list" where
  "retain_victims p r = sort_key (\<lambda>e. (- int (rank (p_prio (r_packet (snd e)))), p_created (r_packet (snd e))))
     (filter (\<lambda>e. rank (p_prio (r_packet (snd e))) \<ge> rank p) (retainedMap r))"

definition count_dropped :: "router \<Rightarrow> router" where
  "count_dropped r = r\<lparr>count_of := (count_of r)\<lparr>dropped := dropped (count_of r) + 1\<rparr>\<rparr>"

lemma retain_victims_in: "e \<in> set (retain_victims p r) \<Longrightarrow> e \<in> set (retainedMap r) \<and> rank p \<le> rank (p_prio (r_packet (snd e)))"
  by (simp add: retain_victims_def)

lemma removeRetained_shrinks:
  assumes "e \<in> set (retainedMap r)"
  shows "length (retainedMap (removeRetained (fst e) r)) < length (retainedMap r)"
proof -
  have "oget (retainedMap r) (fst e) \<noteq> None" using assms by (cases e) (auto simp: oget_None_iff intro: rev_image_eqI)
  moreover have "length (odel (fst e) (retainedMap r)) < length (retainedMap r)"
    unfolding odel_def using assms by (intro length_filter_less) auto
  ultimately show ?thesis by (auto simp: removeRetained_def)
qed

text \<open>The loop that makes room: least urgent first, and of those the oldest.\<close>

function retain_room :: "priority \<Rightarrow> int \<Rightarrow> router \<Rightarrow> bool \<times> router" where
  "retain_room p b r =
     (if length (retainedMap r) \<ge> MAX_TRANSFERS \<or> retainedBytes r + b > MAX_PENDING then
        (case retain_victims p r of
           [] \<Rightarrow> (False, count_dropped r)
         | v # _ \<Rightarrow> retain_room p b (count_dropped (removeRetained (fst v) r)))
      else (True, r))"
  by pat_completeness auto

termination retain_room
proof (relation "measure (\<lambda>(p, b, r). length (retainedMap r))")
  fix p b r v vs
  assume "retain_victims p r = v # vs"
  then have "v \<in> set (retainedMap r)" using retain_victims_in [of v p r] by simp
  then show "((p, b, count_dropped (removeRetained (fst v) r)), p, b, r) \<in> measure (\<lambda>(p, b, r). length (retainedMap r))"
    using removeRetained_shrinks by (simp add: count_dropped_def)
qed simp

declare retain_room.simps [simp del]

definition retain :: "int \<Rightarrow> jval \<Rightarrow> bool \<Rightarrow> router \<Rightarrow> (router_error + retained option) \<times> router" where
  "retain now v rel r =
     (case canon v of Inl e \<Rightarrow> (Inl (PacketText e), r)
      | Inr s \<Rightarrow>
        let code = utf8 s; b = int (length code) in
        if b > MAX_PACKET then (Inl PacketTooLarge, r)
        else (let x = \<lparr>r_packet = packet_of (jnorm v), encoded = code, r_bytes = b, relayOnly = rel\<rparr>;
                  (room, r1) = retain_room (p_prio (packet_of v)) b (drop_expired now r)
              in if \<not> room then (Inr None, r1)
                 else (Inr (Some x), r1\<lparr>retainedMap := oset (p_id (packet_of v)) x (retainedMap r1),
                        retainedBytes := retainedBytes r1 + b\<rparr>)))"

section \<open>Sending to the links\<close>

text \<open>An operation of a link, with the counters of its router.\<close>

definition on_link :: "nat \<Rightarrow> (counters \<times> link \<Rightarrow> counters \<times> link) \<Rightarrow> router \<Rightarrow> router" where
  "on_link k f r = (case oget (links r) k of None \<Rightarrow> r
     | Some l \<Rightarrow> let (c, l') = f (count_of r, l) in r\<lparr>links := oset k l' (links r), count_of := c\<rparr>)"

definition enqueue_on :: "int \<Rightarrow> retained \<Rightarrow> nat \<Rightarrow> router \<Rightarrow> router" where
  "enqueue_on now v k r = on_link k (enqueue (lowPower r) now v) r"

definition forward_on :: "int \<Rightarrow> retained \<Rightarrow> nat \<Rightarrow> nat \<Rightarrow> router \<Rightarrow> router" where
  "forward_on now v source k r =
     (case oget (links r) k of None \<Rightarrow> r
      | Some l \<Rightarrow> if k \<noteq> source \<and> active l then
            (let r1 = enqueue_on now v k r in r1\<lparr>count_of := (count_of r1)\<lparr>forwarded := forwarded (count_of r1) + 1\<rparr>\<rparr>)
          else r)"

definition relayed_value :: "jval \<Rightarrow> ustr \<Rightarrow> jval" where
  "relayed_value v me = JObj (oset (lit ''hops'') (JArr (items_of (jget v (lit ''hops'')) @ [JStr me])) (fields_of v))"

definition receive :: "crypto \<Rightarrow> (jval \<Rightarrow> bool) \<Rightarrow> int \<Rightarrow> jval \<Rightarrow> nat \<Rightarrow> router \<Rightarrow> (router_error + unit) \<times> router" where
  "receive C validate now v source r =
     (case check_packet C now v of Inl e \<Rightarrow> (Inl e, r)
      | Inr p \<Rightarrow>
        let (dup, r1) = hasSeen now (p_id p) r in
        if dup \<or> rid r \<in> set (p_hops p) then
          (Inr (), r1\<lparr>count_of := (count_of r1)\<lparr>duplicates := duplicates (count_of r1) + 1\<rparr>\<rparr>)
        else if \<not> validate (p_payload p) then (Inl PayloadRefused, r1)
        else
          let r2 = remember p r1;
              d = (p, case oget (links r) source of Some l \<Rightarrow> medium l | None \<Rightarrow> Tcp);
              r3 = r2\<lparr>count_of := (count_of r2)\<lparr>received := received (count_of r2) + 1\<rparr>, deliveries := deliveries r2 @ [d]\<rparr>
          in if relay r3 \<and> int (length (p_hops p)) < p_maxHops p then
               (case retain now (relayed_value v (rid r)) True r3 of
                  (Inl e, r4) \<Rightarrow> (Inl e, r4)
                | (Inr None, r4) \<Rightarrow> (Inr (), r4)
                | (Inr (Some x), r4) \<Rightarrow> (Inr (), fold (forward_on now x source) (okeys (links r4)) r4))
             else (Inr (), r3))"

text \<open>The packet a node makes of its own payload.\<close>

definition own_body :: "ustr \<Rightarrow> int \<Rightarrow> int \<Rightarrow> priority \<Rightarrow> jval \<Rightarrow> (ustr, jval) omap" where
  "own_body me now ttl p payload =
     [(lit ''source'', JStr me), (lit ''created'', JInt now), (lit ''expires'', JInt (now + ttl)),
      (lit ''maxHops'', JInt MAX_HOPS), (lit ''priority'', JStr (priority_text p)), (lit ''payload'', payload)]"

definition own_packet :: "ustr \<Rightarrow> int \<Rightarrow> int \<Rightarrow> priority \<Rightarrow> jval \<Rightarrow> ustr \<Rightarrow> jval" where
  "own_packet me now ttl p payload i =
     JObj (own_body me now ttl p payload @ [(lit ''id'', JStr i), (lit ''hops'', JArr [JStr me])])"

definition broadcast ::
    "crypto \<Rightarrow> int \<Rightarrow> jval \<Rightarrow> jval \<Rightarrow> jval \<Rightarrow> bool \<Rightarrow> router \<Rightarrow> (router_error + ustr) \<times> router" where
  "broadcast C now payload prio ttl rel r =
     (if stopped r \<or> parse_priority prio = None \<or> \<not> is_safe_int ttl \<or> int_of ttl < 1 \<or> int_of ttl > MAX_TTL
      then (Inl BadBroadcast, r)
      else let p = the (parse_priority prio) in
        case canon (JObj (own_body (rid r) now (int_of ttl) p payload)) of Inl e \<Rightarrow> (Inl (PacketText e), r)
        | Inr s \<Rightarrow>
          let i = sha C (utf8 s); v = own_packet (rid r) now (int_of ttl) p payload i in
          if rel \<and> \<not> relay r then (Inr i, r)
          else let (dup, r1) = hasSeen now i r in
            if dup then (Inr i, r1)
            else (case retain now v rel r1 of
                (Inl e, r2) \<Rightarrow> (Inl e, r2)
              | (Inr x, r2) \<Rightarrow>
                  let r3 = remember (packet_of v) r2 in
                  (Inr i, case x of None \<Rightarrow> r3 | Some y \<Rightarrow> fold (enqueue_on now y) (okeys (links r3)) r3)))"

section \<open>Connections\<close>

definition live_links :: "router \<Rightarrow> router" where
  "live_links r = r\<lparr>links := filter (\<lambda>p. active (snd p)) (links r)\<rparr>"

definition attach :: "int \<Rightarrow> medium \<Rightarrow> router \<Rightarrow> nat option \<times> router" where
  "attach now m r =
     (let r1 = live_links r in
      if stopped r1 \<or> length (links r1) \<ge> MAX_LINKS then (None, r1)
      else (let k = nextLink r1;
                r2 = r1\<lparr>links := oset k (new_link m now) (links r1), nextLink := k + 1\<rparr>
            in (Some k, fold (\<lambda>v r. if \<not> relayOnly v \<or> relay r then enqueue_on now v k r else r) (ovals (retainedMap r2)) r2)))"

definition set_relay :: "bool \<Rightarrow> router \<Rightarrow> router" where
  "set_relay enabled r =
     (let r1 = r\<lparr>relay := enabled\<rparr> in
      if enabled then r1
      else (let r2 = r1\<lparr>links := map (\<lambda>(k, l). (k, cancelRelayed l)) (links r1)\<rparr>
            in fold removeRetained (okeys (filter (\<lambda>e. relayOnly (snd e)) (retainedMap r2))) r2))"

definition local_match :: "ustr \<Rightarrow> (jval \<Rightarrow> bool) \<Rightarrow> retained \<Rightarrow> bool" where
  "local_match me match v \<longleftrightarrow> p_source (r_packet v) = me \<and> match (p_payload (r_packet v))"

definition router_cancelLocal :: "(jval \<Rightarrow> bool) \<Rightarrow> router \<Rightarrow> nat \<times> router" where
  "router_cancelLocal match r =
     (let removed = okeys (filter (\<lambda>e. local_match (rid r) match (snd e)) (retainedMap r));
          r1 = fold removeRetained removed r;
          more = concat (map (\<lambda>p. fst (cancelLocal (rid r) match (snd p))) (links r1))
      in (length (remdups (removed @ more)),
          r1\<lparr>links := map (\<lambda>(k, l). (k, snd (cancelLocal (rid r) match l))) (links r1)\<rparr>))"

text \<open>The timer: what has expired goes, every live link is pumped.\<close>

definition tick_link :: "int \<Rightarrow> nat \<Rightarrow> router \<Rightarrow> router" where
  "tick_link now k r = (case oget (links r) k of None \<Rightarrow> r
     | Some l \<Rightarrow> if active l then on_link k (pump_call (lowPower r) now) r else r\<lparr>links := odel k (links r)\<rparr>)"

definition tick :: "int \<Rightarrow> router \<Rightarrow> router" where
  "tick now r =
     (let r1 = drop_expired now (r\<lparr>seen := filter (\<lambda>p. now < snd p) (seen r)\<rparr>)
      in fold (tick_link now) (okeys (links r1)) r1)"

definition stop :: "router \<Rightarrow> router" where
  "stop r = r\<lparr>stopped := True, links := [], retainedMap := [], retainedBytes := 0, seen := []\<rparr>"

section \<open>Reading from a link\<close>

text \<open>One parsed line. The result says whether it was accepted; a refusal is an exception.\<close>

definition frame :: "crypto \<Rightarrow> (jval \<Rightarrow> bool) \<Rightarrow> int \<Rightarrow> nat \<Rightarrow> jval \<Rightarrow> router \<Rightarrow> bool \<times> router" where
  "frame C validate now k f r =
     (case parse_frame f of
        None \<Rightarrow> (False, r)
      | Some (InAck i) \<Rightarrow> (True, on_link k (\<lambda>(c, l). (c, removeTransfer i l)) r)
      | Some (InPart i index n d) \<Rightarrow>
          let (dup, r1) = hasSeen now i r in
          if dup then
            (True, let r2 = on_link k (acknowledge now i) r1
                   in r2\<lparr>count_of := (count_of r2)\<lparr>duplicates := duplicates (count_of r2) + 1\<rparr>\<rparr>)
          else (case oget (links r1) k of None \<Rightarrow> (False, r1)
           | Some l \<Rightarrow>
             let (res, l') = add_part now i index n d l; r2 = r1\<lparr>links := oset k l' (links r1)\<rparr> in
             case res of
               PartRefused \<Rightarrow> (False, r2)
             | PartStored \<Rightarrow> (True, r2)
             | PartComplete b \<Rightarrow>
                 (case parse_json C b of None \<Rightarrow> (False, r2)
                  | Some v \<Rightarrow>
                    if \<not> truthy v \<or> jget v (lit ''id'') \<noteq> JStr i then (False, r2)
                    else (case receive C validate now v k r2 of
                        (Inl e, r3) \<Rightarrow> (False, r3)
                      | (Inr _, r3) \<Rightarrow> (True, on_link k (acknowledge now i) r3)))))"

text \<open>
  \<open>destroy\<close> closes the link; its stream is outside the model.
\<close>

definition destroy :: "nat \<Rightarrow> router \<Rightarrow> router" where
  "destroy k r = on_link k (\<lambda>(c, l). (c, close l)) r"

definition rate_limit :: "nat \<Rightarrow> router \<Rightarrow> router" where
  "rate_limit k r = destroy k (r\<lparr>count_of := (count_of r)\<lparr>rateLimited := rateLimited (count_of r) + 1\<rparr>\<rparr>)"

definition reject_line :: "nat \<Rightarrow> router \<Rightarrow> router" where
  "reject_line k r =
     (let r1 = on_link k (\<lambda>(c, l). (c\<lparr>rejected := rejected c + 1\<rparr>, l\<lparr>invalidWindow := invalidWindow l + 1\<rparr>)) r
      in case oget (links r1) k of Some l \<Rightarrow> if invalidWindow l \<ge> 32 then rate_limit k r1 else r1 | None \<Rightarrow> r1)"

definition set_buffer :: "nat \<Rightarrow> ustr \<Rightarrow> router \<Rightarrow> router" where
  "set_buffer k s r = on_link k (\<lambda>(c, l). (c, l\<lparr>buffer := s\<rparr>)) r"

definition read_line :: "crypto \<Rightarrow> (jval \<Rightarrow> bool) \<Rightarrow> int \<Rightarrow> nat \<Rightarrow> ustr \<Rightarrow> router \<Rightarrow> router" where
  "read_line C validate now k line r =
     (let (ok, r1) =
        (if length line > MAX_FRAME then (False, r)
         else case parse_json C (utf8 line) of None \<Rightarrow> (False, r) | Some f \<Rightarrow> frame C validate now k f r)
      in if ok then r1 else reject_line k r1)"

text \<open>
  The loop over the complete lines of the buffer (\<open>s\<close> is the buffer). It stops when the link
  is closed, and closes it after 8192 frames in a second or 32 bad lines. What a line holds is
  given by the JSON parser of the runtime (a parameter of the cryptographic record).
\<close>

function read_lines :: "crypto \<Rightarrow> (jval \<Rightarrow> bool) \<Rightarrow> int \<Rightarrow> nat \<Rightarrow> ustr \<Rightarrow> router \<Rightarrow> router" where
  "read_lines C validate now k s r =
     (case oget (links r) k of None \<Rightarrow> r
      | Some l \<Rightarrow>
        if \<not> active l then r
        else if 10 \<notin> set s then set_buffer k s r
        else
          let line = takeWhile (\<lambda>c. c \<noteq> 10) s; rest = tl (dropWhile (\<lambda>c. c \<noteq> 10) s);
              r1 = on_link k (\<lambda>(c, l). (c, l\<lparr>buffer := rest, framesWindow := framesWindow l + 1\<rparr>)) r
          in if framesWindow l + 1 > 8192 then rate_limit k r1
             else if line = [] then read_lines C validate now k rest r1
             else read_lines C validate now k rest (read_line C validate now k line r1))"
  by pat_completeness auto

lemma rest_shorter: "10 \<in> set s \<Longrightarrow> length (tl (dropWhile (\<lambda>c. c \<noteq> 10) s)) < length (s :: ustr)"
proof -
  assume "10 \<in> set s"
  then have "dropWhile (\<lambda>c. c \<noteq> 10) s \<noteq> []" by (simp add: dropWhile_eq_Nil_conv)
  moreover have "length (dropWhile (\<lambda>c. c \<noteq> 10) s) \<le> length s" by (rule length_dropWhile_le)
  ultimately show ?thesis by (cases "dropWhile (\<lambda>c. c \<noteq> 10) s") auto
qed

termination read_lines
  by (relation "measure (\<lambda>(C, v, now, k, s, r). length s)") (simp_all add: rest_shorter [simplified])

declare read_lines.simps [simp del]

text \<open>A chunk of \<open>n\<close> bytes arrives, with the text it decodes to.\<close>

definition read_chunk :: "crypto \<Rightarrow> (jval \<Rightarrow> bool) \<Rightarrow> int \<Rightarrow> nat \<Rightarrow> nat \<Rightarrow> ustr \<Rightarrow> router \<Rightarrow> router" where
  "read_chunk C validate now k n s r =
     (case oget (links r) k of None \<Rightarrow> r
      | Some l0 \<Rightarrow>
        if \<not> active l0 then r
        else
          let l1 = (if now - windowStart l0 \<ge> 1000 then l0\<lparr>receivedWindow := 0, framesWindow := 0, invalidWindow := 0,
                       windowStart := now\<rparr> else l0);
              l2 = l1\<lparr>receivedWindow := receivedWindow l1 + int n\<rparr>;
              r2 = r\<lparr>links := oset k l2 (links r)\<rparr>
          in if receivedWindow l2 > 12 * 1024 * 1024 then rate_limit k r2
             else
               let l3 = l2\<lparr>receivedTotal := receivedTotal l2 + int n, buffer := buffer l2 @ s\<rparr>;
                   r3 = read_lines C validate now k (buffer l3) (r2\<lparr>links := oset k l3 (links r2)\<rparr>);
                   pumped = (\<lambda>r. on_link k (pump_call (lowPower r) now) r)
               in (case oget (links r3) k of None \<Rightarrow> r3
                   | Some l \<Rightarrow>
                     if \<not> active l then r3
                     else if length (buffer l) > MAX_FRAME then
                       pumped (destroy k (r3\<lparr>count_of := (count_of r3)\<lparr>rejected := rejected (count_of r3) + 1\<rparr>\<rparr>))
                     else pumped r3))"

end
