(* ===== verification/Router_Inv.thy ===== *)
theory Router_Inv
  imports Router Bundle_Stored
begin

text \<open>
  The invariant of a router over all its operations: the bounds on its connections, on what it
  remembers and on what it retains, and the shape of the packets it relays.
\<close>

section \<open>The invariant\<close>

interpretation retained_account: byte_account retainedMap retainedBytes r_bytes removeRetained
  by unfold_locales (auto simp: removeRetained_def odel_none split: option.split)

definition links_inv :: "(nat, link) omap \<Rightarrow> nat \<Rightarrow> bool" where
  "links_inv ls g \<longleftrightarrow> owf ls \<and> length ls \<le> MAX_LINKS \<and> (\<forall>(k, l) \<in> set ls. link_inv l \<and> k < g)"

text \<open>What is kept to be sent: a packet with a path of at most twelve different nodes that ends here.\<close>

definition path_ok :: "ustr \<Rightarrow> packet \<Rightarrow> bool" where
  "path_ok me p \<longleftrightarrow> distinct (p_hops p) \<and> p_hops p \<noteq> [] \<and> int (length (p_hops p)) \<le> MAX_HOPS \<and>
     last (p_hops p) = me \<and> hd (p_hops p) = p_source p"

definition retained_inv :: "ustr \<Rightarrow> (ustr, retained) omap \<Rightarrow> int \<Rightarrow> bool" where
  "retained_inv me m b \<longleftrightarrow> owf m \<and> length m \<le> MAX_TRANSFERS \<and> osum r_bytes m \<le> b \<and> b \<le> MAX_PENDING \<and>
     (\<forall>(i, v) \<in> set m. retained_ok v \<and> p_id (r_packet v) = i \<and> path_ok me (r_packet v))"

definition seen_inv :: "(ustr, int) omap \<Rightarrow> bool" where
  "seen_inv m \<longleftrightarrow> owf m \<and> length (okeys m) \<le> MAX_SEEN"

definition router_inv :: "router \<Rightarrow> bool" where
  "router_inv r \<longleftrightarrow> links_inv (links r) (nextLink r) \<and> retained_inv (rid r) (retainedMap r) (retainedBytes r) \<and> seen_inv (seen r)"

lemma router_inv_frame [simp]:
  "router_inv (r\<lparr>count_of := c\<rparr>) = router_inv r" "router_inv (r\<lparr>deliveries := d\<rparr>) = router_inv r"
  "router_inv (r\<lparr>relay := b\<rparr>) = router_inv r" "router_inv (count_dropped r) = router_inv r"
  by (simp_all add: router_inv_def count_dropped_def)

lemma links_inv_set:
  assumes "links_inv ls g" "oget ls k = Some l" "link_inv l'"
  shows "links_inv (oset k l' ls) g"
proof -
  have "k \<in> fst ` set ls" using oget_SomeD [OF assms(2)] by force
  with assms oget_SomeD [OF assms(2)] show ?thesis by (auto simp: links_inv_def set_oset length_oset)
qed

lemma links_inv_get: "links_inv ls g \<Longrightarrow> oget ls k = Some l \<Longrightarrow> link_inv l"
  by (auto simp: links_inv_def dest!: oget_SomeD)

lemma on_link_inv:
  assumes "router_inv r" "\<And>c l c' l'. link_inv l \<Longrightarrow> f (c, l) = (c', l') \<Longrightarrow> link_inv l'"
  shows "router_inv (on_link k f r)"
proof (cases "oget (links r) k")
  case (Some l)
  obtain c' l' where f: "f (count_of r, l) = (c', l')" by fastforce
  have "link_inv l" using assms(1) links_inv_get [OF _ Some] by (auto simp: router_inv_def)
  then have "link_inv l'" using f by (rule assms(2))
  with Some f assms(1) show ?thesis by (auto simp: on_link_def router_inv_def links_inv_set)
qed (simp add: on_link_def assms(1))

lemma on_link_frame [simp]: "rid (on_link k f r) = rid r" "seen (on_link k f r) = seen r"
  "retainedMap (on_link k f r) = retainedMap r" "retainedBytes (on_link k f r) = retainedBytes r"
  "relay (on_link k f r) = relay r" "deliveries (on_link k f r) = deliveries r" "stopped (on_link k f r) = stopped r"
  "lowPower (on_link k f r) = lowPower r" "okeys (links (on_link k f r)) = okeys (links r)" "nextLink (on_link k f r) = nextLink r"
  by (simp_all add: on_link_def okeys_oset_present case_prod_beta split: option.split)

section \<open>The seen table\<close>

lemma hasSeen_inv: "router_inv r \<Longrightarrow> hasSeen now i r = (b, r') \<Longrightarrow> router_inv r'"
  by (auto simp: hasSeen_def router_inv_def seen_inv_def okeys_def le_trans [OF length_odel_le] split: option.splits if_splits)

lemma hasSeen_frame:
  "hasSeen now i r = (b, r') \<Longrightarrow> r' = r\<lparr>seen := seen r'\<rparr> \<and> (b \<longleftrightarrow> (\<exists>e. oget (seen r) i = Some e \<and> now < e)) \<and>
     (\<forall>j. oget (seen r') j = (if j = i \<and> \<not> b then None else oget (seen r) j))"
  by (auto simp: hasSeen_def oget_odel split: option.splits if_splits)

lemma hasSeen_rest: "hasSeen now i r = (b, r') \<Longrightarrow> rid r' = rid r \<and> links r' = links r \<and> retainedMap r' = retainedMap r \<and>
    retainedBytes r' = retainedBytes r \<and> relay r' = relay r \<and> deliveries r' = deliveries r \<and> nextLink r' = nextLink r \<and>
    lowPower r' = lowPower r \<and> stopped r' = stopped r \<and> count_of r' = count_of r"
  by (auto simp: hasSeen_def split: option.splits if_splits)

lemma remember_inv: "router_inv r \<Longrightarrow> router_inv (remember p r)"
proof -
  assume r: "router_inv r"
  then have s: "owf (seen r)" "length (okeys (seen r)) \<le> MAX_SEEN" by (simp_all add: router_inv_def seen_inv_def)
  have "length (okeys (seen (remember p r))) \<le> MAX_SEEN"
    unfolding remember_def using omap.bounded_put [OF s(1) _ s(2), of "p_id p" "p_expires p"] by (simp add: MAX_SEEN_def)
  with r s(1) show ?thesis by (simp add: router_inv_def seen_inv_def remember_def)
qed

section \<open>Retaining\<close>

lemma removeRetained_frame [simp]: "rid (removeRetained i r) = rid r" "links (removeRetained i r) = links r"
  "nextLink (removeRetained i r) = nextLink r" "seen (removeRetained i r) = seen r" "relay (removeRetained i r) = relay r"
  "deliveries (removeRetained i r) = deliveries r" "lowPower (removeRetained i r) = lowPower r" "stopped (removeRetained i r) = stopped r"
  by (simp_all add: removeRetained_def split: option.split)

lemma removeRetained_inv: "router_inv r \<Longrightarrow> router_inv (removeRetained i r)"
proof -
  assume r: "router_inv r"
  let ?m = "retainedMap r" and ?c = "case oget (retainedMap r) i of None \<Rightarrow> 0 | Some v \<Rightarrow> r_bytes v"
  have m: "owf ?m" "osum r_bytes ?m \<le> retainedBytes r" "retainedBytes r \<le> MAX_PENDING" "length ?m \<le> MAX_TRANSFERS"
    using r by (simp_all add: router_inv_def retained_inv_def)
  have "0 \<le> ?c" using r by (auto simp: router_inv_def retained_inv_def retained_ok_def split: option.split dest!: oget_SomeD)
  then have "retained_inv (rid r) (odel i ?m) (retainedBytes r - ?c)"
    using r m length_odel_le [of i ?m] osum_odel [OF m(1), of r_bytes i]
    by (auto simp: router_inv_def retained_inv_def set_odel)
  then show ?thesis
    using r by (simp add: router_inv_def retained_account.entries_remove retained_account.total_remove)
qed

lemma removeRetaineds_inv: "router_inv r \<Longrightarrow> router_inv (fold removeRetained ks r)"
  by (rule fold_inv [of router_inv]) (auto intro: removeRetained_inv)

lemma removeRetaineds_frame [simp]: "rid (fold removeRetained ks r) = rid r" "links (fold removeRetained ks r) = links r"
  "nextLink (fold removeRetained ks r) = nextLink r" "seen (fold removeRetained ks r) = seen r" "relay (fold removeRetained ks r) = relay r"
  "deliveries (fold removeRetained ks r) = deliveries r" "lowPower (fold removeRetained ks r) = lowPower r"
  "stopped (fold removeRetained ks r) = stopped r"
  by (induction ks arbitrary: r) simp_all

lemma drop_expired_inv: "router_inv r \<Longrightarrow> router_inv (drop_expired now r)"
  by (simp add: drop_expired_def removeRetaineds_inv)

lemma retain_roomE:
  assumes "retain_room p b r = (room, r')" "router_inv r"
  obtains ks where "\<forall>k \<in> set ks. \<exists>v. oget (retainedMap r) k = Some v \<and> rank p \<le> rank (p_prio (r_packet v))"
    "retainedMap r' = filter (\<lambda>e. fst e \<notin> set ks) (retainedMap r)" "router_inv r'"
    "rid r' = rid r" "links r' = links r" "nextLink r' = nextLink r" "seen r' = seen r" "relay r' = relay r"
    "deliveries r' = deliveries r" "lowPower r' = lowPower r" "stopped r' = stopped r"
    "room \<Longrightarrow> length (retainedMap r') < MAX_TRANSFERS \<and> retainedBytes r' + b \<le> MAX_PENDING"
    "\<not> room \<Longrightarrow> \<forall>e \<in> set (retainedMap r'). rank (p_prio (r_packet (snd e))) < rank p"
  using assms
proof (induction p b r arbitrary: thesis rule: retain_room.induct)
  case (1 p b r)
  show ?case
  proof (cases "length (retainedMap r) \<ge> MAX_TRANSFERS \<or> retainedBytes r + b > MAX_PENDING")
    case False
    with "1.prems"(2,3) show ?thesis by (intro "1.prems"(1) [of "[]"]) (auto simp: retain_room.simps [of p b r])
  next
    case full: True
    show ?thesis
    proof (cases "retain_victims p r")
      case Nil
      then have "\<forall>e \<in> set (retainedMap r). rank (p_prio (r_packet (snd e))) < rank p"
        by (auto simp: retain_victims_def filter_empty_conv not_le dest: arg_cong [of _ _ set])
      moreover have "room = False \<and> r' = count_dropped r" using Nil full "1.prems"(2) by (simp add: retain_room.simps [of p b r])
      ultimately show ?thesis using "1.prems"(3) by (intro "1.prems"(1) [of "[]"]) (auto simp: count_dropped_def router_inv_def)
    next
      case (Cons v vs)
      let ?r1 = "count_dropped (removeRetained (fst v) r)"
      have wf: "owf (retainedMap r)" using "1.prems"(3) by (simp add: router_inv_def retained_inv_def)
      have v: "v \<in> set (retainedMap r)" "rank p \<le> rank (p_prio (r_packet (snd v)))"
        using retain_victims_in [of v p r] Cons by simp_all
      have inv: "router_inv ?r1" using "1.prems"(3) by (simp add: removeRetained_inv)
      have run: "retain_room p b ?r1 = (room, r')" using "1.prems"(2) full Cons by (simp add: retain_room.simps [of p b r])
      have r1: "retainedMap ?r1 = odel (fst v) (retainedMap r)" by (simp add: count_dropped_def retained_account.entries_remove)
      obtain ks where ks: "\<forall>k \<in> set ks. \<exists>w. oget (retainedMap ?r1) k = Some w \<and> rank p \<le> rank (p_prio (r_packet w))"
        "retainedMap r' = filter (\<lambda>e. fst e \<notin> set ks) (retainedMap ?r1)" "router_inv r'"
        "rid r' = rid ?r1" "links r' = links ?r1" "nextLink r' = nextLink ?r1" "seen r' = seen ?r1" "relay r' = relay ?r1"
        "deliveries r' = deliveries ?r1" "lowPower r' = lowPower ?r1" "stopped r' = stopped ?r1"
        "room \<Longrightarrow> length (retainedMap r') < MAX_TRANSFERS \<and> retainedBytes r' + b \<le> MAX_PENDING"
        "\<not> room \<Longrightarrow> \<forall>e \<in> set (retainedMap r'). rank (p_prio (r_packet (snd e))) < rank p"
        using "1.IH" [OF full Cons _ run inv] by blast
      have "\<exists>w. oget (retainedMap r) k = Some w \<and> rank p \<le> rank (p_prio (r_packet w))" if "k \<in> set (fst v # ks)" for k
        using that ks(1) v oget_in_set [OF wf, of "fst v" "snd v"]
        by (cases "k = fst v") (auto simp: r1 oget_odel split: if_splits)
      moreover have "retainedMap r' = filter (\<lambda>e. fst e \<notin> set (fst v # ks)) (retainedMap r)"
        by (simp add: ks(2) r1 odel_def conj_commute)
      ultimately show ?thesis
        using ks(3-13) by (intro "1.prems"(1) [of "fst v # ks"]) (auto simp: count_dropped_def)
    qed
  qed
qed
section \<open>Encoding and decoding a packet\<close>

lemma is_int_jnorm [simp]: "is_int (jnorm v) = is_int v"
  by (cases v) (simp_all add: is_int_def)

lemma parse_priority_jnorm [simp]: "parse_priority (jnorm v) = parse_priority v"
  by (simp add: parse_priority_def)

lemma packet_of_jnorm:
  "p_id (packet_of (jnorm v)) = p_id (packet_of v)" "p_source (packet_of (jnorm v)) = p_source (packet_of v)"
  "p_created (packet_of (jnorm v)) = p_created (packet_of v)" "p_expires (packet_of (jnorm v)) = p_expires (packet_of v)"
  "p_maxHops (packet_of (jnorm v)) = p_maxHops (packet_of v)" "p_hops (packet_of (jnorm v)) = p_hops (packet_of v)"
  "p_prio (packet_of (jnorm v)) = p_prio (packet_of v)"
  by (simp_all add: packet_of_def jget_jnorm comp_def)

lemma retained_inv_add:
  assumes m: "retained_inv me m b" and v: "retained_ok v" "path_ok me (r_packet v)"
    and room: "length m < MAX_TRANSFERS" "b + r_bytes v \<le> MAX_PENDING"
  shows "retained_inv me (oset (p_id (r_packet v)) v m) (b + r_bytes v)"
proof -
  have "0 \<le> (case oget m (p_id (r_packet v)) of None \<Rightarrow> 0 | Some w \<Rightarrow> r_bytes w)"
    using m by (auto simp: retained_inv_def retained_ok_def split: option.split dest!: oget_SomeD)
  then show ?thesis
    using m v room by (auto simp: retained_inv_def set_oset length_oset osum_replace)
qed

lemma object_nonempty: "is_obj v \<Longrightarrow> canon v = Inr s \<Longrightarrow> s \<noteq> []"
  by (cases v) (auto simp: is_obj_def canonical.simps bindR_Inr_iff)

lemma retain_cases:
  assumes "retain now v rel r = (res, r')" "router_inv r" "path_ok (rid r) (packet_of v)" "is_obj v"
  obtains e where "res = Inl e" "r' = r"
  | r1 room where "retain_room (p_prio (packet_of v)) (int (length (utf8 (case canon v of Inr s \<Rightarrow> s)))) (drop_expired now r) = (room, r1)"
      "\<not> room" "res = Inr None" "r' = r1" "router_inv r1"
  | s x r1 where "canon v = Inr s" "x = \<lparr>r_packet = packet_of (jnorm v), encoded = utf8 s, r_bytes = int (length (utf8 s)), relayOnly = rel\<rparr>"
      "retain_room (p_prio (packet_of v)) (r_bytes x) (drop_expired now r) = (True, r1)" "res = Inr (Some x)" "retained_ok x"
      "r' = r1\<lparr>retainedMap := oset (p_id (r_packet x)) x (retainedMap r1), retainedBytes := retainedBytes r1 + r_bytes x\<rparr>"
      "router_inv r1" "router_inv r'" "path_ok (rid r) (r_packet x)"
proof -
  show thesis
  proof (cases "canon v")
    case (Inl e)
    with assms(1) show ?thesis by (intro that(1) [of "PacketText e"]) (auto simp: retain_def)
  next
    case (Inr s)
    let ?b = "int (length (utf8 s))"
    let ?x = "\<lparr>r_packet = packet_of (jnorm v), encoded = utf8 s, r_bytes = ?b, relayOnly = rel\<rparr>"
    show ?thesis
    proof (cases "?b > MAX_PACKET")
      case True
      with Inr assms(1) show ?thesis by (intro that(1) [of PacketTooLarge]) (auto simp: retain_def Let_def)
    next
      case small: False
      obtain room r1 where room: "retain_room (p_prio (packet_of v)) ?b (drop_expired now r) = (room, r1)" by fastforce
      have d: "router_inv (drop_expired now r)" using assms(2) by (rule drop_expired_inv)
      from room d obtain ks where r1: "router_inv r1" "rid r1 = rid (drop_expired now r)"
        "room \<Longrightarrow> length (retainedMap r1) < MAX_TRANSFERS \<and> retainedBytes r1 + ?b \<le> MAX_PENDING"
        by (rule retain_roomE) blast
      have me: "rid r1 = rid r" using r1(2) by (simp add: drop_expired_def)
      show ?thesis
      proof (cases room)
        case no: False
        with Inr small room assms(1) have "res = Inr None" "r' = r1" by (simp_all add: retain_def Let_def)
        with no room r1 Inr show ?thesis by (intro that(2) [of room r1]) auto
      next
        case True
        have "1 \<le> length s" using object_nonempty [OF assms(4) Inr] by (cases s) auto
        then have "1 \<le> utf8_length s" using length_le_utf8_length [of s] by linarith
        then have ok: "retained_ok ?x" using small by (simp add: retained_ok_def length_utf8)
        have path: "path_ok (rid r) (r_packet ?x)" using assms(3) by (simp add: path_ok_def packet_of_jnorm)
        have eq: "res = Inr (Some ?x)" "r' = r1\<lparr>retainedMap := oset (p_id (r_packet ?x)) ?x (retainedMap r1),
            retainedBytes := retainedBytes r1 + r_bytes ?x\<rparr>"
          using True Inr small room assms(1) by (simp_all add: retain_def Let_def packet_of_jnorm)
        have "retained_inv (rid r1) (oset (p_id (r_packet ?x)) ?x (retainedMap r1)) (retainedBytes r1 + r_bytes ?x)"
          using r1 True ok path me by (intro retained_inv_add) (auto simp: router_inv_def)
        then have "router_inv r'" using r1(1) unfolding eq(2) by (simp add: router_inv_def)
        with True Inr room ok path eq r1 show ?thesis by (intro that(3) [of s ?x r1]) auto
      qed
    qed
  qed
qed

section \<open>Sending\<close>

lemma enqueue_on_inv: "router_inv r \<Longrightarrow> retained_ok v \<Longrightarrow> router_inv (enqueue_on now v k r)"
  unfolding enqueue_on_def by (rule on_link_inv) (auto intro: enqueue_inv)

lemma enqueue_on_frame [simp]: "rid (enqueue_on now v k r) = rid r" "deliveries (enqueue_on now v k r) = deliveries r"
  "seen (enqueue_on now v k r) = seen r" "retainedMap (enqueue_on now v k r) = retainedMap r" "relay (enqueue_on now v k r) = relay r"
  "retainedBytes (enqueue_on now v k r) = retainedBytes r"
  by (simp_all add: enqueue_on_def)

lemma forward_on_inv: "router_inv r \<Longrightarrow> retained_ok v \<Longrightarrow> router_inv (forward_on now v j k r)"
  by (auto simp: forward_on_def Let_def enqueue_on_inv split: option.split)

lemma forward_on_frame [simp]: "rid (forward_on now v j k r) = rid r" "deliveries (forward_on now v j k r) = deliveries r"
  "seen (forward_on now v j k r) = seen r" "retainedMap (forward_on now v j k r) = retainedMap r" "relay (forward_on now v j k r) = relay r"
  "retainedBytes (forward_on now v j k r) = retainedBytes r"
  by (simp_all add: forward_on_def Let_def split: option.split)

lemma forwards_frame [simp]: "rid (fold (forward_on now v j) ks r) = rid r" "deliveries (fold (forward_on now v j) ks r) = deliveries r"
  "seen (fold (forward_on now v j) ks r) = seen r" "retainedMap (fold (forward_on now v j) ks r) = retainedMap r"
  "relay (fold (forward_on now v j) ks r) = relay r"
  by (induction ks arbitrary: r) simp_all

lemma enqueues_frame [simp]: "rid (fold (enqueue_on now v) ks r) = rid r" "deliveries (fold (enqueue_on now v) ks r) = deliveries r"
  "seen (fold (enqueue_on now v) ks r) = seen r" "retainedMap (fold (enqueue_on now v) ks r) = retainedMap r"
  "relay (fold (enqueue_on now v) ks r) = relay r"
  by (induction ks arbitrary: r) simp_all

section \<open>Receiving and sending\<close>

lemma check_packetE:
  assumes "check_packet C now v = Inr p"
  obtains s where "p = packet_of v" "is_obj v" "canon (packet_body v) = Inr s" "p_id p = sha C (utf8 s)" "jget v (lit ''id'') = JStr (p_id p)"
    "parse_priority (jget v (lit ''priority'')) = Some (p_prio p)"
    "p_created p \<le> now + 300000" "now < p_expires p" "p_created p < p_expires p" "p_expires p - p_created p \<le> MAX_TTL"
    "1 \<le> p_maxHops p" "p_maxHops p \<le> MAX_HOPS" "p_hops p \<noteq> []" "int (length (p_hops p)) \<le> p_maxHops p"
    "hd (p_hops p) = p_source p" "distinct (p_hops p)" "list_all (\<lambda>h. h \<noteq> [] \<and> length h \<le> 128) (p_hops p)"
    "items_of (jget v (lit ''hops'')) = map JStr (p_hops p)" "is_arr (jget v (lit ''hops''))"
proof -
  let ?hs = "items_of (jget v (lit ''hops''))"
  obtain s where s: "canon (packet_body v) = Inr s" using assms by (auto simp: check_packet_def split: sum.splits)
  note c = assms [unfolded check_packet_def s sum.case Let_def]
  have p: "p = packet_of v" using c by (simp split: if_splits)
  have f: "JStr (sha C (utf8 s)) = jget v (lit ''id'')" "parse_priority (jget v (lit ''priority'')) \<noteq> None"
    "p_created p \<le> now + 300000" "now < p_expires p" "p_created p < p_expires p" "p_expires p - p_created p \<le> MAX_TTL"
    "1 \<le> p_maxHops p" "p_maxHops p \<le> MAX_HOPS" "?hs \<noteq> []" "int (length ?hs) \<le> p_maxHops p"
    "hd ?hs = jget v (lit ''source'')" "list_all hop_ok ?hs" "distinct ?hs" "is_arr (jget v (lit ''hops''))"
    using c unfolding p by (simp_all split: if_splits)
  have strs: "?hs = map JStr (p_hops p)"
  proof -
    have "JStr (str_of h) = h" if "hop_ok h" for h using that by (cases h) (simp_all add: hop_ok_def is_str_def str_of_def)
    then have "map (\<lambda>h. JStr (str_of h)) ?hs = ?hs" using f(12) by (intro map_idI) (auto simp: list_all_iff)
    moreover have "p_hops p = map str_of ?hs" by (simp add: p packet_of_def)
    ultimately show ?thesis by (simp add: comp_def)
  qed
  have prio: "parse_priority (jget v (lit ''priority'')) = Some (p_prio p)" using f(2) by (auto simp: p packet_of_def)
  have ne: "p_hops p \<noteq> []" using f(9) strs by auto
  define hs where "hs = p_hops p"
  have source: "p_source p = str_of (jget v (lit ''source''))" by (simp add: p packet_of_def)
  have hs: "?hs = map JStr hs" "hs \<noteq> []" using strs ne by (simp_all add: hs_def)
  then have hops: "hd (p_hops p) = p_source p" "distinct (p_hops p)" "list_all (\<lambda>h. h \<noteq> [] \<and> length h \<le> 128) (p_hops p)"
    using f(11,12,13) unfolding source hs_def [symmetric] hs(1)
    by (auto simp: hd_map distinct_map hop_ok_def str_of_def list_all_iff dest: sym)
  have ident: "p_id p = sha C (utf8 s)" using f(1) [symmetric] by (simp add: p packet_of_def str_of_def)
  have "is_obj v" using f(1) by (cases v) (simp_all add: jget_def is_obj_def)
  then show thesis
    using that [OF p _ s ident] f(1,3-8,10,14) prio ne strs hops ident by (simp add: strs)
qed

lemma jget_relayed:
  assumes "is_obj v"
  shows "jget (relayed_value v me) k =
    (if k = lit ''hops'' then JArr (items_of (jget v (lit ''hops'')) @ [JStr me]) else jget v k)"
  using assms by (cases v) (simp_all add: relayed_value_def jget_def fields_of_def oget_oset is_obj_def)

lemma relayed_fields:
  assumes "is_obj v" "items_of (jget v (lit ''hops'')) = map JStr hs"
  shows "packet_of (relayed_value v me) = (packet_of v)\<lparr>p_hops := hs @ [me], p_value := relayed_value v me\<rparr>"
  using assms by (simp add: packet_of_def jget_relayed items_of_def str_of_def comp_def)

lemma relayed_path:
  assumes "check_packet C now v = Inr p" "me \<notin> set (p_hops p)" "int (length (p_hops p)) < p_maxHops p"
  shows "path_ok me (packet_of (relayed_value v me))" "is_obj (relayed_value v me)"
    "packet_of (relayed_value v me) = p\<lparr>p_hops := p_hops p @ [me], p_value := relayed_value v me\<rparr>"
proof -
  obtain s where c: "p = packet_of v" "is_obj v" "p_maxHops p \<le> MAX_HOPS" "p_hops p \<noteq> []" "hd (p_hops p) = p_source p"
    "distinct (p_hops p)" "items_of (jget v (lit ''hops'')) = map JStr (p_hops p)"
    using assms(1) by (rule check_packetE)
  show eq: "packet_of (relayed_value v me) = p\<lparr>p_hops := p_hops p @ [me], p_value := relayed_value v me\<rparr>"
    using relayed_fields [OF c(2,7)] c(1) by simp
  show "path_ok me (packet_of (relayed_value v me))"
    unfolding eq using assms c by (auto simp: path_ok_def)
  show "is_obj (relayed_value v me)" by (simp add: relayed_value_def is_obj_def)
qed

lemma receive_inv:
  assumes "router_inv r" "receive C validate now v k r = (res, r')"
  shows "router_inv r'"
proof (cases "check_packet C now v")
  case (Inl e)
  with assms show ?thesis by (simp add: receive_def)
next
  case (Inr p)
  obtain dup r1 where seen: "hasSeen now (p_id p) r = (dup, r1)" by fastforce
  have r1: "router_inv r1" "rid r1 = rid r" using hasSeen_inv [OF assms(1) seen] hasSeen_rest [OF seen] by simp_all
  show ?thesis
  proof (cases "dup \<or> rid r \<in> set (p_hops p) \<or> \<not> validate (p_payload p)")
    case True
    with assms(2) Inr seen r1 show ?thesis by (auto simp: receive_def split: if_splits)
  next
    case False
    define d where "d = (p, case oget (links r) k of Some l \<Rightarrow> medium l | None \<Rightarrow> Tcp)"
    define r3 where "r3 = (remember p r1)\<lparr>count_of := (count_of (remember p r1))\<lparr>received := received (count_of (remember p r1)) + 1\<rparr>,
      deliveries := deliveries (remember p r1) @ [d]\<rparr>"
    have r3: "router_inv r3" "rid r3 = rid r" using r1 remember_inv [OF r1(1), of p] by (simp_all add: r3_def) (simp add: remember_def)
    have go: "receive C validate now v k r =
        (if relay r3 \<and> int (length (p_hops p)) < p_maxHops p then
           (case retain now (relayed_value v (rid r)) True r3 of
              (Inl e, r4) \<Rightarrow> (Inl e, r4) | (Inr None, r4) \<Rightarrow> (Inr (), r4)
            | (Inr (Some x), r4) \<Rightarrow> (Inr (), fold (forward_on now x k) (okeys (links r4)) r4))
         else (Inr (), r3))"
      using False Inr seen by (simp add: receive_def r3_def d_def Let_def)
    show ?thesis
    proof (cases "relay r3 \<and> int (length (p_hops p)) < p_maxHops p")
      case no: False
      with go assms(2) r3 show ?thesis by auto
    next
      case True
      obtain y r4 where keep: "retain now (relayed_value v (rid r)) True r3 = (y, r4)" by fastforce
      have path: "path_ok (rid r3) (packet_of (relayed_value v (rid r)))" "is_obj (relayed_value v (rid r))"
        using relayed_path [OF Inr] True False r3(2) by auto
      from keep r3(1) path show ?thesis
      proof (cases rule: retain_cases)
        case (1 e)
        with go True keep assms(2) r3 show ?thesis by auto
      next
        case (2 r1 room)
        with go True keep assms(2) show ?thesis by auto
      next
        case (3 s x r1)
        have "router_inv (fold (forward_on now x k) ks r4)" for ks
          by (rule fold_inv [of router_inv]) (auto intro: forward_on_inv 3(5,8))
        with go True keep assms(2) 3(4) show ?thesis by auto
      qed
    qed
  qed
qed

end
