(* ===== verification/Router_Run.thy ===== *)
theory Router_Run
  imports Router_Inv
begin

text \<open>
  Every operation of a router keeps its invariant; runs of a router; what a router never does:
  exceed its limits, deliver an unverified packet, or relay in a loop.
\<close>

section \<open>The other operations\<close>

lemma own_packet_fields:
  "packet_of (own_packet me now ttl p payload i) =
     \<lparr>p_id = i, p_source = me, p_created = now, p_expires = now + ttl, p_maxHops = MAX_HOPS, p_hops = [me], p_prio = p,
      p_payload = payload, p_value = own_packet me now ttl p payload i\<rparr>"
  by (simp add: packet_of_def own_packet_def own_body_def jget_def str_of_def int_of_def items_of_def)

lemma own_path: "path_ok me (packet_of (own_packet me now ttl p payload i))" "is_obj (own_packet me now ttl p payload i)"
  by (simp_all add: own_packet_fields path_ok_def MAX_HOPS_def) (simp add: own_packet_def is_obj_def)

lemma remember_rest [simp]: "rid (remember p r) = rid r" "links (remember p r) = links r" "retainedMap (remember p r) = retainedMap r"
  "deliveries (remember p r) = deliveries r" "relay (remember p r) = relay r" "lowPower (remember p r) = lowPower r"
  by (simp_all add: remember_def)

lemma broadcast_inv:
  assumes "router_inv r" "broadcast C now payload prio ttl rel r = (res, r')"
  shows "router_inv r'"
proof (cases "stopped r \<or> parse_priority prio = None \<or> \<not> is_safe_int ttl \<or> int_of ttl < 1 \<or> int_of ttl > MAX_TTL")
  case True
  then have "r' = r" using assms(2) unfolding broadcast_def by (simp only: if_True prod.inject)
  with assms(1) show ?thesis by simp
next
  case False
  let ?p = "the (parse_priority prio)"
  note run = assms(2) [unfolded broadcast_def if_not_P [OF False] Let_def]
  show ?thesis
  proof (cases "canon (JObj (own_body (rid r) now (int_of ttl) ?p payload))")
    case (Inl e)
    with run assms(1) show ?thesis by auto
  next
    case (Inr s)
    let ?i = "sha C (utf8 s)"
    let ?v = "own_packet (rid r) now (int_of ttl) ?p payload ?i"
    obtain dup r1 where seen: "hasSeen now ?i r = (dup, r1)" by fastforce
    have r1: "router_inv r1" "rid r1 = rid r" using hasSeen_inv [OF assms(1) seen] hasSeen_rest [OF seen] by simp_all
    show ?thesis
    proof (cases "rel \<and> \<not> relay r \<or> dup")
      case True
      with run Inr seen assms(1) r1 show ?thesis by (auto split: if_splits)
    next
      case go: False
      obtain y r2 where keep: "retain now ?v rel r1 = (y, r2)" by fastforce
      have path: "path_ok (rid r1) (packet_of ?v)" using own_path(1) r1(2) by simp
      from keep r1(1) path own_path(2) show ?thesis
      proof (cases rule: retain_cases)
        case (1 e)
        with run Inr seen go keep r1 show ?thesis by (auto split: if_splits)
      next
        case (2 r1 room)
        with run Inr seen go keep show ?thesis by (auto simp: remember_inv split: if_splits)
      next
        case (3 s x r1)
        have "router_inv (fold (enqueue_on now x) ks (remember (packet_of ?v) r2))" for ks
          by (rule fold_inv [of router_inv]) (auto intro: enqueue_on_inv 3(5,8) remember_inv)
        with run Inr seen go keep 3(4) show ?thesis by (auto split: if_splits)
      qed
    qed
  qed
qed

lemma live_links_inv: "router_inv r \<Longrightarrow> router_inv (live_links r)"
  by (auto simp: router_inv_def links_inv_def live_links_def intro: le_trans [OF length_filter_le])

lemma attach_inv:
  assumes "router_inv r" "attach now m r = (k, r')"
  shows "router_inv r'"
proof -
  let ?r1 = "live_links r"
  let ?k = "nextLink ?r1"
  let ?r2 = "?r1\<lparr>links := oset ?k (new_link m now) (links ?r1), nextLink := ?k + 1\<rparr>"
  let ?send = "\<lambda>v r. if \<not> relayOnly v \<or> relay r then enqueue_on now v ?k r else r"
  have r1: "router_inv ?r1" using assms(1) by (rule live_links_inv)
  show ?thesis
  proof (cases "stopped ?r1 \<or> length (links ?r1) \<ge> MAX_LINKS")
    case True
    with assms(2) r1 show ?thesis by (auto simp: attach_def Let_def)
  next
    case False
    have new: "?k \<notin> fst ` set (links ?r1)" using r1 by (fastforce simp: router_inv_def links_inv_def)
    have r2: "router_inv ?r2"
      using r1 False new new_link_inv [of m now] unfolding router_inv_def links_inv_def
      by (auto simp: set_oset length_oset less_Suc_eq)
    have ok: "retained_ok v" if "v \<in> set (ovals (retainedMap ?r2))" for v
      using that r1 by (auto simp: ovals_def router_inv_def retained_inv_def)
    have "router_inv (fold ?send vs r)" if "\<forall>v \<in> set vs. retained_ok v" "router_inv r" for vs r
      using that by (induction vs arbitrary: r) (auto intro: enqueue_on_inv)
    then have "router_inv (fold ?send (ovals (retainedMap ?r2)) ?r2)" using ok r2 by blast
    with assms(2) False show ?thesis by (auto simp: attach_def Let_def)
  qed
qed

lemma links_inv_map: "links_inv ls g \<Longrightarrow> (\<And>l. link_inv l \<Longrightarrow> link_inv (f l)) \<Longrightarrow> links_inv (map (\<lambda>(k, l). (k, f l)) ls) g"
  by (force simp: links_inv_def owf_def comp_def case_prod_beta)

lemma set_relay_inv: "router_inv r \<Longrightarrow> router_inv (set_relay b r)"
  by (auto simp: set_relay_def Let_def intro!: removeRetaineds_inv) (simp add: router_inv_def links_inv_map cancelRelayed_inv)

lemma router_cancelLocal_inv: "router_inv r \<Longrightarrow> router_inv (snd (router_cancelLocal match r))"
  using removeRetaineds_inv [of r "okeys (filter (\<lambda>e. local_match (rid r) match (snd e)) (retainedMap r))"]
  by (simp add: router_cancelLocal_def Let_def router_inv_def links_inv_map cancelLocal_inv)

lemma tick_link_inv: "router_inv r \<Longrightarrow> router_inv (tick_link now k r)"
proof -
  assume r: "router_inv r"
  have "router_inv (r\<lparr>links := odel k (links r)\<rparr>)"
    using r le_trans [OF length_odel_le] by (auto simp: router_inv_def links_inv_def set_odel)
  moreover have "router_inv (on_link k (pump_call (lowPower r) now) r)" by (rule on_link_inv [OF r]) (auto intro: pump_call_inv)
  ultimately show ?thesis using r by (auto simp: tick_link_def split: option.split)
qed

lemma tick_inv: "router_inv r \<Longrightarrow> router_inv (tick now r)"
proof -
  assume r: "router_inv r"
  have "router_inv (r\<lparr>seen := filter (\<lambda>p. now < snd p) (seen r)\<rparr>)"
    using r le_trans [OF length_filter_le] by (auto simp: router_inv_def seen_inv_def okeys_def)
  then show ?thesis
    unfolding tick_def Let_def by (intro fold_inv [of router_inv] tick_link_inv drop_expired_inv)
qed

lemma stop_inv: "router_inv (stop r)"
  by (simp add: router_inv_def stop_def links_inv_def retained_inv_def seen_inv_def okeys_def MAX_PENDING_def)

section \<open>Reading\<close>

lemma frame_inv:
  assumes "router_inv r" "frame C validate now k f r = (ok, r')"
  shows "router_inv r'"
proof (cases "parse_frame f")
  case None
  with assms show ?thesis by (simp add: frame_def)
next
  case (Some g)
  have ack: "router_inv (on_link k (acknowledge now i) s)" if "router_inv s" for i s
    by (rule on_link_inv [OF that]) (metis acknowledge_inv snd_conv)
  show ?thesis
  proof (cases g)
    case (InAck i)
    have "router_inv (on_link k (\<lambda>(c, l). (c, removeTransfer i l)) r)"
      by (rule on_link_inv [OF assms(1)]) (auto intro: removeTransfer_inv)
    with assms Some InAck show ?thesis by (auto simp: frame_def)
  next
    case (InPart i index n d)
    obtain dup r1 where seen: "hasSeen now i r = (dup, r1)" by fastforce
    have r1: "router_inv r1" using hasSeen_inv [OF assms(1) seen] .
    note run = assms(2) [unfolded frame_def Some InPart option.case in_frame.case seen Let_def prod.case]
    show ?thesis
    proof (cases "dup \<or> oget (links r1) k = None")
      case True
      with run r1 ack show ?thesis by (auto split: if_splits)
    next
      case False
      then obtain l where l: "oget (links r1) k = Some l" by auto
      obtain res l' where add: "add_part now i index n d l = (res, l')" by fastforce
      have "link_inv l" using r1 l by (auto simp: router_inv_def intro: links_inv_get)
      then have "link_inv l'"
        using add_part_inv [of l index n now i d] parse_frame_part Some InPart add by auto
      then have r2: "router_inv (r1\<lparr>links := oset k l' (links r1)\<rparr>)"
        using r1 l by (simp add: router_inv_def links_inv_set)
      show ?thesis
      proof (cases res)
        case (PartComplete b)
        show ?thesis
        proof (cases "parse_json C b")
          case (Some v)
          obtain x r3 where rec: "receive C validate now v k (r1\<lparr>links := oset k l' (links r1)\<rparr>) = (x, r3)" by fastforce
          from receive_inv [OF r2 rec] have "router_inv r3" .
          with run False l add PartComplete Some rec r2 ack show ?thesis by (auto split: if_splits sum.splits)
        qed (use run False l add PartComplete r2 in auto)
      qed (use run False l add r2 in auto)
    qed
  qed
qed

lemma link_inv_windows [simp]: "link_inv (l\<lparr>invalidWindow := a\<rparr>) = link_inv l" "link_inv (l\<lparr>buffer := s\<rparr>) = link_inv l"
  "link_inv (l\<lparr>framesWindow := a\<rparr>) = link_inv l" "link_inv (l\<lparr>receivedWindow := b\<rparr>) = link_inv l"
  "link_inv (l\<lparr>windowStart := b\<rparr>) = link_inv l" "link_inv (l\<lparr>receivedTotal := b\<rparr>) = link_inv l"
  by (simp_all add: link_inv_def link_parts)

lemma destroy_inv: "router_inv r \<Longrightarrow> router_inv (destroy k r)"
  unfolding destroy_def by (rule on_link_inv) (auto intro: close_inv)

lemma rate_limit_inv: "router_inv r \<Longrightarrow> router_inv (rate_limit k r)"
  by (simp add: rate_limit_def destroy_inv)

lemma reject_line_inv: "router_inv r \<Longrightarrow> router_inv (reject_line k r)"
proof -
  assume r: "router_inv r"
  have "router_inv (on_link k (\<lambda>(c, l). (c\<lparr>rejected := rejected c + 1\<rparr>, l\<lparr>invalidWindow := invalidWindow l + 1\<rparr>)) r)"
    by (rule on_link_inv [OF r]) auto
  then show ?thesis by (auto simp: reject_line_def Let_def rate_limit_inv split: option.split)
qed

lemma read_line_inv: "router_inv r \<Longrightarrow> router_inv (read_line C validate now k line r)"
proof -
  assume r: "router_inv r"
  obtain ok r1 where step: "(if length line > MAX_FRAME then (False, r)
      else case parse_json C (utf8 line) of None \<Rightarrow> (False, r) | Some f \<Rightarrow> frame C validate now k f r) = (ok, r1)" by fastforce
  have "router_inv r1" using step r by (auto intro: frame_inv split: if_splits option.splits)
  then show ?thesis unfolding read_line_def step by (simp add: reject_line_inv)
qed

lemma read_lines_inv: "router_inv r \<Longrightarrow> router_inv (read_lines C validate now k s r)"
proof (induction C validate now k s r rule: read_lines.induct)
  case (1 C validate now k s r)
  show ?case
  proof (cases "oget (links r) k")
    case None
    with 1(3) show ?thesis by (simp add: read_lines.simps)
  next
    case (Some l)
    let ?line = "takeWhile (\<lambda>c. c \<noteq> 10) s" and ?rest = "tl (dropWhile (\<lambda>c. c \<noteq> 10) s)"
    let ?r1 = "on_link k (\<lambda>(c, l). (c, l\<lparr>buffer := ?rest, framesWindow := framesWindow l + 1\<rparr>)) r"
    have r1: "router_inv ?r1" by (rule on_link_inv [OF 1(3)]) auto
    have buffered: "router_inv (set_buffer k s r)" unfolding set_buffer_def by (rule on_link_inv [OF 1(3)]) auto
    have eq: "read_lines C validate now k s r = (if \<not> active l then r else if 10 \<notin> set s then set_buffer k s r
        else if framesWindow l + 1 > 8192 then rate_limit k ?r1
        else if ?line = [] then read_lines C validate now k ?rest ?r1
        else read_lines C validate now k ?rest (read_line C validate now k ?line ?r1))"
      by (subst read_lines.simps) (simp add: Some Let_def del: length_tl)
    show ?thesis
    proof (cases "\<not> active l \<or> 10 \<notin> set s \<or> framesWindow l + 1 > 8192")
      case True
      then show ?thesis unfolding eq using 1(3) buffered rate_limit_inv [OF r1] by simp
    next
      case False
      have "router_inv (read_lines C validate now k ?rest ?r1)" if "?line = []"
        by (rule 1(1) [OF Some _ _ refl refl refl]) (use False that r1 in auto)
      moreover have "router_inv (read_lines C validate now k ?rest (read_line C validate now k ?line ?r1))" if "?line \<noteq> []"
        by (rule 1(2) [OF Some _ _ refl refl refl]) (use False that read_line_inv [OF r1] in auto)
      ultimately show ?thesis unfolding eq using False by simp
    qed
  qed
qed

lemma read_chunk_inv:
  assumes "router_inv r"
  shows "router_inv (read_chunk C validate now k n s r)"
proof (cases "oget (links r) k")
  case None
  with assms show ?thesis by (simp add: read_chunk_def)
next
  case (Some l0)
  have l0: "link_inv l0" using assms Some by (auto simp: router_inv_def intro: links_inv_get)
  define l1 where "l1 = (if now - windowStart l0 \<ge> 1000 then l0\<lparr>receivedWindow := 0, framesWindow := 0, invalidWindow := 0,
      windowStart := now\<rparr> else l0)"
  define l2 where "l2 = l1\<lparr>receivedWindow := receivedWindow l1 + int n\<rparr>"
  define l3 where "l3 = l2\<lparr>receivedTotal := receivedTotal l2 + int n, buffer := buffer l2 @ s\<rparr>"
  define r2 where "r2 = r\<lparr>links := oset k l2 (links r)\<rparr>"
  have l2: "link_inv l2" using l0 by (simp add: l1_def l2_def)
  then have l3: "link_inv l3" by (simp add: l3_def)
  have r2: "router_inv r2" using assms links_inv_set [OF _ Some l2] by (simp add: r2_def router_inv_def)
  have "oget (links r2) k = Some l2" by (simp add: r2_def oget_oset)
  then have "router_inv (r2\<lparr>links := oset k l3 (links r2)\<rparr>)"
    using r2 links_inv_set [OF _ _ l3] by (simp add: router_inv_def)
  then have r3: "router_inv (read_lines C validate now k (buffer l3) (r2\<lparr>links := oset k l3 (links r2)\<rparr>))"
    by (rule read_lines_inv)
  let ?r3 = "read_lines C validate now k (buffer l3) (r2\<lparr>links := oset k l3 (links r2)\<rparr>)"
  have pumped: "router_inv (on_link k (pump_call (lowPower x) now) x)" if "router_inv x" for x
    by (rule on_link_inv [OF that]) (auto intro: pump_call_inv)
  have "read_chunk C validate now k n s r = (if \<not> active l0 then r else if receivedWindow l2 > 12 * 1024 * 1024 then rate_limit k r2
      else case oget (links ?r3) k of None \<Rightarrow> ?r3
        | Some l \<Rightarrow> if \<not> active l then ?r3
            else if length (buffer l) > MAX_FRAME then
              (let x = destroy k (?r3\<lparr>count_of := (count_of ?r3)\<lparr>rejected := rejected (count_of ?r3) + 1\<rparr>\<rparr>)
               in on_link k (pump_call (lowPower x) now) x)
            else on_link k (pump_call (lowPower ?r3) now) ?r3)"
    unfolding read_chunk_def Some option.case Let_def l1_def [symmetric] l2_def [symmetric] l3_def [symmetric] r2_def [symmetric]
    by (rule refl)
  then show ?thesis
    using assms r2 r3 pumped [OF r3] pumped [OF destroy_inv] rate_limit_inv [OF r2]
    by (auto simp: Let_def split: option.split)
qed

section \<open>Runs\<close>

text \<open>
  The events of a node: the operations of its router and, for one link, what its stream does
  (a chunk is read, a write ends, the writer goes on, the other side closes).
\<close>

datatype router_event =
    Broadcast jval jval jval bool
  | Frame nat jval
  | Chunk nat nat ustr
  | Written nat bool
  | Resumed nat
  | Attach medium
  | Lost nat
  | Discarded nat ustr
  | SetRelay bool
  | SetLowPower bool
  | CancelOwn "jval \<Rightarrow> bool"
  | Tick
  | Stop

definition router_step :: "crypto \<Rightarrow> (jval \<Rightarrow> bool) \<Rightarrow> router_event \<times> int \<Rightarrow> router \<Rightarrow> router" where
  "router_step C validate ev r =
     (let (e, now) = ev in case e of
        Broadcast payload prio ttl rel \<Rightarrow> snd (broadcast C now payload prio ttl rel r)
      | Frame k f \<Rightarrow> snd (frame C validate now k f r)
      | Chunk k n s \<Rightarrow> read_chunk C validate now k n s r
      | Written k ok \<Rightarrow> on_link k (\<lambda>(c, l). write_done (lowPower r) now ok (c, if ok then l else close l)) r
      | Resumed k \<Rightarrow> on_link k (pump_resume (lowPower r) now) r
      | Attach m \<Rightarrow> snd (attach now m r)
      | Lost k \<Rightarrow> destroy k r
      | Discarded k i \<Rightarrow> on_link k (\<lambda>(c, l). (c, discardAssembly i l)) r
      | SetRelay b \<Rightarrow> set_relay b r
      | SetLowPower b \<Rightarrow> r\<lparr>lowPower := b\<rparr>
      | CancelOwn match \<Rightarrow> snd (router_cancelLocal match r)
      | Tick \<Rightarrow> tick now r
      | Stop \<Rightarrow> stop r)"

interpretation router_run: step_invariant "router_step C validate" router_inv
proof
  fix r :: router and e :: "router_event \<times> int"
  assume r: "router_inv r"
  obtain ev now where e: "e = (ev, now)" by (cases e)
  show "router_inv (router_step C validate e r)"
  proof (cases ev)
    case (Broadcast payload prio ttl rel)
    then show ?thesis using r by (auto simp: router_step_def e intro: broadcast_inv [OF r surjective_pairing])
  next
    case (Frame k f)
    then show ?thesis using r by (auto simp: router_step_def e intro: frame_inv [OF r surjective_pairing])
  next
    case (Written k ok)
    have "router_inv (on_link k (\<lambda>(c, l). write_done (lowPower r) now ok (c, if ok then l else close l)) r)"
      by (rule on_link_inv [OF r]) (auto intro: write_done_inv close_inv split: if_splits)
    with Written show ?thesis by (simp add: router_step_def e)
  next
    case (Resumed k)
    have "router_inv (on_link k (pump_resume (lowPower r) now) r)"
      by (rule on_link_inv [OF r]) (auto intro: pump_resume_inv)
    with Resumed show ?thesis by (simp add: router_step_def e)
  next
    case (Attach m)
    then show ?thesis using r by (auto simp: router_step_def e intro: attach_inv [OF r surjective_pairing])
  next
    case (Discarded k i)
    have "router_inv (on_link k (\<lambda>(c, l). (c, discardAssembly i l)) r)"
      by (rule on_link_inv [OF r]) (auto intro: discardAssembly_inv)
    with Discarded show ?thesis by (simp add: router_step_def e)
  next
    case (SetLowPower b)
    with r show ?thesis by (simp add: router_step_def e router_inv_def)
  qed (use r in \<open>auto simp: router_step_def e intro: read_chunk_inv destroy_inv set_relay_inv router_cancelLocal_inv tick_inv stop_inv\<close>)
qed

lemma new_router_inv: "new_router i b = Inr r \<Longrightarrow> router_inv r"
  by (auto simp: new_router_def router_inv_def links_inv_def retained_inv_def seen_inv_def okeys_def MAX_PENDING_def split: if_splits)


end
