(* ===== verification/Router_Spec.thy ===== *)
theory Router_Spec
  imports Router_Run
begin

text \<open>
  An abstract specification of the router, and the proof that every operation implements it:
  seen from its listeners, a router only forgets what has expired, remembers its own packets,
  and delivers valid packets it does not remember. Delivery at most once follows from it.
\<close>

section \<open>The specification\<close>

definition remembered :: "int \<Rightarrow> ustr \<Rightarrow> router \<Rightarrow> bool" where
  "remembered now i r \<longleftrightarrow> (\<exists>e. oget (seen r) i = Some e \<and> now < e)"

text \<open>Nothing is delivered, and what is remembered and has not expired stays so.\<close>

definition forget :: "int \<Rightarrow> router \<Rightarrow> router \<Rightarrow> bool" where
  "forget now r r' \<longleftrightarrow> rid r' = rid r \<and> deliveries r' = deliveries r \<and> (stopped r' = stopped r) \<and>
     (stopped r \<and> links r = [] \<longrightarrow> links r' = []) \<and> length (seen r') \<le> length (seen r) \<and>
     (\<forall>i e. oget (seen r) i = Some e \<and> now < e \<longrightarrow> oget (seen r') i = Some e)"

definition deliver :: "packet \<Rightarrow> medium \<Rightarrow> router \<Rightarrow> router" where
  "deliver p m r = (remember p r)\<lparr>deliveries := deliveries r @ [(p, m)]\<rparr>"

inductive moves :: "crypto \<Rightarrow> (jval \<Rightarrow> bool) \<Rightarrow> int \<Rightarrow> nat \<Rightarrow> router \<Rightarrow> router \<Rightarrow> bool"
  for C validate now where
  silent: "forget now r r' \<Longrightarrow> moves C validate now 0 r r'"
| own: "\<not> remembered now (p_id p) r \<Longrightarrow> moves C validate now 1 r (remember p r)"
| delivered: "links r \<noteq> [] \<Longrightarrow> \<not> remembered now (p_id p) r \<Longrightarrow> check_packet C now v = Inr p \<Longrightarrow> validate (p_payload p) \<Longrightarrow>
    rid r \<notin> set (p_hops p) \<Longrightarrow> moves C validate now 0 r (deliver p m r)"
| both: "moves C validate now a r s \<Longrightarrow> moves C validate now b s t \<Longrightarrow> moves C validate now (a + b) r t"

lemma forget_refl [simp]: "forget now r r"
  by (simp add: forget_def)

lemma forget_trans: "forget now r s \<Longrightarrow> forget now s t \<Longrightarrow> forget now r t"
  by (auto simp: forget_def)

lemma forget_fold: "(\<And>x s. forget now s (f x s)) \<Longrightarrow> forget now s (fold f xs s)"
  by (induction xs arbitrary: s) (auto intro: forget_trans)

lemma forgetI:
  assumes "rid r' = rid r" "deliveries r' = deliveries r" "stopped r' = stopped r" "seen r' = seen r"
    and "links r = [] \<Longrightarrow> links r' = []"
  shows "forget now r r'"
  using assms by (simp add: forget_def)

lemma links_oset_forget: "oget (links r) k = Some l \<Longrightarrow> forget now r (r\<lparr>links := oset k l' (links r)\<rparr>)"
  by (rule forgetI) auto

lemma okeys_Nil_iff [simp]: "okeys m = [] \<longleftrightarrow> m = []"
  by (simp add: okeys_def)

lemma on_link_forget: "forget now r (on_link k f r)"
proof (rule forgetI)
  show "links r = [] \<Longrightarrow> links (on_link k f r) = []" by (simp add: on_link_def)
qed simp_all

lemma removeRetained_forget: "forget now r (removeRetained i r)"
  by (rule forgetI) simp_all

lemma count_dropped_forget: "forget now r (count_dropped r)"
  by (rule forgetI) (simp_all add: count_dropped_def)

lemma hasSeen_forget: "hasSeen now i r = (b, r') \<Longrightarrow> forget now r r' \<and> (b \<longleftrightarrow> remembered now i r)"
  using length_odel_le [of i "seen r"]
  by (auto simp: hasSeen_def forget_def remembered_def oget_odel split: option.splits if_splits)

lemma forget_remembered: "forget now r r' \<Longrightarrow> remembered now i r \<Longrightarrow> remembered now i r'"
  by (auto simp: forget_def remembered_def)

lemma hasSeen_remembered: "hasSeen now i r = (b, r') \<Longrightarrow> remembered now j r' \<longleftrightarrow> remembered now j r"
  by (auto simp: hasSeen_def remembered_def oget_odel split: option.splits if_splits)

lemma retain_room_forget: "retain_room p b r = (x, r') \<Longrightarrow> forget now r r'"
proof (induction p b r rule: retain_room.induct)
  case (1 p b r)
  show ?case
  proof (cases "length (retainedMap r) \<ge> MAX_TRANSFERS \<or> retainedBytes r + b > MAX_PENDING")
    case False
    with 1(2) show ?thesis by (simp add: retain_room.simps [of p b r])
  next
    case True
    show ?thesis
    proof (cases "retain_victims p r")
      case Nil
      with True 1(2) show ?thesis by (auto simp: retain_room.simps [of p b r] count_dropped_forget)
    next
      case (Cons v vs)
      with True 1(2) have "retain_room p b (count_dropped (removeRetained (fst v) r)) = (x, r')"
        by (simp add: retain_room.simps [of p b r])
      from 1(1) [OF True Cons this] show ?thesis
        using removeRetained_forget count_dropped_forget by (blast intro: forget_trans)
    qed
  qed
qed

lemma retain_room_seen: "retain_room p b r = (x, r') \<Longrightarrow> seen r' = seen r"
proof (induction p b r rule: retain_room.induct)
  case (1 p b r)
  then show ?case
    by (subst (asm) (2) retain_room.simps) (auto simp: count_dropped_def split: if_splits list.splits)
qed

lemma drop_expired_seen [simp]: "seen (drop_expired now r) = seen r"
  by (simp add: drop_expired_def)

lemma drop_expired_forget: "forget now r (drop_expired t r)"
  unfolding drop_expired_def by (rule forget_fold) (rule removeRetained_forget)

lemma retain_forget:
  assumes "retain t v rel r = (x, r')"
  shows "forget now r r'"
proof (cases "canon v")
  case (Inr s)
  show ?thesis
  proof (cases "int (length (utf8 s)) > MAX_PACKET")
    case False
    obtain room r1 where room: "retain_room (p_prio (packet_of v)) (int (length (utf8 s))) (drop_expired t r) = (room, r1)" by fastforce
    have r1: "forget now r r1" by (rule forget_trans [OF drop_expired_forget retain_room_forget [OF room]])
    have "forget now r1 r'"
      using assms Inr False room by (auto simp: retain_def Let_def intro: forgetI split: if_splits)
    with r1 show ?thesis by (rule forget_trans)
  qed (use assms Inr in \<open>auto simp: retain_def Let_def\<close>)
qed (use assms in \<open>auto simp: retain_def\<close>)

lemma enqueue_on_forget: "forget now r (enqueue_on t v k r)"
  by (simp add: enqueue_on_def on_link_forget)

lemma forward_on_forget: "forget now r (forward_on t v j k r)"
proof -
  have "forget now r (enqueue_on t v k r)" by (rule enqueue_on_forget)
  moreover have "forget now s (s\<lparr>count_of := c\<rparr>)" for s c by (rule forgetI) simp_all
  ultimately show ?thesis by (auto simp: forward_on_def Let_def intro: forget_trans split: option.split)
qed

section \<open>Every operation implements it\<close>

lemma receive_moves:
  assumes "receive C validate now v k r = (res, r')" "links r \<noteq> []"
  shows "moves C validate now 0 r r'"
proof (cases "check_packet C now v")
  case (Inl e)
  with assms show ?thesis by (simp add: receive_def moves.silent)
next
  case (Inr p)
  obtain dup r1 where seen: "hasSeen now (p_id p) r = (dup, r1)" by fastforce
  note h = hasSeen_forget [OF seen] hasSeen_rest [OF seen] hasSeen_remembered [OF seen]
  show ?thesis
  proof (cases "dup \<or> rid r \<in> set (p_hops p) \<or> \<not> validate (p_payload p)")
    case True
    have "forget now r1 (r1\<lparr>count_of := c\<rparr>)" for c by (rule forgetI) simp_all
    with h(1) have "forget now r (r1\<lparr>count_of := c\<rparr>)" for c by (blast intro: forget_trans)
    with True assms(1) Inr seen h(1) have "forget now r r'" by (auto simp: receive_def split: if_splits)
    then show ?thesis by (rule moves.silent)
  next
    case False
    define m where "m = (case oget (links r) k of Some l \<Rightarrow> medium l | None \<Rightarrow> Tcp)"
    define r3 where "r3 = (remember p r1)\<lparr>count_of := (count_of (remember p r1))\<lparr>received := received (count_of (remember p r1)) + 1\<rparr>,
      deliveries := deliveries (remember p r1) @ [(p, m)]\<rparr>"
    have go: "receive C validate now v k r =
        (if relay r3 \<and> int (length (p_hops p)) < p_maxHops p then
           (case retain now (relayed_value v (rid r)) True r3 of
              (Inl e, r4) \<Rightarrow> (Inl e, r4) | (Inr None, r4) \<Rightarrow> (Inr (), r4)
            | (Inr (Some x), r4) \<Rightarrow> (Inr (), fold (forward_on now x k) (okeys (links r4)) r4))
         else (Inr (), r3))"
      using False Inr seen by (simp add: receive_def r3_def m_def Let_def)
    have "moves C validate now 0 r1 (deliver p m r1)"
      using False Inr assms(2) h by (intro moves.delivered [where v = v]) (auto simp: remembered_def)
    moreover have "forget now (deliver p m r1) r3" by (rule forgetI) (simp_all add: deliver_def r3_def)
    moreover have "forget now r3 r'"
    proof (cases "relay r3 \<and> int (length (p_hops p)) < p_maxHops p")
      case no: False
      with go assms(1) show ?thesis by auto
    next
      case True
      obtain y r4 where keep: "retain now (relayed_value v (rid r)) True r3 = (y, r4)" by fastforce
      have r4: "forget now r3 r4" by (rule retain_forget [OF keep])
      have "forget now r4 (fold (forward_on now x k) ks r4)" for x ks by (rule forget_fold) (rule forward_on_forget)
      with r4 have "forget now r3 (fold (forward_on now x k) ks r4)" for x ks by (blast intro: forget_trans)
      with go True keep assms(1) r4 show ?thesis by (cases y; cases "projr y") auto
    qed
    ultimately have "moves C validate now (0 + (0 + 0)) r1 r'"
      by (meson forget_trans moves.both moves.silent)
    then have "moves C validate now (0 + (0 + (0 + 0))) r r'" using h(1) by (meson moves.both moves.silent)
    then show ?thesis by simp
  qed
qed
lemma broadcast_moves:
  assumes "broadcast C now payload prio ttl rel r = (res, r')"
  shows "moves C validate now 0 r r' \<or> moves C validate now 1 r r'"
proof (cases "stopped r \<or> parse_priority prio = None \<or> \<not> is_safe_int ttl \<or> int_of ttl < 1 \<or> int_of ttl > MAX_TTL")
  case True
  then have "r' = r" using assms unfolding broadcast_def by (simp only: if_True prod.inject)
  then show ?thesis by (simp add: moves.silent)
next
  case False
  let ?p = "the (parse_priority prio)"
  note run = assms [unfolded broadcast_def if_not_P [OF False] Let_def]
  have same: ?thesis if "forget now r r'" using that by (simp add: moves.silent)
  show ?thesis
  proof (cases "canon (JObj (own_body (rid r) now (int_of ttl) ?p payload))")
    case (Inl e)
    with run same show ?thesis by simp
  next
    case (Inr s)
    let ?i = "sha C (utf8 s)"
    let ?v = "own_packet (rid r) now (int_of ttl) ?p payload ?i"
    obtain dup r1 where seen: "hasSeen now ?i r = (dup, r1)" by fastforce
    note h = hasSeen_forget [OF seen]
    show ?thesis
    proof (cases "rel \<and> \<not> relay r \<or> dup")
      case True
      with run Inr seen same h show ?thesis by (auto split: if_splits)
    next
      case go: False
      obtain y r2 where keep: "retain now ?v rel r1 = (y, r2)" by fastforce
      have r2: "forget now r r2" using h retain_forget [OF keep] by (blast intro: forget_trans)
      show ?thesis
      proof (cases y)
        case (Inl e)
        with run Inr seen go keep r2 same show ?thesis by (auto split: if_splits)
      next
        case (Inr x)
        have id: "p_id (packet_of ?v) = ?i" by (simp add: own_packet_fields)
        have "seen r2 = seen r1" using keep
          by (auto simp: retain_def Let_def split: sum.splits if_splits prod.splits dest!: retain_room_seen)
        then have "\<not> remembered now ?i r2"
          using go h hasSeen_remembered [OF seen] by (simp add: remembered_def)
        then have own: "moves C validate now 1 r2 (remember (packet_of ?v) r2)" using id by (intro moves.own) simp
        have "forget now s (fold (enqueue_on now z) ks s)" for z ks s by (rule forget_fold) (rule enqueue_on_forget)
        then have last: "forget now (remember (packet_of ?v) r2) r'"
          using run \<open>canon _ = Inr s\<close> seen go keep Inr by (cases x) (auto split: if_splits)
        have "moves C validate now (0 + (1 + 0)) r r'"
          by (rule moves.both [OF moves.silent [OF r2] moves.both [OF own moves.silent [OF last]]])
        then show ?thesis by simp
      qed
    qed
  qed
qed

lemma frame_moves:
  assumes "frame C validate now k f r = (ok, r')"
  shows "moves C validate now 0 r r'"
proof -
  have counted: "forget now s (s\<lparr>count_of := c\<rparr>)" for s c by (rule forgetI) simp_all
  show ?thesis
  proof (cases "parse_frame f")
    case None
    with assms show ?thesis by (simp add: frame_def moves.silent)
  next
    case (Some g)
    show ?thesis
    proof (cases g)
      case (InAck i)
      with assms Some show ?thesis by (auto simp: frame_def intro: moves.silent on_link_forget)
    next
      case (InPart i index n d)
      obtain dup r1 where seen: "hasSeen now i r = (dup, r1)" by fastforce
      have r1: "forget now r r1" using hasSeen_forget [OF seen] by simp
      note run = assms [unfolded frame_def Some InPart option.case in_frame.case seen Let_def prod.case]
      show ?thesis
      proof (cases "dup \<or> oget (links r1) k = None")
        case True
        have "forget now r (on_link k (acknowledge now i) r1\<lparr>count_of := c\<rparr>)" for c
          using r1 on_link_forget counted by (blast intro: forget_trans)
        with True run r1 show ?thesis by (auto split: if_splits intro!: moves.silent)
      next
        case False
        then obtain l where l: "oget (links r1) k = Some l" by auto
        obtain res l' where add: "add_part now i index n d l = (res, l')" by fastforce
        let ?r2 = "r1\<lparr>links := oset k l' (links r1)\<rparr>"
        have some: "oset k l' (links r1) \<noteq> []" using fst_set_oset [of k l' "links r1"] by (metis empty_set image_is_empty insert_not_empty)
        then have "links ?r2 \<noteq> []" by simp
        have r2: "forget now r ?r2" by (rule forget_trans [OF r1 links_oset_forget [OF l]])
        show ?thesis
        proof (cases res)
          case (PartComplete b)
          show ?thesis
          proof (cases "parse_json C b")
            case (Some v)
            obtain x r3 where rec: "receive C validate now v k ?r2 = (x, r3)" by fastforce
            have m: "moves C validate now 0 ?r2 r3" by (rule receive_moves [OF rec \<open>links ?r2 \<noteq> []\<close>])
            have "moves C validate now (0 + (0 + 0)) r r3"
              using moves.both [OF moves.silent [OF r2] moves.both [OF m moves.silent [OF forget_refl]]] .
            moreover from this have "moves C validate now (0 + (0 + 0) + 0) r (on_link k (acknowledge now i) r3)"
              by (rule moves.both) (rule moves.silent [OF on_link_forget])
            ultimately show ?thesis
              using run False l add PartComplete Some rec r2 by (auto split: if_splits sum.splits intro: moves.silent)
          qed (use run False l add PartComplete moves.silent [OF r2] in auto)
        qed (use run False l add moves.silent [OF r2] in auto)
      qed
    qed
  qed
qed

lemma moves0_trans: "moves C validate now 0 r s \<Longrightarrow> moves C validate now 0 s t \<Longrightarrow> moves C validate now 0 r t"
  using moves.both [of C validate now 0 r s 0 t] by simp

lemma counted_forget: "forget now s (s\<lparr>count_of := c\<rparr>)"
  by (rule forgetI) simp_all

lemma rate_limit_forget: "forget now r (rate_limit k r)"
  unfolding rate_limit_def destroy_def by (rule forget_trans [OF counted_forget on_link_forget])

lemma reject_line_forget: "forget now r (reject_line k r)"
proof -
  let ?r1 = "on_link k (\<lambda>(c, l). (c\<lparr>rejected := rejected c + 1\<rparr>, l\<lparr>invalidWindow := invalidWindow l + 1\<rparr>)) r"
  have r1: "forget now r ?r1" by (rule on_link_forget)
  have "reject_line k r = ?r1 \<or> reject_line k r = rate_limit k ?r1" by (simp add: reject_line_def Let_def split: option.split)
  then show ?thesis using r1 forget_trans [OF r1 rate_limit_forget] by auto
qed

lemma read_line_moves: "moves C validate now 0 r (read_line C validate now k line r)"
proof -
  obtain ok r1 where step: "(if length line > MAX_FRAME then (False, r)
      else case parse_json C (utf8 line) of None \<Rightarrow> (False, r) | Some f \<Rightarrow> frame C validate now k f r) = (ok, r1)" by fastforce
  have "moves C validate now 0 r r1"
    using step by (auto intro: frame_moves moves.silent split: if_splits option.splits)
  then show ?thesis
    unfolding read_line_def step using moves.silent [OF reject_line_forget] by (auto intro: moves0_trans)
qed

lemma read_lines_moves: "moves C validate now 0 r (read_lines C validate now k s r)"
proof (induction C validate now k s r rule: read_lines.induct)
  case (1 C validate now k s r)
  show ?case
  proof (cases "oget (links r) k")
    case None
    then show ?thesis by (simp add: read_lines.simps moves.silent)
  next
    case (Some l)
    let ?line = "takeWhile (\<lambda>c. c \<noteq> 10) s" and ?rest = "tl (dropWhile (\<lambda>c. c \<noteq> 10) s)"
    let ?r1 = "on_link k (\<lambda>(c, l). (c, l\<lparr>buffer := ?rest, framesWindow := framesWindow l + 1\<rparr>)) r"
    have r1: "moves C validate now 0 r ?r1" by (intro moves.silent on_link_forget)
    have eq: "read_lines C validate now k s r = (if \<not> active l then r else if 10 \<notin> set s then set_buffer k s r
        else if framesWindow l + 1 > 8192 then rate_limit k ?r1
        else if ?line = [] then read_lines C validate now k ?rest ?r1
        else read_lines C validate now k ?rest (read_line C validate now k ?line ?r1))"
      by (subst read_lines.simps) (simp add: Some Let_def del: length_tl)
    show ?thesis
    proof (cases "\<not> active l \<or> 10 \<notin> set s \<or> framesWindow l + 1 > 8192")
      case True
      then show ?thesis
        unfolding eq set_buffer_def
        using moves0_trans [OF r1 moves.silent [OF rate_limit_forget]] by (simp add: moves.silent on_link_forget)
    next
      case False
      have "moves C validate now 0 ?r1 (read_lines C validate now k ?rest ?r1)" if "?line = []"
        by (rule 1(1) [OF Some _ _ refl refl refl]) (use False that in auto)
      moreover have "moves C validate now 0 (read_line C validate now k ?line ?r1)
          (read_lines C validate now k ?rest (read_line C validate now k ?line ?r1))" if "?line \<noteq> []"
        by (rule 1(2) [OF Some _ _ refl refl refl]) (use False that in auto)
      moreover have "moves C validate now 0 r (read_line C validate now k ?line ?r1)"
        by (rule moves0_trans [OF r1 read_line_moves])
      ultimately show ?thesis
        unfolding eq using False r1 by (cases "?line = []") (auto intro: moves0_trans)
    qed
  qed
qed

lemma read_chunk_moves: "moves C validate now 0 r (read_chunk C validate now k n s r)"
proof (cases "oget (links r) k")
  case None
  then show ?thesis by (simp add: read_chunk_def moves.silent)
next
  case (Some l0)
  define l1 where "l1 = (if now - windowStart l0 \<ge> 1000 then l0\<lparr>receivedWindow := 0, framesWindow := 0, invalidWindow := 0,
      windowStart := now\<rparr> else l0)"
  define l2 where "l2 = l1\<lparr>receivedWindow := receivedWindow l1 + int n\<rparr>"
  define l3 where "l3 = l2\<lparr>receivedTotal := receivedTotal l2 + int n, buffer := buffer l2 @ s\<rparr>"
  define r2 where "r2 = r\<lparr>links := oset k l2 (links r)\<rparr>"
  define r3 where "r3 = read_lines C validate now k (buffer l3) (r2\<lparr>links := oset k l3 (links r2)\<rparr>)"
  have r2: "forget now r r2" unfolding r2_def by (rule links_oset_forget [OF Some])
  have "oget (links r2) k = Some l2" by (simp add: r2_def oget_oset)
  then have "forget now r2 (r2\<lparr>links := oset k l3 (links r2)\<rparr>)" by (rule links_oset_forget)
  then have r3: "moves C validate now 0 r r3"
    unfolding r3_def using r2 by (blast intro: moves0_trans moves.silent forget_trans read_lines_moves)
  have pumped: "forget now x (on_link k (pump_call (lowPower x) now) x)" for x by (rule on_link_forget)
  have last: "forget now x (on_link k (pump_call (lowPower (destroy k (x\<lparr>count_of := c\<rparr>))) now) (destroy k (x\<lparr>count_of := c\<rparr>)))" for x c
    using counted_forget on_link_forget unfolding destroy_def by (blast intro: forget_trans)
  have "read_chunk C validate now k n s r = (if \<not> active l0 then r else if receivedWindow l2 > 12 * 1024 * 1024 then rate_limit k r2
      else case oget (links r3) k of None \<Rightarrow> r3
        | Some l \<Rightarrow> if \<not> active l then r3
            else if length (buffer l) > MAX_FRAME then
              (let x = destroy k (r3\<lparr>count_of := (count_of r3)\<lparr>rejected := rejected (count_of r3) + 1\<rparr>\<rparr>)
               in on_link k (pump_call (lowPower x) now) x)
            else on_link k (pump_call (lowPower r3) now) r3)"
    unfolding read_chunk_def Some option.case Let_def l1_def [symmetric] l2_def [symmetric] l3_def [symmetric] r2_def [symmetric] r3_def
    by (rule refl)
  then show ?thesis
    using r3 moves0_trans [OF r3 moves.silent [OF pumped]] moves0_trans [OF r3 moves.silent [OF last]]
      moves.silent [OF forget_trans [OF r2 rate_limit_forget]]
    by (auto simp: Let_def moves.silent split: option.split)
qed

section \<open>Steps and runs\<close>

lemma oget_filter_first: "oget m i = Some e \<Longrightarrow> P (i, e) \<Longrightarrow> oget (filter P m) i = Some e"
  by (induction m) (auto split: if_splits)

lemma attach_forget:
  assumes "attach now m r = (k, r')"
  shows "forget t r r'"
proof -
  let ?r1 = "live_links r"
  have r1: "forget t r ?r1" by (rule forgetI) (simp_all add: live_links_def)
  show ?thesis
  proof (cases "stopped ?r1 \<or> length (links ?r1) \<ge> MAX_LINKS")
    case True
    with assms r1 show ?thesis by (auto simp: attach_def Let_def)
  next
    case False
    let ?r2 = "?r1\<lparr>links := oset (nextLink ?r1) (new_link m now) (links ?r1), nextLink := nextLink ?r1 + 1\<rparr>"
    have r2: "forget t ?r1 ?r2" using False by (simp add: forget_def)
    have "forget t s (fold (\<lambda>v r. if \<not> relayOnly v \<or> relay r then enqueue_on now v (nextLink ?r1) r else r) vs s)" for vs s
      by (rule forget_fold) (simp add: enqueue_on_forget)
    with False assms r1 r2 show ?thesis by (auto simp: attach_def Let_def intro: forget_trans)
  qed
qed

lemma removeRetaineds_forget: "forget now r (fold removeRetained ks r)"
  by (rule forget_fold) (rule removeRetained_forget)

lemma links_map_forget: "forget now r (r\<lparr>links := map f (links r)\<rparr>)"
  by (rule forgetI) simp_all

lemma set_relay_forget: "forget now r (set_relay b r)"
proof -
  have relay: "forget now r (r\<lparr>relay := b\<rparr>)" by (rule forgetI) simp_all
  let ?r2 = "r\<lparr>relay := b\<rparr>\<lparr>links := map (\<lambda>(k, l). (k, cancelRelayed l)) (links (r\<lparr>relay := b\<rparr>))\<rparr>"
  have "forget now r (fold removeRetained ks ?r2)" for ks
    by (rule forget_trans [OF relay forget_trans [OF links_map_forget removeRetaineds_forget]])
  with relay show ?thesis unfolding set_relay_def Let_def by (cases b) (simp_all only: if_True if_False)
qed

lemma router_cancelLocal_forget: "forget now r (snd (router_cancelLocal match r))"
  unfolding router_cancelLocal_def Let_def snd_conv by (rule forget_trans [OF removeRetaineds_forget links_map_forget])

lemma tick_forget: "forget now r (tick now r)"
proof -
  have "forget now r (r\<lparr>seen := filter (\<lambda>p. now < snd p) (seen r)\<rparr>)"
    by (auto simp: forget_def oget_filter_first)
  moreover have "forget now s (tick_link now k s)" for k s
  proof -
    have "forget now s (s\<lparr>links := odel k (links s)\<rparr>)" by (rule forgetI) (auto simp: odel_def)
    then show ?thesis by (auto simp: tick_link_def on_link_forget split: option.split)
  qed
  then have "forget now s (fold (tick_link now) ks s)" for ks s by (rule forget_fold)
  ultimately show ?thesis unfolding tick_def Let_def using drop_expired_forget by (blast intro: forget_trans)
qed

definition is_broadcast :: "router_event \<times> int \<Rightarrow> bool" where
  "is_broadcast ev = (case fst ev of Broadcast _ _ _ _ \<Rightarrow> True | _ \<Rightarrow> False)"

lemma router_step_cases:
  "(\<exists>n. moves C validate now n r (router_step C validate (ev, now) r) \<and> n \<le> (if is_broadcast (ev, now) then 1 else 0)) \<or>
     ev = Stop \<and> router_step C validate (ev, now) r = stop r"
proof -
  have silent: ?thesis if "forget now r (router_step C validate (ev, now) r)" using moves.silent [OF that] by auto
  have zero: ?thesis if "moves C validate now 0 r (router_step C validate (ev, now) r)" using that by auto
  show ?thesis
  proof (cases ev)
    case (Broadcast payload prio ttl rel)
    obtain res r' where "broadcast C now payload prio ttl rel r = (res, r')" by fastforce
    with broadcast_moves [OF this, of validate] Broadcast show ?thesis by (auto simp: router_step_def is_broadcast_def)
  next
    case (Frame k f)
    obtain ok r' where "frame C validate now k f r = (ok, r')" by fastforce
    with frame_moves [OF this] Frame zero show ?thesis by (simp add: router_step_def)
  next
    case (Chunk k n s)
    with zero read_chunk_moves [of C validate now r k n s] show ?thesis by (simp add: router_step_def)
  next
    case (Written k ok)
    with silent on_link_forget show ?thesis by (simp add: router_step_def)
  next
    case (Resumed k)
    with silent on_link_forget show ?thesis by (simp add: router_step_def)
  next
    case (Attach m)
    obtain k r' where "attach now m r = (k, r')" by fastforce
    with attach_forget [OF this] Attach silent show ?thesis by (simp add: router_step_def)
  next
    case (Lost k)
    with silent on_link_forget show ?thesis by (simp add: router_step_def destroy_def)
  next
    case (Discarded k i)
    with silent on_link_forget show ?thesis by (simp add: router_step_def)
  next
    case (SetRelay b)
    with silent set_relay_forget show ?thesis by (simp add: router_step_def)
  next
    case (SetLowPower b)
    have "forget now r (r\<lparr>lowPower := b\<rparr>)" by (rule forgetI) simp_all
    with SetLowPower silent show ?thesis by (simp add: router_step_def)
  next
    case (CancelOwn match)
    with silent router_cancelLocal_forget show ?thesis by (simp add: router_step_def)
  next
    case Tick
    with silent tick_forget show ?thesis by (simp add: router_step_def)
  next
    case Stop
    then show ?thesis by (simp add: router_step_def)
  qed
qed

text \<open>
  C10: the router implements its specification. Every operation, whatever a link sends or an
  application asks, is a sequence of four kinds of moves: forgetting only what has expired,
  remembering one packet of its own that it does not remember (broadcasts only), delivering a
  packet that passes every check, is not remembered and did not come through this node, or
  doing nothing a listener can see; except for the final stop.
\<close>

theorem router_refines:
  "(\<exists>n. moves C validate now n r (router_step C validate (ev, now) r) \<and> n \<le> (if is_broadcast (ev, now) then 1 else 0)) \<or>
     ev = Stop \<and> router_step C validate (ev, now) r = stop r"
  by (rule router_step_cases)

section \<open>Only valid packets are delivered\<close>

definition delivery_ok :: "crypto \<Rightarrow> (jval \<Rightarrow> bool) \<Rightarrow> ustr \<Rightarrow> packet \<Rightarrow> bool" where
  "delivery_ok C validate me p \<longleftrightarrow> validate (p_payload p) \<and> me \<notin> set (p_hops p) \<and> (\<exists>v now. check_packet C now v = Inr p)"

lemma moves_deliveries:
  assumes "moves C validate now n r r'" "\<forall>d \<in> set (deliveries r). delivery_ok C validate (rid r) (fst d)"
  shows "rid r' = rid r \<and> (\<forall>d \<in> set (deliveries r'). delivery_ok C validate (rid r) (fst d))"
  using assms
proof (induction rule: moves.induct)
  case (delivered r p v m)
  then show ?case by (auto simp: deliver_def delivery_ok_def)
qed (auto simp: forget_def)

lemma run_deliveries:
  assumes "\<forall>d \<in> set (deliveries r). delivery_ok C validate (rid r) (fst d)"
  shows "rid (fold (router_step C validate) evs r) = rid r \<and>
    (\<forall>d \<in> set (deliveries (fold (router_step C validate) evs r)). delivery_ok C validate (rid r) (fst d))"
  using assms
proof (induction evs arbitrary: r)
  case (Cons e evs)
  obtain ev now where e: "e = (ev, now)" by (cases e)
  have "rid (router_step C validate e r) = rid r \<and>
      (\<forall>d \<in> set (deliveries (router_step C validate e r)). delivery_ok C validate (rid r) (fst d))"
    using router_step_cases [of C validate now r ev]
  proof
    assume "\<exists>n. moves C validate now n r (router_step C validate (ev, now) r) \<and> n \<le> (if is_broadcast (ev, now) then 1 else 0)"
    then obtain n where n: "moves C validate now n r (router_step C validate e r)" unfolding e by blast
    show ?thesis by (rule moves_deliveries [OF n Cons.prems])
  next
    assume "ev = Stop \<and> router_step C validate (ev, now) r = stop r"
    then have "router_step C validate e r = stop r" unfolding e by (rule conjunct2)
    with Cons.prems show ?thesis by (simp add: stop_def)
  qed
  with Cons.IH [of "router_step C validate e r"] show ?case by simp
qed simp

lemma new_router_fresh: "new_router i b = Inr r \<Longrightarrow> rid r = i \<and> deliveries r = [] \<and> seen r = [] \<and> \<not> stopped r"
  by (auto simp: new_router_def split: if_splits)


section \<open>Delivery at most once\<close>

definition same_expiry :: "(packet \<times> medium) list \<Rightarrow> bool" where
  "same_expiry ds \<longleftrightarrow> (\<forall>d \<in> set ds. \<forall>e \<in> set ds. p_id (fst d) = p_id (fst e) \<longrightarrow> p_expires (fst d) = p_expires (fst e))"

definition known :: "int \<Rightarrow> router \<Rightarrow> packet \<Rightarrow> bool" where
  "known T r p \<longleftrightarrow> oget (seen r) (p_id p) = Some (p_expires p) \<or> p_expires p \<le> T"

definition once_inv :: "nat \<Rightarrow> int \<Rightarrow> router \<Rightarrow> bool" where
  "once_inv B T r \<longleftrightarrow> (same_expiry (deliveries r) \<and> B + length (deliveries r) \<le> MAX_SEEN \<longrightarrow>
     distinct (map (\<lambda>d. p_id (fst d)) (deliveries r)) \<and>
     (stopped r \<and> links r = [] \<or>
      length (seen r) \<le> B + length (deliveries r) \<and> (\<forall>d \<in> set (deliveries r). known T r (fst d))))"

lemma remember_room:
  assumes "length (seen r) < MAX_SEEN"
  shows "seen (remember p r) = oset (p_id p) (p_expires p) (seen r)" "length (seen (remember p r)) \<le> Suc (length (seen r))"
  using assms by (simp_all add: remember_def okeys_def length_oset)

lemma known_remember:
  assumes "known T r q" "T \<le> now" "\<not> remembered now (p_id p) r" "length (seen r) < MAX_SEEN"
  shows "known now (remember p r) q"
  using assms by (auto simp: known_def remember_room oget_oset remembered_def not_less)

lemma once_moves:
  assumes "moves C validate now n r r'" "once_inv B T r" "T \<le> now"
  shows "once_inv (B + n) now r'"
  using assms
proof (induction arbitrary: B T rule: moves.induct)
  case (silent r r')
  have "known now r' q" if "known T r q" for q
    using that silent.hyps silent.prems(2) by (cases "now < p_expires q") (auto simp: known_def forget_def)
  then have known: "\<forall>d \<in> set ds. known now r' (fst d)" if "\<forall>d \<in> set ds. known T r (fst d)" for ds using that by blast
  have same: "deliveries r' = deliveries r" "stopped r' = stopped r" "length (seen r') \<le> length (seen r)"
    "stopped r \<and> links r = [] \<Longrightarrow> links r' = []"
    using silent.hyps by (auto simp: forget_def)
  show ?case
    unfolding once_inv_def same add_0_right
  proof (intro impI)
    assume "same_expiry (deliveries r) \<and> B + length (deliveries r) \<le> MAX_SEEN"
    with silent.prems(1) have old: "distinct (map (\<lambda>d. p_id (fst d)) (deliveries r))"
      "stopped r \<and> links r = [] \<or> length (seen r) \<le> B + length (deliveries r) \<and> (\<forall>d \<in> set (deliveries r). known T r (fst d))"
      by (simp_all add: once_inv_def)
    from old(2) have "stopped r \<and> links r' = [] \<or>
        length (seen r') \<le> B + length (deliveries r) \<and> (\<forall>d \<in> set (deliveries r). known now r' (fst d))"
    proof
      assume "stopped r \<and> links r = []"
      with same(4) show ?thesis by simp
    next
      assume "length (seen r) \<le> B + length (deliveries r) \<and> (\<forall>d \<in> set (deliveries r). known T r (fst d))"
      with same(3) known show ?thesis by (meson le_trans)
    qed
    with old(1) show "distinct (map (\<lambda>d. p_id (fst d)) (deliveries r)) \<and> (stopped r \<and> links r' = [] \<or>
        length (seen r') \<le> B + length (deliveries r) \<and> (\<forall>d \<in> set (deliveries r). known now r' (fst d)))" by simp
  qed
next
  case (own p r)
  show ?case
    unfolding once_inv_def
  proof (intro impI conjI)
    assume h: "same_expiry (deliveries (remember p r)) \<and> B + 1 + length (deliveries (remember p r)) \<le> MAX_SEEN"
    then have old: "distinct (map (\<lambda>d. p_id (fst d)) (deliveries r))"
      "stopped r \<and> links r = [] \<or> length (seen r) \<le> B + length (deliveries r) \<and> (\<forall>d \<in> set (deliveries r). known T r (fst d))"
      using own.prems(1) by (simp_all add: once_inv_def)
    show "distinct (map (\<lambda>d. p_id (fst d)) (deliveries (remember p r)))" using old(1) by simp
    show "stopped (remember p r) \<and> links (remember p r) = [] \<or>
       length (seen (remember p r)) \<le> B + 1 + length (deliveries (remember p r)) \<and>
       (\<forall>d \<in> set (deliveries (remember p r)). known now (remember p r) (fst d))"
      using old(2)
    proof
      assume "stopped r \<and> links r = []"
      then show ?thesis by (simp add: remember_def)
    next
      assume s: "length (seen r) \<le> B + length (deliveries r) \<and> (\<forall>d \<in> set (deliveries r). known T r (fst d))"
      then have small: "length (seen r) < MAX_SEEN" using h by simp
      have "\<forall>d \<in> set (deliveries (remember p r)). known now (remember p r) (fst d)"
        using s known_remember [OF _ own.prems(2) own.hyps small] by simp
      moreover have "length (seen (remember p r)) \<le> B + 1 + length (deliveries (remember p r))"
        using s remember_room(2) [OF small, of p] by simp
      ultimately show ?thesis by blast
    qed
  qed
next
  case (delivered r p v m)
  obtain s where fresh: "now < p_expires p" using delivered.hyps(3) by (rule check_packetE)
  show ?case
    unfolding once_inv_def
  proof (intro impI)
    let ?r = "deliver p m r"
    assume h: "same_expiry (deliveries ?r) \<and> B + 0 + length (deliveries ?r) \<le> MAX_SEEN"
    have ds: "deliveries ?r = deliveries r @ [(p, m)]" by (simp add: deliver_def)
    have "set (deliveries r) \<subseteq> set (deliveries ?r)" unfolding ds set_append by (rule Un_upper1)
    then have "same_expiry (deliveries r)" using h unfolding same_expiry_def by (meson subsetD)
    moreover have "B + length (deliveries r) \<le> MAX_SEEN" using h by (simp add: ds)
    ultimately have ok: "same_expiry (deliveries r) \<and> B + length (deliveries r) \<le> MAX_SEEN" by (rule conjI)
    note inv = delivered.prems(1) [unfolded once_inv_def, THEN mp, OF ok]
    have "length (seen r) \<le> B + length (deliveries r) \<and> (\<forall>d \<in> set (deliveries r). known T r (fst d))"
      using conjunct2 [OF inv] delivered.hyps(1) by blast
    note old = conjunct1 [OF inv] conjunct1 [OF this] conjunct2 [OF this]
    have small: "length (seen r) < MAX_SEEN" using old(2) h by (simp add: ds)
    have new: "p_id (fst d) \<noteq> p_id p" if "d \<in> set (deliveries r)" for d
    proof
      assume same: "p_id (fst d) = p_id p"
      have "d \<in> set (deliveries ?r)" "(p, m) \<in> set (deliveries ?r)" using that unfolding ds by simp_all
      from conjunct1 [OF h, unfolded same_expiry_def, THEN bspec, OF this(1), THEN bspec, OF this(2)] same
      have exp: "p_expires (fst d) = p_expires p" by simp
      have "known T r (fst d)" using old(3) that by (rule bspec)
      with fresh delivered.prems(2) have "oget (seen r) (p_id p) = Some (p_expires p)"
        unfolding known_def same exp by simp
      with fresh have "remembered now (p_id p) r" unfolding remembered_def by blast
      with delivered.hyps(2) show False by contradiction
    qed
    have seen: "seen ?r = seen (remember p r)" by (simp add: deliver_def)
    have "known now ?r q" if "known T r q" for q
      using known_remember [OF that delivered.prems(2) delivered.hyps(2) small] by (simp add: known_def seen)
    moreover have "known now ?r p" by (simp add: known_def seen remember_room [OF small] oget_oset)
    ultimately show "distinct (map (\<lambda>d. p_id (fst d)) (deliveries ?r)) \<and>
        (stopped ?r \<and> links ?r = [] \<or> length (seen ?r) \<le> B + 0 + length (deliveries ?r) \<and>
         (\<forall>d \<in> set (deliveries ?r). known now ?r (fst d)))"
    proof -
      assume k: "\<And>q. known T r q \<Longrightarrow> known now ?r q" and kp: "known now ?r p"
      have "p_id p \<notin> (\<lambda>d. p_id (fst d)) ` set (deliveries r)"
      proof
        assume "p_id p \<in> (\<lambda>d. p_id (fst d)) ` set (deliveries r)"
        then show False by (rule imageE) (use new in metis)
      qed
      with old(1) have d: "distinct (map (\<lambda>d. p_id (fst d)) (deliveries ?r))" by (simp add: ds)
      have l: "length (seen ?r) \<le> B + 0 + length (deliveries ?r)"
        using old(2) remember_room(2) [OF small, of p] by (simp add: ds seen)
      have a: "\<forall>d \<in> set (deliveries ?r). known now ?r (fst d)" using old(3) k kp by (simp add: ds)
      show ?thesis using d l a by blast
    qed
  qed
next
  case (both a r s b t)
  from both.IH(2) [OF both.IH(1) [OF both.prems] order_refl] show ?case by (simp add: add.assoc)
qed

lemma once_mono: "once_inv A T r \<Longrightarrow> A \<le> B \<Longrightarrow> once_inv B T r"
  by (auto simp: once_inv_def)

lemma once_run:
  assumes "once_inv B T r" "sorted (T # map snd evs)"
  shows "\<exists>T'. once_inv (B + length (filter is_broadcast evs)) T' (fold (router_step C validate) evs r)"
  using assms
proof (induction evs arbitrary: B T r)
  case (Cons e evs)
  obtain ev now where e: "e = (ev, now)" by (cases e)
  have T: "T \<le> now" "sorted (now # map snd evs)" using Cons.prems(2) by (auto simp: e)
  let ?n = "if is_broadcast e then 1 else 0"
  have "once_inv (B + ?n) now (router_step C validate e r)"
    using router_step_cases [of C validate now r ev]
  proof
    assume "\<exists>n. moves C validate now n r (router_step C validate (ev, now) r) \<and> n \<le> (if is_broadcast (ev, now) then 1 else 0)"
    then obtain n where n: "moves C validate now n r (router_step C validate (ev, now) r)"
      "n \<le> (if is_broadcast (ev, now) then 1 else 0)" by blast
    from once_mono [OF once_moves [OF n(1) Cons.prems(1) T(1)], of "B + ?n"] n(2) show ?thesis by (simp add: e)
  next
    assume "ev = Stop \<and> router_step C validate (ev, now) r = stop r"
    then have go: "router_step C validate e r = stop r" unfolding e by (rule conjunct2)
    have "deliveries (stop r) = deliveries r" "stopped (stop r)" "links (stop r) = []" by (simp_all add: stop_def)
    then have "once_inv B now (stop r)" using Cons.prems(1) by (simp add: once_inv_def)
    then show ?thesis unfolding go by (rule once_mono) simp
  qed
  from Cons.IH [OF this T(2)] obtain T' where
    "once_inv (B + ?n + length (filter is_broadcast evs)) T' (fold (router_step C validate) evs (router_step C validate e r))" by blast
  moreover have "B + ?n + length (filter is_broadcast evs) = B + length (filter is_broadcast (e # evs))" by simp
  ultimately show ?case by (metis fold_simps(2))
qed auto

text \<open>
  C3: a packet is delivered to the application at most once, whatever copies arrive over however
  many connections: as long as the table of seen packets never has to drop one (at most 4096
  packets received or sent in the run), and no two delivered packets with one identifier differ
  in their expiry (which the identifier, a hash, covers).
\<close>

theorem delivered_at_most_once:
  assumes "new_router i b = Inr r0" "sorted (map snd evs)" "r = fold (router_step C validate) evs r0"
    and "length (filter is_broadcast evs) + length (deliveries r) \<le> 4096"
    and "\<forall>d \<in> set (deliveries r). \<forall>e \<in> set (deliveries r). p_id (fst d) = p_id (fst e) \<longrightarrow> p_expires (fst d) = p_expires (fst e)"
  shows "distinct (map (\<lambda>d. p_id (fst d)) (deliveries r))"
proof -
  let ?T = "case evs of [] \<Rightarrow> 0 | e # _ \<Rightarrow> snd e"
  have "once_inv 0 ?T r0" using new_router_fresh [OF assms(1)] by (simp add: once_inv_def)
  moreover have "sorted (?T # map snd evs)" using assms(2) by (cases evs) auto
  ultimately obtain T' where "once_inv (0 + length (filter is_broadcast evs)) T' r"
    using once_run [of 0 ?T r0 evs C validate] assms(3) by blast
  then have once: "once_inv (length (filter is_broadcast evs)) T' r" by simp
  have "same_expiry (deliveries r)" using assms(5) unfolding same_expiry_def .
  with once assms(4) show ?thesis by (simp only: once_inv_def MAX_SEEN_def simp_thms)
qed

end
