(* ===== verification/Router_Examples.thy ===== *)
theory Router_Examples
  imports Router_Spec Link_Parts Bundle_Create
begin

text \<open>
  Concrete runs of a router, on which the properties of the router hold: a node whose one
  connection delivers a packet in a single fragment.
\<close>

definition hello :: jval where
  "hello = own_packet (lit ''bob'') 0 1000 Normal JNull (replicate 64 97)"

definition hello_frame :: jval where
  "hello_frame = frame_json (replicate 64 97) 0 1 [0]"

definition hearing :: crypto where
  "hearing = toy\<lparr>parse_json := (\<lambda>_. Some hello)\<rparr>"

definition alice :: router where
  "alice = projr (new_router (lit ''alice'') False)"

definition greeting :: "(router_event \<times> int) list" where
  "greeting = [(Attach Tcp, 0), (Frame 0 hello_frame, 5)]"

lemma alice: "new_router (lit ''alice'') False = Inr alice"
  by (simp add: alice_def new_router_def)

section \<open>What a node sends is accepted by the others\<close>

lemma own_packet_gets:
  "jget (own_packet me now ttl p payload i) (lit ''id'') = JStr i"
  "jget (own_packet me now ttl p payload i) (lit ''source'') = JStr me"
  "jget (own_packet me now ttl p payload i) (lit ''created'') = JInt now"
  "jget (own_packet me now ttl p payload i) (lit ''expires'') = JInt (now + ttl)"
  "jget (own_packet me now ttl p payload i) (lit ''maxHops'') = JInt MAX_HOPS"
  "jget (own_packet me now ttl p payload i) (lit ''priority'') = JStr (priority_text p)"
  "jget (own_packet me now ttl p payload i) (lit ''payload'') = payload"
  "jget (own_packet me now ttl p payload i) (lit ''hops'') = JArr [JStr me]"
  by (simp_all add: own_packet_def own_body_def jget_def)

lemma own_packet_body: "packet_body (own_packet me now ttl p payload i) = JObj (own_body me now ttl p payload)"
  by (simp add: packet_body_def own_packet_def own_body_def odel_def fields_of_def)

lemma own_accepted:
  assumes "canon (JObj (own_body me now ttl p payload)) = Inr s" "hop_ok (JStr me)"
    and "1 \<le> ttl" "ttl \<le> MAX_TTL" "safe_integer now" "safe_integer (now + ttl)"
    and "now \<le> t + 300000" "t < now + ttl"
  shows "check_packet C t (own_packet me now ttl p payload (sha C (utf8 s))) =
    Inr (packet_of (own_packet me now ttl p payload (sha C (utf8 s))))"
  using assms
  by (simp add: check_packet_def own_packet_body own_packet_gets own_packet_fields parse_priority_text is_safe_int_def
      is_int_def is_arr_def items_of_def MAX_HOPS_def Let_def)

lemma odel_oset_same: "odel k (oset k v m) = odel k m"
  by (induction m) (auto simp: odel_def)

lemma odel_commute: "odel k (odel j m) = odel j (odel k m)"
  by (simp add: odel_def conj_commute)

lemma relayed_gets:
  "jget (relayed_value v me) (lit ''hops'') = JArr (items_of (jget v (lit ''hops'')) @ [JStr me])"
  "is_obj v \<Longrightarrow> k \<noteq> lit ''hops'' \<Longrightarrow> jget (relayed_value v me) k = jget v k"
  by (auto simp: relayed_value_def jget_def oget_oset fields_of_def is_obj_def split: jval.splits)

lemma relayed_body: "packet_body (relayed_value v me) = packet_body v"
  unfolding packet_body_def relayed_value_def fields_of_def jval.case by (metis odel_commute odel_oset_same)

lemma relayed_accepted:
  assumes "check_packet C now v = Inr p" "is_obj v" "hop_ok (JStr me)" "me \<notin> set (p_hops p)"
    and "int (length (p_hops p)) < p_maxHops p" "now \<le> t" "t < p_expires p"
  shows "\<exists>q. check_packet C t (relayed_value v me) = Inr q \<and> p_id q = p_id p \<and> p_payload q = p_payload p \<and>
    p_hops q = p_hops p @ [me] \<and> p_source q = p_source p"
proof -
  let ?q = "packet_of (relayed_value v me)"
  have p: "p = packet_of v" using assms(1) by (auto simp: check_packet_def Let_def split: sum.splits if_splits)
  have q: "p_id ?q = p_id p" "p_payload ?q = p_payload p" "p_hops ?q = p_hops p @ [me]" "p_source ?q = p_source p"
    "p_created ?q = p_created p" "p_expires ?q = p_expires p" "p_maxHops ?q = p_maxHops p"
    using assms(2) by (simp_all add: p packet_of_def relayed_gets items_of_def str_of_def)
  have new: "JStr me \<notin> set (items_of (jget v (lit ''hops'')))"
    using assms(4) by (force simp: p packet_of_def str_of_def)
  have "check_packet C t (relayed_value v me) = Inr ?q"
    using assms(1,2,3,5,6,7) new
    unfolding check_packet_def relayed_body Let_def q p [symmetric]
    by (auto simp: relayed_gets items_of_def [of "JArr _"] is_arr_def [of "JArr _"] p packet_of_def str_of_def split: sum.splits if_splits)
  with q show ?thesis by blast
qed

text \<open>
  a packet that a node makes of its own payload is accepted by every node it reaches before
  it expires, whatever the difference of their clocks up to five minutes, as long as its
  payload can be encoded.
\<close>

theorem broadcast_accepted:
  assumes "canon (JObj (own_body me now ttl p payload)) = Inr s" "hop_ok (JStr me)"
    and "1 \<le> ttl" "ttl \<le> MAX_TTL" "safe_integer now" "safe_integer (now + ttl)"
    and "now \<le> t + 300000" "t < now + ttl"
  shows "check_packet C t (own_packet me now ttl p payload (sha C (utf8 s))) =
    Inr (packet_of (own_packet me now ttl p payload (sha C (utf8 s))))"
  using assms by (rule own_accepted)

lemma hello_canon: "\<exists>s. canon (JObj (own_body (lit ''bob'') 0 1000 Normal JNull)) = Inr s"
  using canonical_defined [of "JObj (own_body (lit ''bob'') 0 1000 Normal JNull)"]
  by (auto simp: own_body_def nesting_le MAX_HOPS_def priority_text_def)

lemma bob: "hop_ok (JStr (lit ''bob''))"
  by (simp add: hop_ok_def is_str_def str_of_def)

theorem broadcast_accepted_witness:
  "\<exists>i. check_packet toy 5 (own_packet (lit ''bob'') 0 1000 Normal JNull i) =
     Inr (packet_of (own_packet (lit ''bob'') 0 1000 Normal JNull i))"
proof -
  obtain s where s: "canon (JObj (own_body (lit ''bob'') 0 1000 Normal JNull)) = Inr s" using hello_canon by blast
  show ?thesis
    using broadcast_accepted [OF s bob, of 5 toy] by (auto simp: MAX_TTL_def safe_integer_def MAX_SAFE_def)
qed

text \<open>
  C26: relaying keeps a packet acceptable. If a node accepts a packet that did not pass through it
  and has hops left, what it sends on is accepted by the next node, as the same packet: the
  identifier, the payload and the source are unchanged and the path is longer by this node.
\<close>

theorem relay_accepted:
  assumes "check_packet C now v = Inr p" "is_obj v" "hop_ok (JStr me)" "me \<notin> set (p_hops p)"
    and "int (length (p_hops p)) < p_maxHops p" "now \<le> t" "t < p_expires p"
  shows "\<exists>q. check_packet C t (relayed_value v me) = Inr q \<and> p_id q = p_id p \<and> p_payload q = p_payload p \<and>
    p_hops q = p_hops p @ [me] \<and> p_source q = p_source p"
  using assms by (rule relayed_accepted)

lemma hello_ok: "check_packet hearing 5 hello = Inr (packet_of hello)"
proof -
  obtain s where s: "canon (JObj (own_body (lit ''bob'') 0 1000 Normal JNull)) = Inr s" using hello_canon by blast
  show ?thesis
    using own_accepted [OF s bob, of 5 hearing]
    by (simp add: hello_def hearing_def toy_def MAX_TTL_def safe_integer_def MAX_SAFE_def)
qed

theorem relay_accepted_witness:
  "\<exists>q. check_packet hearing 6 (relayed_value hello (lit ''alice'')) = Inr q \<and> p_hops q = [lit ''bob'', lit ''alice'']"
proof -
  have "p_hops (packet_of hello) = [lit ''bob'']" "p_maxHops (packet_of hello) = 12" "p_expires (packet_of hello) = 1000"
    by (simp_all add: hello_def own_packet_fields MAX_HOPS_def)
  with relay_accepted [OF hello_ok, of "lit ''alice''" 6] show ?thesis
    by (auto simp: hello_def is_obj_def own_packet_def hop_ok_def is_str_def str_of_def)
qed

section \<open>A run with a delivery\<close>

lemma hello_frame: "parse_frame hello_frame = Some (InPart (replicate 64 97) 0 1 [0])"
  using frame_roundtrip [of "replicate 64 97" 0 "[0]"]
  by (simp add: hello_frame_def fragments_def fragment_of_def FRAGMENT_def hex64_def is_hex_def list_all_iff MAX_PACKET_def)

lemma hello_part: "\<exists>l. add_part 5 i 0 1 [0] (new_link Tcp 0) = (PartComplete [0], l) \<and> medium l = Tcp"
  by (simp add: add_part_def store_part_def new_link_def maintain_def okeys_def MAX_ASSEMBLIES_def MAX_PACKET_def MAX_PENDING_def
      join_parts_def removeAssembly_def Let_def)

lemma alice_run:
  "deliveries (fold (router_step hearing (\<lambda>_. True)) greeting alice) = [(packet_of hello, Tcp)] \<and>
   oget (seen (fold (router_step hearing (\<lambda>_. True)) greeting alice)) (replicate 64 97) = Some 1000"
proof -
  define i where "i = replicate 64 (97 :: nat)"
  define r1 where "r1 = snd (attach 0 Tcp alice)"
  have r1: "links r1 = [(0, new_link Tcp 0)]" "seen r1 = []" "deliveries r1 = []" "rid r1 = lit ''alice''" "\<not> relay r1"
    by (simp_all add: r1_def attach_def alice_def new_router_def live_links_def MAX_LINKS_def ovals_def)
  obtain l where part: "add_part 5 i 0 1 [0] (new_link Tcp 0) = (PartComplete [0], l)" and l: "medium l = Tcp"
    using hello_part by blast
  define r2 where "r2 = r1\<lparr>links := oset 0 l (links r1)\<rparr>"
  have hops: "p_hops (packet_of hello) = [lit ''bob'']" "p_id (packet_of hello) = i" "p_expires (packet_of hello) = 1000"
    by (simp_all add: hello_def own_packet_fields i_def)
  have id: "jget hello (lit ''id'') = JStr i" "truthy hello"
    by (simp_all add: hello_def own_packet_gets i_def) (simp add: own_packet_def truthy_def)
  have "parse_json hearing [0] = Some hello" by (simp add: hearing_def)
  then have "deliveries (snd (frame hearing (\<lambda>_. True) 5 0 hello_frame r1)) = [(packet_of hello, Tcp)] \<and>
      oget (seen (snd (frame hearing (\<lambda>_. True) 5 0 hello_frame r1))) i = Some 1000"
    using hello_ok r1 hops id l
    by (simp add: frame_def hello_frame [folded i_def] hasSeen_def part [simplified One_nat_def] receive_def Let_def remember_def okeys_def MAX_SEEN_def)
  then show ?thesis by (simp add: greeting_def router_step_def r1_def i_def)
qed

lemmas alice_hears = alice_run [THEN conjunct1]

text \<open>The same packet again, over the same connection: nothing is delivered.\<close>

lemma alice_hears_twice:
  "deliveries (fold (router_step hearing (\<lambda>_. True)) (greeting @ [(Frame 0 hello_frame, 6)]) alice) = [(packet_of hello, Tcp)]"
  using alice_run by (simp add: router_step_def frame_def hello_frame hasSeen_def Let_def)


theorem delivered_at_most_once_witness:
  "distinct (map (\<lambda>d. p_id (fst d)) (deliveries (fold (router_step hearing (\<lambda>_. True)) (greeting @ [(Frame 0 hello_frame, 6)]) alice)))"
proof (rule delivered_at_most_once [OF alice _ refl])
  show "sorted (map snd (greeting @ [(Frame 0 hello_frame, 6)]))" by (simp add: greeting_def)
  have "filter is_broadcast (greeting @ [(Frame 0 hello_frame, 6)]) = []" by (simp add: greeting_def is_broadcast_def)
  then show "length (filter is_broadcast (greeting @ [(Frame 0 hello_frame, 6)])) +
      length (deliveries (fold (router_step hearing (\<lambda>_. True)) (greeting @ [(Frame 0 hello_frame, 6)]) alice)) \<le> 4096"
    unfolding alice_hears_twice by simp
qed (simp add: alice_hears_twice del: fold_append)


section \<open>A packet retained twice\<close>

text \<open>
  \<open>retain\<close> replaces an entry that has the same identifier but adds its bytes to the total all
  the same. This happens when the table of seen packets had to drop a packet that is still
  retained and the packet arrives once more. The bytes counted then exceed the bytes retained,
  and removing the entry does not give the difference back.
\<close>

lemma retain_twice_miscounts:
  assumes "canon v = Inr s" "b = int (length (utf8 s))" "b \<le> MAX_PACKET" "retainedMap r = [(p_id (packet_of v), old)]"
    and "r_bytes old = b" "retainedBytes r = b" "p_expires (r_packet old) > now"
  shows "\<exists>x r'. retain now v rel r = (Inr (Some x), r') \<and> osum r_bytes (retainedMap r') = b \<and> retainedBytes r' = 2 * b \<and>
    retainedBytes (removeRetained (p_id (packet_of v)) r') = b \<and> retainedMap (removeRetained (p_id (packet_of v)) r') = []"
proof -
  have "drop_expired now r = r" using assms by (simp add: drop_expired_def okeys_def)
  moreover have "retain_room (p_prio (packet_of v)) b r = (True, r)"
    using assms by (subst retain_room.simps) (simp add: MAX_TRANSFERS_def MAX_PENDING_def MAX_PACKET_def)
  ultimately show ?thesis
    using assms by (simp add: retain_def Let_def removeRetained_def osum_def odel_def)
qed

end
