(* ===== verification/Certificate.thy ===== *)
theory Certificate
  imports Bundle
begin

text \<open>
  The certificates of groups (\<open>packages/groups/src/certificate-protocol.ts\<close>, and
  \<open>certificates.ts\<close> for a node): the checks of anchors, epochs, invitations, consents,
  requests to leave and snapshots, and how each is made. Values are JSON values, as they are
  received; an exception is an \<open>Inl\<close>. Random bytes are arguments. What the protocol is given
  by its platform (\<open>GroupCertificateCrypto\<close>) is a record of functions, and \<open>node_groups\<close> is
  the one that \<open>certificates.ts\<close> builds. Copies (\<open>structuredClone\<close>) are the values
  themselves.
\<close>

section \<open>Errors and the platform\<close>

datatype group_error =
    GRecord | GFields | GList | GAddress | GCode | GNotCanonical | GTooLarge | GText json_error
  | GBadCard | GBadAuthority | GHash | GSignature | GBadSigner | GSignRefused
  | GAnchorVersion | GMembersOrder | GEpochVersion | GEpochNumber | GFirstHasParent | GEpochState | GLastEpoch
  | GOtherGroup | GNoCreator | GFirstEpoch | GInvitationVersion | GConsentVersion | GNotCreator | GClosed
  | GOtherInvitation | GInviteCard | GConsent | GLeaveVersion | GCreatorLeaves | GLeave
  | GSnapshotVersion | GTitle | GCardsOrder | GNoCard | GJoinsOrder | GCommitment | GRoster | GFirstJoins
  | GOtherTransition | GChain | GClosedState | GJoinsCount | GNoConsent

record group_crypto =
  hash_text :: "ustr \<Rightarrow> ustr"
  valid_card :: "jval \<Rightarrow> bool"
  verify_text :: "jval \<Rightarrow> ustr \<Rightarrow> bytes \<Rightarrow> bool"
  sign_text :: "sender \<Rightarrow> ustr \<Rightarrow> ustr option"

definition GROUP_members :: nat where "GROUP_members = 64"
definition GROUP_epochs :: nat where "GROUP_epochs = 1024"
definition GROUP_certificateBytes :: nat where "GROUP_certificateBytes = 2048"
definition GROUP_headerBytes :: nat where "GROUP_headerBytes = 16384"
definition GROUP_snapshotBytes :: nat where "GROUP_snapshotBytes = 524288"

text \<open>The private key must be an Ed25519 key whose public half is the one of the identity.\<close>

definition node_sign :: "crypto \<Rightarrow> (bytes \<Rightarrow> key_kind) \<Rightarrow> (bytes \<Rightarrow> bytes) \<Rightarrow> sender \<Rightarrow> ustr \<Rightarrow> ustr option" where
  "node_sign C kind pub me txt =
     (case import_private C (from64 (signSecret me)) of None \<Rightarrow> None
      | Some k \<Rightarrow>
          if kind k \<noteq> Ed25519 \<or> JStr (b64 (pub k)) \<noteq> jget (sender_public me) (lit ''signKey'') then None
          else Some (b64 (sign C k (utf8 txt))))"

definition node_verify :: "crypto \<Rightarrow> jval \<Rightarrow> ustr \<Rightarrow> bytes \<Rightarrow> bool" where
  "node_verify C who txt sig = verify_sig C (from64 (str_of (jget who (lit ''signKey'')))) (utf8 txt) sig"

definition node_groups :: "crypto \<Rightarrow> (bytes \<Rightarrow> key_kind) \<Rightarrow> (bytes \<Rightarrow> bytes) \<Rightarrow> group_crypto" where
  "node_groups C kind pub =
     \<lparr>hash_text = (\<lambda>t. sha C (utf8 t)), valid_card = validateIdentity C, verify_text = node_verify C,
      sign_text = node_sign C kind pub\<rparr>"

abbreviation field :: "jval \<Rightarrow> string \<Rightarrow> jval" where
  "field v s \<equiv> jget v (lit s)"

section \<open>Shapes\<close>

definition group_record :: "jval \<Rightarrow> string list \<Rightarrow> group_error + unit" where
  "group_record v ks =
     (if \<not> is_obj v then Inl GRecord else if \<not> exactShape v (map lit ks) then Inl GFields else Inr ())"

definition group_list :: "jval \<Rightarrow> nat \<Rightarrow> nat \<Rightarrow> group_error + jval list" where
  "group_list v mn mx =
     (if \<not> is_arr v \<or> length (items_of v) < mn \<or> length (items_of v) > mx then Inl GList else Inr (items_of v))"

definition address :: "jval \<Rightarrow> group_error + unit" where
  "address v = (if is_str v \<and> hex64 (str_of v) then Inr () else Inl GAddress)"

fun addresses :: "jval \<Rightarrow> string list \<Rightarrow> group_error + unit" where
  "addresses v [] = Inr ()"
| "addresses v (k # ks) = bindR (address (field v k)) (\<lambda>_. addresses v ks)"

text \<open>\<open>atob\<close> of the platform: white space is dropped, the padding is optional, and any other
  character, or one character left over, is an error.\<close>

definition ascii_space :: "nat \<Rightarrow> bool" where
  "ascii_space c \<longleftrightarrow> c \<in> {9, 10, 12, 13, 32}"

definition unpad :: "ustr \<Rightarrow> ustr" where
  "unpad s =
     (if length s mod 4 \<noteq> 0 \<or> s = [] \<or> last s \<noteq> 61 then s
      else if butlast s \<noteq> [] \<and> last (butlast s) = 61 then butlast (butlast s) else butlast s)"

definition atob :: "ustr \<Rightarrow> bytes option" where
  "atob s = (let t = unpad (filter (\<lambda>c. \<not> ascii_space c) s) in
     if length t mod 4 = 1 \<or> \<not> list_all is_b64 t then None else Some (from64 t))"

definition base64 :: "jval \<Rightarrow> nat \<Rightarrow> group_error + bytes" where
  "base64 v n =
     (if \<not> is_str v \<or> length (str_of v) \<noteq> 4 * ((n + 2) div 3) then Inl GCode
      else case atob (str_of v) of None \<Rightarrow> Inl GCode
      | Some bs \<Rightarrow> if length bs = n \<and> b64 bs = str_of v then Inr bs else Inl GNotCanonical)"

definition text_of :: "jval \<Rightarrow> group_error + ustr" where
  "text_of v = (case canon v of Inl e \<Rightarrow> Inl (GText e) | Inr s \<Rightarrow> Inr s)"

definition bounded :: "jval \<Rightarrow> nat \<Rightarrow> group_error + ustr" where
  "bounded v maximum = bindR (text_of v) (\<lambda>s. if length (utf8 s) \<le> maximum then Inr s else Inl GTooLarge)"

definition memberCardHash :: "group_crypto \<Rightarrow> jval \<Rightarrow> group_error + ustr" where
  "memberCardHash G who =
     (if \<not> valid_card G who then Inl GBadCard else bindR (text_of who) (\<lambda>s. Inr (hash_text G s)))"

section \<open>Certificates\<close>

definition cert_keys :: "string list" where "cert_keys = [''body'', ''id'', ''signature'']"

definition checkCertificate ::
    "group_crypto \<Rightarrow> jval \<Rightarrow> (jval \<Rightarrow> group_error + unit) \<Rightarrow> jval \<Rightarrow> nat \<Rightarrow> group_error + jval" where
  "checkCertificate G v body signer maximum =
     (if \<not> valid_card G signer then Inl GBadAuthority
      else bindR (group_record v cert_keys) (\<lambda>_.
        bindR (body (field v ''body'')) (\<lambda>_.
        bindR (address (field v ''id'')) (\<lambda>_.
        bindR (base64 (field v ''signature'') 64) (\<lambda>sig.
        bindR (bounded (field v ''body'') maximum) (\<lambda>s.
        bindR (bounded v maximum) (\<lambda>_.
          if field v ''id'' \<noteq> JStr (hash_text G s) then Inl GHash
          else if \<not> verify_text G signer s sig then Inl GSignature
          else Inr v)))))))"

definition signCertificate :: "group_crypto \<Rightarrow> jval \<Rightarrow> sender \<Rightarrow> nat \<Rightarrow> group_error + jval" where
  "signCertificate G body me maximum =
     (if \<not> valid_card G (sender_public me) then Inl GBadSigner
      else bindR (bounded body maximum) (\<lambda>s.
        case sign_text G me s of None \<Rightarrow> Inl GSignRefused
        | Some sig \<Rightarrow>
            (let cert = JObj [(lit ''body'', body), (lit ''id'', JStr (hash_text G s)), (lit ''signature'', JStr sig)]
             in bindR (bounded cert maximum) (\<lambda>_. Inr cert))))"

section \<open>Anchors\<close>

definition anchorBody :: "group_crypto \<Rightarrow> jval \<Rightarrow> group_error + unit" where
  "anchorBody G b =
     bindR (group_record b [''domain'', ''creator'', ''nonce'', ''membershipAuthority'']) (\<lambda>_.
       if field b ''domain'' \<noteq> JStr (lit ''relayloom/group-anchor/1'') \<or>
          field b ''membershipAuthority'' \<noteq> JStr (lit ''creator-only'') then Inl GAnchorVersion
       else bindR (memberCardHash G (field b ''creator'')) (\<lambda>_.
         bindR (base64 (field b ''nonce'') 32) (\<lambda>_. Inr ())))"

definition creator_of :: "jval \<Rightarrow> jval" where
  "creator_of anchor = field (field anchor ''body'') ''creator''"

definition verifyGroupAnchor :: "group_crypto \<Rightarrow> jval \<Rightarrow> group_error + jval" where
  "verifyGroupAnchor G v =
     bindR (group_record v cert_keys) (\<lambda>_.
       bindR (anchorBody G (field v ''body'')) (\<lambda>_.
         checkCertificate G v (anchorBody G) (creator_of v) GROUP_certificateBytes))"

definition anchor_body :: "jval \<Rightarrow> bytes \<Rightarrow> jval" where
  "anchor_body creator nonce = JObj [(lit ''domain'', JStr (lit ''relayloom/group-anchor/1'')), (lit ''creator'', creator),
     (lit ''nonce'', JStr (b64 nonce)), (lit ''membershipAuthority'', JStr (lit ''creator-only''))]"

definition createGroupAnchor :: "group_crypto \<Rightarrow> sender \<Rightarrow> bytes \<Rightarrow> group_error + jval" where
  "createGroupAnchor G me nonce =
     bindR (signCertificate G (anchor_body (sender_public me) nonce) me GROUP_certificateBytes) (verifyGroupAnchor G)"

section \<open>Epochs\<close>

fun commitments_from :: "ustr \<Rightarrow> jval list \<Rightarrow> group_error + unit" where
  "commitments_from prev [] = Inr ()"
| "commitments_from prev (m # ms) =
     bindR (group_record m [''id'', ''cardHash'']) (\<lambda>_.
     bindR (address (field m ''id'')) (\<lambda>_.
     bindR (address (field m ''cardHash'')) (\<lambda>_.
       if \<not> prev < str_of (field m ''id'') then Inl GMembersOrder
       else commitments_from (str_of (field m ''id'')) ms)))"

definition commitments :: "jval \<Rightarrow> group_error + unit" where
  "commitments v = bindR (group_list v 1 GROUP_members) (commitments_from [])"

definition epochBody :: "jval \<Rightarrow> group_error + unit" where
  "epochBody b =
     (let n = field b ''number''; st = field b ''state'' in
      bindR (group_record b [''domain'', ''groupId'', ''number'', ''previous'', ''state'', ''members'', ''snapshotHash'']) (\<lambda>_.
        if field b ''domain'' \<noteq> JStr (lit ''relayloom/group-epoch/1'') then Inl GEpochVersion
        else bindR (addresses b [''groupId'', ''snapshotHash'']) (\<lambda>_.
          if \<not> is_safe_int n \<or> int_of n < 0 \<or> int_of n \<ge> int GROUP_epochs then Inl GEpochNumber
          else bindR (if int_of n = 0 then (if field b ''previous'' = JNull then Inr () else Inl GFirstHasParent)
                      else address (field b ''previous'')) (\<lambda>_.
            if st \<noteq> JStr (lit ''open'') \<and> st \<noteq> JStr (lit ''closed'') then Inl GEpochState
            else if int_of n = int GROUP_epochs - 1 \<and> st \<noteq> JStr (lit ''closed'') then Inl GLastEpoch
            else commitments (field b ''members'')))))"

definition members_of :: "jval \<Rightarrow> jval list" where
  "members_of epoch = items_of (field (field epoch ''body'') ''members'')"

definition number_of :: "jval \<Rightarrow> int" where
  "number_of epoch = int_of (field (field epoch ''body'') ''number'')"

definition is_open :: "jval \<Rightarrow> bool" where
  "is_open epoch \<longleftrightarrow> field (field epoch ''body'') ''state'' = JStr (lit ''open'')"

definition verifyGroupEpoch :: "group_crypto \<Rightarrow> jval \<Rightarrow> jval \<Rightarrow> group_error + jval" where
  "verifyGroupEpoch G v anchor =
     bindR (verifyGroupAnchor G anchor) (\<lambda>_.
     bindR (checkCertificate G v epochBody (creator_of anchor) GROUP_headerBytes) (\<lambda>_.
       if field (field v ''body'') ''groupId'' \<noteq> field anchor ''id'' then Inl GOtherGroup
       else if \<not> list_ex (\<lambda>m. field m ''id'' = field (creator_of anchor) ''id'') (members_of v) then Inl GNoCreator
       else if number_of v = 0 then
         (if \<not> is_open v \<or> length (members_of v) \<noteq> 1 then Inl GFirstEpoch
          else bindR (memberCardHash G (creator_of anchor)) (\<lambda>h.
            if field (hd (members_of v)) ''cardHash'' \<noteq> JStr h then Inl GFirstEpoch else Inr v))
       else Inr v))"

section \<open>Invitations, consents and requests to leave\<close>

definition bodyOf :: "string \<Rightarrow> string list \<Rightarrow> string list \<Rightarrow> string \<Rightarrow> group_error \<Rightarrow> jval \<Rightarrow> group_error + unit" where
  "bodyOf domain keys addrs nonce version b =
     bindR (group_record b keys) (\<lambda>_.
       if field b ''domain'' \<noteq> JStr (lit domain) then Inl version
       else bindR (addresses b addrs) (\<lambda>_. bindR (base64 (field b nonce) 32) (\<lambda>_. Inr ())))"

definition invitationBody :: "jval \<Rightarrow> group_error + unit" where
  "invitationBody = bodyOf ''relayloom/group-invitation/1''
     [''domain'', ''groupId'', ''parentEpochId'', ''inviteeId'', ''inviteeCardHash'', ''invitationNonce'']
     [''groupId'', ''parentEpochId'', ''inviteeId'', ''inviteeCardHash''] ''invitationNonce'' GInvitationVersion"

definition consentBody :: "jval \<Rightarrow> group_error + unit" where
  "consentBody = bodyOf ''relayloom/group-consent/1''
     [''domain'', ''groupId'', ''parentEpochId'', ''invitationHash'', ''cardHash'', ''joinNonce'']
     [''groupId'', ''parentEpochId'', ''invitationHash'', ''cardHash''] ''joinNonce'' GConsentVersion"

definition leaveBody :: "jval \<Rightarrow> group_error + unit" where
  "leaveBody = bodyOf ''relayloom/group-leave/1''
     [''domain'', ''groupId'', ''parentEpochId'', ''memberId'', ''cardHash'', ''leaveNonce'']
     [''groupId'', ''parentEpochId'', ''memberId'', ''cardHash''] ''leaveNonce'' GLeaveVersion"

definition owner :: "sender \<Rightarrow> jval \<Rightarrow> group_error + unit" where
  "owner me anchor =
     (if field (sender_public me) ''id'' = field (creator_of anchor) ''id'' \<and>
         field (sender_public me) ''signKey'' = field (creator_of anchor) ''signKey'' then Inr () else Inl GNotCreator)"

definition verifyGroupInvitation :: "group_crypto \<Rightarrow> jval \<Rightarrow> jval \<Rightarrow> jval \<Rightarrow> jval \<Rightarrow> group_error + jval" where
  "verifyGroupInvitation G v anchor parent invitee =
     bindR (verifyGroupEpoch G parent anchor) (\<lambda>_.
       if \<not> is_open parent then Inl GClosed
       else bindR (checkCertificate G v invitationBody (creator_of anchor) GROUP_certificateBytes) (\<lambda>_.
         let b = field v ''body'' in
         if field b ''groupId'' \<noteq> field anchor ''id'' \<or> field b ''parentEpochId'' \<noteq> field parent ''id'' then Inl GOtherInvitation
         else if field b ''inviteeId'' \<noteq> field invitee ''id'' then Inl GInviteCard
         else bindR (memberCardHash G invitee) (\<lambda>h.
           if field b ''inviteeCardHash'' \<noteq> JStr h then Inl GInviteCard else Inr v)))"

definition invitation_body :: "jval \<Rightarrow> jval \<Rightarrow> jval \<Rightarrow> ustr \<Rightarrow> bytes \<Rightarrow> jval" where
  "invitation_body anchor parent invitee h nonce =
     JObj [(lit ''domain'', JStr (lit ''relayloom/group-invitation/1'')), (lit ''groupId'', field anchor ''id''),
       (lit ''parentEpochId'', field parent ''id''), (lit ''inviteeId'', field invitee ''id''),
       (lit ''inviteeCardHash'', JStr h), (lit ''invitationNonce'', JStr (b64 nonce))]"

definition createGroupInvitation ::
    "group_crypto \<Rightarrow> sender \<Rightarrow> jval \<Rightarrow> jval \<Rightarrow> jval \<Rightarrow> bytes \<Rightarrow> group_error + jval" where
  "createGroupInvitation G me anchor parent invitee nonce =
     bindR (verifyGroupAnchor G anchor) (\<lambda>_.
     bindR (owner me anchor) (\<lambda>_.
     bindR (memberCardHash G invitee) (\<lambda>h.
     bindR (signCertificate G (invitation_body anchor parent invitee h nonce) me GROUP_certificateBytes) (\<lambda>c.
       verifyGroupInvitation G c anchor parent invitee))))"

definition verifyGroupConsent :: "group_crypto \<Rightarrow> jval \<Rightarrow> jval \<Rightarrow> jval \<Rightarrow> jval \<Rightarrow> group_error + jval" where
  "verifyGroupConsent G v anchor parent member =
     bindR (verifyGroupEpoch G parent anchor) (\<lambda>_.
       if \<not> is_open parent then Inl GClosed
       else bindR (checkCertificate G v consentBody member GROUP_certificateBytes) (\<lambda>_.
         let b = field v ''body'' in
         if field b ''groupId'' \<noteq> field anchor ''id'' \<or> field b ''parentEpochId'' \<noteq> field parent ''id'' then Inl GConsent
         else bindR (memberCardHash G member) (\<lambda>h.
           if field b ''cardHash'' \<noteq> JStr h then Inl GConsent else Inr v)))"

definition consent_body :: "jval \<Rightarrow> jval \<Rightarrow> jval \<Rightarrow> ustr \<Rightarrow> bytes \<Rightarrow> jval" where
  "consent_body anchor parent invite h nonce =
     JObj [(lit ''domain'', JStr (lit ''relayloom/group-consent/1'')), (lit ''groupId'', field anchor ''id''),
       (lit ''parentEpochId'', field parent ''id''), (lit ''invitationHash'', field invite ''id''),
       (lit ''cardHash'', JStr h), (lit ''joinNonce'', JStr (b64 nonce))]"

definition acceptGroupInvitation ::
    "group_crypto \<Rightarrow> sender \<Rightarrow> jval \<Rightarrow> jval \<Rightarrow> jval \<Rightarrow> bytes \<Rightarrow> group_error + jval" where
  "acceptGroupInvitation G me anchor parent invitation nonce =
     bindR (verifyGroupInvitation G invitation anchor parent (sender_public me)) (\<lambda>invite.
     bindR (memberCardHash G (sender_public me)) (\<lambda>h.
     bindR (signCertificate G (consent_body anchor parent invite h nonce) me GROUP_certificateBytes) (\<lambda>c.
       verifyGroupConsent G c anchor parent (sender_public me))))"

definition verifyGroupLeave :: "group_crypto \<Rightarrow> jval \<Rightarrow> jval \<Rightarrow> jval \<Rightarrow> jval \<Rightarrow> group_error + jval" where
  "verifyGroupLeave G v anchor parent member =
     bindR (verifyGroupEpoch G parent anchor) (\<lambda>_.
       if \<not> is_open parent \<or> field member ''id'' = field (creator_of anchor) ''id'' then Inl GCreatorLeaves
       else bindR (checkCertificate G v leaveBody member GROUP_certificateBytes) (\<lambda>_.
         bindR (memberCardHash G member) (\<lambda>h.
           let b = field v ''body'' in
           if field b ''groupId'' \<noteq> field anchor ''id'' \<or> field b ''parentEpochId'' \<noteq> field parent ''id'' \<or>
              field b ''memberId'' \<noteq> field member ''id'' \<or> field b ''cardHash'' \<noteq> JStr h \<or>
              \<not> list_ex (\<lambda>m. field m ''id'' = field member ''id'' \<and> field m ''cardHash'' = JStr h) (members_of parent)
           then Inl GLeave else Inr v)))"

definition leave_body :: "jval \<Rightarrow> jval \<Rightarrow> jval \<Rightarrow> ustr \<Rightarrow> bytes \<Rightarrow> jval" where
  "leave_body anchor parent member h nonce =
     JObj [(lit ''domain'', JStr (lit ''relayloom/group-leave/1'')), (lit ''groupId'', field anchor ''id''),
       (lit ''parentEpochId'', field parent ''id''), (lit ''memberId'', field member ''id''),
       (lit ''cardHash'', JStr h), (lit ''leaveNonce'', JStr (b64 nonce))]"

definition createGroupLeave :: "group_crypto \<Rightarrow> sender \<Rightarrow> jval \<Rightarrow> jval \<Rightarrow> bytes \<Rightarrow> group_error + jval" where
  "createGroupLeave G me anchor parent nonce =
     bindR (memberCardHash G (sender_public me)) (\<lambda>h.
     bindR (signCertificate G (leave_body anchor parent (sender_public me) h nonce) me GROUP_certificateBytes) (\<lambda>c.
       verifyGroupLeave G c anchor parent (sender_public me)))"

section \<open>Snapshots\<close>

text \<open>The cards of a snapshot by their hash; each comes after the one before it.\<close>

fun snapshot_cards :: "group_crypto \<Rightarrow> ustr \<Rightarrow> jval list \<Rightarrow> (ustr, jval) omap \<Rightarrow> group_error + (ustr, jval) omap" where
  "snapshot_cards G prev [] cards = Inr cards"
| "snapshot_cards G prev (c # cs) cards =
     bindR (memberCardHash G c) (\<lambda>h.
       if \<not> prev < str_of (field c ''id'') then Inl GCardsOrder
       else snapshot_cards G (str_of (field c ''id'')) cs (oset h c cards))"

fun snapshot_joins :: "group_crypto \<Rightarrow> jval \<Rightarrow> (ustr, jval) omap \<Rightarrow> ustr \<Rightarrow> jval list \<Rightarrow> group_error + unit" where
  "snapshot_joins G gid cards prev [] = Inr ()"
| "snapshot_joins G gid cards prev (v # vs) =
     bindR (group_record v cert_keys) (\<lambda>_.
       let b = field v ''body''; h = str_of (field b ''cardHash'') in
       bindR (consentBody b) (\<lambda>_.
         case oget cards h of None \<Rightarrow> Inl GNoCard
         | Some c \<Rightarrow>
             bindR (checkCertificate G v consentBody c GROUP_certificateBytes) (\<lambda>_.
               if field b ''groupId'' \<noteq> gid \<or> \<not> prev < h then Inl GJoinsOrder
               else snapshot_joins G gid cards h vs)))"

definition snapshotBody :: "group_crypto \<Rightarrow> jval \<Rightarrow> group_error + jval" where
  "snapshotBody G s =
     bindR (group_record s [''domain'', ''groupId'', ''salt'', ''title'', ''members'', ''joins'']) (\<lambda>_.
       if field s ''domain'' \<noteq> JStr (lit ''relayloom/group-state/1'') then Inl GSnapshotVersion
       else bindR (address (field s ''groupId'')) (\<lambda>_.
         bindR (base64 (field s ''salt'') 32) (\<lambda>_.
           if \<not> is_str (field s ''title'') \<or> length (str_of (field s ''title'')) > 256 then Inl GTitle
           else bindR (group_list (field s ''members'') 1 GROUP_members) (\<lambda>ms.
             bindR (snapshot_cards G [] ms []) (\<lambda>cards.
             bindR (group_list (field s ''joins'') 0 GROUP_members) (\<lambda>js.
             bindR (snapshot_joins G (field s ''groupId'') cards [] js) (\<lambda>_.
             bindR (bounded s GROUP_snapshotBytes) (\<lambda>_. Inr s))))))))"

definition roster_entry :: "group_crypto \<Rightarrow> jval \<Rightarrow> group_error + jval" where
  "roster_entry G m = bindR (text_of m) (\<lambda>s.
     Inr (JObj [(lit ''id'', field m ''id''), (lit ''cardHash'', JStr (hash_text G s))]))"

definition verifyGroupSnapshot :: "group_crypto \<Rightarrow> jval \<Rightarrow> jval \<Rightarrow> jval \<Rightarrow> group_error + jval" where
  "verifyGroupSnapshot G v anchor epoch =
     bindR (verifyGroupEpoch G epoch anchor) (\<lambda>_.
     bindR (snapshotBody G v) (\<lambda>_.
       if field v ''groupId'' \<noteq> field anchor ''id'' then Inl GCommitment
       else bindR (text_of v) (\<lambda>s.
         if JStr (hash_text G s) \<noteq> field (field epoch ''body'') ''snapshotHash'' then Inl GCommitment
         else bindR (seqR (map (roster_entry G) (items_of (field v ''members'')))) (\<lambda>roster.
           bindR (text_of (JArr roster)) (\<lambda>a. bindR (text_of (field (field epoch ''body'') ''members'')) (\<lambda>b.
             if a \<noteq> b then Inl GRoster
             else if number_of epoch = 0 then
               (if items_of (field v ''joins'') \<noteq> [] then Inl GFirstJoins else Inr v)
             else if is_open epoch \<and> \<not> list_all (\<lambda>c. field (field c ''body'') ''parentEpochId'' =
                 field (field epoch ''body'') ''previous'') (items_of (field v ''joins'')) then Inl GOtherTransition
             else Inr v))))))"

section \<open>The chain of epochs\<close>

datatype change = Restrictive | Nonrestrictive

definition keeps_members :: "jval \<Rightarrow> jval \<Rightarrow> bool" where
  "keeps_members parent succ \<longleftrightarrow> list_all (\<lambda>old. list_ex (\<lambda>m. field m ''id'' = field old ''id'' \<and>
     field m ''cardHash'' = field old ''cardHash'') (members_of succ)) (members_of parent)"

definition verifyGroupEpochLink :: "group_crypto \<Rightarrow> jval \<Rightarrow> jval \<Rightarrow> jval \<Rightarrow> group_error + change" where
  "verifyGroupEpochLink G anchor parent succ =
     bindR (verifyGroupEpoch G parent anchor) (\<lambda>_.
     bindR (verifyGroupEpoch G succ anchor) (\<lambda>_.
       let b = field succ ''body''; a = field parent ''body'' in
       if \<not> is_open parent then Inl GClosed
       else if number_of succ \<noteq> number_of parent + 1 \<or> field b ''previous'' \<noteq> field parent ''id'' then Inl GChain
       else if \<not> is_open succ then
         bindR (text_of (field b ''members'')) (\<lambda>x. bindR (text_of (field a ''members'')) (\<lambda>y.
           if x \<noteq> y \<or> field b ''snapshotHash'' \<noteq> field a ''snapshotHash'' then Inl GClosedState else Inr Restrictive))
       else Inr (if keeps_members parent succ then Nonrestrictive else Restrictive)))"

fun path_changes :: "group_crypto \<Rightarrow> jval \<Rightarrow> jval list \<Rightarrow> bool \<Rightarrow> group_error + bool" where
  "path_changes G anchor (p # q # path) restrictive =
     bindR (verifyGroupEpochLink G anchor p q) (\<lambda>c. path_changes G anchor (q # path) (restrictive \<or> c = Restrictive))"
| "path_changes G anchor _ restrictive = Inr restrictive"

definition classifyGroupEpochPath :: "group_crypto \<Rightarrow> jval \<Rightarrow> jval \<Rightarrow> group_error + change" where
  "classifyGroupEpochPath G anchor values =
     bindR (group_list values 1 GROUP_epochs) (\<lambda>path.
     bindR (verifyGroupEpoch G (hd path) anchor) (\<lambda>_.
     bindR (path_changes G anchor path False) (\<lambda>r. Inr (if r then Restrictive else Nonrestrictive))))"

text \<open>The cards of the new state that differ from what the parent lists for their owner, and
  the check that each of them agreed to this very transition.\<close>

definition old_card :: "jval \<Rightarrow> jval \<Rightarrow> jval option" where
  "old_card parent i = oget (fold (\<lambda>m. oset (field m ''id'') (field m ''cardHash'')) (members_of parent) []) i"

fun changed_cards :: "group_crypto \<Rightarrow> jval \<Rightarrow> jval list \<Rightarrow> group_error + (ustr \<times> jval) list" where
  "changed_cards G parent [] = Inr []"
| "changed_cards G parent (c # cs) =
     bindR (text_of c) (\<lambda>s. bindR (changed_cards G parent cs) (\<lambda>rest.
       Inr (if old_card parent (field c ''id'') \<noteq> Some (JStr (hash_text G s)) then (hash_text G s, c) # rest else rest)))"

fun check_consents :: "group_crypto \<Rightarrow> jval \<Rightarrow> jval \<Rightarrow> (jval, jval) omap \<Rightarrow> (ustr \<times> jval) list \<Rightarrow> group_error + unit" where
  "check_consents G anchor parent consents [] = Inr ()"
| "check_consents G anchor parent consents ((h, c) # cs) =
     (case oget consents (JStr h) of None \<Rightarrow> Inl GNoConsent
      | Some v \<Rightarrow> bindR (verifyGroupConsent G v anchor parent c) (\<lambda>_. check_consents G anchor parent consents cs))"

definition verifyGroupSnapshotTransition :: "group_crypto \<Rightarrow> jval \<Rightarrow> jval \<Rightarrow> jval \<Rightarrow> jval \<Rightarrow> group_error + change" where
  "verifyGroupSnapshotTransition G anchor parent succ new =
     bindR (verifyGroupEpochLink G anchor parent succ) (\<lambda>kind.
     bindR (verifyGroupSnapshot G new anchor succ) (\<lambda>after.
       if field (field succ ''body'') ''state'' = JStr (lit ''closed'') then Inr kind
       else bindR (changed_cards G parent (items_of (field after ''members''))) (\<lambda>changed.
         let joins = items_of (field after ''joins'') in
         if length joins \<noteq> length changed then Inl GJoinsCount
         else bindR (check_consents G anchor parent
             (fold (\<lambda>v. oset (field (field v ''body'') ''cardHash'') v) joins []) changed) (\<lambda>_. Inr kind))))"

definition verifyGroupTransition :: "group_crypto \<Rightarrow> jval \<Rightarrow> jval \<Rightarrow> jval \<Rightarrow> jval \<Rightarrow> jval \<Rightarrow> group_error + change" where
  "verifyGroupTransition G anchor parent old succ new =
     bindR (verifyGroupSnapshot G old anchor parent) (\<lambda>_. verifyGroupSnapshotTransition G anchor parent succ new)"

section \<open>Making epochs\<close>

definition snapshot_value :: "jval \<Rightarrow> jval \<Rightarrow> jval list \<Rightarrow> jval list \<Rightarrow> bytes \<Rightarrow> jval" where
  "snapshot_value gid title members joins salt =
     JObj [(lit ''domain'', JStr (lit ''relayloom/group-state/1'')), (lit ''groupId'', gid),
       (lit ''salt'', JStr (b64 salt)), (lit ''title'', title),
       (lit ''members'', JArr (sort_key (\<lambda>m. str_of (field m ''id'')) members)),
       (lit ''joins'', JArr (sort_key (\<lambda>j. str_of (field (field j ''body'') ''cardHash'')) joins))]"

definition makeSnapshot :: "group_crypto \<Rightarrow> jval \<Rightarrow> jval \<Rightarrow> jval list \<Rightarrow> jval list \<Rightarrow> bytes \<Rightarrow> group_error + jval" where
  "makeSnapshot G gid title members joins salt = snapshotBody G (snapshot_value gid title members joins salt)"

definition commitment :: "jval \<Rightarrow> ustr \<Rightarrow> jval" where
  "commitment who h = JObj [(lit ''id'', field who ''id''), (lit ''cardHash'', JStr h)]"

definition epoch_body :: "jval \<Rightarrow> int \<Rightarrow> jval \<Rightarrow> jval list \<Rightarrow> ustr \<Rightarrow> jval" where
  "epoch_body gid n previous members h =
     JObj [(lit ''domain'', JStr (lit ''relayloom/group-epoch/1'')), (lit ''groupId'', gid), (lit ''number'', JInt n),
       (lit ''previous'', previous), (lit ''state'', JStr (lit ''open'')), (lit ''members'', JArr members),
       (lit ''snapshotHash'', JStr h)]"

definition createAnchoredGroup ::
    "group_crypto \<Rightarrow> sender \<Rightarrow> jval \<Rightarrow> bytes \<Rightarrow> bytes \<Rightarrow> group_error + jval \<times> jval \<times> jval" where
  "createAnchoredGroup G me title nonce salt =
     bindR (createGroupAnchor G me nonce) (\<lambda>anchor.
     bindR (makeSnapshot G (field anchor ''id'') title [sender_public me] [] salt) (\<lambda>snapshot.
     bindR (memberCardHash G (sender_public me)) (\<lambda>h.
     bindR (text_of snapshot) (\<lambda>s.
     bindR (signCertificate G (epoch_body (field anchor ''id'') 0 JNull [commitment (sender_public me) h] (hash_text G s))
         me GROUP_headerBytes) (\<lambda>c.
     bindR (verifyGroupEpoch G c anchor) (\<lambda>epoch.
     bindR (verifyGroupSnapshot G snapshot anchor epoch) (\<lambda>snap. Inr (anchor, epoch, snap))))))))"

definition createGroupSuccessor ::
    "group_crypto \<Rightarrow> sender \<Rightarrow> jval \<Rightarrow> jval \<Rightarrow> jval \<Rightarrow> jval \<Rightarrow> jval list \<Rightarrow> jval list \<Rightarrow> bytes \<Rightarrow> group_error + jval \<times> jval" where
  "createGroupSuccessor G me anchor parent old title members joins salt =
     bindR (verifyGroupAnchor G anchor) (\<lambda>_.
     bindR (owner me anchor) (\<lambda>_.
     bindR (verifyGroupSnapshot G old anchor parent) (\<lambda>_.
     bindR (makeSnapshot G (field anchor ''id'') title members joins salt) (\<lambda>snapshot.
     bindR (seqR (map (\<lambda>m. bindR (memberCardHash G m) (\<lambda>h. Inr (commitment m h))) (items_of (field snapshot ''members'')))) (\<lambda>ms.
     bindR (text_of snapshot) (\<lambda>s.
     bindR (signCertificate G (epoch_body (field anchor ''id'') (number_of parent + 1) (field parent ''id'') ms (hash_text G s))
         me GROUP_headerBytes) (\<lambda>c.
     bindR (verifyGroupEpoch G c anchor) (\<lambda>epoch.
     bindR (verifyGroupTransition G anchor parent old epoch snapshot) (\<lambda>_. Inr (epoch, snapshot))))))))))"

definition closed_body :: "jval \<Rightarrow> jval" where
  "closed_body parent =
     JObj (oset (lit ''state'') (JStr (lit ''closed'')) (oset (lit ''previous'') (field parent ''id'')
       (oset (lit ''number'') (JInt (number_of parent + 1)) (fields_of (field parent ''body'')))))"

definition closeAnchoredGroup :: "group_crypto \<Rightarrow> sender \<Rightarrow> jval \<Rightarrow> jval \<Rightarrow> group_error + jval" where
  "closeAnchoredGroup G me anchor parent =
     bindR (verifyGroupAnchor G anchor) (\<lambda>_.
     bindR (owner me anchor) (\<lambda>_.
     bindR (verifyGroupEpoch G parent anchor) (\<lambda>_.
     bindR (signCertificate G (closed_body parent) me GROUP_headerBytes) (\<lambda>c.
     bindR (verifyGroupEpoch G c anchor) (\<lambda>epoch.
     bindR (verifyGroupEpochLink G anchor parent epoch) (\<lambda>_. Inr epoch))))))"

end
