(* ===== verification/Certificate_Facts.thy ===== *)
theory Certificate_Facts
  imports Certificate Encodable Bundle_Stored
begin

text \<open>
  What the checks of group certificates establish: each verifier is read back as the conditions
  it implies, for the epochs, the chain they form, and the consents of members.
\<close>

section \<open>The encoding of signatures and random values\<close>

lemma b64_char_not_pad: "n < 64 \<Longrightarrow> b64_char n \<noteq> 61"
  by (auto simp: b64_char_def)

lemma unpad_Cons4:
  assumes "t \<noteq> []" "length t mod 4 = 0"
  shows "unpad (a # b # c # d # t) = a # b # c # d # unpad t"
proof -
  have "4 \<le> length t" using assms by (cases t) (auto simp: mod_if split: if_splits)
  then have "butlast t \<noteq> []" by (cases t rule: rev_cases) auto
  then show ?thesis using assms by (simp add: unpad_def)
qed

lemma length_b64_mod: "length (b64 bs) mod 4 = 0"
  by (simp add: length_b64)

lemma unpad_b64:
  "unpad (b64 bs) = takeWhile is_b64 (b64 bs) \<and> list_all is_b64 (unpad (b64 bs)) \<and> length (unpad (b64 bs)) mod 4 \<noteq> 1"
proof (induction bs rule: b64.induct)
  case (4 a b c bs)
  show ?case
  proof (cases "b64 bs = []")
    case True
    then show ?thesis by (simp add: unpad_def b64_char_not_pad)
  next
    case False
    obtain u where u: "unpad (b64 bs) = u" "takeWhile is_b64 (b64 bs) = u" "list_all is_b64 u" "length u mod 4 \<noteq> 1"
      using 4 by metis
    with False show ?thesis by (simp add: unpad_Cons4 length_b64_mod)
  qed
qed (simp_all add: unpad_def b64_char_not_pad)

lemma b64_no_space: "filter (\<lambda>c. \<not> ascii_space c) (b64 bs) = b64 bs"
proof -
  have "\<not> ascii_space (b64_char n)" if "n < 64" for n using that by (auto simp: ascii_space_def b64_char_def)
  then have "\<forall>c \<in> set (b64 bs). \<not> ascii_space c"
    by (induction bs rule: b64.induct) (simp_all, simp_all add: ascii_space_def)
  then show ?thesis by simp
qed

lemma atob_b64: "atob (b64 bs) = Some bs"
proof -
  obtain u where u: "unpad (b64 bs) = u" "takeWhile is_b64 (b64 bs) = u" "list_all is_b64 u" "length u mod 4 \<noteq> 1"
    using unpad_b64 [of bs] by metis
  have "takeWhile is_b64 u = u" using u(3) by (simp add: takeWhile_eq_all_conv list_all_iff)
  then have "from64 u = from_sextets (map b64_value u)" by (simp only: from64_def)
  then have "from64 u = bs" using from64_b64 [of bs] unfolding from64_def u(2) by argo
  then show ?thesis using u by (simp add: atob_def b64_no_space Let_def)
qed

lemma base64_value: "base64 v n = Inr bs \<longleftrightarrow> v = JStr (b64 bs) \<and> length bs = n"
proof
  assume "base64 v n = Inr bs"
  then show "v = JStr (b64 bs) \<and> length bs = n"
    by (cases v) (auto simp: base64_def is_str_def str_of_def split: if_splits option.splits)
next
  assume "v = JStr (b64 bs) \<and> length bs = n"
  then show "base64 v n = Inr bs" by (auto simp: base64_def is_str_def str_of_def length_b64 atob_b64)
qed

text \<open>
  A nonce or signature of a group certificate is accepted exactly when it is the canonical
  base64 text of a value of the required length, although the decoder of the platform also
  takes white space, missing padding and stray bits.
\<close>

theorem base64_iff: "base64 v n = Inr bs \<longleftrightarrow> v = JStr (b64 bs) \<and> length bs = n"
  by (rule base64_value)

section \<open>Shapes\<close>

lemma text_of_iff [simp]: "text_of v = Inr s \<longleftrightarrow> canon v = Inr s"
  by (simp add: text_of_def split: sum.split)

lemma bounded_iff [simp]: "bounded v n = Inr s \<longleftrightarrow> canon v = Inr s \<and> length (utf8 s) \<le> n"
  by (auto simp: bounded_def bindR_Inr_iff split: if_splits)

lemma group_record_iff [simp]: "group_record v ks = Inr u \<longleftrightarrow> exactShape v (map lit ks)"
  by (cases v) (auto simp: group_record_def is_obj_def exactShape_def)

lemma group_list_iff [simp]: "group_list v mn mx = Inr vs \<longleftrightarrow> v = JArr vs \<and> mn \<le> length vs \<and> length vs \<le> mx"
  by (cases v) (auto simp: group_list_def is_arr_def items_of_def)

lemma address_iff [simp]: "address v = Inr u \<longleftrightarrow> (\<exists>s. v = JStr s \<and> hex64 s)"
  by (cases v) (auto simp: address_def is_str_def str_of_def)

lemma addresses_iff [simp]: "addresses v ks = Inr u \<longleftrightarrow> (\<forall>k \<in> set ks. \<exists>s. field v k = JStr s \<and> hex64 s)"
  by (induction ks) (auto simp: bindR_Inr_iff)

lemma memberCardHash_iff: "memberCardHash G c = Inr h \<longleftrightarrow> valid_card G c \<and> (\<exists>s. canon c = Inr s \<and> h = hash_text G s)"
  by (auto simp: memberCardHash_def bindR_Inr_iff split: if_splits)

lemma if_Inr: "(if b then Inl e else m) = Inr x \<longleftrightarrow> \<not> b \<and> m = Inr x"
  by simp

named_theorems group_checks \<open>a check that passes, as the conditions it tests\<close>

declare bindR_Inr_iff [group_checks] if_Inr [group_checks] base64_value [group_checks] memberCardHash_iff [group_checks]

section \<open>Certificates\<close>

definition signed_by :: "group_crypto \<Rightarrow> jval \<Rightarrow> jval \<Rightarrow> nat \<Rightarrow> bool" where
  "signed_by G signer v maximum \<longleftrightarrow> valid_card G signer \<and> exactShape v (map lit cert_keys) \<and>
     (\<exists>s sig. canon (field v ''body'') = Inr s \<and> length (utf8 s) \<le> maximum \<and> field v ''id'' = JStr (hash_text G s) \<and>
        hex64 (hash_text G s) \<and> field v ''signature'' = JStr (b64 sig) \<and> length sig = 64 \<and> verify_text G signer s sig)"

lemma checkCertificate_iff:
  "checkCertificate G v body signer maximum = Inr c \<longleftrightarrow>
     c = v \<and> signed_by G signer v maximum \<and> body (field v ''body'') = Inr () \<and> (\<exists>t. canon v = Inr t \<and> length (utf8 t) \<le> maximum)"
  by (auto simp: checkCertificate_def signed_by_def group_checks)

lemma signed_idE:
  assumes "signed_by G signer v maximum"
  obtains s where "canon (field v ''body'') = Inr s" "field v ''id'' = JStr (hash_text G s)" "hex64 (hash_text G s)"
  using assms by (auto simp: signed_by_def)

section \<open>Epochs\<close>

lemma verifyGroupAnchor_value: "verifyGroupAnchor G a = Inr c \<Longrightarrow> c = a \<and> signed_by G (creator_of a) a GROUP_certificateBytes"
  by (auto simp: verifyGroupAnchor_def checkCertificate_iff group_checks)

fun ascending :: "ustr \<Rightarrow> jval list \<Rightarrow> bool" where
  "ascending prev [] \<longleftrightarrow> True"
| "ascending prev (m # ms) \<longleftrightarrow> prev < str_of (field m ''id'') \<and> ascending (str_of (field m ''id'')) ms"

definition commitment_ok :: "jval \<Rightarrow> bool" where
  "commitment_ok m \<longleftrightarrow> exactShape m (map lit [''id'', ''cardHash'']) \<and> (\<exists>s. field m ''id'' = JStr s \<and> hex64 s) \<and>
     (\<exists>s. field m ''cardHash'' = JStr s \<and> hex64 s)"

lemma commitments_from_iff:
  "commitments_from prev ms = Inr () \<longleftrightarrow> ascending prev ms \<and> list_all commitment_ok ms"
  by (induction ms arbitrary: prev) (auto simp: group_checks commitment_ok_def)

lemma ascending_less: "ascending prev ms \<Longrightarrow> m \<in> set ms \<Longrightarrow> prev < str_of (field m ''id'')"
  by (induction ms arbitrary: prev) (auto dest: less_trans)

lemma ascending_distinct: "ascending prev ms \<Longrightarrow> distinct (map (\<lambda>m. field m ''id'') ms)"
proof (induction ms arbitrary: prev)
  case (Cons m ms)
  then have "str_of (field m ''id'') < str_of (field n ''id'')" if "n \<in> set ms" for n
    using that ascending_less [of "str_of (field m ''id'')" ms n] by simp
  with Cons show ?case by (auto dest: sym) fastforce
qed simp

definition epoch_ok :: "jval \<Rightarrow> bool" where
  "epoch_ok b \<longleftrightarrow> exactShape b (map lit [''domain'', ''groupId'', ''number'', ''previous'', ''state'', ''members'', ''snapshotHash'']) \<and>
     field b ''domain'' = JStr (lit ''relayloom/group-epoch/1'') \<and>
     (\<exists>s. field b ''groupId'' = JStr s \<and> hex64 s) \<and> (\<exists>s. field b ''snapshotHash'' = JStr s \<and> hex64 s) \<and>
     (\<exists>n. field b ''number'' = JInt n \<and> 0 \<le> n \<and> n < 1024 \<and>
        (if n = 0 then field b ''previous'' = JNull else \<exists>s. field b ''previous'' = JStr s \<and> hex64 s) \<and>
        (field b ''state'' = JStr (lit ''open'') \<and> n < 1023 \<or> field b ''state'' = JStr (lit ''closed''))) \<and>
     (\<exists>ms. field b ''members'' = JArr ms \<and> 1 \<le> length ms \<and> length ms \<le> 64 \<and> ascending [] ms \<and> list_all commitment_ok ms)"

lemma epochBody_ok:
  assumes "epochBody b = Inr ()"
  shows "epoch_ok b"
proof -
  obtain n where n: "field b ''number'' = JInt n"
    using assms by (cases "field b ''number''") (auto simp: epochBody_def Let_def is_safe_int_def group_checks)
  with assms show ?thesis
    by (auto simp: epochBody_def epoch_ok_def Let_def group_checks commitments_def commitments_from_iff int_of_def
        GROUP_epochs_def GROUP_members_def split: if_splits)
qed

lemma verifyGroupEpoch_value:
  assumes "verifyGroupEpoch G v anchor = Inr e"
  shows "e = v" "verifyGroupAnchor G anchor = Inr anchor" "signed_by G (creator_of anchor) v GROUP_headerBytes"
    "epoch_ok (field v ''body'')" "field (field v ''body'') ''groupId'' = field anchor ''id''"
    "\<exists>m \<in> set (members_of v). field m ''id'' = field (creator_of anchor) ''id''"
    "number_of v = 0 \<Longrightarrow> is_open v \<and> length (members_of v) = 1"
  using assms verifyGroupAnchor_value
  by (auto simp: verifyGroupEpoch_def checkCertificate_iff group_checks list_ex_iff epochBody_ok split: if_splits)

section \<open>The chain\<close>

lemma epoch_okE:
  assumes "epoch_ok b"
  obtains n where "field b ''number'' = JInt n" "0 \<le> n" "n < 1024"
    "field b ''state'' = JStr (lit ''open'') \<and> n < 1023 \<or> field b ''state'' = JStr (lit ''closed'')"
    "n = 0 \<Longrightarrow> field b ''previous'' = JNull" "n \<noteq> 0 \<Longrightarrow> \<exists>s. field b ''previous'' = JStr s \<and> hex64 s"
  using assms unfolding epoch_ok_def by (auto split: if_splits)

lemma verifyGroupEpochLink_value:
  assumes "verifyGroupEpochLink G anchor p q = Inr c"
  shows "verifyGroupEpoch G p anchor = Inr p" "verifyGroupEpoch G q anchor = Inr q" "is_open p"
    "number_of q = number_of p + 1" "field (field q ''body'') ''previous'' = field p ''id''"
    "c = Nonrestrictive \<longleftrightarrow> is_open q \<and> keeps_members p q"
    "\<not> is_open q \<Longrightarrow> (\<exists>t. canon (field (field q ''body'') ''members'') = Inr t \<and> canon (field (field p ''body'') ''members'') = Inr t) \<and>
       field (field q ''body'') ''snapshotHash'' = field (field p ''body'') ''snapshotHash''"
  using assms verifyGroupEpoch_value(1)
  by (auto simp: verifyGroupEpochLink_def group_checks Let_def split: if_splits)

text \<open>A chain: each epoch verifies and names the one before it, and only the last may be closed.\<close>

fun chain :: "group_crypto \<Rightarrow> jval \<Rightarrow> jval list \<Rightarrow> bool" where
  "chain G anchor [] \<longleftrightarrow> False"
| "chain G anchor [e] \<longleftrightarrow> verifyGroupEpoch G e anchor = Inr e"
| "chain G anchor (p # q # es) \<longleftrightarrow> verifyGroupEpoch G p anchor = Inr p \<and> is_open p \<and> number_of q = number_of p + 1 \<and>
     field (field q ''body'') ''previous'' = field p ''id'' \<and> chain G anchor (q # es)"

fun grows :: "jval list \<Rightarrow> bool" where
  "grows (p # q # es) \<longleftrightarrow> is_open q \<and> keeps_members p q \<and> grows (q # es)"
| "grows _ \<longleftrightarrow> True"

lemma path_changes_chain:
  assumes "path_changes G anchor (p # es) b = Inr r" "verifyGroupEpoch G p anchor = Inr p"
  shows "chain G anchor (p # es) \<and> (r \<longleftrightarrow> b \<or> \<not> grows (p # es))"
  using assms
proof (induction es arbitrary: p b)
  case (Cons q es)
  from Cons.prems(1) obtain c where c: "verifyGroupEpochLink G anchor p q = Inr c"
    "path_changes G anchor (q # es) (b \<or> c = Restrictive) = Inr r" by (auto simp: group_checks)
  note l = verifyGroupEpochLink_value [OF c(1)]
  have "c = Restrictive \<longleftrightarrow> \<not> (is_open q \<and> keeps_members p q)" using l(6) by (cases c) auto
  with Cons.IH [OF c(2) l(2)] l show ?case by auto
qed simp

lemma classify_chain:
  assumes "classifyGroupEpochPath G anchor values = Inr c"
  obtains es where "values = JArr es" "length es \<le> 1024" "chain G anchor es" "c = Nonrestrictive \<longleftrightarrow> grows es"
proof -
  from assms obtain es r e where es: "values = JArr es" "es \<noteq> []" "length es \<le> 1024"
    "verifyGroupEpoch G (hd es) anchor = Inr e" "path_changes G anchor es False = Inr r"
    "c = (if r then Restrictive else Nonrestrictive)"
    by (force simp: classifyGroupEpochPath_def group_checks GROUP_epochs_def)
  then obtain p ps where p: "es = p # ps" by (cases es) auto
  have "verifyGroupEpoch G p anchor = Inr p" using es(4) verifyGroupEpoch_value(1) by (simp add: p)
  from path_changes_chain [OF es(5) [unfolded p] this] es that show ?thesis by (auto simp: p)
qed

lemma chain_verified: "chain G anchor es \<Longrightarrow> e \<in> set es \<Longrightarrow> verifyGroupEpoch G e anchor = Inr e"
  by (induction es rule: chain.induct) auto

lemma chain_numbers: "chain G anchor es \<Longrightarrow> k < length es \<Longrightarrow> number_of (es ! k) = number_of (hd es) + int k"
proof (induction es arbitrary: k rule: induct_list012)
  case (3 p q es)
  then show ?case by (cases k) auto
qed auto

lemma chain_previous: "chain G anchor es \<Longrightarrow> Suc k < length es \<Longrightarrow>
    field (field (es ! Suc k) ''body'') ''previous'' = field (es ! k) ''id'' \<and> is_open (es ! k)"
proof (induction es arbitrary: k rule: induct_list012)
  case (3 p q es)
  then show ?case by (cases k) auto
qed auto

lemma all_nat_split: "(\<forall>k :: nat. P k) \<longleftrightarrow> P 0 \<and> (\<forall>k. P (Suc k))"
  by (metis not0_implies_Suc)

lemma grows_iff: "grows es \<longleftrightarrow> (\<forall>k. Suc k < length es \<longrightarrow> is_open (es ! Suc k) \<and> keeps_members (es ! k) (es ! Suc k))"
proof (induction es rule: grows.induct)
  case (1 p q es)
  have "(\<forall>k. Suc k < length (p # q # es) \<longrightarrow> is_open ((p # q # es) ! Suc k) \<and> keeps_members ((p # q # es) ! k) ((p # q # es) ! Suc k)) \<longleftrightarrow>
      (is_open q \<and> keeps_members p q) \<and>
      (\<forall>k. Suc k < length (q # es) \<longrightarrow> is_open ((q # es) ! Suc k) \<and> keeps_members ((q # es) ! k) ((q # es) ! Suc k))"
    by (subst all_nat_split) simp
  with 1 show ?case by simp
qed auto

end
