(* ===== verification/Certificate_Chain.thy ===== *)
theory Certificate_Chain
  imports Certificate_Facts
begin

text \<open>
  What a node may conclude from a chain of group epochs: the history of a group is determined
  by its last epoch, a closed group stays closed, and nobody is made a member without having
  agreed to this very transition.
\<close>

section \<open>A path of epochs\<close>

definition same_member :: "jval \<Rightarrow> jval \<Rightarrow> bool" where
  "same_member m n \<longleftrightarrow> field n ''id'' = field m ''id'' \<and> field n ''cardHash'' = field m ''cardHash''"

lemma keeps_members_iff: "keeps_members p q \<longleftrightarrow> (\<forall>m \<in> set (members_of p). \<exists>n \<in> set (members_of q). same_member m n)"
  by (auto simp: keeps_members_def list_all_iff list_ex_iff same_member_def)

lemma keeps_members_refl: "keeps_members p p"
  by (auto simp: keeps_members_iff same_member_def)

lemma keeps_members_trans: "keeps_members p q \<Longrightarrow> keeps_members q r \<Longrightarrow> keeps_members p r"
  unfolding keeps_members_iff same_member_def by metis

lemma grows_keeps:
  assumes "grows es" "i \<le> j" "j < length es"
  shows "keeps_members (es ! i) (es ! j)"
  using assms(2,3)
proof (induction rule: dec_induct)
  case (step k)
  then have "keeps_members (es ! k) (es ! Suc k)" using assms(1) by (simp add: grows_iff)
  with step show ?case by (meson Suc_lessD keeps_members_trans)
qed (rule keeps_members_refl)

lemma grows_reference:
  "grows es \<longleftrightarrow> (\<forall>k. 0 < k \<and> k < length es \<longrightarrow> is_open (es ! k)) \<and>
     (\<forall>i j. i \<le> j \<and> j < length es \<longrightarrow> (\<forall>m \<in> set (members_of (es ! i)). \<exists>n \<in> set (members_of (es ! j)). same_member m n))"
  (is "_ \<longleftrightarrow> ?open \<and> ?keep")
proof (intro iffI conjI)
  assume g: "grows es"
  show ?open
  proof (intro allI impI)
    fix k assume "0 < k \<and> k < length es"
    then show "is_open (es ! k)" using g by (cases k) (simp_all add: grows_iff)
  qed
  show ?keep using grows_keeps [OF g] unfolding keeps_members_iff by blast
next
  assume h: "?open \<and> ?keep"
  have "is_open (es ! Suc k) \<and> keeps_members (es ! k) (es ! Suc k)" if "Suc k < length es" for k
    using h that le_SucI [of k k] unfolding keeps_members_iff by blast
  then show "grows es" by (simp add: grows_iff)
qed

text \<open>
  a path is classified as nonrestrictive exactly when no later epoch drops a member, or the
  card of a member, that an earlier one has, and none after the first closes the group.
\<close>

theorem classify_reference:
  assumes "classifyGroupEpochPath G anchor (JArr es) = Inr c"
  shows "c = Nonrestrictive \<longleftrightarrow> (\<forall>k. 0 < k \<and> k < length es \<longrightarrow> is_open (es ! k)) \<and>
    (\<forall>i j. i \<le> j \<and> j < length es \<longrightarrow> (\<forall>m \<in> set (members_of (es ! i)). \<exists>n \<in> set (members_of (es ! j)). same_member m n))"
proof -
  from assms obtain es' where "JArr es = JArr es'" "c = Nonrestrictive \<longleftrightarrow> grows es'" by (rule classify_chain)
  then show ?thesis using grows_reference [of es] by simp
qed

lemma ascending_members: "epoch_ok (field e ''body'') \<Longrightarrow> distinct (map (\<lambda>m. field m ''id'') (members_of e)) \<and>
    length (members_of e) \<le> 64"
  by (auto simp: epoch_ok_def members_of_def items_of_def intro: ascending_distinct)

text \<open>
  every epoch of an accepted path was signed by the creator of the group and has the
  creator among its members, of which there are at most 64, no two with one identifier; the
  epochs are numbered consecutively, each names the identifier (hash) of the one before, and
  only the last may be closed.
\<close>

theorem path_sound:
  assumes "classifyGroupEpochPath G anchor (JArr es) = Inr c"
  shows "1 \<le> length es \<and> length es \<le> 1024 \<and>
    (\<forall>e \<in> set es. signed_by G (creator_of anchor) e 16384 \<and> field (field e ''body'') ''groupId'' = field anchor ''id'' \<and>
       (\<exists>m \<in> set (members_of e). field m ''id'' = field (creator_of anchor) ''id'') \<and>
       distinct (map (\<lambda>m. field m ''id'') (members_of e)) \<and> length (members_of e) \<le> 64) \<and>
    (\<forall>k. Suc k < length es \<longrightarrow> number_of (es ! Suc k) = number_of (es ! k) + 1 \<and>
       field (field (es ! Suc k) ''body'') ''previous'' = field (es ! k) ''id'' \<and> is_open (es ! k))"
proof -
  from assms obtain es' where "JArr es = JArr es'" "length es' \<le> 1024" "chain G anchor es'" by (rule classify_chain)
  then have es: "length es \<le> 1024" "chain G anchor es" by simp_all
  have "1 \<le> length es" using es(2) by (cases es) auto
  moreover have "signed_by G (creator_of anchor) e 16384 \<and> field (field e ''body'') ''groupId'' = field anchor ''id'' \<and>
       (\<exists>m \<in> set (members_of e). field m ''id'' = field (creator_of anchor) ''id'') \<and>
       distinct (map (\<lambda>m. field m ''id'') (members_of e)) \<and> length (members_of e) \<le> 64" if "e \<in> set es" for e
  proof -
    note v = verifyGroupEpoch_value [OF chain_verified [OF es(2) that]]
    show ?thesis using v(3,5,6) ascending_members [OF v(4)] by (simp add: GROUP_headerBytes_def)
  qed
  moreover have "number_of (es ! Suc k) = number_of (es ! k) + 1" if "Suc k < length es" for k
    using chain_numbers [OF es(2)] that by simp
  ultimately show ?thesis using es chain_previous [OF es(2)] by simp
qed

section \<open>The last epoch determines the history\<close>

lemma exactShape_fracs:
  assumes "exactShape v ks" "distinct ks" "\<forall>k \<in> set ks. fracs_ok (jget v k)"
  shows "fracs_ok v"
proof -
  obtain kvs where kvs: "v = JObj kvs" "mset kvs = mset (map (\<lambda>k. (k, jget v k)) ks)"
    using exactShape_mset [OF assms(1,2)] by metis
  then have "set kvs = set (map (\<lambda>k. (k, jget v k)) ks)" by (metis set_mset_mset)
  then have "\<forall>p \<in> set kvs. fracs_ok (snd p)" using assms(3) by auto
  then show ?thesis by (simp add: kvs(1) list_all_iff)
qed

lemma commitment_fracs: "commitment_ok m \<Longrightarrow> fracs_ok m"
  by (rule exactShape_fracs [of m "map lit [''id'', ''cardHash'']"]) (auto simp: commitment_ok_def)

lemma epoch_fracs:
  assumes "epoch_ok b"
  shows "fracs_ok b"
proof (rule exactShape_fracs)
  let ?ks = "map lit [''domain'', ''groupId'', ''number'', ''previous'', ''state'', ''members'', ''snapshotHash'']"
  show "exactShape b ?ks" using assms by (simp add: epoch_ok_def)
  show "distinct ?ks" by simp
  obtain ms where ms: "field b ''members'' = JArr ms" "list_all commitment_ok ms" using assms by (auto simp: epoch_ok_def)
  then have m: "fracs_ok (field b ''members'')" using commitment_fracs by (simp add: list_all_iff)
  have p: "fracs_ok (field b ''previous'')" "fracs_ok (field b ''number'')" "fracs_ok (field b ''state'')"
    using assms by (elim epoch_okE; force)+
  have r: "fracs_ok (field b ''domain'')" "fracs_ok (field b ''groupId'')" "fracs_ok (field b ''snapshotHash'')"
    using assms unfolding epoch_ok_def by (elim conjE exE; simp)+
  show "\<forall>k \<in> set ?ks. fracs_ok (jget b k)" using m p r by simp
qed

lemma same_id_same_body:
  assumes "verifyGroupEpoch G d anchor = Inr d" "verifyGroupEpoch G e anchor = Inr e" "field d ''id'' = field e ''id''"
    and "inj_on (hash_text G) {s. canon (field d ''body'') = Inr s \<or> canon (field e ''body'') = Inr s}"
  shows "jnorm (field d ''body'') = jnorm (field e ''body'')"
proof -
  note vd = verifyGroupEpoch_value [OF assms(1)] and ve = verifyGroupEpoch_value [OF assms(2)]
  obtain s where s: "canon (field d ''body'') = Inr s" "field d ''id'' = JStr (hash_text G s)" using vd(3) by (rule signed_idE)
  obtain t where t: "canon (field e ''body'') = Inr t" "field e ''id'' = JStr (hash_text G t)" using ve(3) by (rule signed_idE)
  have "hash_text G s = hash_text G t" using s(2) t(2) assms(3) by simp
  then have "s = t" using assms(4) s(1) t(1) by (auto dest: inj_onD)
  with s(1) t(1) show ?thesis using canonical_injective epoch_fracs [OF vd(4)] epoch_fracs [OF ve(4)] by blast
qed

lemma body_fields_eq:
  assumes "jnorm (field d ''body'') = jnorm (field e ''body'')"
  shows "number_of d = number_of e"
    "field (field e ''body'') ''previous'' = JStr s \<Longrightarrow> field (field d ''body'') ''previous'' = JStr s"
proof -
  have eq: "jnorm (field (field d ''body'') k) = jnorm (field (field e ''body'') k)" for k
    using assms by (metis jget_jnorm)
  show "number_of d = number_of e" unfolding number_of_def using eq [of "''number''"] by (metis jnorm_readers(4))
  show "field (field e ''body'') ''previous'' = JStr s \<Longrightarrow> field (field d ''body'') ''previous'' = JStr s"
    using eq [of "''previous''"] by simp
qed

lemma chain_last_number:
  assumes "chain G anchor es" "number_of (hd es) = 0"
  shows "es \<noteq> [] \<and> number_of (last es) = int (length es) - 1"
proof -
  have ne: "es \<noteq> []" using assms(1) by (cases es) auto
  with chain_numbers [OF assms(1), of "length es - 1"] assms(2) show ?thesis
    by (simp add: last_conv_nth of_nat_diff Suc_le_eq)
qed

lemma histories_agree:
  assumes "chain G anchor ds" "chain G anchor es" "length ds = Suc n" "length es = Suc n"
    and "field (ds ! n) ''id'' = field (es ! n) ''id''"
    and "inj_on (hash_text G) {s. \<exists>e \<in> set ds \<union> set es. canon (field e ''body'') = Inr s}" "j \<le> n"
  shows "field (ds ! (n - j)) ''id'' = field (es ! (n - j)) ''id'' \<and>
    jnorm (field (ds ! (n - j)) ''body'') = jnorm (field (es ! (n - j)) ''body'')"
proof -
  have same: "jnorm (field (ds ! k) ''body'') = jnorm (field (es ! k) ''body'')"
    if "k \<le> n" "field (ds ! k) ''id'' = field (es ! k) ''id''" for k
  proof (rule same_id_same_body [OF _ _ that(2)])
    have mem: "ds ! k \<in> set ds" "es ! k \<in> set es" using that(1) assms(3,4) by simp_all
    show "verifyGroupEpoch G (ds ! k) anchor = Inr (ds ! k)" "verifyGroupEpoch G (es ! k) anchor = Inr (es ! k)"
      using mem chain_verified assms(1,2) by blast+
    show "inj_on (hash_text G) {s. canon (field (ds ! k) ''body'') = Inr s \<or> canon (field (es ! k) ''body'') = Inr s}"
      by (rule inj_on_subset [OF assms(6)]) (use mem in blast)
  qed
  show ?thesis
    using assms(7)
  proof (induction j)
    case (Suc j)
    then obtain k where k: "n - j = Suc k" "n - Suc j = k" by (metis Suc_diff_Suc Suc_le_lessD)
    have "Suc k \<le> n" using k by simp
    then have p: "field (field (ds ! Suc k) ''body'') ''previous'' = field (ds ! k) ''id''"
      "field (field (es ! Suc k) ''body'') ''previous'' = field (es ! k) ''id''"
      using chain_previous assms(1-4) by simp_all
    have "jnorm (field (ds ! Suc k) ''body'') = jnorm (field (es ! Suc k) ''body'')" using Suc k by simp
    moreover obtain s where "field (es ! k) ''id'' = JStr s"
      using verifyGroupEpoch_value(3) [OF chain_verified [OF assms(2)], of "es ! k"] \<open>Suc k \<le> n\<close> assms(4)
      by (auto elim: signed_idE)
    ultimately have "field (ds ! k) ''id'' = field (es ! k) ''id''" using body_fields_eq(2) p by metis
    with same k \<open>Suc k \<le> n\<close> show ?case by simp
  qed (use same assms(5) in simp)
qed

text \<open>
  C18: the last epoch of a group determines its whole history: two paths from the first epoch
  that are both accepted and end with the same identifier have the same epochs, as far as the
  hash does not collide on them. So two members who hold one head agree on everything before.
\<close>

theorem history_determined:
  assumes "classifyGroupEpochPath G anchor (JArr ds) = Inr c" "classifyGroupEpochPath G anchor (JArr es) = Inr c'"
    and "number_of (hd ds) = 0" "number_of (hd es) = 0" "field (last ds) ''id'' = field (last es) ''id''"
    and "inj_on (hash_text G) {s. \<exists>e \<in> set ds \<union> set es. canon (field e ''body'') = Inr s}"
  shows "length ds = length es \<and> (\<forall>k < length ds. field (ds ! k) ''id'' = field (es ! k) ''id'' \<and>
    jnorm (field (ds ! k) ''body'') = jnorm (field (es ! k) ''body''))"
proof -
  obtain ds' where "JArr ds = JArr ds'" "chain G anchor ds'" using assms(1) by (rule classify_chain)
  then have d: "chain G anchor ds" by simp
  obtain es' where "JArr es = JArr es'" "chain G anchor es'" using assms(2) by (rule classify_chain)
  then have e: "chain G anchor es" by simp
  note ld = chain_last_number [OF d assms(3)] and le = chain_last_number [OF e assms(4)]
  have mem: "last ds \<in> set ds" "last es \<in> set es" using ld le by simp_all
  have "jnorm (field (last ds) ''body'') = jnorm (field (last es) ''body'')"
    by (rule same_id_same_body [OF chain_verified [OF d mem(1)] chain_verified [OF e mem(2)] assms(5)])
      (rule inj_on_subset [OF assms(6)], use mem in blast)
  then have "number_of (last ds) = number_of (last es)" by (rule body_fields_eq)
  then have len: "length ds = length es" using ld le by simp
  obtain n where n: "length ds = Suc n" using ld by (cases "length ds") auto
  have last: "field (ds ! n) ''id'' = field (es ! n) ''id''" using assms(5) ld le n len by (simp add: last_conv_nth)
  have "field (ds ! k) ''id'' = field (es ! k) ''id'' \<and> jnorm (field (ds ! k) ''body'') = jnorm (field (es ! k) ''body'')"
    if "k < length ds" for k
    using histories_agree [OF d e n _ last assms(6), of "n - k"] that n len by simp
  with len show ?thesis by simp
qed

section \<open>A closed group\<close>

lemma closed_last:
  assumes "number_of e = 1023" "verifyGroupEpoch G e anchor = Inr e"
  shows "\<not> is_open e"
  using verifyGroupEpoch_value(4) [OF assms(2)] assms(1)
  by (elim epoch_okE) (auto simp: is_open_def number_of_def int_of_def)

text \<open>
  closing is final and keeps the record: what closeAnchoredGroup returns is a signed
  epoch with the members and the state of its parent, it was made by the creator of the group,
  and no epoch, however signed, is accepted as its successor.
\<close>

theorem close_is_final:
  assumes "closeAnchoredGroup G me anchor parent = Inr e"
  shows "\<not> is_open e \<and> number_of e = number_of parent + 1 \<and> field (field e ''body'') ''previous'' = field parent ''id'' \<and>
    (\<exists>t. canon (field (field e ''body'') ''members'') = Inr t \<and> canon (field (field parent ''body'') ''members'') = Inr t) \<and>
    field (field e ''body'') ''snapshotHash'' = field (field parent ''body'') ''snapshotHash'' \<and>
    field (sender_public me) ''signKey'' = field (creator_of anchor) ''signKey'' \<and>
    (\<forall>succ c. verifyGroupEpochLink G anchor e succ \<noteq> Inr c)"
proof -
  from assms obtain cert c where steps: "owner me anchor = Inr ()" "signCertificate G (closed_body parent) me GROUP_headerBytes = Inr cert"
    "verifyGroupEpoch G cert anchor = Inr e" "verifyGroupEpochLink G anchor parent e = Inr c"
    by (auto simp: closeAnchoredGroup_def group_checks)
  have e: "e = cert" using verifyGroupEpoch_value(1) [OF steps(3)] .
  have "field e ''body'' = closed_body parent"
    using steps(2) by (auto simp: signCertificate_def group_checks e Let_def jget_def split: if_splits option.splits)
  moreover have "field (closed_body parent) ''state'' = JStr (lit ''closed'')"
    by (simp add: closed_body_def jget_def oget_oset)
  ultimately have closed: "\<not> is_open e" by (simp add: is_open_def)
  note l = verifyGroupEpochLink_value [OF steps(4)]
  have "verifyGroupEpochLink G anchor e succ \<noteq> Inr c" for succ c
    using verifyGroupEpochLink_value(3) [of G anchor e succ c] closed by blast
  moreover have "field (sender_public me) ''signKey'' = field (creator_of anchor) ''signKey''"
    using steps(1) by (simp add: owner_def split: if_splits)
  ultimately show ?thesis using closed l(4,5) l(7) [OF closed] by blast
qed

section \<open>Nobody joins without consent\<close>

lemma verifyGroupConsent_value:
  assumes "verifyGroupConsent G v anchor parent c = Inr w"
  shows "w = v" "is_open parent" "signed_by G c v GROUP_certificateBytes"
    "field (field v ''body'') ''groupId'' = field anchor ''id''" "field (field v ''body'') ''parentEpochId'' = field parent ''id''"
    "\<exists>s. canon c = Inr s \<and> field (field v ''body'') ''cardHash'' = JStr (hash_text G s)"
  using assms by (auto simp: verifyGroupConsent_def checkCertificate_iff group_checks Let_def split: if_splits)

lemma check_consents_value:
  "check_consents G anchor parent consents cs = Inr () \<Longrightarrow> (h, c) \<in> set cs \<Longrightarrow>
     \<exists>v. oget consents (JStr h) = Some v \<and> verifyGroupConsent G v anchor parent c = Inr v"
proof (induction cs)
  case (Cons d cs)
  then show ?case
    by (cases d) (auto simp: group_checks split: option.splits dest: verifyGroupConsent_value(1))
qed simp

lemma changed_cards_value:
  "changed_cards G parent cs = Inr ch \<Longrightarrow> c \<in> set cs \<Longrightarrow>
     \<exists>s. canon c = Inr s \<and> (old_card parent (field c ''id'') = Some (JStr (hash_text G s)) \<or> (hash_text G s, c) \<in> set ch)"
proof (induction cs arbitrary: ch)
  case (Cons d cs)
  from Cons.prems(1) obtain s rest where s: "canon d = Inr s" "changed_cards G parent cs = Inr rest"
    "ch = (if old_card parent (field d ''id'') \<noteq> Some (JStr (hash_text G s)) then (hash_text G s, d) # rest else rest)"
    by (auto simp: group_checks)
  show ?case
  proof (cases "c = d")
    case False
    with Cons.prems(2) Cons.IH [OF s(2)] obtain t where
      "canon c = Inr t" "old_card parent (field c ''id'') = Some (JStr (hash_text G t)) \<or> (hash_text G t, c) \<in> set rest" by auto
    with s(3) show ?thesis by auto
  qed (use s in auto)
qed simp

lemma fold_oset_value:
  "oget (fold (\<lambda>x. oset (key x) (f x)) xs m) k = Some y \<Longrightarrow> oget m k = Some y \<or> (\<exists>x \<in> set xs. key x = k \<and> f x = y)"
proof (induction xs arbitrary: m)
  case (Cons x xs)
  from Cons.IH [of "oset (key x) (f x) m"] Cons.prems show ?case
    by (auto simp: oget_oset split: if_splits)
qed simp

lemma old_card_value:
  "old_card parent i = Some h \<Longrightarrow> \<exists>m \<in> set (members_of parent). field m ''id'' = i \<and> field m ''cardHash'' = h"
  unfolding old_card_def by (drule fold_oset_value) auto

text \<open>
  C16: nobody is made a member, and no member's card is replaced, without their consent. In an
  accepted transition to an open epoch every card of the new state is either one that the
  parent epoch already lists for its owner, or the state holds a consent for it that is signed
  with the key of this very card and names this group, this parent epoch and this card.
\<close>

theorem membership_needs_consent:
  assumes "verifyGroupSnapshotTransition G anchor parent succ new = Inr kind" "is_open succ"
    and "c \<in> set (items_of (field new ''members''))" "canon c = Inr s"
  shows "(\<exists>m \<in> set (members_of parent). field m ''id'' = field c ''id'' \<and> field m ''cardHash'' = JStr (hash_text G s)) \<or>
    (\<exists>v \<in> set (items_of (field new ''joins'')). signed_by G c v 2048 \<and>
       field (field v ''body'') ''groupId'' = field anchor ''id'' \<and>
       field (field v ''body'') ''parentEpochId'' = field parent ''id'' \<and>
       field (field v ''body'') ''cardHash'' = JStr (hash_text G s))"
proof -
  obtain after ch where steps: "verifyGroupSnapshot G new anchor succ = Inr after"
    "changed_cards G parent (items_of (field after ''members'')) = Inr ch"
    "check_consents G anchor parent (fold (\<lambda>v. oset (field (field v ''body'') ''cardHash'') v) (items_of (field after ''joins'')) []) ch = Inr ()"
    using assms(1,2) by (auto simp: verifyGroupSnapshotTransition_def group_checks Let_def is_open_def split: if_splits)
  have after: "after = new" using steps(1) by (auto simp: verifyGroupSnapshot_def group_checks split: if_splits)
  from changed_cards_value [OF steps(2) [unfolded after] assms(3)] assms(4)
  consider "old_card parent (field c ''id'') = Some (JStr (hash_text G s))" | "(hash_text G s, c) \<in> set ch" by auto
  then show ?thesis
  proof cases
    case 1
    then show ?thesis using old_card_value by blast
  next
    case 2
    from check_consents_value [OF steps(3) this] obtain v where
      v: "oget (fold (\<lambda>v. oset (field (field v ''body'') ''cardHash'') v) (items_of (field after ''joins'')) []) (JStr (hash_text G s)) = Some v"
        "verifyGroupConsent G v anchor parent c = Inr v" by blast
    from fold_oset_value [OF v(1)] have "v \<in> set (items_of (field new ''joins''))"
      "field (field v ''body'') ''cardHash'' = JStr (hash_text G s)" by (auto simp: after)
    with verifyGroupConsent_value [OF v(2)] show ?thesis by (auto simp: GROUP_certificateBytes_def)
  qed
qed

text \<open>
  a consent answers an invitation: what acceptGroupInvitation returns is signed by the
  invited card and names the group, the parent epoch and the invitation, and that invitation
  was signed by the creator of the group for this identity, this card and this parent epoch.
\<close>

theorem consent_answers_invitation:
  assumes "acceptGroupInvitation G me anchor parent invitation nonce = Inr v"
  shows "signed_by G (sender_public me) v 2048 \<and> field (field v ''body'') ''invitationHash'' = field invitation ''id'' \<and>
    field (field v ''body'') ''parentEpochId'' = field parent ''id'' \<and> field (field v ''body'') ''groupId'' = field anchor ''id'' \<and>
    signed_by G (creator_of anchor) invitation 2048 \<and> is_open parent \<and>
    field (field invitation ''body'') ''parentEpochId'' = field parent ''id'' \<and>
    field (field invitation ''body'') ''inviteeId'' = field (sender_public me) ''id'' \<and>
    (\<exists>s. canon (sender_public me) = Inr s \<and> field (field invitation ''body'') ''inviteeCardHash'' = JStr (hash_text G s) \<and>
       field (field v ''body'') ''cardHash'' = JStr (hash_text G s))"
proof -
  from assms obtain invite h c where steps:
    "verifyGroupInvitation G invitation anchor parent (sender_public me) = Inr invite"
    "memberCardHash G (sender_public me) = Inr h"
    "signCertificate G (consent_body anchor parent invite h nonce) me GROUP_certificateBytes = Inr c"
    "verifyGroupConsent G c anchor parent (sender_public me) = Inr v"
    by (auto simp: acceptGroupInvitation_def group_checks)
  have inv: "invite = invitation" "signed_by G (creator_of anchor) invitation GROUP_certificateBytes"
    "field (field invitation ''body'') ''parentEpochId'' = field parent ''id''"
    "field (field invitation ''body'') ''inviteeId'' = field (sender_public me) ''id''"
    "field (field invitation ''body'') ''inviteeCardHash'' = JStr h"
    using steps(1,2) by (auto simp: verifyGroupInvitation_def checkCertificate_iff group_checks Let_def split: if_splits)
  note con = verifyGroupConsent_value [OF steps(4)]
  have body: "field c ''body'' = consent_body anchor parent invite h nonce"
    using steps(3) by (auto simp: signCertificate_def group_checks Let_def jget_def split: if_splits option.splits)
  have "field (field v ''body'') ''invitationHash'' = field invitation ''id''" "field (field v ''body'') ''cardHash'' = JStr h"
    unfolding con(1) body inv(1) by (simp_all add: consent_body_def jget_def)
  then show ?thesis using inv con steps(2) by (auto simp: GROUP_certificateBytes_def memberCardHash_iff)
qed

end
