(* ===== verification/Access.thy ===== *)
theory Access
  imports Certificate_Chain
begin

text \<open>
  Which content of a group is admitted (\<open>packages/groups/src/access.ts\<close>): the binding of content
  to an epoch, the chain of a group as the registry gives it, \<open>retry\<close> for what a node wants to
  send again and \<open>decide\<close> for what it received. The registry is used through four reads
  (\<open>list\<close>, \<open>state\<close>, \<open>proofs\<close>, \<open>privateState\<close>); their results are the record \<open>group_chain\<close>,
  and an exception is \<open>Inl\<close>.
\<close>

section \<open>The binding of content to an epoch\<close>

datatype audience = ForEpoch | ForTarget | ForHistory

record binding =
  b_conversation :: ustr
  b_audience :: audience
  b_groupEpoch :: "ustr option"
  b_targetEpoch :: "ustr option"

datatype binding_error = BadBinding | BadHistory | BadPublishing | BadTarget | BadAudience

definition is_address :: "jval \<Rightarrow> bool" where
  "is_address v \<longleftrightarrow> is_str v \<and> hex64 (str_of v)"

definition has_field :: "jval \<Rightarrow> string \<Rightarrow> bool" where
  "has_field v k = ohas (fields_of v) (lit k)"

definition hasGroupBinding :: "jval \<Rightarrow> bool" where
  "hasGroupBinding v = list_ex (has_field v) [''groupEpoch'', ''targetEpoch'', ''groupAudience'']"

definition is_one_of :: "jval \<Rightarrow> string list \<Rightarrow> bool" where
  "is_one_of v ks = list_ex (\<lambda>k. v = JStr (lit k)) ks"

definition parse_audience :: "jval \<Rightarrow> audience option" where
  "parse_audience v =
     (if v = JStr (lit ''epoch'') then Some ForEpoch
      else if v = JStr (lit ''target'') then Some ForTarget
      else if v = JStr (lit ''historical'') then Some ForHistory else None)"

definition opt_str :: "jval \<Rightarrow> ustr option" where
  "opt_str v = (if v = JUndefined then None else Some (str_of v))"

definition check_binding :: "audience \<Rightarrow> jval \<Rightarrow> binding_error + unit" where
  "check_binding a v =
     (case a of
        ForHistory \<Rightarrow>
          if has_field v ''groupEpoch'' \<or> \<not> is_address (field v ''targetEpoch'') \<or> \<not> is_address (field v ''target'') \<or>
             \<not> is_one_of (field v ''type'') [''receipt'', ''delivery'', ''delete''] \<or>
             join (lit '','') (sort_key id (okeys (fields_of v))) \<noteq> lit ''conversation,groupAudience,target,targetEpoch,type''
          then Inl BadHistory else Inr ()
      | _ \<Rightarrow>
          if \<not> is_address (field v ''groupEpoch'') \<or>
             \<not> is_one_of (field v ''type'') [''message'', ''edit'', ''reaction'', ''comment''] then Inl BadPublishing
          else if a = ForTarget then
            (if \<not> is_address (if field v ''type'' = JStr (lit ''message'') then field v ''replyTo'' else field v ''target'') \<or>
                \<not> is_address (field v ''targetEpoch'') then Inl BadTarget else Inr ())
          else if field v ''type'' \<noteq> JStr (lit ''message'') \<or> has_field v ''targetEpoch'' \<or> has_field v ''target'' \<or>
             has_field v ''replyTo'' then Inl BadAudience
          else Inr ())"

definition parseGroupBinding :: "jval \<Rightarrow> binding_error + binding" where
  "parseGroupBinding v =
     (if \<not> is_address (field v ''conversation'') \<or> \<not> is_str (field v ''type'') then Inl BadBinding
      else case parse_audience (field v ''groupAudience'') of None \<Rightarrow> Inl BadBinding
      | Some a \<Rightarrow> bindR (check_binding a v) (\<lambda>_.
          Inr \<lparr>b_conversation = str_of (field v ''conversation''), b_audience = a,
            b_groupEpoch = opt_str (field v ''groupEpoch''), b_targetEpoch = opt_str (field v ''targetEpoch'')\<rparr>))"

section \<open>The chain of a group\<close>

datatype group_status =
    SAwaitingProof | SJoining | SRemoved | SLeft | SCardChanged | SAwaitingSnapshot | SActive | SClosed | SForked | SCapacity

record group_chain =
  c_status :: group_status
  c_head :: "jval option"
  c_epochs :: "jval list"
  c_snapshot :: "ustr \<Rightarrow> jval option"

datatype access_error = BrokenChain | Checks group_error

text \<open>The pages of the chain, up to the head. Each page must start where the one before ended.\<close>

partial_function (option) load_epochs :: "(int \<Rightarrow> jval list) \<Rightarrow> int \<Rightarrow> int \<Rightarrow> (access_error + jval list) option" where
  "load_epochs proofs hi from =
     (if from > hi then Some (Inr [])
      else case proofs from of
        [] \<Rightarrow> Some (Inl BrokenChain)
      | e # es \<Rightarrow>
          if number_of e \<noteq> from then Some (Inl BrokenChain)
          else Option.bind (load_epochs proofs hi (number_of (last (e # es)) + 1)) (\<lambda>r. Some (bindR r (\<lambda>more. Inr (e # es @ more)))))"

definition find_epoch :: "jval list \<Rightarrow> ustr \<Rightarrow> jval option" where
  "find_epoch es i = find (\<lambda>e. field e ''id'' = JStr i) es"

text \<open>From an epoch to the head, each epoch keeps every member of the one before.\<close>

fun compatible_from :: "jval \<Rightarrow> jval list \<Rightarrow> jval option" where
  "compatible_from prev [] = Some prev"
| "compatible_from prev (e # es) =
     (if field (field e ''body'') ''previous'' \<noteq> field prev ''id'' \<or> number_of e \<noteq> number_of prev + 1 \<or> \<not> is_open e \<or>
         \<not> keeps_members prev e then None
      else compatible_from e es)"

definition compatible :: "group_chain \<Rightarrow> jval \<Rightarrow> bool" where
  "compatible ch original =
     (case compatible_from original (filter (\<lambda>e. number_of e > number_of original) (c_epochs ch)) of
        None \<Rightarrow> False
      | Some p \<Rightarrow> (case c_head ch of None \<Rightarrow> False | Some h \<Rightarrow> field p ''id'' = field h ''id''))"

section \<open>Sending again\<close>

record retry_answer =
  allowed :: bool
  terminal :: bool
  reason :: string

definition terminal_reason :: "group_status \<Rightarrow> string option" where
  "terminal_reason s =
     (case s of SLeft \<Rightarrow> Some ''group-left'' | SClosed \<Rightarrow> Some ''group-closed'' | SForked \<Rightarrow> Some ''group-forked''
      | SRemoved \<Rightarrow> Some ''group-epoch-changed'' | SCardChanged \<Rightarrow> Some ''group-card-changed'' | _ \<Rightarrow> None)"

definition retry :: "jval \<Rightarrow> group_chain option \<Rightarrow> ustr \<Rightarrow> retry_answer" where
  "retry local found epochId =
     (case found of
        None \<Rightarrow> \<lparr>allowed = False, terminal = False, reason = ''group-not-enrolled''\<rparr>
      | Some ch \<Rightarrow>
        (case terminal_reason (c_status ch) of
           Some r \<Rightarrow> \<lparr>allowed = False, terminal = True, reason = r\<rparr>
         | None \<Rightarrow>
           (case find_epoch (c_epochs ch) epochId of
              None \<Rightarrow> \<lparr>allowed = False, terminal = False, reason = ''group-authority-unavailable''\<rparr>
            | Some original \<Rightarrow>
                if \<not> list_ex (\<lambda>m. field m ''id'' = field local ''id'') (members_of original) then
                  \<lparr>allowed = False, terminal = True, reason = ''group-invalid-original-author''\<rparr>
                else if \<not> compatible ch original then \<lparr>allowed = False, terminal = True, reason = ''group-epoch-changed''\<rparr>
                else if c_status ch \<noteq> SActive then \<lparr>allowed = False, terminal = False, reason = ''group-authority-unavailable''\<rparr>
                else \<lparr>allowed = True, terminal = False, reason = ''''\<rparr>)))"

section \<open>Admission\<close>

record candidate =
  k_id :: ustr
  k_kind :: ustr
  k_author :: jval
  k_readers :: "ustr list"
  k_public :: bool
  k_content :: jval

record accepted_context =
  x_id :: ustr
  x_group :: ustr
  x_epoch :: ustr
  x_author :: ustr
  x_kind :: ustr
  x_readers :: "ustr list"

datatype decision =
    Accepted accepted_context bool
  | Awaiting string
  | Quarantined string
  | Invalid string

definition status_text :: "group_status \<Rightarrow> string" where
  "status_text s =
     (case s of SAwaitingProof \<Rightarrow> ''awaiting-proof'' | SJoining \<Rightarrow> ''joining'' | SRemoved \<Rightarrow> ''removed'' | SLeft \<Rightarrow> ''left''
      | SCardChanged \<Rightarrow> ''card-changed'' | SAwaitingSnapshot \<Rightarrow> ''awaiting-snapshot'' | SActive \<Rightarrow> ''active''
      | SClosed \<Rightarrow> ''closed'' | SForked \<Rightarrow> ''forked'' | SCapacity \<Rightarrow> ''capacity'')"

definition card_id :: "jval \<Rightarrow> ustr" where
  "card_id c = str_of (field c ''id'')"

definition cards_of :: "jval \<Rightarrow> jval list" where
  "cards_of snapshot = items_of (field snapshot ''members'')"

text \<open>The private envelope: who signed it and who can read it.\<close>

definition envelope_ok :: "group_crypto \<Rightarrow> jval \<Rightarrow> candidate \<Rightarrow> bool" where
  "envelope_ok G local k \<longleftrightarrow> hex64 (k_id k) \<and> JStr (k_kind k) = field (k_content k) ''type'' \<and> \<not> k_public k \<and>
     valid_card G (k_author k) \<and> card_id local \<in> set (k_readers k) \<and> card_id (k_author k) \<in> set (k_readers k) \<and>
     length (k_readers k) \<le> 64 \<and> list_all hex64 (k_readers k) \<and> distinct (k_readers k)"

text \<open>
  The cards content is addressed to: those of the epoch, or, for content about a target, those
  of its original readers.
\<close>

definition audience_cards ::
    "group_chain \<Rightarrow> binding \<Rightarrow> candidate \<Rightarrow> accepted_context option \<Rightarrow> jval list \<Rightarrow> string + jval list" where
  "audience_cards ch b k target cards =
     (if b_audience b = ForEpoch then Inr cards
      else
        let c = k_content k;
            targetId = (if field c ''type'' = JStr (lit ''message'') then field c ''replyTo'' else field c ''target'') in
        case target of None \<Rightarrow> Inl ''unaccepted-group-target''
        | Some t \<Rightarrow>
          if JStr (x_id t) \<noteq> targetId \<or> x_group t \<noteq> b_conversation b \<or> Some (x_epoch t) \<noteq> b_targetEpoch b \<or>
             \<not> list_ex (\<lambda>s. x_kind t = lit s) [''message'', ''post'', ''alert''] then Inl ''unaccepted-group-target''
          else (case Option.bind (find_epoch (c_epochs ch) (x_epoch t)) (\<lambda>_. c_snapshot ch (x_epoch t)) of
              None \<Rightarrow> Inl ''invalid-original-readers''
            | Some original \<Rightarrow>
                if \<not> list_all (\<lambda>i. list_ex (\<lambda>c. field c ''id'' = JStr i) (cards_of original)) (x_readers t)
                then Inl ''invalid-original-readers''
                else if b_audience b = ForHistory then
                  (if (if k_kind k = lit ''delete'' then card_id (k_author k) \<noteq> x_author t
                       else card_id (k_author k) = x_author t \<or> x_kind t \<noteq> lit ''message'')
                   then Inl ''invalid-historical-author''
                   else Inr (filter (\<lambda>c. card_id c \<in> set (x_readers t)) (cards_of original)))
                else if k_kind k = lit ''edit'' \<and> card_id (k_author k) \<noteq> x_author t then Inl ''edit-does-not-own-target''
                else Inr (filter (\<lambda>c. card_id c \<in> set (x_readers t)) cards)))"

text \<open>The author's card must be the approved one, and the readers exactly the audience.\<close>

definition author_approved :: "group_crypto \<Rightarrow> candidate \<Rightarrow> jval list \<Rightarrow> group_error + bool" where
  "author_approved G k cards =
     (case find (\<lambda>c. card_id c = card_id (k_author k)) cards of None \<Rightarrow> Inr False
      | Some c \<Rightarrow> bindR (memberCardHash G c) (\<lambda>h. bindR (memberCardHash G (k_author k)) (\<lambda>h'.
          Inr (h = h' \<and> sort_key id (map card_id cards) = sort_key id (k_readers k)))))"

definition pinned_cards :: "candidate \<Rightarrow> jval list \<Rightarrow> group_error + bool" where
  "pinned_cards k cards =
     (if k_kind k \<noteq> lit ''message'' then Inr True
      else bindR (text_of (field (k_content k) ''members'')) (\<lambda>a. bindR (text_of (JArr cards)) (\<lambda>b. Inr (a = b))))"

definition settle :: "group_chain \<Rightarrow> binding \<Rightarrow> jval \<Rightarrow> accepted_context \<Rightarrow> accepted_context option \<Rightarrow> decision" where
  "settle ch b epoch ctx accepted =
     (case accepted of
        Some a \<Rightarrow> if a \<noteq> ctx then Invalid ''accepted-context-mismatch'' else Accepted ctx True
      | None \<Rightarrow>
          if b_audience b = ForHistory then Accepted ctx True
          else if c_status ch \<noteq> SActive then Quarantined (''group-'' @ status_text (c_status ch))
          else if \<not> compatible ch epoch then Quarantined ''restrictive-successor''
          else Accepted ctx (case c_head ch of None \<Rightarrow> True | Some h \<Rightarrow> field epoch ''id'' \<noteq> field h ''id''))"

definition decide ::
    "group_crypto \<Rightarrow> jval \<Rightarrow> (ustr \<Rightarrow> group_chain option) \<Rightarrow> candidate \<Rightarrow> accepted_context option \<Rightarrow> accepted_context option \<Rightarrow>
     group_error + decision" where
  "decide G local groups k accepted target =
     (case parseGroupBinding (k_content k) of Inl _ \<Rightarrow> Inr (Invalid ''invalid-group-binding'')
      | Inr b \<Rightarrow>
        if \<not> envelope_ok G local k then Inr (Invalid ''invalid-private-group-envelope'')
        else case groups (b_conversation b) of None \<Rightarrow> Inr (Awaiting ''group-not-enrolled'')
        | Some ch \<Rightarrow>
          let epochId = (case b_groupEpoch b of Some e \<Rightarrow> e | None \<Rightarrow> the (b_targetEpoch b)) in
          case find_epoch (c_epochs ch) epochId of None \<Rightarrow> Inr (Awaiting ''unknown-epoch'')
          | Some epoch \<Rightarrow>
            if \<not> is_open epoch then Inr (Invalid ''closed-publishing-epoch'')
            else case c_snapshot ch epochId of None \<Rightarrow> Inr (Awaiting ''missing-private-snapshot'')
            | Some snapshot \<Rightarrow>
              (case audience_cards ch b k target (cards_of snapshot) of Inl r \<Rightarrow> Inr (Invalid r)
               | Inr cards \<Rightarrow>
                 bindR (author_approved G k cards) (\<lambda>ok.
                   if \<not> ok then Inr (Invalid ''wrong-epoch-audience'')
                   else bindR (pinned_cards k cards) (\<lambda>pinned.
                     if \<not> pinned then Inr (Invalid ''wrong-pinned-member-cards'')
                     else Inr (settle ch b epoch
                       \<lparr>x_id = k_id k, x_group = b_conversation b, x_epoch = epochId, x_author = card_id (k_author k),
                        x_kind = k_kind k, x_readers = sort_key id (k_readers k)\<rparr> accepted)))))"

end
