(* ===== verification/Access_Facts.thy ===== *)
theory Access_Facts
  imports Access
begin

text \<open>
  What the admission of group content guarantees: who wrote and who reads what is accepted,
  that acceptance is never taken back, that a refusal to send again is final when it is said to
  be, and that the walk over the chain agrees with the classification of its path.
\<close>

section \<open>Loading a chain\<close>

definition pages_ok :: "(int \<Rightarrow> jval list) \<Rightarrow> int \<Rightarrow> bool" where
  "pages_ok proofs hi \<longleftrightarrow> (\<forall>lo. 0 \<le> lo \<and> lo \<le> hi \<longrightarrow> proofs lo \<noteq> [] \<and> lo + int (length (proofs lo)) \<le> hi + 1 \<and>
     (\<forall>k < length (proofs lo). number_of (proofs lo ! k) = lo + int k))"

lemma load_from:
  assumes "pages_ok proofs hi" "0 \<le> lo" "lo \<le> hi + 1"
  shows "\<exists>es. load_epochs proofs hi lo = Some (Inr es) \<and> int (length es) = hi + 1 - lo \<and>
    (\<forall>k < length es. number_of (es ! k) = lo + int k)"
  using assms(2,3)
proof (induction "nat (hi + 1 - lo)" arbitrary: lo rule: less_induct)
  case less
  show ?case
  proof (cases "lo > hi")
    case True
    with less.prems show ?thesis by (subst load_epochs.simps) auto
  next
    case False
    then have page: "proofs lo \<noteq> []" "lo + int (length (proofs lo)) \<le> hi + 1"
      "\<And>k. k < length (proofs lo) \<Longrightarrow> number_of (proofs lo ! k) = lo + int k"
      using assms(1) less.prems unfolding pages_ok_def by auto
    then obtain e es where es: "proofs lo = e # es" by (cases "proofs lo") auto
    have e: "number_of e = lo" using page(3) [of 0] by (simp add: es)
    have last: "number_of (last (e # es)) + 1 = lo + int (length (proofs lo))"
      using page(3) [of "length es"] by (cases es rule: rev_cases) (simp_all add: es)
    let ?next = "lo + int (length (proofs lo))"
    have "nat (hi + 1 - ?next) < nat (hi + 1 - lo)" using False page(2) by (simp add: es)
    with less.hyps [of ?next] less.prems(1) page(2) obtain more where more:
      "load_epochs proofs hi ?next = Some (Inr more)" "int (length more) = hi + 1 - ?next"
      "\<forall>k < length more. number_of (more ! k) = ?next + int k" by auto
    have "load_epochs proofs hi lo = Some (Inr (e # es @ more))"
      using False e more(1) unfolding last [symmetric] by (subst load_epochs.simps) (simp add: es del: last.simps)
    moreover have "number_of ((e # es @ more) ! k) = lo + int k" if "k < length (e # es @ more)" for k
    proof (cases "k < length (e # es)")
      case True
      then show ?thesis using page(3) [of k] by (simp add: es nth_append flip: append_Cons)
    next
      case False
      then have "number_of (more ! (k - length (e # es))) = ?next + int (k - length (e # es))" using more(3) that by auto
      with False show ?thesis by (simp add: es nth_append of_nat_diff flip: append_Cons)
    qed
    ultimately show ?thesis using more(2) by (intro exI [of _ "e # es @ more"]) (simp add: es)
  qed
qed

text \<open>
  C37: loading the chain of a group ends, and gives every epoch from the first to the head once
  and in order, whatever the sizes of the pages the registry returns, as long as each page
  starts where it is asked to and is not empty.
\<close>

theorem load_complete:
  assumes "pages_ok proofs hi" "- 1 \<le> hi"
  shows "\<exists>es. load_epochs proofs hi 0 = Some (Inr es) \<and> map number_of es = map int [0..<nat (hi + 1)]"
proof -
  obtain es where es: "load_epochs proofs hi 0 = Some (Inr es)" "int (length es) = hi + 1"
    "\<forall>k < length es. number_of (es ! k) = int k"
    using load_from [OF assms(1), of 0] assms(2) by auto
  then have "map number_of es = map int [0..<nat (hi + 1)]" by (intro nth_equalityI) auto
  with es(1) show ?thesis by blast
qed

section \<open>The walk to the head\<close>

lemma compatible_from_append:
  "compatible_from p (es @ fs) = (case compatible_from p es of None \<Rightarrow> None | Some q \<Rightarrow> compatible_from q fs)"
  by (induction es arbitrary: p) auto

lemma compatible_from_chain:
  "chain G anchor (p # es) \<Longrightarrow> compatible_from p es = (if grows (p # es) then Some (last (p # es)) else None)"
  by (induction es arbitrary: p) auto

lemma chain_drop: "chain G anchor es \<Longrightarrow> k < length es \<Longrightarrow> chain G anchor (drop k es)"
proof (induction k arbitrary: es)
  case (Suc k)
  then obtain p q fs where "es = p # q # fs" by (cases es; cases "tl es") auto
  with Suc show ?case by simp
qed simp

lemma filter_later:
  assumes "chain G anchor es" "k < length es"
  shows "filter (\<lambda>e. number_of e > number_of (es ! k)) es = drop (Suc k) es"
proof -
  have n: "number_of (es ! j) = number_of (hd es) + int j" if "j < length es" for j
    using chain_numbers [OF assms(1) that] .
  have "filter (\<lambda>e. number_of e > number_of (es ! k)) (take (Suc k) es) = []"
    using n assms(2) by (auto simp: filter_empty_conv in_set_conv_nth)
  moreover have "filter (\<lambda>e. number_of e > number_of (es ! k)) (drop (Suc k) es) = drop (Suc k) es"
    using n assms(2) by (auto simp: filter_id_conv in_set_conv_nth)
  ultimately show ?thesis by (metis append_take_drop_id filter_append self_append_conv2)
qed

lemma compatible_grows:
  assumes "chain G anchor es" "k < length es" "c_epochs ch = es" "c_head ch = Some (last es)"
  shows "compatible ch (es ! k) \<longleftrightarrow> grows (drop k es)"
proof -
  have d: "drop k es = es ! k # drop (Suc k) es" using assms(2) by (simp add: Cons_nth_drop_Suc)
  have "chain G anchor (es ! k # drop (Suc k) es)" using chain_drop [OF assms(1,2)] d by simp
  from compatible_from_chain [OF this] show ?thesis
    using assms(2) unfolding compatible_def assms(3,4) filter_later [OF assms(1,2)] d [symmetric] by simp
qed

text \<open>
  the walk that decides whether content of an old epoch may still be shown or sent agrees
  with the classification of certificates: it succeeds exactly when the path from that epoch to
  the head is nonrestrictive, that is, nobody who could read it has been removed since.
\<close>

theorem compatible_iff_nonrestrictive:
  assumes "classifyGroupEpochPath G anchor (JArr es) = Inr c" "k < length es" "c_epochs ch = es" "c_head ch = Some (last es)"
    and "classifyGroupEpochPath G anchor (JArr (drop k es)) = Inr d"
  shows "compatible ch (es ! k) \<longleftrightarrow> d = Nonrestrictive"
proof -
  obtain es' where "JArr es = JArr es'" "chain G anchor es'" using assms(1) by (rule classify_chain)
  then have ch: "chain G anchor es" by simp
  obtain ds where "JArr (drop k es) = JArr ds" "d = Nonrestrictive \<longleftrightarrow> grows ds" using assms(5) by (rule classify_chain)
  then have "d = Nonrestrictive \<longleftrightarrow> grows (drop k es)" by simp
  with compatible_grows [OF ch assms(2,3,4)] show ?thesis by simp
qed

section \<open>What is accepted\<close>

lemma decide_acceptedE:
  assumes "decide G local groups k accepted target = Inr (Accepted ctx h)"
  obtains b ch i epoch snapshot cards where
    "parseGroupBinding (k_content k) = Inr b" "envelope_ok G local k" "groups (b_conversation b) = Some ch"
    "i = (case b_groupEpoch b of Some e \<Rightarrow> e | None \<Rightarrow> the (b_targetEpoch b))"
    "find_epoch (c_epochs ch) i = Some epoch" "is_open epoch" "c_snapshot ch i = Some snapshot"
    "audience_cards ch b k target (cards_of snapshot) = Inr cards" "author_approved G k cards = Inr True"
    "pinned_cards k cards = Inr True"
    "settle ch b epoch \<lparr>x_id = k_id k, x_group = b_conversation b, x_epoch = i, x_author = card_id (k_author k),
        x_kind = k_kind k, x_readers = sort_key id (k_readers k)\<rparr> accepted = Accepted ctx h"
proof -
  obtain b where b: "parseGroupBinding (k_content k) = Inr b" using assms by (cases "parseGroupBinding (k_content k)") (simp_all add: decide_def)
  have env: "envelope_ok G local k" using assms b by (simp add: decide_def split: if_splits)
  obtain ch where ch: "groups (b_conversation b) = Some ch"
    using assms b env by (cases "groups (b_conversation b)") (simp_all add: decide_def)
  define i where "i = (case b_groupEpoch b of Some e \<Rightarrow> e | None \<Rightarrow> the (b_targetEpoch b))"
  note run = assms [unfolded decide_def b ch Let_def i_def [symmetric] sum.case option.case]
  obtain epoch where ep: "find_epoch (c_epochs ch) i = Some epoch"
    using run env by (cases "find_epoch (c_epochs ch) i") simp_all
  have op: "is_open epoch" using run env ep by (simp split: if_splits)
  obtain snapshot where snap: "c_snapshot ch i = Some snapshot" using run env ep op by (cases "c_snapshot ch i") simp_all
  obtain cards where cards: "audience_cards ch b k target (cards_of snapshot) = Inr cards"
    using run env ep op snap by (cases "audience_cards ch b k target (cards_of snapshot)") simp_all
  show ?thesis
    by (rule that [OF b env ch i_def ep op snap cards])
      (use run env ep op snap cards in \<open>auto simp: bindR_Inr_iff split: if_splits\<close>)
qed

lemma author_approvedE:
  assumes "author_approved G k cards = Inr True"
  obtains c h where "c \<in> set cards" "card_id c = card_id (k_author k)" "memberCardHash G c = Inr h"
    "memberCardHash G (k_author k) = Inr h" "sort_key id (map card_id cards) = sort_key id (k_readers k)"
proof -
  obtain c where c: "find (\<lambda>c. card_id c = card_id (k_author k)) cards = Some c"
    using assms by (cases "find (\<lambda>c. card_id c = card_id (k_author k)) cards") (simp_all add: author_approved_def)
  then have "c \<in> set cards" "card_id c = card_id (k_author k)" by (auto simp: find_Some_iff)
  with assms c that show ?thesis by (auto simp: author_approved_def bindR_Inr_iff)
qed


section \<open>Acceptance is kept\<close>

definition grows_to :: "group_chain \<Rightarrow> group_chain \<Rightarrow> bool" where
  "grows_to ch ch' \<longleftrightarrow> (\<forall>i e. find_epoch (c_epochs ch) i = Some e \<longrightarrow> find_epoch (c_epochs ch') i = Some e) \<and>
     (\<forall>i s. c_snapshot ch i = Some s \<longrightarrow> c_snapshot ch' i = Some s)"

lemma audience_cards_grows:
  assumes "audience_cards ch b k target cards = Inr cs" "grows_to ch ch'"
  shows "audience_cards ch' b k target cards = Inr cs"
proof (cases "b_audience b = ForEpoch")
  case False
  obtain t where t: "target = Some t" using assms(1) False by (cases target) (auto simp: audience_cards_def Let_def)
  obtain e where e: "find_epoch (c_epochs ch) (x_epoch t) = Some e"
    using assms(1) False t by (cases "find_epoch (c_epochs ch) (x_epoch t)") (auto simp: audience_cards_def Let_def split: if_splits)
  obtain s where s: "c_snapshot ch (x_epoch t) = Some s"
    using assms(1) False t e by (cases "c_snapshot ch (x_epoch t)") (auto simp: audience_cards_def Let_def split: if_splits)
  have e': "find_epoch (c_epochs ch') (x_epoch t) = Some e" "c_snapshot ch' (x_epoch t) = Some s"
    using e s assms(2) by (simp_all add: grows_to_def)
  have "audience_cards ch' b k target cards = audience_cards ch b k target cards"
    unfolding audience_cards_def t Let_def option.case e s e' bind.bind_lunit by (rule refl)
  with assms(1) show ?thesis by simp
qed (use assms(1) in \<open>simp add: audience_cards_def\<close>)

text \<open>
  C19: an acceptance is never taken back. Once content was accepted, deciding it again with the
  recorded context accepts it with the same context, however far the chain of the group has
  grown since, and even if the group was closed, has forked, or this node has left or was
  removed.
\<close>

theorem acceptance_is_kept:
  assumes "decide G local groups k None target = Inr (Accepted ctx h)"
    and "\<And>g ch. groups g = Some ch \<Longrightarrow> \<exists>ch'. groups' g = Some ch' \<and> grows_to ch ch'"
  shows "decide G local groups' k (Some ctx) target = Inr (Accepted ctx True)"
proof -
  from assms(1) obtain b ch i epoch snapshot cards where d:
    "parseGroupBinding (k_content k) = Inr b" "envelope_ok G local k" "groups (b_conversation b) = Some ch"
    "i = (case b_groupEpoch b of Some e \<Rightarrow> e | None \<Rightarrow> the (b_targetEpoch b))"
    "find_epoch (c_epochs ch) i = Some epoch" "is_open epoch" "c_snapshot ch i = Some snapshot"
    "audience_cards ch b k target (cards_of snapshot) = Inr cards" "author_approved G k cards = Inr True"
    "pinned_cards k cards = Inr True"
    "settle ch b epoch \<lparr>x_id = k_id k, x_group = b_conversation b, x_epoch = i, x_author = card_id (k_author k),
        x_kind = k_kind k, x_readers = sort_key id (k_readers k)\<rparr> None = Accepted ctx h" by (rule decide_acceptedE)
  obtain ch' where ch': "groups' (b_conversation b) = Some ch'" "grows_to ch ch'" using assms(2) d(3) by blast
  have kept: "find_epoch (c_epochs ch') i = Some epoch" "c_snapshot ch' i = Some snapshot"
    using ch'(2) d(5,7) by (simp_all add: grows_to_def)
  have ctx: "ctx = \<lparr>x_id = k_id k, x_group = b_conversation b, x_epoch = i, x_author = card_id (k_author k),
        x_kind = k_kind k, x_readers = sort_key id (k_readers k)\<rparr>"
    using d(11) by (auto simp: settle_def split: if_splits)
  show ?thesis
    unfolding decide_def d(1) ch'(1) Let_def d(4) [symmetric] sum.case option.case kept
    using d(2,6,9,10) audience_cards_grows [OF d(8) ch'(2)] by (simp add: settle_def ctx)
qed

section \<open>Refusals to send again\<close>

lemma grows_prefix: "grows (es @ fs) \<Longrightarrow> grows es"
proof (induction es rule: induct_list012)
  case (3 p q es)
  then show ?case by simp
qed simp_all

text \<open>
  a refusal because the group changed is final: when the chain shows that someone who could
  read an epoch was removed, or that the group was closed, what was written for that epoch is
  never sent again, whatever epochs follow.
\<close>

theorem retry_refusal_is_final:
  assumes "classifyGroupEpochPath G anchor (JArr es) = Inr c" "classifyGroupEpochPath G anchor (JArr (es @ later)) = Inr d"
    and "c_epochs ch = es" "c_head ch = Some (last es)" "c_epochs ch' = es @ later" "c_head ch' = Some (last (es @ later))"
    and "find_epoch es i = Some e" "\<not> compatible ch e"
  shows "\<not> allowed (retry local (Some ch') i)"
proof -
  obtain es' where "JArr es = JArr es'" "chain G anchor es'" using assms(1) by (rule classify_chain)
  then have c1: "chain G anchor es" by simp
  obtain ds where "JArr (es @ later) = JArr ds" "chain G anchor ds" using assms(2) by (rule classify_chain)
  then have c2: "chain G anchor (es @ later)" by simp
  obtain k where k: "k < length es" "e = es ! k" using assms(7) by (auto simp: find_epoch_def find_Some_iff)
  have "\<not> grows (drop k es)" using compatible_grows [OF c1 k(1) assms(3,4)] assms(8) k(2) by simp
  then have "\<not> grows (drop k (es @ later))" using grows_prefix [of "drop k es" later] k(1) by auto
  then have "\<not> compatible ch' ((es @ later) ! k)" using compatible_grows [OF c2 _ assms(5,6), of k] k(1) by simp
  then have "\<not> compatible ch' e" using k by (simp add: nth_append)
  moreover have "find_epoch (c_epochs ch') i = Some e"
  proof -
    have "find P (xs @ ys) = (case find P xs of Some x \<Rightarrow> Some x | None \<Rightarrow> find P ys)" for P :: "jval \<Rightarrow> bool" and xs ys
      by (induction xs) auto
    then show ?thesis using assms(7) by (simp add: assms(5) find_epoch_def)
  qed
  ultimately show ?thesis by (simp add: retry_def split: option.split)
qed

text \<open>
  A message whose envelope and audience are in order but that has no list of member cards is
  not refused: comparing the cards raises an exception.
\<close>

lemma no_members_throws:
  "k_kind k = lit ''message'' \<Longrightarrow> field (k_content k) ''members'' = JUndefined \<Longrightarrow> pinned_cards k cards = Inl (GText Unsupported)"
  by (simp add: pinned_cards_def text_of_def canonical.simps)

end
