(* ===== verification/Certificate_Examples.thy ===== *)
theory Certificate_Examples
  imports Certificate_Chain Bundle_Create
begin

text \<open>
  A group on which the theorems on certificates hold: its creator makes an anchor and a first
  epoch, invites a second member, who accepts, makes the next epoch with that member, and
  closes the group.
\<close>

section \<open>Texts that fit\<close>

lemma bounded_fits:
  assumes "plain v" "nesting v \<le> 24" "safe_ints v" "3 * weight v \<le> n"
  shows "\<exists>s. canon v = Inr s \<and> length (utf8 s) \<le> n"
proof -
  obtain s where s: "canon v = Inr s" using assms(1,2) canonical_defined by blast
  then have "length s \<le> weight v" using assms(3) by (rule canonical_weight)
  then have "length (utf8 s) \<le> n" using utf8_length_le [of s] assms(4) by (simp add: length_utf8)
  with s show ?thesis by blast
qed

lemma weight_JStr: "list_all unescaped s \<Longrightarrow> weight (JStr s) = length s + 2"
  by simp

lemma escape_literal: "list_all unescaped (map of_char s) \<Longrightarrow> length (escape (lit s)) = length s"
  by (simp add: lit_def)

section \<open>A signature scheme that accepts everything\<close>

definition open_groups :: group_crypto where
  "open_groups = \<lparr>hash_text = (\<lambda>_. replicate 64 97), valid_card = (\<lambda>_. True), verify_text = (\<lambda>_ _ _. True),
     sign_text = (\<lambda>_ _. Some (b64 (replicate 64 0)))\<rparr>"

definition address_a :: ustr where "address_a = replicate 64 97"
definition address_b :: ustr where "address_b = replicate 64 98"

lemma hex_addresses: "hex64 address_a" "hex64 address_b" "address_a < address_b" "address_a \<noteq> []"
  by (simp_all add: hex64_def is_hex_def list_all_iff address_a_def address_b_def numeral_eq_Suc)

definition person :: "ustr \<Rightarrow> sender" where
  "person i = \<lparr>sender_public = JObj [(lit ''id'', JStr i)], signSecret = []\<rparr>"

definition certified :: "jval \<Rightarrow> jval" where
  "certified body = JObj [(lit ''body'', body), (lit ''id'', JStr address_a), (lit ''signature'', JStr (b64 (replicate 64 0)))]"

lemma certified_fields [simp]:
  "field (certified b) ''body'' = b" "field (certified b) ''id'' = JStr address_a"
  "field (certified b) ''signature'' = JStr (b64 (replicate 64 0))"
  by (simp_all add: certified_def jget_def)

lemma weight_certified: "weight (certified b) = weight b + 185" "plain (certified b) = plain b"
  "safe_ints (certified b) = safe_ints b" "nesting (certified b) \<le> n \<longleftrightarrow> Suc (nesting b) \<le> n \<and> 1 \<le> n"
proof -
  have "length (escape (lit k)) = length k" if "k \<in> {''body'', ''id'', ''signature''}" for k
    using that by (intro escape_literal) (auto simp: unescaped_def of_char_def)
  then show "weight (certified b) = weight b + 185"
    using hex_addresses(1) b64_unescaped by (simp add: certified_def address_a_def length_b64)
qed (auto simp: certified_def nesting_le)

lemma signed_ok:
  assumes "plain b" "nesting b \<le> 23" "safe_ints b" "3 * (weight b + 185) \<le> n"
  shows "signCertificate open_groups b me n = Inr (certified b)"
    "body b = Inr () \<Longrightarrow> checkCertificate open_groups (certified b) body signer n = Inr (certified b)"
proof -
  obtain s where s: "canon b = Inr s" "length (utf8 s) \<le> n" using bounded_fits [of b n] assms by auto
  obtain t where t: "canon (certified b) = Inr t" "length (utf8 t) \<le> n"
    using bounded_fits [of "certified b" n] assms by (auto simp: weight_certified)
  show "signCertificate open_groups b me n = Inr (certified b)"
    using s t by (auto simp: signCertificate_def open_groups_def group_checks Let_def certified_def address_a_def)
  have "exactShape (certified b) (map lit cert_keys)"
    by (simp add: certified_def exactShape_def cert_keys_def ohas_def)
  then show "body b = Inr () \<Longrightarrow> checkCertificate open_groups (certified b) body signer n = Inr (certified b)"
    using s t hex_addresses(1)
    by (auto simp: checkCertificate_iff signed_by_def open_groups_def address_a_def)
qed

section \<open>The group\<close>

lemma literal_lengths:
  "length (escape (lit ''id'')) = 2" "length (escape (lit ''cardHash'')) = 8" "length (escape (lit ''domain'')) = 6"
  "length (escape (lit ''creator'')) = 7" "length (escape (lit ''nonce'')) = 5" "length (escape (lit ''membershipAuthority'')) = 19"
  "length (escape (lit ''groupId'')) = 7" "length (escape (lit ''number'')) = 6" "length (escape (lit ''previous'')) = 8"
  "length (escape (lit ''state'')) = 5" "length (escape (lit ''members'')) = 7" "length (escape (lit ''snapshotHash'')) = 12"
  "length (escape (lit ''parentEpochId'')) = 13" "length (escape (lit ''invitationHash'')) = 14" "length (escape (lit ''joinNonce'')) = 9"
  "length (escape (lit ''salt'')) = 4" "length (escape (lit ''title'')) = 5" "length (escape (lit ''joins'')) = 5"
  "length (escape (lit ''inviteeId'')) = 9" "length (escape (lit ''inviteeCardHash'')) = 15" "length (escape (lit ''invitationNonce'')) = 15"
  "length (escape (lit ''relayloom/group-anchor/1'')) = 24" "length (escape (lit ''creator-only'')) = 12" "length (escape (lit ''relayloom/group-epoch/1'')) = 23"
  "length (escape (lit ''open'')) = 4" "length (escape (lit ''closed'')) = 6" "length (escape (lit ''relayloom/group-consent/1'')) = 25"
  "length (escape (lit ''relayloom/group-state/1'')) = 23" "length (escape (lit ''relayloom/group-invitation/1'')) = 28"
  by ((subst escape_literal, simp add: unescaped_def of_char_def, simp)+)

lemmas weigh = weight_certified length_b64 weight.simps literal_lengths

definition card_a :: jval where "card_a = JObj [(lit ''id'', JStr address_a)]"
definition card_b :: jval where "card_b = JObj [(lit ''id'', JStr address_b)]"

definition zeros :: bytes where "zeros = replicate 32 0"

definition the_anchor :: jval where "the_anchor = certified (anchor_body card_a zeros)"
definition epoch_0 :: jval where
  "epoch_0 = certified (epoch_body (JStr address_a) 0 JNull [commitment card_a address_a] address_a)"
definition epoch_1 :: jval where
  "epoch_1 = certified (epoch_body (JStr address_a) 1 (JStr address_a) [commitment card_a address_a, commitment card_b address_a] address_a)"

lemma cards: "field card_a ''id'' = JStr address_a" "field card_b ''id'' = JStr address_b"
  by (simp_all add: card_a_def card_b_def jget_def)

lemma strings:
  "list_all unescaped address_a" "list_all unescaped address_b" "length address_a = 64" "length address_b = 64"
  using hex_addresses by (simp_all add: address_a_def address_b_def)

lemma card_measures: "weight card_a \<le> 80" "weight card_b \<le> 80" "plain card_a" "plain card_b" "safe_ints card_a" "safe_ints card_b"
  "nesting card_a \<le> 2" "nesting card_b \<le> 2"
  using strings by (simp_all add: card_a_def card_b_def weigh nesting_le)

lemma anchor_measures: "weight (anchor_body card_a zeros) \<le> 250" "plain (anchor_body card_a zeros)"
  "safe_ints (anchor_body card_a zeros)" "nesting (anchor_body card_a zeros) \<le> 23"
  using card_measures b64_unescaped [of zeros]
  by (simp_all add: anchor_body_def weigh nesting_le zeros_def)

lemma member_hash: "\<exists>s. canon card_a = Inr s" "\<exists>s. canon card_b = Inr s"
  using canonical_defined card_measures by (meson le_trans numeral_le_iff semiring_norm)+

lemma anchor_ok: "verifyGroupAnchor open_groups the_anchor = Inr the_anchor"
proof -
  have "anchorBody open_groups (anchor_body card_a zeros) = Inr ()"
    using member_hash
    by (auto simp: anchorBody_def group_checks anchor_body_def exactShape_def ohas_def jget_def zeros_def open_groups_def)
  with signed_ok [of "anchor_body card_a zeros" 2048] anchor_measures show ?thesis
    by (auto simp: verifyGroupAnchor_def the_anchor_def group_checks GROUP_certificateBytes_def certified_def exactShape_def
        cert_keys_def ohas_def jget_def)
qed

lemma commitment_ok_person: "hex64 i \<Longrightarrow> field c ''id'' = JStr i \<Longrightarrow> commitment_ok (commitment c address_a)"
  using hex_addresses by (simp add: commitment_ok_def commitment_def exactShape_def ohas_def jget_def)

lemma commitment_measures:
  "weight (commitment card_a address_a) \<le> 160" "weight (commitment card_b address_a) \<le> 160"
  "plain (commitment card_a address_a)" "plain (commitment card_b address_a)"
  "safe_ints (commitment card_a address_a)" "safe_ints (commitment card_b address_a)"
  "nesting (commitment card_a address_a) \<le> 2" "nesting (commitment card_b address_a) \<le> 2"
  using strings by (simp_all add: commitment_def cards weigh nesting_le)

lemma epoch_value:
  "field (epoch_body g n p ms h) ''domain'' = JStr (lit ''relayloom/group-epoch/1'')" "field (epoch_body g n p ms h) ''groupId'' = g"
  "field (epoch_body g n p ms h) ''number'' = JInt n" "field (epoch_body g n p ms h) ''previous'' = p"
  "field (epoch_body g n p ms h) ''state'' = JStr (lit ''open'')" "field (epoch_body g n p ms h) ''members'' = JArr ms"
  "field (epoch_body g n p ms h) ''snapshotHash'' = JStr h"
  "exactShape (epoch_body g n p ms h) (map lit [''domain'', ''groupId'', ''number'', ''previous'', ''state'', ''members'', ''snapshotHash''])"
  by (simp_all add: epoch_body_def jget_def exactShape_def ohas_def)

lemma the_members:
  "commitments (JArr [commitment card_a address_a]) = Inr ()"
  "commitments (JArr [commitment card_a address_a, commitment card_b address_a]) = Inr ()"
proof -
  have ok: "commitment_ok (commitment card_a address_a)" "commitment_ok (commitment card_b address_a)"
    using commitment_ok_person cards hex_addresses by blast+
  have ids: "field (commitment card_a address_a) ''id'' = JStr address_a" "field (commitment card_b address_a) ''id'' = JStr address_b"
    by (simp_all add: commitment_def cards jget_def [of "JObj _"])
  have "[] < s" if "s \<noteq> []" for s :: ustr using that by (cases s) auto
  then have "[] < address_a" using hex_addresses(4) by blast
  then show "commitments (JArr [commitment card_a address_a]) = Inr ()"
    "commitments (JArr [commitment card_a address_a, commitment card_b address_a]) = Inr ()"
    using ok hex_addresses(3) by (simp_all add: commitments_def group_checks commitments_from_iff ids str_of_def GROUP_members_def)
qed

lemma the_epochs:
  "epochBody (epoch_body (JStr address_a) 0 JNull [commitment card_a address_a] address_a) = Inr ()"
  "epochBody (epoch_body (JStr address_a) 1 (JStr address_a) [commitment card_a address_a, commitment card_b address_a] address_a) = Inr ()"
  using the_members hex_addresses(1) epoch_value(8) [simplified]
  by (simp_all add: epochBody_def epoch_value(1-7) group_checks Let_def is_safe_int_def safe_integer_def MAX_SAFE_def int_of_def GROUP_epochs_def)

lemma epoch_measures:
  "weight (epoch_body (JStr address_a) 0 JNull [commitment card_a address_a] address_a) \<le> 900"
  "weight (epoch_body (JStr address_a) 1 (JStr address_a) [commitment card_a address_a, commitment card_b address_a] address_a) \<le> 900"
  "plain (epoch_body (JStr address_a) 0 JNull [commitment card_a address_a] address_a)"
  "plain (epoch_body (JStr address_a) 1 (JStr address_a) [commitment card_a address_a, commitment card_b address_a] address_a)"
  "safe_ints (epoch_body (JStr address_a) 0 JNull [commitment card_a address_a] address_a)"
  "safe_ints (epoch_body (JStr address_a) 1 (JStr address_a) [commitment card_a address_a, commitment card_b address_a] address_a)"
  "nesting (epoch_body (JStr address_a) 0 JNull [commitment card_a address_a] address_a) \<le> 23"
  "nesting (epoch_body (JStr address_a) 1 (JStr address_a) [commitment card_a address_a, commitment card_b address_a] address_a) \<le> 23"
  using strings commitment_measures by (simp_all add: epoch_body_def weigh nesting_le safe_integer_def MAX_SAFE_def)

lemma creator: "creator_of the_anchor = card_a" "field the_anchor ''id'' = JStr address_a"
  by (simp_all add: creator_of_def the_anchor_def anchor_body_def jget_def [of "JObj _"])

lemma epoch_0_ok: "verifyGroupEpoch open_groups epoch_0 the_anchor = Inr epoch_0"
proof -
  have "checkCertificate open_groups epoch_0 epochBody card_a GROUP_headerBytes = Inr epoch_0"
    unfolding epoch_0_def GROUP_headerBytes_def by (rule signed_ok(2)) (use epoch_measures the_epochs in auto)
  moreover have "memberCardHash open_groups card_a = Inr address_a"
    using member_hash by (auto simp: memberCardHash_iff open_groups_def address_a_def)
  ultimately show ?thesis
    by (simp add: verifyGroupEpoch_def anchor_ok creator epoch_0_def epoch_value number_of_def members_of_def is_open_def
        int_of_def items_of_def commitment_def cards jget_def [of "JObj _"])
qed

lemma epoch_1_ok: "verifyGroupEpoch open_groups epoch_1 the_anchor = Inr epoch_1"
proof -
  have "checkCertificate open_groups epoch_1 epochBody card_a GROUP_headerBytes = Inr epoch_1"
    unfolding epoch_1_def GROUP_headerBytes_def by (rule signed_ok(2)) (use epoch_measures the_epochs in auto)
  then show ?thesis
    by (simp add: verifyGroupEpoch_def anchor_ok creator epoch_1_def epoch_value number_of_def members_of_def is_open_def
        int_of_def items_of_def commitment_def cards jget_def [of "JObj _"])
qed

section \<open>Paths and the end of the group\<close>

lemma the_path: "classifyGroupEpochPath open_groups the_anchor (JArr [epoch_0, epoch_1]) = Inr Nonrestrictive"
proof -
  have "keeps_members epoch_0 epoch_1"
    by (simp add: keeps_members_def epoch_0_def epoch_1_def members_of_def items_of_def epoch_value)
  then have "verifyGroupEpochLink open_groups the_anchor epoch_0 epoch_1 = Inr Nonrestrictive"
    by (simp add: verifyGroupEpochLink_def epoch_0_ok epoch_1_ok)
      (simp add: epoch_0_def epoch_1_def is_open_def number_of_def epoch_value int_of_def)
  then show ?thesis by (simp add: classifyGroupEpochPath_def group_list_def is_arr_def items_of_def GROUP_epochs_def epoch_0_ok)
qed

theorem classify_reference_witness:
  "\<exists>n \<in> set (members_of epoch_1). same_member (commitment card_a address_a) n"
proof -
  have keep: "\<forall>i j. i \<le> j \<and> j < length [epoch_0, epoch_1] \<longrightarrow>
      (\<forall>m \<in> set (members_of ([epoch_0, epoch_1] ! i)). \<exists>n \<in> set (members_of ([epoch_0, epoch_1] ! j)). same_member m n)"
    using classify_reference [OF the_path] by blast
  have "commitment card_a address_a \<in> set (members_of epoch_0)"
    by (simp add: epoch_0_def members_of_def epoch_value items_of_def)
  with keep [rule_format, of 0 1] show ?thesis by simp
qed

theorem path_sound_witness: "number_of epoch_1 = number_of epoch_0 + 1 \<and> signed_by open_groups card_a epoch_0 16384"
  using path_sound [OF the_path] by (auto simp: creator)

theorem history_determined_witness:
  "classifyGroupEpochPath open_groups the_anchor (JArr [epoch_0]) = Inr Nonrestrictive \<and>
   jnorm (field epoch_0 ''body'') = jnorm (field ([epoch_0] ! 0) ''body'')"
proof -
  have path: "classifyGroupEpochPath open_groups the_anchor (JArr [epoch_0]) = Inr Nonrestrictive"
    by (simp add: classifyGroupEpochPath_def group_list_def is_arr_def items_of_def GROUP_epochs_def epoch_0_ok)
  have "number_of (hd [epoch_0]) = 0" by (simp add: epoch_0_def number_of_def epoch_value int_of_def)
  moreover have "inj_on (hash_text open_groups) {s. \<exists>e \<in> set [epoch_0] \<union> set [epoch_0]. canon (field e ''body'') = Inr s}"
    by (auto intro!: inj_onI)
  ultimately show ?thesis using history_determined [OF path path] path by auto
qed

lemma closed_value: "closed_body epoch_1 = JObj [(lit ''domain'', JStr (lit ''relayloom/group-epoch/1'')), (lit ''groupId'', JStr address_a),
    (lit ''number'', JInt 2), (lit ''previous'', JStr address_a), (lit ''state'', JStr (lit ''closed'')),
    (lit ''members'', JArr [commitment card_a address_a, commitment card_b address_a]), (lit ''snapshotHash'', JStr address_a)]"
  by (simp add: closed_body_def epoch_1_def epoch_value number_of_def int_of_def) (simp add: epoch_body_def fields_of_def)

lemma closed_ok: "epochBody (closed_body epoch_1) = Inr ()" "weight (closed_body epoch_1) \<le> 900" "plain (closed_body epoch_1)"
  "safe_ints (closed_body epoch_1)" "nesting (closed_body epoch_1) \<le> 23"
  using strings commitment_measures the_members hex_addresses(1)
  by (simp_all add: closed_value weigh nesting_le epochBody_def group_checks Let_def exactShape_def ohas_def is_safe_int_def
      safe_integer_def MAX_SAFE_def int_of_def GROUP_epochs_def jget_def [of "JObj _"])

lemma closes: "closeAnchoredGroup open_groups (person address_a) the_anchor epoch_1 = Inr (certified (closed_body epoch_1))"
proof -
  let ?e = "certified (closed_body epoch_1)"
  have fields: "field (closed_body epoch_1) ''groupId'' = JStr address_a" "field (closed_body epoch_1) ''number'' = JInt 2"
    "field (closed_body epoch_1) ''previous'' = JStr address_a" "field (closed_body epoch_1) ''state'' = JStr (lit ''closed'')"
    "field (closed_body epoch_1) ''members'' = JArr [commitment card_a address_a, commitment card_b address_a]"
    "field (closed_body epoch_1) ''snapshotHash'' = JStr address_a"
    by (simp_all add: closed_value jget_def [of "JObj _"])
  have "checkCertificate open_groups ?e epochBody card_a GROUP_headerBytes = Inr ?e"
    unfolding GROUP_headerBytes_def by (rule signed_ok(2)) (use closed_ok in auto)
  then have ok: "verifyGroupEpoch open_groups ?e the_anchor = Inr ?e"
    by (simp add: verifyGroupEpoch_def anchor_ok creator number_of_def members_of_def fields int_of_def items_of_def
        commitment_def cards jget_def [of "JObj _"])
  obtain t where t: "canon (JArr [commitment card_a address_a, commitment card_b address_a]) = Inr t"
    using canonical_defined [of "JArr [commitment card_a address_a, commitment card_b address_a]"] commitment_measures
    by (auto simp: nesting_le)
  have "verifyGroupEpochLink open_groups the_anchor epoch_1 ?e = Inr Restrictive"
    by (simp add: verifyGroupEpochLink_def ok epoch_1_ok)
      (simp add: epoch_1_def is_open_def number_of_def epoch_value int_of_def fields [unfolded epoch_1_def] text_of_def t)
  moreover have "signCertificate open_groups (closed_body epoch_1) (person address_a) GROUP_headerBytes = Inr ?e"
    unfolding GROUP_headerBytes_def by (rule signed_ok(1)) (use closed_ok in auto)
  moreover have "owner (person address_a) the_anchor = Inr ()"
    by (simp add: owner_def creator person_def card_a_def jget_def [of "JObj _"])
  ultimately show ?thesis by (simp add: closeAnchoredGroup_def anchor_ok epoch_1_ok ok)
qed

theorem close_is_final_witness:
  "\<not> is_open (certified (closed_body epoch_1)) \<and> number_of (certified (closed_body epoch_1)) = number_of epoch_1 + 1"
  using close_is_final [OF closes] by blast

section \<open>A member joins\<close>

definition invitation_b :: jval where
  "invitation_b = certified (invitation_body the_anchor epoch_0 card_b address_a zeros)"
definition consent_b :: jval where
  "consent_b = certified (consent_body the_anchor epoch_0 invitation_b address_a zeros)"
definition snapshot_1 :: jval where
  "snapshot_1 = snapshot_value (JStr address_a) (JStr []) [card_a, card_b] [consent_b] zeros"

lemma epoch_0_id: "field epoch_0 ''id'' = JStr address_a" "is_open epoch_0" "field epoch_1 ''id'' = JStr address_a" "is_open epoch_1"
  by (simp_all add: epoch_0_def epoch_1_def is_open_def epoch_value)

lemma invitation_value: "invitation_body the_anchor epoch_0 card_b address_a zeros =
    JObj [(lit ''domain'', JStr (lit ''relayloom/group-invitation/1'')), (lit ''groupId'', JStr address_a),
      (lit ''parentEpochId'', JStr address_a), (lit ''inviteeId'', JStr address_b),
      (lit ''inviteeCardHash'', JStr address_a), (lit ''invitationNonce'', JStr (b64 zeros))]"
  by (simp add: invitation_body_def creator epoch_0_id cards)

lemma consent_value: "consent_body the_anchor epoch_0 invitation_b address_a zeros =
    JObj [(lit ''domain'', JStr (lit ''relayloom/group-consent/1'')), (lit ''groupId'', JStr address_a),
      (lit ''parentEpochId'', JStr address_a), (lit ''invitationHash'', JStr address_a),
      (lit ''cardHash'', JStr address_a), (lit ''joinNonce'', JStr (b64 zeros))]"
  by (simp add: consent_body_def creator epoch_0_id invitation_b_def)

lemma checks_ok: "base64 (JStr (b64 zeros)) 32 = Inr zeros" "length zeros = 32"
  "address (JStr address_a) = Inr ()" "address (JStr address_b) = Inr ()"
  "exactShape v (map lit ks) \<Longrightarrow> group_record v ks = Inr ()"
  using hex_addresses by (simp_all add: base64_value zeros_def)

lemma invitation_ok: "weight (invitation_body the_anchor epoch_0 card_b address_a zeros) \<le> 450"
  "plain (invitation_body the_anchor epoch_0 card_b address_a zeros)"
  "safe_ints (invitation_body the_anchor epoch_0 card_b address_a zeros)"
  "nesting (invitation_body the_anchor epoch_0 card_b address_a zeros) \<le> 23"
  "invitationBody (invitation_body the_anchor epoch_0 card_b address_a zeros) = Inr ()"
  unfolding invitation_value
  using strings hex_addresses b64_unescaped [of zeros]
  by (simp_all add: weigh nesting_le invitationBody_def bodyOf_def checks_ok exactShape_def ohas_def jget_def [of "JObj _"]
      del: addresses_iff address_iff)

lemma consent_ok: "weight (consent_body the_anchor epoch_0 invitation_b address_a zeros) \<le> 450"
  "plain (consent_body the_anchor epoch_0 invitation_b address_a zeros)"
  "safe_ints (consent_body the_anchor epoch_0 invitation_b address_a zeros)"
  "nesting (consent_body the_anchor epoch_0 invitation_b address_a zeros) \<le> 20"
  "consentBody (consent_body the_anchor epoch_0 invitation_b address_a zeros) = Inr ()"
  unfolding consent_value
  using strings hex_addresses b64_unescaped [of zeros]
  by (simp_all add: weigh nesting_le consentBody_def bodyOf_def checks_ok exactShape_def ohas_def jget_def [of "JObj _"]
      del: addresses_iff address_iff)

lemma invitation_signed: "checkCertificate open_groups invitation_b invitationBody signer 2048 = Inr invitation_b"
  unfolding invitation_b_def by (rule signed_ok(2)) (use invitation_ok in auto)

lemma consent_signed: "checkCertificate open_groups consent_b consentBody signer 2048 = Inr consent_b"
  unfolding consent_b_def by (rule signed_ok(2)) (use consent_ok in auto)

lemma consent_fields: "field consent_b ''body'' = consent_body the_anchor epoch_0 invitation_b address_a zeros"
  "field (field consent_b ''body'') ''cardHash'' = JStr address_a" "field (field consent_b ''body'') ''groupId'' = JStr address_a"
  "field (field consent_b ''body'') ''parentEpochId'' = JStr address_a"
  by (simp_all add: consent_b_def consent_value jget_def [of "JObj _"])

lemma invitation_fields: "field (field invitation_b ''body'') ''groupId'' = JStr address_a"
  "field (field invitation_b ''body'') ''parentEpochId'' = JStr address_a"
  "field (field invitation_b ''body'') ''inviteeId'' = JStr address_b"
  "field (field invitation_b ''body'') ''inviteeCardHash'' = JStr address_a"
  by (simp_all add: invitation_b_def invitation_value jget_def [of "JObj _"])

lemma card_hashes: "memberCardHash open_groups card_a = Inr address_a" "memberCardHash open_groups card_b = Inr address_a"
  using member_hash by (auto simp: memberCardHash_iff open_groups_def address_a_def)

lemma consent_verified: "verifyGroupConsent open_groups consent_b the_anchor epoch_0 card_b = Inr consent_b"
  by (simp add: verifyGroupConsent_def epoch_0_ok epoch_0_id consent_signed GROUP_certificateBytes_def consent_fields(2-4) creator card_hashes Let_def)

lemma accepts: "acceptGroupInvitation open_groups (person address_b) the_anchor epoch_0 invitation_b zeros = Inr consent_b"
proof -
  have me: "sender_public (person address_b) = card_b" by (simp add: person_def card_b_def)
  have "verifyGroupInvitation open_groups invitation_b the_anchor epoch_0 card_b = Inr invitation_b"
    using invitation_signed
    by (simp add: verifyGroupInvitation_def epoch_0_ok epoch_0_id GROUP_certificateBytes_def creator card_hashes cards
        invitation_fields Let_def)
  moreover have "signCertificate open_groups (consent_body the_anchor epoch_0 invitation_b address_a zeros) (person address_b)
      GROUP_certificateBytes = Inr consent_b"
    unfolding consent_b_def GROUP_certificateBytes_def by (rule signed_ok(1)) (use consent_ok in auto)
  ultimately show ?thesis by (simp add: acceptGroupInvitation_def me card_hashes consent_verified)
qed

theorem consent_answers_invitation_witness:
  "signed_by open_groups card_b consent_b 2048 \<and> signed_by open_groups card_a invitation_b 2048"
  using consent_answers_invitation [OF accepts] by (simp add: creator person_def card_b_def)

lemma snapshot_fields: "snapshot_1 = JObj [(lit ''domain'', JStr (lit ''relayloom/group-state/1'')), (lit ''groupId'', JStr address_a),
    (lit ''salt'', JStr (b64 zeros)), (lit ''title'', JStr []), (lit ''members'', JArr [card_a, card_b]), (lit ''joins'', JArr [consent_b])]"
  using less_imp_le [OF hex_addresses(3)] by (simp add: snapshot_1_def snapshot_value_def cards str_of_def)

lemma snapshot_get: "field snapshot_1 ''groupId'' = JStr address_a" "field snapshot_1 ''members'' = JArr [card_a, card_b]"
  "field snapshot_1 ''joins'' = JArr [consent_b]" "field snapshot_1 ''salt'' = JStr (b64 zeros)" "field snapshot_1 ''title'' = JStr []"
  "field snapshot_1 ''domain'' = JStr (lit ''relayloom/group-state/1'')"
  "exactShape snapshot_1 [lit ''domain'', lit ''groupId'', lit ''salt'', lit ''title'', lit ''members'', lit ''joins'']"
  by (simp_all add: snapshot_fields jget_def [of "JObj _"] exactShape_def ohas_def)

lemma snapshot_fits: "\<exists>s. canon snapshot_1 = Inr s \<and> length (utf8 s) \<le> GROUP_snapshotBytes"
proof (rule bounded_fits)
  have c: "weight consent_b \<le> 635" "plain consent_b" "safe_ints consent_b" "nesting consent_b \<le> 21"
    using consent_ok by (simp_all add: consent_b_def weight_certified)
  show "plain snapshot_1" "nesting snapshot_1 \<le> 24" "safe_ints snapshot_1" "3 * weight snapshot_1 \<le> GROUP_snapshotBytes"
    using c card_measures strings b64_unescaped [of zeros]
    by (simp_all add: snapshot_fields weigh nesting_le zeros_def GROUP_snapshotBytes_def)
qed

lemma snapshot_ok: "snapshotBody open_groups snapshot_1 = Inr snapshot_1"
proof -
  have "[] < s" if "s \<noteq> []" for s :: ustr using that by (cases s) auto
  then have "[] < address_a" "address_a < address_b" using hex_addresses by blast+
  then have cards_ok: "snapshot_cards open_groups [] [card_a, card_b] [] = Inr [(address_a, card_b)]"
    by (simp add: card_hashes cards str_of_def)
  have "snapshot_joins open_groups (JStr address_a) [(address_a, card_b)] [] [consent_b] = Inr ()"
  proof -
    have "exactShape consent_b (map lit cert_keys)"
      by (simp add: consent_b_def certified_def exactShape_def cert_keys_def ohas_def)
    then have "group_record consent_b cert_keys = Inr ()" by (rule checks_ok)
    with \<open>[] < address_a\<close> consent_ok(5) consent_signed show ?thesis
      by (simp add: consent_fields(2,3) str_of_def GROUP_certificateBytes_def del: group_record_iff) (simp add: consent_fields(1))
  qed
  moreover obtain t where "bounded snapshot_1 GROUP_snapshotBytes = Inr t" using snapshot_fits by auto
  moreover have "group_record snapshot_1 [''domain'', ''groupId'', ''salt'', ''title'', ''members'', ''joins''] = Inr ()"
    by (rule checks_ok) (simp add: snapshot_get)
  moreover have "group_list (JArr [card_a, card_b]) 1 GROUP_members = Inr [card_a, card_b]"
    "group_list (JArr [consent_b]) 0 GROUP_members = Inr [consent_b]" by (simp_all add: GROUP_members_def)
  ultimately show ?thesis
    using cards_ok
    by (simp add: snapshotBody_def snapshot_get checks_ok is_str_def str_of_def
        del: snapshot_cards.simps snapshot_joins.simps bounded_iff group_record_iff group_list_iff address_iff)
qed

lemma epoch_1_get: "field (field epoch_1 ''body'') ''snapshotHash'' = JStr address_a" "number_of epoch_1 = 1"
  "field (field epoch_1 ''body'') ''members'' = JArr [commitment card_a address_a, commitment card_b address_a]"
  "field (field epoch_1 ''body'') ''previous'' = JStr address_a" "field (field epoch_1 ''body'') ''state'' = JStr (lit ''open'')"
  by (simp_all add: epoch_1_def epoch_value number_of_def int_of_def)

lemma roster: "roster_entry open_groups card_a = Inr (commitment card_a address_a)"
  "roster_entry open_groups card_b = Inr (commitment card_b address_a)"
  using member_hash by (auto simp: roster_entry_def commitment_def text_of_def open_groups_def address_a_def)

lemma joined: "verifyGroupSnapshotTransition open_groups the_anchor epoch_0 epoch_1 snapshot_1 = Inr Nonrestrictive"
proof -
  obtain s where s: "canon snapshot_1 = Inr s" using snapshot_fits by blast
  obtain t where t: "canon (JArr [commitment card_a address_a, commitment card_b address_a]) = Inr t"
    using canonical_defined [of "JArr [commitment card_a address_a, commitment card_b address_a]"] commitment_measures
    by (auto simp: nesting_le)
  have hash: "hash_text open_groups x = address_a" for x by (simp add: open_groups_def address_a_def)
  have snap: "verifyGroupSnapshot open_groups snapshot_1 the_anchor epoch_1 = Inr snapshot_1"
    using s t by (simp add: verifyGroupSnapshot_def epoch_1_ok snapshot_ok snapshot_get creator epoch_1_get hash items_of_def
        roster text_of_def epoch_0_id consent_fields(4))
  have link: "verifyGroupEpochLink open_groups the_anchor epoch_0 epoch_1 = Inr Nonrestrictive"
    using the_path by (auto simp: classifyGroupEpochPath_def group_checks split: if_splits change.splits dest: verifyGroupEpochLink_value(6))
      (metis change.exhaust)
  have members: "members_of epoch_0 = [commitment card_a address_a]" by (simp add: epoch_0_def members_of_def epoch_value items_of_def)
  have "field (commitment card_a address_a) ''id'' = JStr address_a" "field (commitment card_a address_a) ''cardHash'' = JStr address_a"
    by (simp_all add: commitment_def cards jget_def [of "JObj _"])
  then have old: "old_card epoch_0 (JStr address_a) = Some (JStr address_a)" "old_card epoch_0 (JStr address_b) = None"
    using hex_addresses(3) by (auto simp: old_card_def members)
  have "changed_cards open_groups epoch_0 [card_a, card_b] = Inr [(address_a, card_b)]"
    using member_hash by (auto simp: text_of_def old cards hash)
  with snap link show ?thesis
    by (simp add: verifyGroupSnapshotTransition_def epoch_1_get snapshot_get items_of_def consent_fields(2) consent_verified)
qed

theorem membership_needs_consent_witness:
  "\<exists>v \<in> set (items_of (field snapshot_1 ''joins'')). signed_by open_groups card_b v 2048"
proof -
  obtain s where s: "canon card_b = Inr s" using member_hash(2) by blast
  have "card_b \<in> set (items_of (field snapshot_1 ''members''))" by (simp add: snapshot_get items_of_def)
  from membership_needs_consent [OF joined epoch_0_id(4) this s] show ?thesis
    using hex_addresses(3) by (auto simp: epoch_0_def members_of_def epoch_value items_of_def commitment_def cards jget_def [of "JObj _"])
qed

end
