(* ===== verification/Access_Examples.thy ===== *)
theory Access_Examples
  imports Access_Facts Certificate_Examples
begin

text \<open>
  The admission of a message of the example group, before and after the group is closed.
\<close>

definition snapshot_a :: jval where "snapshot_a = JObj [(lit ''members'', JArr [card_a])]"

definition chain_a :: "group_status \<Rightarrow> group_chain" where
  "chain_a s = \<lparr>c_status = s, c_head = Some epoch_0, c_epochs = [epoch_0], c_snapshot = (\<lambda>_. Some snapshot_a)\<rparr>"

definition message_a :: candidate where
  "message_a = \<lparr>k_id = address_a, k_kind = lit ''message'', k_author = card_a, k_readers = [address_a], k_public = False,
     k_content = JObj [(lit ''type'', JStr (lit ''message'')), (lit ''conversation'', JStr address_a),
       (lit ''groupAudience'', JStr (lit ''epoch'')), (lit ''groupEpoch'', JStr address_a), (lit ''members'', JArr [card_a])]\<rparr>"

definition context_a :: accepted_context where
  "context_a = \<lparr>x_id = address_a, x_group = address_a, x_epoch = address_a, x_author = address_a, x_kind = lit ''message'',
     x_readers = [address_a]\<rparr>"

lemma accepts_a: "decide open_groups card_a (\<lambda>_. Some (chain_a SActive)) message_a None None = Inr (Accepted context_a False)"
proof -
  have "parseGroupBinding (k_content message_a) = Inr \<lparr>b_conversation = address_a, b_audience = ForEpoch,
      b_groupEpoch = Some address_a, b_targetEpoch = None\<rparr>"
    using hex_addresses
    by (simp add: message_a_def parseGroupBinding_def is_address_def is_str_def str_of_def parse_audience_def check_binding_def
        is_one_of_def has_field_def fields_of_def ohas_def opt_str_def jget_def [of "JObj _"])
  moreover have "envelope_ok open_groups card_a message_a"
    using hex_addresses by (simp add: envelope_ok_def message_a_def open_groups_def card_id_def cards str_of_def)
      (simp add: jget_def [of "JObj _"])
  moreover have "find_epoch [epoch_0] address_a = Some epoch_0" by (simp add: find_epoch_def epoch_0_id)
  moreover have "cards_of snapshot_a = [card_a]" by (simp add: snapshot_a_def cards_of_def items_of_def jget_def [of "JObj _"])
  moreover have "author_approved open_groups message_a [card_a] = Inr True"
    by (simp add: author_approved_def message_a_def card_hashes card_id_def cards str_of_def)
  moreover have "pinned_cards message_a [card_a] = Inr True"
  proof -
    obtain s where "canon (JArr [card_a]) = Inr s"
      using canonical_defined [of "JArr [card_a]"] card_measures by (auto simp: nesting_le)
    then show ?thesis by (simp add: pinned_cards_def message_a_def text_of_def jget_def [of "JObj _"])
  qed
  moreover have "compatible (chain_a SActive) epoch_0" by (simp add: compatible_def chain_a_def)
  ultimately show ?thesis
    by (simp add: decide_def chain_a_def epoch_0_id audience_cards_def settle_def context_a_def)
      (simp add: message_a_def card_id_def cards str_of_def)
qed


theorem acceptance_is_kept_witness:
  "decide open_groups card_a (\<lambda>_. Some (chain_a SClosed)) message_a (Some context_a) None = Inr (Accepted context_a True)"
  by (rule acceptance_is_kept [OF accepts_a]) (auto simp: grows_to_def chain_a_def)

theorem load_complete_witness:
  "\<exists>es. load_epochs (\<lambda>lo. if lo = 0 then [epoch_0] else [epoch_1]) 1 0 = Some (Inr es) \<and> map number_of es = map int [0..<2]"
proof -
  have n: "number_of epoch_0 = 0" "number_of epoch_1 = 1"
    by (simp_all add: epoch_0_def epoch_1_def number_of_def epoch_value int_of_def)
  have "pages_ok (\<lambda>lo. if lo = 0 then [epoch_0] else [epoch_1]) 1"
    unfolding pages_ok_def using n by auto
  from load_complete [OF this] show ?thesis by simp
qed

theorem compatible_iff_nonrestrictive_witness:
  "compatible \<lparr>c_status = SActive, c_head = Some epoch_1, c_epochs = [epoch_0, epoch_1], c_snapshot = (\<lambda>_. None)\<rparr> epoch_0"
proof -
  let ?ch = "\<lparr>c_status = SActive, c_head = Some epoch_1, c_epochs = [epoch_0, epoch_1], c_snapshot = (\<lambda>_. None)\<rparr>"
  have "compatible ?ch ([epoch_0, epoch_1] ! 0) \<longleftrightarrow> Nonrestrictive = Nonrestrictive"
    by (rule compatible_iff_nonrestrictive [OF the_path]) (use the_path in auto)
  then show ?thesis by simp
qed

theorem retry_refusal_is_final_witness:
  "\<not> allowed (retry card_a (Some \<lparr>c_status = SActive, c_head = Some (certified (closed_body epoch_1)),
     c_epochs = [epoch_1, certified (closed_body epoch_1)], c_snapshot = (\<lambda>_. None)\<rparr>) address_a)"
proof -
  let ?es = "[epoch_1, certified (closed_body epoch_1)]"
  let ?ch = "\<lparr>c_status = SActive, c_head = Some (certified (closed_body epoch_1)), c_epochs = ?es, c_snapshot = (\<lambda>_. None)\<rparr>"
  obtain c where link: "verifyGroupEpochLink open_groups the_anchor epoch_1 (certified (closed_body epoch_1)) = Inr c"
    using closes by (auto simp: closeAnchoredGroup_def group_checks dest: verifyGroupEpoch_value(1))
  have path: "\<exists>c. classifyGroupEpochPath open_groups the_anchor (JArr ?es) = Inr c"
    by (simp add: classifyGroupEpochPath_def group_list_def is_arr_def items_of_def GROUP_epochs_def epoch_1_ok link)
  have "\<not> is_open (certified (closed_body epoch_1))" "number_of (certified (closed_body epoch_1)) = number_of epoch_1 + 1"
    using close_is_final [OF closes] by auto
  then have no: "\<not> compatible ?ch epoch_1" by (simp add: compatible_def)
  have found: "find_epoch ?es address_a = Some epoch_1" by (simp add: find_epoch_def epoch_0_id)
  from path obtain c where "classifyGroupEpochPath open_groups the_anchor (JArr ?es) = Inr c" by blast
  from retry_refusal_is_final [OF this, of "[]" c ?ch ?ch address_a epoch_1] this no found show ?thesis by simp
qed

end
