(* ===== verification/Site.thy ===== *)
theory Site
  imports Bundle
begin

text \<open>
  The sites a user publishes (\<open>packages/content/src/site.ts\<close>): which links are safe, the
  validation of a site document, the excerpt older clients show, and the summary of a draft;
  and the operations of the editor on the tree of blocks (\<open>apps/web/src/site/model.ts\<close>).
  Documents are JSON values; an exception is \<open>Inl\<close>.
\<close>

section \<open>Text\<close>

definition is_digit :: "nat \<Rightarrow> bool" where
  "is_digit c \<longleftrightarrow> 48 \<le> c \<and> c \<le> 57"

definition is_lower :: "nat \<Rightarrow> bool" where
  "is_lower c \<longleftrightarrow> 97 \<le> c \<and> c \<le> 122"

definition is_alnum :: "nat \<Rightarrow> bool" where
  "is_alnum c \<longleftrightarrow> is_digit c \<or> is_lower c \<or> 65 \<le> c \<and> c \<le> 90"

definition is_hex_digit :: "nat \<Rightarrow> bool" where
  "is_hex_digit c \<longleftrightarrow> is_digit c \<or> 97 \<le> c \<and> c \<le> 102 \<or> 65 \<le> c \<and> c \<le> 70"

text \<open>The property \<open>White_Space\<close> of Unicode, and what \<open>trim\<close> removes.\<close>

definition white_space :: "nat \<Rightarrow> bool" where
  "white_space c \<longleftrightarrow> 9 \<le> c \<and> c \<le> 13 \<or> c = 32 \<or> c = 133 \<or> c = 160 \<or> c = 5760 \<or> 8192 \<le> c \<and> c \<le> 8202 \<or>
     c = 8232 \<or> c = 8233 \<or> c = 8239 \<or> c = 8287 \<or> c = 12288"

definition trimmed_away :: "nat \<Rightarrow> bool" where
  "trimmed_away c \<longleftrightarrow> white_space c \<and> c \<noteq> 133 \<or> c = 65279"

fun split_on :: "nat \<Rightarrow> ustr \<Rightarrow> ustr list" where
  "split_on d [] = [[]]"
| "split_on d (c # cs) = (if c = d then [] # split_on d cs
     else (case split_on d cs of [] \<Rightarrow> [[c]] | w # ws \<Rightarrow> (c # w) # ws))"

definition decimal :: "ustr \<Rightarrow> nat" where
  "decimal s = fold (\<lambda>c n. 10 * n + (c - 48)) s 0"

definition strip_prefix :: "ustr \<Rightarrow> ustr \<Rightarrow> ustr option" where
  "strip_prefix p s = (if take (length p) s = p then Some (drop (length p) s) else None)"

section \<open>Safe links\<close>

definition host_char :: "nat \<Rightarrow> bool" where
  "host_char c \<longleftrightarrow> is_alnum c \<or> c = 46 \<or> c = 45"

text \<open>The host, the port and the rest of \<open>https://host[:port][/?#...]\<close>.\<close>

definition url_parts :: "ustr \<Rightarrow> (ustr \<times> ustr option) option" where
  "url_parts s =
     (case strip_prefix (lit ''https://'') s of None \<Rightarrow> None
      | Some r \<Rightarrow>
        let host = takeWhile host_char r; t = dropWhile host_char r;
            port = (case t of [] \<Rightarrow> None | c # cs \<Rightarrow> if c = 58 then Some (takeWhile is_digit cs) else None);
            u = (case t of [] \<Rightarrow> [] | c # cs \<Rightarrow> if c = 58 then dropWhile is_digit cs else t)
        in if host = [] \<or> (case port of None \<Rightarrow> False | Some p \<Rightarrow> p = [] \<or> length p > 5) \<or>
              \<not> (u = [] \<or> hd u \<in> {47, 63, 35}) \<or> list_ex (\<lambda>c. c \<in> {10, 13, 8232, 8233}) (tl u)
           then None else Some (host, port))"

definition bad_char :: "nat \<Rightarrow> bool" where
  "bad_char c \<longleftrightarrow> white_space c \<or> c = 65279 \<or> c = 92 \<or> c \<le> 31 \<or> c = 127"

fun bad_escape :: "ustr \<Rightarrow> bool" where
  "bad_escape [] \<longleftrightarrow> False"
| "bad_escape (c # cs) \<longleftrightarrow> c = 37 \<and> \<not> (case cs of a # b # _ \<Rightarrow> is_hex_digit a \<and> is_hex_digit b | _ \<Rightarrow> False) \<or> bad_escape cs"

definition label_ok :: "ustr \<Rightarrow> bool" where
  "label_ok l \<longleftrightarrow> l \<noteq> [] \<and> length l \<le> 63 \<and> is_alnum (hd l) \<and> is_alnum (last l) \<and> list_all (\<lambda>c. is_alnum c \<or> c = 45) l"

definition numeric_label :: "ustr \<Rightarrow> bool" where
  "numeric_label l \<longleftrightarrow> l \<noteq> [] \<and> list_all is_digit l \<or>
     (case l of a # x # hs \<Rightarrow> a = 48 \<and> (x = 120 \<or> x = 88) \<and> list_all is_hex_digit hs | _ \<Rightarrow> False)"

definition octet :: "ustr \<Rightarrow> bool" where
  "octet l \<longleftrightarrow> l \<noteq> [] \<and> length l \<le> 3 \<and> list_all is_digit l \<and> (hd l = 48 \<longrightarrow> length l = 1) \<and> decimal l \<le> 255"

definition safeSiteUrl :: "ustr \<Rightarrow> bool" where
  "safeSiteUrl s =
     (case url_parts s of None \<Rightarrow> False
      | Some (host, port) \<Rightarrow>
        if length s > 2000 \<or> length host > 253 \<or> list_ex bad_char s \<or> bad_escape s \<or>
           (case port of None \<Rightarrow> False | Some p \<Rightarrow> decimal p > 65535) then False
        else let labels = split_on 46 host in
          if \<not> list_all label_ok labels then False
          else if numeric_label (last labels) then length labels = 4 \<and> list_all octet labels
          else True)"

section \<open>Site documents\<close>

datatype site_error =
    SShape | SImages | SPages | SDesign | SPageName | SHome | SDepth | SBlock | SManyBlocks | SFormat | SLink | SBlockStyle
  | SChildren | SGallery | SImage | SLimit | SText json_error | STooLarge

definition SITE_pages :: nat where "SITE_pages = 12"
definition SITE_blocks :: nat where "SITE_blocks = 128"
definition SITE_siblings :: nat where "SITE_siblings = 24"
definition SITE_depth :: nat where "SITE_depth = 3"
definition SITE_bytes :: nat where "SITE_bytes = 128 * 1024"
definition SITE_assets :: nat where "SITE_assets = 4"

definition SITE_BLOCKS :: "string list" where
  "SITE_BLOCKS = [''hero'', ''text'', ''links'', ''callout'', ''heading'', ''quote'', ''button'', ''image'', ''gallery'',
     ''divider'', ''spacer'', ''columns'', ''posts'']"

definition one_of :: "jval \<Rightarrow> string list \<Rightarrow> bool" where
  "one_of v ks \<longleftrightarrow> list_ex (\<lambda>k. v = JStr (lit k)) ks"

definition site_shape :: "jval \<Rightarrow> string list \<Rightarrow> string list \<Rightarrow> bool" where
  "site_shape v required optional \<longleftrightarrow> exactShape v (okeys (fields_of v)) \<and> list_all (\<lambda>k. ohas (fields_of v) (lit k)) required \<and>
     list_all (\<lambda>k. k \<in> lit ` set (required @ optional)) (okeys (fields_of v))"

definition site_id :: "jval \<Rightarrow> bool" where
  "site_id v \<longleftrightarrow> is_str v \<and> str_of v \<noteq> [] \<and> length (str_of v) \<le> 64 \<and> list_all (\<lambda>c. is_alnum c \<or> c = 95 \<or> c = 45) (str_of v)"

definition text_up_to :: "jval \<Rightarrow> nat \<Rightarrow> bool" where
  "text_up_to v n \<longleftrightarrow> is_str v \<and> length (str_of v) \<le> n"

text \<open>\<open>/^image\\/(png|jpeg|webp|gif)$/\<close>, on the string the value is converted to.\<close>

definition image_mime :: "jval \<Rightarrow> bool" where
  "image_mime v \<longleftrightarrow> list_ex (\<lambda>k. js_string v = lit k) [''image/png'', ''image/jpeg'', ''image/webp'', ''image/gif'']"

definition strip_pad :: "ustr \<Rightarrow> ustr" where
  "strip_pad s = rev (dropWhile (\<lambda>c. c = 61) (rev s))"

definition data_size :: "jval \<Rightarrow> nat" where
  "data_size a = length (strip_pad (str_of (jget a (lit ''data'')))) * 6 div 8"

definition images_ok :: "jval \<Rightarrow> bool" where
  "images_ok atts \<longleftrightarrow> is_arr atts \<and> length (items_of atts) \<le> 4 \<and>
     list_all (\<lambda>a. let d = jget a (lit ''data'') in truthy a \<and> is_str d \<and> image_mime (jget a (lit ''mime'')) \<and>
       length (str_of d) mod 4 = 0 \<and> b64_shape (str_of d)) (items_of atts) \<and>
     sum_list (map data_size (items_of atts)) \<le> 2 * 1024 * 1024"

definition design_ok :: "jval \<Rightarrow> bool" where
  "design_ok d \<longleftrightarrow> site_shape d [''font'', ''width'', ''radius'', ''accent''] [] \<and>
     one_of (jget d (lit ''font'')) [''sans'', ''serif'', ''mono''] \<and>
     one_of (jget d (lit ''width'')) [''compact'', ''standard'', ''wide''] \<and>
     one_of (jget d (lit ''radius'')) [''sharp'', ''soft'', ''round''] \<and>
     (case jget d (lit ''accent'') of JStr (c # cs) \<Rightarrow> c = 35 \<and> length cs = 6 \<and> list_all is_hex_digit cs | _ \<Rightarrow> False)"

definition slug_ok :: "ustr \<Rightarrow> bool" where
  "slug_ok s \<longleftrightarrow> s \<noteq> [] \<and> length s \<le> 40 \<and> is_lower (hd s) \<and> list_all (\<lambda>c. is_lower c \<or> is_digit c \<or> c = 45) (tl s)"

fun check_pages :: "jval list \<Rightarrow> ustr list \<Rightarrow> ustr list \<Rightarrow> site_error + ustr list" where
  "check_pages [] pages slugs = Inr pages"
| "check_pages (p # ps) pages slugs =
     (let i = jget p (lit ''id''); t = jget p (lit ''title''); s = jget p (lit ''slug'') in
      if \<not> site_shape p [''id'', ''slug'', ''title'', ''blocks''] [] \<or> \<not> site_id i \<or> str_of i \<in> set pages \<or>
         \<not> text_up_to t 80 \<or> list_all trimmed_away (str_of t) \<or> \<not> is_str s \<or> \<not> slug_ok (str_of s) \<or> str_of s \<in> set slugs
      then Inl SPageName
      else check_pages ps (str_of i # pages) (str_of s # slugs))"

section \<open>The blocks of a page\<close>

text \<open>Handling the elements of an array in turn, with the state threaded through.\<close>

fun each :: "('a \<Rightarrow> 's \<Rightarrow> 'e + 's) \<Rightarrow> 'a list \<Rightarrow> 's \<Rightarrow> 'e + 's" where
  "each f [] s = Inr s"
| "each f (x # xs) s = bindR (f x s) (each f xs)"

definition defined :: "jval \<Rightarrow> bool" where
  "defined v \<longleftrightarrow> v \<noteq> JUndefined"

definition block_ok :: "jval \<Rightarrow> ustr list \<Rightarrow> bool" where
  "block_ok b nodes \<longleftrightarrow>
     site_shape b [''id'', ''type'', ''title'', ''body''] [''url'', ''format'', ''children'', ''media'', ''style'', ''limit''] \<and>
     site_id (jget b (lit ''id'')) \<and> str_of (jget b (lit ''id'')) \<notin> set nodes \<and> one_of (jget b (lit ''type'')) SITE_BLOCKS \<and>
     text_up_to (jget b (lit ''title'')) 120 \<and> text_up_to (jget b (lit ''body'')) 4000"

definition link_ok :: "ustr list \<Rightarrow> jval \<Rightarrow> bool" where
  "link_ok pages u \<longleftrightarrow> is_str u \<and> (str_of u = [] \<or>
     (case strip_prefix (lit ''page:'') (str_of u) of Some p \<Rightarrow> p \<in> set pages | None \<Rightarrow> safeSiteUrl (str_of u)))"

definition opt_one_of :: "jval \<Rightarrow> string list \<Rightarrow> bool" where
  "opt_one_of v ks \<longleftrightarrow> (defined v \<longrightarrow> one_of v ks)"

definition block_style_ok :: "jval \<Rightarrow> bool" where
  "block_style_ok st \<longleftrightarrow> site_shape st [] [''align'', ''tone'', ''columns'', ''space''] \<and>
     opt_one_of (jget st (lit ''align'')) [''left'', ''center'', ''right''] \<and>
     opt_one_of (jget st (lit ''tone'')) [''surface'', ''soft'', ''accent''] \<and>
     (defined (jget st (lit ''columns'')) \<longrightarrow> jget st (lit ''columns'') \<in> set (map JInt [1, 2, 3])) \<and>
     opt_one_of (jget st (lit ''space'')) [''compact'', ''normal'', ''large'']"

definition gallery_ok :: "jval \<Rightarrow> jval \<Rightarrow> bool" where
  "gallery_ok ty media \<longleftrightarrow> one_of ty [''image'', ''gallery''] \<and> is_arr media \<and>
     length (items_of media) \<le> (if ty = JStr (lit ''image'') then 1 else 4)"

definition media_ok :: "jval list \<Rightarrow> jval \<Rightarrow> bool" where
  "media_ok atts m \<longleftrightarrow> site_shape m [''attachment'', ''alt''] [] \<and>
     (case jget m (lit ''attachment'') of
        JInt i \<Rightarrow> 0 \<le> i \<and> nat i < length atts \<and> image_mime (jget (atts ! nat i) (lit ''mime''))
      | _ \<Rightarrow> False) \<and> text_up_to (jget m (lit ''alt'')) 300"

definition limit_ok :: "jval \<Rightarrow> jval \<Rightarrow> bool" where
  "limit_ok ty l \<longleftrightarrow> ty = JStr (lit ''posts'') \<and> (case l of JInt i \<Rightarrow> 1 \<le> i \<and> i \<le> 12 | _ \<Rightarrow> False)"

text \<open>One block; \<open>V\<close> visits its children.\<close>

definition visit_block ::
    "(jval \<Rightarrow> ustr list \<Rightarrow> site_error + ustr list) \<Rightarrow> ustr list \<Rightarrow> jval list \<Rightarrow> jval \<Rightarrow> ustr list \<Rightarrow> site_error + ustr list" where
  "visit_block V pages atts b nodes =
     (let get = (\<lambda>k. jget b (lit k)); ty = get ''type''; children = get ''children''; media = get ''media'';
          nodes' = str_of (get ''id'') # nodes in
      if \<not> block_ok b nodes then Inl SBlock
      else if length nodes' > SITE_blocks then Inl SManyBlocks
      else if defined (get ''format'') \<and> \<not> one_of (get ''format'') [''plain'', ''markdown''] then Inl SFormat
      else if defined (get ''url'') \<and> \<not> link_ok pages (get ''url'') then Inl SLink
      else if defined (get ''style'') \<and> \<not> block_style_ok (get ''style'') then Inl SBlockStyle
      else if defined children \<and> ty \<noteq> JStr (lit ''columns'') then Inl SChildren
      else bindR (if defined children then V children nodes' else Inr nodes') (\<lambda>nodes''.
        if defined media \<and> \<not> gallery_ok ty media then Inl SGallery
        else if defined media \<and> \<not> list_all (media_ok atts) (items_of media) then Inl SImage
        else if defined (get ''limit'') \<and> \<not> limit_ok ty (get ''limit'') then Inl SLimit
        else Inr nodes''))"

text \<open>
  The first argument is the number of levels that may still hold blocks: \<open>visit(blocks, d)\<close> of
  the code is \<open>visit (SITE_depth + 1 - d)\<close>. The state is the set \<open>nodes\<close>, latest first.
\<close>

primrec visit :: "nat \<Rightarrow> ustr list \<Rightarrow> jval list \<Rightarrow> jval \<Rightarrow> ustr list \<Rightarrow> site_error + ustr list" where
  "visit 0 pages atts blocks nodes = (if blocks = JArr [] then Inr nodes else Inl SDepth)"
| "visit (Suc n) pages atts blocks nodes =
     (if \<not> is_arr blocks \<or> length (items_of blocks) > SITE_siblings then Inl SDepth
      else each (visit_block (visit n pages atts) pages atts) (items_of blocks) nodes)"

section \<open>Site documents\<close>

definition site_head_ok :: "jval \<Rightarrow> bool" where
  "site_head_ok s \<longleftrightarrow> jget s (lit ''version'') = JInt 1 \<and> text_up_to (jget s (lit ''title'')) 120 \<and>
     text_up_to (jget s (lit ''description'')) 500 \<and> site_id (jget s (lit ''home'')) \<and> is_arr (jget s (lit ''pages'')) \<and>
     items_of (jget s (lit ''pages'')) \<noteq> [] \<and> length (items_of (jget s (lit ''pages''))) \<le> SITE_pages"

definition validateSite :: "jval \<Rightarrow> jval \<Rightarrow> site_error + unit" where
  "validateSite s attachments =
     (if \<not> site_shape s [''version'', ''title'', ''description'', ''home'', ''pages'', ''design''] [] then Inl SShape
      else if \<not> images_ok attachments then Inl SImages
      else if \<not> site_head_ok s then Inl SPages
      else if \<not> design_ok (jget s (lit ''design'')) then Inl SDesign
      else bindR (check_pages (items_of (jget s (lit ''pages''))) [] []) (\<lambda>pages.
        if str_of (jget s (lit ''home'')) \<notin> set pages then Inl SHome
        else bindR (each (\<lambda>p. visit SITE_depth pages (items_of attachments) (jget p (lit ''blocks'')))
                      (items_of (jget s (lit ''pages''))) [])
          (\<lambda>_. case canon s of Inl e \<Rightarrow> Inl (SText e)
               | Inr t \<Rightarrow> if utf8_length t > SITE_bytes then Inl STooLarge else Inr ())))"

section \<open>Older clients\<close>

text \<open>The one page a list of simple blocks becomes.\<close>

definition url_field :: "jval \<Rightarrow> (ustr \<times> jval) list" where
  "url_field b = (let u = jget b (lit ''url'') in
     if truthy u \<and> safeSiteUrl (str_of u) then [(lit ''url'', u)] else [])"

definition legacy_block :: "nat \<Rightarrow> jval \<Rightarrow> jval" where
  "legacy_block i b = JObj ([(lit ''id'', JStr (lit ''block-'' @ nat_text i)), (lit ''type'', jget b (lit ''type'')),
     (lit ''title'', jget b (lit ''title'')), (lit ''body'', jget b (lit ''body''))] @ url_field b)"

definition legacySite :: "jval list \<Rightarrow> ustr \<Rightarrow> jval" where
  "legacySite blocks title = JObj [
     (lit ''version'', JInt 1), (lit ''title'', JStr title), (lit ''description'', JStr (lit ''Um lugar teu na rede.'')),
     (lit ''home'', JStr (lit ''home'')),
     (lit ''design'', JObj [(lit ''font'', JStr (lit ''sans'')), (lit ''width'', JStr (lit ''standard'')),
        (lit ''radius'', JStr (lit ''soft'')), (lit ''accent'', JStr (lit ''#207a70''))]),
     (lit ''pages'', JArr [JObj [(lit ''id'', JStr (lit ''home'')), (lit ''slug'', JStr (lit ''inicio'')),
        (lit ''title'', JStr (lit ''In'' @ [237] @ lit ''cio'')),
        (lit ''blocks'', JArr (map2 legacy_block [0..<length blocks] blocks))]])]"

lemma children_smaller: "size_list size (items_of (jget n (lit ''children''))) < Suc (size n)"
proof (cases n)
  case (JObj kvs)
  show ?thesis
  proof (cases "oget kvs (lit ''children'')")
    case (Some w)
    then have "(lit ''children'', w) \<in> set kvs" by (rule oget_SomeD)
    then have "size w < Suc (size_list (size_prod (\<lambda>_. 0) size) kvs)" by (induction kvs) auto
    with Some JObj show ?thesis by (auto simp: jget_def items_of_def split: jval.splits)
  qed (simp add: JObj jget_def items_of_def)
qed (simp_all add: jget_def items_of_def)

definition fallback_type :: "jval \<Rightarrow> jval" where
  "fallback_type n = (let ty = jget n (lit ''type''); u = jget n (lit ''url'') in
     if ty = JStr (lit ''hero'') then ty else if ty = JStr (lit ''callout'') then ty
     else if truthy u \<and> safeSiteUrl (str_of u) then JStr (lit ''links'') else JStr (lit ''text''))"

definition fallback_block :: "jval \<Rightarrow> jval" where
  "fallback_block n = JObj ([(lit ''id'', jget n (lit ''id'')), (lit ''type'', fallback_type n),
     (lit ''title'', jget n (lit ''title'')), (lit ''body'', jget n (lit ''body''))] @ url_field n)"

function add_nodes :: "jval list \<Rightarrow> jval list \<Rightarrow> jval list" where
  "add_nodes [] result = result"
| "add_nodes (n # ns) result =
     (if length result \<ge> 24 then result
      else let r = (if truthy (jget n (lit ''title'')) \<or> truthy (jget n (lit ''body'')) then result @ [fallback_block n] else result);
               children = jget n (lit ''children'')
           in add_nodes ns (if truthy children then add_nodes (items_of children) r else r))"
  by pat_completeness auto
termination
  by (relation "measure (\<lambda>(ns, r). size_list size ns)")
    (use children_smaller in \<open>auto simp: less_Suc_eq_le intro: le_imp_less_Suc trans_le_add1\<close>)

definition siteFallback :: "jval \<Rightarrow> jval list option" where
  "siteFallback site =
     (case List.find (\<lambda>p. jget p (lit ''id'') = jget site (lit ''home'')) (items_of (jget site (lit ''pages''))) of
        None \<Rightarrow> None | Some p \<Rightarrow> Some (add_nodes (items_of (jget p (lit ''blocks''))) []))"

section \<open>Drafts\<close>

definition asset_summary :: "jval \<Rightarrow> jval" where
  "asset_summary a = JObj [(lit ''name'', jget a (lit ''name'')), (lit ''mime'', jget a (lit ''mime'')),
     (lit ''data'', JStr []), (lit ''size'', JInt (int (data_size a)))]"

definition draftSummary :: "jval \<Rightarrow> jval" where
  "draftSummary draft =
     (if \<not> truthy draft then JNull
      else let atts = jget draft (lit ''attachments'') in
        JObj (if truthy atts then oset (lit ''attachments'') (JArr (map asset_summary (items_of atts))) (fields_of draft)
              else fields_of draft))"

section \<open>The tree of blocks in the editor\<close>

function flatten :: "jval list \<Rightarrow> nat \<Rightarrow> jval \<Rightarrow> (jval \<times> nat \<times> jval) list" where
  "flatten [] depth parent = []"
| "flatten (n # ns) depth parent =
     (n, depth, parent) # flatten (items_of (jget n (lit ''children''))) (depth + 1) (jget n (lit ''id'')) @
     flatten ns depth parent"
  by pat_completeness auto
termination
  by (relation "measure (\<lambda>(ns, d, p). size_list size ns)")
    (use children_smaller in \<open>auto simp: less_Suc_eq_le intro: le_imp_less_Suc trans_le_add1\<close>)

definition countBlocks :: "jval \<Rightarrow> nat" where
  "countBlocks site = fold (\<lambda>p n. n + length (flatten (items_of (jget p (lit ''blocks''))) 1 JUndefined))
     (items_of (jget site (lit ''pages''))) 0"

section \<open>The declared types\<close>

text \<open>
  \<open>SiteNode\<close>, \<open>SitePage\<close> and \<open>SiteDocument\<close> as the source declares them, read as predicates on
  the values of the runtime; an optional field may be absent or undefined.
\<close>

definition is_number :: "jval \<Rightarrow> bool" where
  "is_number v \<longleftrightarrow> (case v of JInt _ \<Rightarrow> True | JFrac _ \<Rightarrow> True | JNonFinite \<Rightarrow> True | _ \<Rightarrow> False)"

definition site_media :: "jval \<Rightarrow> bool" where
  "site_media m \<longleftrightarrow> is_obj m \<and> is_number (jget m (lit ''attachment'')) \<and> is_str (jget m (lit ''alt''))"

definition site_style :: "jval \<Rightarrow> bool" where
  "site_style st \<longleftrightarrow> is_obj st \<and> opt_one_of (jget st (lit ''align'')) [''left'', ''center'', ''right''] \<and>
     opt_one_of (jget st (lit ''tone'')) [''surface'', ''soft'', ''accent''] \<and>
     jget st (lit ''columns'') \<in> set [JUndefined, JInt 1, JInt 2, JInt 3] \<and>
     opt_one_of (jget st (lit ''space'')) [''compact'', ''normal'', ''large'']"

definition site_node_head :: "jval \<Rightarrow> bool" where
  "site_node_head n \<longleftrightarrow> is_obj n \<and> is_str (jget n (lit ''id'')) \<and> one_of (jget n (lit ''type'')) SITE_BLOCKS \<and>
     is_str (jget n (lit ''title'')) \<and> is_str (jget n (lit ''body'')) \<and>
     (defined (jget n (lit ''url'')) \<longrightarrow> is_str (jget n (lit ''url''))) \<and>
     opt_one_of (jget n (lit ''format'')) [''plain'', ''markdown''] \<and>
     (defined (jget n (lit ''media'')) \<longrightarrow>
        is_arr (jget n (lit ''media'')) \<and> list_all site_media (items_of (jget n (lit ''media'')))) \<and>
     (defined (jget n (lit ''limit'')) \<longrightarrow> is_number (jget n (lit ''limit''))) \<and>
     (defined (jget n (lit ''style'')) \<longrightarrow> site_style (jget n (lit ''style''))) \<and>
     (defined (jget n (lit ''children'')) \<longrightarrow> is_arr (jget n (lit ''children'')))"

function site_nodes :: "jval list \<Rightarrow> bool" where
  "site_nodes [] \<longleftrightarrow> True"
| "site_nodes (n # ns) \<longleftrightarrow> site_node_head n \<and> site_nodes (items_of (jget n (lit ''children''))) \<and> site_nodes ns"
  by pat_completeness auto
termination
  by (relation "measure (size_list size)")
    (use children_smaller in \<open>auto simp: less_Suc_eq_le intro: le_imp_less_Suc trans_le_add1\<close>)

definition site_page :: "jval \<Rightarrow> bool" where
  "site_page p \<longleftrightarrow> is_obj p \<and> is_str (jget p (lit ''id'')) \<and> is_str (jget p (lit ''slug'')) \<and> is_str (jget p (lit ''title'')) \<and>
     is_arr (jget p (lit ''blocks'')) \<and> site_nodes (items_of (jget p (lit ''blocks'')))"

definition site_document :: "jval \<Rightarrow> bool" where
  "site_document s \<longleftrightarrow> is_obj s \<and> jget s (lit ''version'') = JInt 1 \<and> is_str (jget s (lit ''title'')) \<and>
     is_str (jget s (lit ''description'')) \<and> is_str (jget s (lit ''home'')) \<and> is_arr (jget s (lit ''pages'')) \<and>
     list_all site_page (items_of (jget s (lit ''pages''))) \<and>
     (let d = jget s (lit ''design'') in is_obj d \<and> one_of (jget d (lit ''font'')) [''sans'', ''serif'', ''mono''] \<and>
        one_of (jget d (lit ''width'')) [''compact'', ''standard'', ''wide''] \<and>
        one_of (jget d (lit ''radius'')) [''sharp'', ''soft'', ''round''] \<and> is_str (jget d (lit ''accent'')))"

end
