(* ===== verification/Content.thy ===== *)
theory Content
  imports Site
begin

text \<open>
  The shape every published content must have before a node or a browser signs it
  (\<open>packages/content/src/validation.ts\<close>), and the check the site editor makes of its own value
  before it is saved (\<open>validateStudio\<close> of \<open>apps/web/src/site/model.ts\<close>).
\<close>

datatype content_error =
    CType | CText | CReaction | CPriority | CTheme | CMembers | CManyAttachments | CAttachment | CSite site_error | CPage
  | CBlock | CEncoding json_error

definition content_types :: "string list" where
  "content_types = [''message'', ''post'', ''group'', ''site'', ''comment'', ''reaction'', ''edit'', ''delete'', ''receipt'',
     ''delivery'', ''alert'']"

definition text_field_ok :: "jval \<Rightarrow> string \<Rightarrow> bool" where
  "text_field_ok c k \<longleftrightarrow>
     (defined (jget c (lit k)) \<longrightarrow> text_up_to (jget c (lit k)) (if k = ''text'' then 12000 else 256))"

definition attachment_ok :: "jval \<Rightarrow> bool" where
  "attachment_ok a \<longleftrightarrow> truthy a \<and> text_up_to (jget a (lit ''name'')) 150 \<and> text_up_to (jget a (lit ''mime'')) 100 \<and>
     text_up_to (jget a (lit ''data'')) 3500000 \<and> b64_shape (str_of (jget a (lit ''data'')))"

definition simple_block_ok :: "jval \<Rightarrow> bool" where
  "simple_block_ok b \<longleftrightarrow> truthy b \<and> text_up_to (jget b (lit ''id'')) 64 \<and>
     one_of (jget b (lit ''type'')) [''hero'', ''text'', ''links'', ''callout''] \<and>
     text_up_to (jget b (lit ''title'')) 120 \<and> text_up_to (jget b (lit ''body'')) 4000 \<and>
     (truthy (jget b (lit ''url'')) \<longrightarrow>
        text_up_to (jget b (lit ''url'')) 2000 \<and> strip_prefix (lit ''https://'') (str_of (jget b (lit ''url''))) \<noteq> None)"

definition simple_page_ok :: "jval \<Rightarrow> jval \<Rightarrow> bool" where
  "simple_page_ok blocks theme \<longleftrightarrow> is_arr blocks \<and> length (items_of blocks) \<le> 24 \<and>
     (theme = JUndefined \<or> theme = JNull \<or> one_of theme [''sand'', ''forest'', ''ink''])"

definition validateContentShape :: "jval \<Rightarrow> content_error + unit" where
  "validateContentShape c =
     (let get = (\<lambda>k. jget c (lit k)); atts = get ''attachments'' in
      if \<not> truthy c \<or> \<not> one_of (get ''type'') content_types then Inl CType
      else if \<not> list_all (text_field_ok c) [''text'', ''title'', ''conversation'', ''target'', ''replyTo'', ''emoji''] then Inl CText
      else if defined (get ''value'') \<and> \<not> is_bool (get ''value'') then Inl CReaction
      else if defined (get ''priority'') \<and> \<not> one_of (get ''priority'') [''sos'', ''normal'', ''bulk''] then Inl CPriority
      else if defined (get ''theme'') \<and> \<not> is_str (get ''theme'') then Inl CTheme
      else if truthy (get ''members'') \<and> (\<not> is_arr (get ''members'') \<or> length (items_of (get ''members'')) > 64) then Inl CMembers
      else if truthy atts \<and> (\<not> is_arr atts \<or> length (items_of atts) > 4) then Inl CManyAttachments
      else if truthy atts \<and> \<not> list_all attachment_ok (items_of atts) then Inl CAttachment
      else bindR (if get ''type'' = JStr (lit ''site'')
          then bindR (if defined (get ''site'')
                  then case_sum (\<lambda>e. Inl (CSite e)) Inr
                         (validateSite (get ''site'') (if atts = JUndefined then JArr [] else atts))
                  else Inr ())
                (\<lambda>_. if \<not> simple_page_ok (get ''blocks'') (get ''theme'') then Inl CPage
                     else require (list_all simple_block_ok (items_of (get ''blocks''))) CBlock)
          else Inr ())
        (\<lambda>_. case canon c of Inl e \<Rightarrow> Inl (CEncoding e) | Inr _ \<Rightarrow> Inr ()))"

section \<open>The value of the editor\<close>

datatype studio_error = BadStudio | BadStudioImage | StudioImagesTooLarge | StudioSite site_error

definition studio_image_ok :: "jval \<Rightarrow> bool" where
  "studio_image_ok a \<longleftrightarrow> truthy a \<and> image_mime (jget a (lit ''mime'')) \<and> is_str (jget a (lit ''data'')) \<and>
     b64_shape (str_of (jget a (lit ''data''))) \<and> text_up_to (jget a (lit ''name'')) 150"

definition validateStudio :: "jval \<Rightarrow> studio_error + unit" where
  "validateStudio value =
     (let atts = jget value (lit ''attachments'') in
      if \<not> truthy value \<or> \<not> one_of (jget value (lit ''theme'')) [''sand'', ''forest'', ''ink''] \<or> \<not> is_arr atts \<or>
         length (items_of atts) > SITE_assets then Inl BadStudio
      else if \<not> list_all studio_image_ok (items_of atts) then Inl BadStudioImage
      else if sum_list (map (\<lambda>a. length (str_of (jget a (lit ''data'')))) (items_of atts)) > (2 * 1024 * 1024 + 2) div 3 * 4
        then Inl StudioImagesTooLarge
      else case_sum (\<lambda>e. Inl (StudioSite e)) Inr (validateSite (jget value (lit ''site'')) atts))"

text \<open>What the editor sends to be published (\<open>apps/web/src/main.tsx\<close>, \<open>onPublish\<close>).\<close>

definition published_site :: "jval \<Rightarrow> jval option" where
  "published_site value = map_option (\<lambda>bs. JObj [
       (lit ''type'', JStr (lit ''site'')), (lit ''blocks'', JArr bs), (lit ''theme'', jget value (lit ''theme'')),
       (lit ''site'', jget value (lit ''site'')), (lit ''attachments'', jget value (lit ''attachments''))])
     (siteFallback (jget value (lit ''site'')))"

end
