(* ===== verification/Site_Facts.thy ===== *)
theory Site_Facts
  imports Content Encodable
begin

text \<open>
  What the validation of sites promises: bounds, distinct identifiers, links and images that
  exist; that every validated site has an excerpt older clients accept; that the site made of
  the blocks of an older page is valid unless its text is too long.
\<close>

section \<open>The walk over the blocks\<close>

text \<open>What the walk establishes of one block.\<close>

definition block_good :: "ustr list \<Rightarrow> jval list \<Rightarrow> jval \<Rightarrow> bool" where
  "block_good pages atts b \<longleftrightarrow> (let get = (\<lambda>k. jget b (lit k)) in
     block_ok b [] \<and> opt_one_of (get ''format'') [''plain'', ''markdown''] \<and>
     (defined (get ''url'') \<longrightarrow> link_ok pages (get ''url'')) \<and> (defined (get ''style'') \<longrightarrow> block_style_ok (get ''style'')) \<and>
     (defined (get ''children'') \<longrightarrow> get ''type'' = JStr (lit ''columns'') \<and> is_arr (get ''children'')) \<and>
     (defined (get ''media'') \<longrightarrow> gallery_ok (get ''type'') (get ''media'') \<and> list_all (media_ok atts) (items_of (get ''media''))) \<and>
     (defined (get ''limit'') \<longrightarrow> limit_ok (get ''type'') (get ''limit'')))"

definition node_id :: "jval \<Rightarrow> ustr" where
  "node_id b = str_of (jget b (lit ''id''))"

lemma block_ok_iff: "block_ok b nodes \<longleftrightarrow> block_ok b [] \<and> node_id b \<notin> set nodes"
  by (auto simp: block_ok_def node_id_def)

lemma visit_blockE:
  assumes "visit_block V pages atts b nodes = Inr nodes'" "\<And>c n r. V c n = Inr r \<Longrightarrow> is_arr c"
  shows "block_good pages atts b \<and> node_id b \<notin> set nodes \<and> Suc (length nodes) \<le> SITE_blocks \<and>
    (if defined (jget b (lit ''children'')) then V (jget b (lit ''children'')) (node_id b # nodes) = Inr nodes'
     else nodes' = node_id b # nodes)"
  using assms(1) block_ok_iff [of b nodes] assms(2)
  by (auto simp: visit_block_def Let_def bindR_Inr_iff block_good_def node_id_def opt_one_of_def split: if_splits)

lemma visit_arr: "visit n pages atts c nodes = Inr r \<Longrightarrow> is_arr c"
  by (cases n) (auto simp: is_arr_def split: if_splits)

definition ids :: "(jval \<times> nat \<times> jval) list \<Rightarrow> ustr list" where
  "ids fl = map (\<lambda>e. node_id (fst e)) fl"

lemma flatten_depth_shift: "map fst (flatten ns d p) = map fst (flatten ns e q)"
proof (induction ns d p arbitrary: e q rule: flatten.induct)
  case (2 n ns d p)
  show ?case using 2(1) [of "e + 1" "jget n (lit ''id'')"] 2(2) [of e q] by simp
qed simp

text \<open>The walk visits exactly the blocks \<open>flatten\<close> lists, in its order.\<close>

definition walked :: "nat \<Rightarrow> ustr list \<Rightarrow> jval list \<Rightarrow> (jval \<times> nat \<times> jval) list \<Rightarrow> ustr list \<Rightarrow> ustr list \<Rightarrow> bool" where
  "walked lim pages atts fl nodes nodes' \<longleftrightarrow> nodes' = rev (ids fl) @ nodes \<and>
     (distinct nodes \<longrightarrow> distinct nodes') \<and> (length nodes \<le> SITE_blocks \<longrightarrow> length nodes' \<le> SITE_blocks) \<and>
     list_all (\<lambda>e. block_good pages atts (fst e) \<and> fst (snd e) \<le> lim) fl"

lemma walked_Nil: "walked lim pages atts [] nodes nodes"
  by (simp add: walked_def ids_def)

lemma walked_append:
  "walked lim pages atts a n n' \<Longrightarrow> walked lim pages atts b n' n'' \<Longrightarrow> walked lim pages atts (a @ b) n n''"
  unfolding walked_def ids_def by (elim conjE, intro conjI) (simp, blast, blast, simp)

lemma walked_block:
  assumes "block_good pages atts b" "node_id b \<notin> set nodes" "Suc (length nodes) \<le> SITE_blocks" "d \<le> lim"
  shows "walked lim pages atts [(b, d, p)] nodes (node_id b # nodes)"
  using assms by (simp add: walked_def ids_def)

lemma visit_walked:
  "visit n pages atts blocks nodes = Inr nodes' \<Longrightarrow> d + n = Suc lim \<Longrightarrow>
   walked lim pages atts (flatten (items_of blocks) d p) nodes nodes'"
proof (induction n arbitrary: blocks nodes nodes' d p)
  case 0
  then show ?case by (auto simp: items_of_def walked_Nil split: if_splits)
next
  case (Suc n)
  then have run: "each (visit_block (visit n pages atts) pages atts) (items_of blocks) nodes = Inr nodes'"
    by (simp split: if_splits)
  have d: "Suc d + n = Suc lim" "d \<le> lim" using Suc.prems by simp_all
  from run show ?case
  proof (induction "items_of blocks" arbitrary: blocks nodes)
    case Nil
    then show ?case by (simp add: walked_Nil flip: Nil.hyps)
  next
    case (Cons b bs)
    have items: "items_of (JArr bs) = bs" by (simp add: items_of_def)
    from Cons.prems Cons.hyps(2) [symmetric] obtain mid
      where b: "visit_block (visit n pages atts) pages atts b nodes = Inr mid"
        and rest: "each (visit_block (visit n pages atts) pages atts) bs mid = Inr nodes'"
      by (auto simp: bindR_Inr_iff)
    note good = visit_blockE [OF b visit_arr]
    let ?c = "items_of (jget b (lit ''children''))"
    have kids: "walked lim pages atts (flatten ?c (d + 1) (jget b (lit ''id''))) (node_id b # nodes) mid"
    proof (cases "defined (jget b (lit ''children''))")
      case True
      with good show ?thesis by (intro Suc.IH) (use d in auto)
    next
      case False
      with good show ?thesis by (simp add: defined_def items_of_def walked_Nil)
    qed
    have tail: "walked lim pages atts (flatten bs d p) mid nodes'"
      using Cons.hyps(1) [of "JArr bs" mid] rest by (simp add: items)
    have "walked lim pages atts [(b, d, p)] nodes (node_id b # nodes)"
      using good d by (intro walked_block) auto
    from walked_append [OF this walked_append [OF kids tail]] show ?case
      by (simp flip: Cons.hyps(2))
  qed
qed

section \<open>Pages\<close>

definition page_ids :: "jval \<Rightarrow> ustr list" where
  "page_ids s = map node_id (items_of (jget s (lit ''pages'')))"

definition page_good :: "jval \<Rightarrow> bool" where
  "page_good p \<longleftrightarrow> site_shape p [''id'', ''slug'', ''title'', ''blocks''] [] \<and> site_id (jget p (lit ''id'')) \<and>
     text_up_to (jget p (lit ''title'')) 80 \<and> is_str (jget p (lit ''slug'')) \<and> slug_ok (str_of (jget p (lit ''slug'')))"

abbreviation slug :: "jval \<Rightarrow> ustr" where
  "slug p \<equiv> str_of (jget p (lit ''slug''))"

lemma check_pagesE:
  "check_pages ps pages slugs = Inr r \<Longrightarrow> distinct pages \<Longrightarrow> distinct slugs \<Longrightarrow>
   r = rev (map node_id ps) @ pages \<and> distinct r \<and> list_all page_good ps \<and> distinct (rev (map slug ps) @ slugs)"
proof (induction ps arbitrary: pages slugs)
  case (Cons p ps)
  have head: "page_good p \<and> node_id p \<notin> set pages \<and> slug p \<notin> set slugs"
    and rest: "check_pages ps (node_id p # pages) (slug p # slugs) = Inr r"
    using Cons.prems(1) by (auto simp: Let_def page_good_def node_id_def split: if_splits)
  have "r = rev (map node_id ps) @ node_id p # pages \<and> distinct r \<and> list_all page_good ps \<and>
    distinct (rev (map slug ps) @ slug p # slugs)"
    by (rule Cons.IH [OF rest]) (use head Cons.prems in auto)
  then have "r = rev (map node_id ps) @ node_id p # pages" "distinct r" "list_all page_good ps"
    "distinct (rev (map slug ps) @ slug p # slugs)" by blast+
  then show ?case using head by (intro conjI) (simp, assumption, simp, simp)
qed simp

text \<open>All the blocks of a site, with their depths.\<close>

definition site_blocks :: "jval \<Rightarrow> (jval \<times> nat \<times> jval) list" where
  "site_blocks s = concat (map (\<lambda>p. flatten (items_of (jget p (lit ''blocks''))) 1 JUndefined) (items_of (jget s (lit ''pages''))))"

lemma countBlocks_site: "countBlocks s = length (site_blocks s)"
proof -
  have "fold (\<lambda>p n. n + f p) ps k = k + sum_list (map f ps)" for f :: "jval \<Rightarrow> nat" and ps k
    by (induction ps arbitrary: k) simp_all
  then show ?thesis by (simp add: countBlocks_def site_blocks_def length_concat comp_def)
qed

lemma pages_walked:
  "each (\<lambda>p. visit SITE_depth pages atts (jget p (lit ''blocks''))) ps nodes = Inr nodes' \<Longrightarrow>
   walked SITE_depth pages atts (concat (map (\<lambda>p. flatten (items_of (jget p (lit ''blocks''))) 1 JUndefined) ps)) nodes nodes'"
proof (induction ps arbitrary: nodes)
  case (Cons p ps)
  then obtain mid where m: "visit SITE_depth pages atts (jget p (lit ''blocks'')) nodes = Inr mid"
    "each (\<lambda>p. visit SITE_depth pages atts (jget p (lit ''blocks''))) ps mid = Inr nodes'"
    by (auto simp: bindR_Inr_iff)
  have "walked SITE_depth pages atts (flatten (items_of (jget p (lit ''blocks''))) 1 JUndefined) nodes mid"
    by (rule visit_walked [OF m(1)]) simp
  from walked_append [OF this Cons.IH [OF m(2)]] show ?case by simp
qed (simp add: walked_Nil)

lemma validateSite_facts:
  assumes "validateSite s atts = Inr ()"
  obtains nodes t where
    "site_head_ok s" "design_ok (jget s (lit ''design''))" "images_ok atts" "distinct (page_ids s)"
    "list_all page_good (items_of (jget s (lit ''pages'')))" "str_of (jget s (lit ''home'')) \<in> set (page_ids s)"
    "distinct (map slug (items_of (jget s (lit ''pages''))))"
    "walked SITE_depth (rev (page_ids s)) (items_of atts) (site_blocks s) [] nodes"
    "canon s = Inr t" "utf8_length t \<le> SITE_bytes"
proof -
  from assms obtain pages nodes t where
    h: "site_head_ok s" "design_ok (jget s (lit ''design''))" "images_ok atts"
    and p: "check_pages (items_of (jget s (lit ''pages''))) [] [] = Inr pages" "str_of (jget s (lit ''home'')) \<in> set pages"
    and v: "each (\<lambda>p. visit SITE_depth pages (items_of atts) (jget p (lit ''blocks''))) (items_of (jget s (lit ''pages''))) []
      = Inr nodes"
    and t: "canon s = Inr t" "utf8_length t \<le> SITE_bytes"
    by (auto simp: validateSite_def bindR_Inr_iff split: if_splits sum.splits)
  have nil: "distinct ([] :: ustr list)" by simp
  have "pages = rev (map node_id (items_of (jget s (lit ''pages'')))) @ []" and pg: "distinct pages"
    "list_all page_good (items_of (jget s (lit ''pages'')))" "distinct (rev (map slug (items_of (jget s (lit ''pages'')))) @ [])"
    using check_pagesE [OF p(1) nil nil] by blast+
  then have pages: "pages = rev (page_ids s)" by (simp add: page_ids_def)
  from pages_walked [OF v] have "walked SITE_depth (rev (page_ids s)) (items_of atts) (site_blocks s) [] nodes"
    by (simp add: site_blocks_def pages)
  moreover have "distinct (page_ids s)" using pg(1) pages by (metis distinct_rev)
  moreover have "str_of (jget s (lit ''home'')) \<in> set (page_ids s)" using p(2) pages by simp
  moreover have "distinct (map slug (items_of (jget s (lit ''pages''))))" using pg(3) by (simp only: distinct_rev append_Nil2)
  ultimately show thesis using h pg(2) t by (intro that)
qed

text \<open>
  C24: A site document that passes the validation has at least one and at most twelve pages with
  distinct identifiers and addresses, one of which is the home page; its blocks, at whatever
  depth, are at most 128, nest at most three deep and have distinct identifiers over the whole
  site; and every block keeps its limits, its links go to an existing page or a safe address,
  and its images are attachments of the site.
\<close>

theorem validateSite_sound:
  assumes "validateSite s atts = Inr ()"
  shows "page_ids s \<noteq> [] \<and> length (page_ids s) \<le> 12 \<and> distinct (page_ids s) \<and>
     distinct (map slug (items_of (jget s (lit ''pages'')))) \<and> str_of (jget s (lit ''home'')) \<in> set (page_ids s) \<and>
     countBlocks s \<le> 128 \<and> distinct (ids (site_blocks s)) \<and>
     list_all (\<lambda>(b, d, p). d \<le> 3 \<and> block_good (rev (page_ids s)) (items_of atts) b) (site_blocks s)"
  using assms
proof (rule validateSite_facts)
  fix nodes t
  assume head: "site_head_ok s" and pages: "distinct (page_ids s)" "str_of (jget s (lit ''home'')) \<in> set (page_ids s)"
    "distinct (map slug (items_of (jget s (lit ''pages''))))"
    and w: "walked SITE_depth (rev (page_ids s)) (items_of atts) (site_blocks s) [] nodes"
  from w have n: "nodes = rev (ids (site_blocks s))" "distinct nodes" "length nodes \<le> SITE_blocks"
    "list_all (\<lambda>e. block_good (rev (page_ids s)) (items_of atts) (fst e) \<and> fst (snd e) \<le> SITE_depth) (site_blocks s)"
    unfolding walked_def by (metis append_Nil2, metis distinct.simps(1), metis le0 list.size(3), blast)
  then have "countBlocks s \<le> 128" "distinct (ids (site_blocks s))"
    by (metis SITE_blocks_def countBlocks_site ids_def length_map length_rev, metis distinct_rev)
  moreover have "list_all (\<lambda>(b, d, p). d \<le> 3 \<and> block_good (rev (page_ids s)) (items_of atts) b) (site_blocks s)"
    using n(4) by (rule list.pred_mono_strong) (auto simp: SITE_depth_def)
  moreover have "page_ids s \<noteq> [] \<and> length (page_ids s) \<le> 12"
    using head by (simp add: site_head_ok_def page_ids_def SITE_pages_def)
  ultimately show ?thesis using pages by blast
qed

section \<open>Safe links\<close>

lemma safe_url_parts:
  assumes "safeSiteUrl u"
  shows "(\<exists>host rest. u = lit ''https://'' @ host @ rest \<and> host \<noteq> [] \<and> length host \<le> 253 \<and> list_all host_char host \<and>
     list_all label_ok (split_on 46 host) \<and> (rest = [] \<or> hd rest \<in> {58, 47, 63, 35}) \<and>
     length u \<le> 2000 \<and> \<not> list_ex bad_char u) \<and>
     length u \<le> 2000 \<and> strip_prefix (lit ''https://'') u \<noteq> None"
proof -
  obtain host port where parts: "url_parts u = Some (host, port)"
    using assms by (cases "url_parts u") (auto simp: safeSiteUrl_def)
  have ok: "length u \<le> 2000" "\<not> list_ex bad_char u" "length host \<le> 253" "list_all label_ok (split_on 46 host)"
    using assms by (auto simp only: safeSiteUrl_def parts option.case prod.case Let_def if_False if_True split: if_splits)
  from parts obtain r where r: "strip_prefix (lit ''https://'') u = Some r"
    by (cases "strip_prefix (lit ''https://'') u") (simp_all add: url_parts_def)
  from parts have host: "host = takeWhile host_char r" "host \<noteq> []"
    and rest: "dropWhile host_char r = [] \<or> hd (dropWhile host_char r) \<in> {58, 47, 63, 35}"
    by (cases "dropWhile host_char r"; simp add: url_parts_def r Let_def split: if_splits)+
  have "u = lit ''https://'' @ r"
    using r append_take_drop_id [of "length (lit ''https://'')" u] by (simp add: strip_prefix_def del: append_take_drop_id split: if_splits)
  then have "u = lit ''https://'' @ host @ dropWhile host_char r"
    by (simp add: host(1))
  moreover have "list_all host_char host" unfolding host(1) by (auto simp: list_all_iff dest: set_takeWhileD)
  moreover have "strip_prefix (lit ''https://'') u \<noteq> None" using r by simp
  ultimately show ?thesis using ok host(2) rest by blast
qed


section \<open>The excerpt for older clients\<close>

text \<open>The blocks below a list of nodes, parents first.\<close>

definition blocks_below :: "jval list \<Rightarrow> jval list" where
  "blocks_below ns = map fst (flatten ns 1 JUndefined)"

lemma blocks_below_simps [simp]:
  "blocks_below [] = []"
  "blocks_below (n # ns) = n # blocks_below (items_of (jget n (lit ''children''))) @ blocks_below ns"
  using flatten_depth_shift [of "items_of (jget n (lit ''children''))" "Suc (Suc 0)" "jget n (lit ''id'')" "Suc 0" JUndefined]
  by (simp_all add: blocks_below_def)

definition shown :: "jval \<Rightarrow> bool" where
  "shown n \<longleftrightarrow> truthy (jget n (lit ''title'')) \<or> truthy (jget n (lit ''body''))"

lemma untruthy_items: "\<not> truthy v \<Longrightarrow> items_of v = []"
  by (cases v) (simp_all add: truthy_def items_of_def)

lemma take_room:
  "length r \<le> k \<Longrightarrow> (r @ map f (take (k - length r) b)) @ map f (take (k - length (r @ map f (take (k - length r) b))) c)
     = r @ map f (take (k - length r) (b @ c))"
  by (simp add: min_def)

lemma add_nodes_reference:
  "length r \<le> 24 \<Longrightarrow> add_nodes ns r = r @ map fallback_block (take (24 - length r) (filter shown (blocks_below ns)))"
proof (induction ns r rule: add_nodes.induct)
  case (2 n ns r)
  show ?case
  proof (cases "length r = 24")
    case False
    let ?r = "if shown n then r @ [fallback_block n] else r"
    let ?kids = "items_of (jget n (lit ''children''))"
    let ?b = "filter shown (blocks_below ?kids)"
    have len: "length ?r \<le> 24" and lt: "\<not> 24 \<le> length r" using False 2(3) by auto
    have kids: "(if truthy (jget n (lit ''children'')) then add_nodes ?kids ?r else ?r)
        = ?r @ map fallback_block (take (24 - length ?r) ?b)"
    proof (cases "truthy (jget n (lit ''children''))")
      case True
      then show ?thesis using 2(1) [OF lt refl refl True, folded shown_def, OF len] by (simp only: if_True)
    next
      case False
      then show ?thesis by (simp add: untruthy_items)
    qed
    let ?s = "?r @ map fallback_block (take (24 - length ?r) ?b)"
    have "add_nodes (n # ns) r = add_nodes ns ?s"
      using lt kids by (simp only: add_nodes.simps if_False Let_def flip: shown_def)
    also have "\<dots> = ?s @ map fallback_block (take (24 - length ?s) (filter shown (blocks_below ns)))"
      using 2(2) [OF lt refl refl, folded shown_def, unfolded kids] len by simp
    also have "\<dots> = ?r @ map fallback_block (take (24 - length ?r) (?b @ filter shown (blocks_below ns)))"
      by (rule take_room [OF len])
    also have "\<dots> = r @ map fallback_block (take (24 - length r) (filter shown (blocks_below (n # ns))))"
      using lt by (cases "shown n") (simp_all add: take_Cons')
    finally show ?thesis .
  qed simp
qed simp

text \<open>
  The excerpt of a site is made of the first 24 blocks of its home page, parents before
  their children, that have a title or a text; it exists when one of the pages is the home page.
\<close>

theorem siteFallback_reference:
  "siteFallback s = map_option (\<lambda>p. map fallback_block
       (take 24 (filter shown (map fst (flatten (items_of (jget p (lit ''blocks''))) 1 JUndefined)))))
     (List.find (\<lambda>p. jget p (lit ''id'') = jget s (lit ''home'')) (items_of (jget s (lit ''pages''))))"
proof -
  have "add_nodes ns [] = map fallback_block (take 24 (filter shown (map fst (flatten ns 1 JUndefined))))" for ns
    using add_nodes_reference [of "[]" ns] by (simp add: blocks_below_def)
  then show ?thesis by (cases "List.find (\<lambda>p. jget p (lit ''id'') = jget s (lit ''home'')) (items_of (jget s (lit ''pages'')))")
      (simp_all add: siteFallback_def)
qed

text \<open>An excerpt block of a validated block passes the check of simple blocks.\<close>

lemma safe_url_simple:
  assumes "safeSiteUrl u"
  shows "length u \<le> 2000 \<and> strip_prefix (lit ''https://'') u \<noteq> None"
  using safe_url_parts [OF assms] by auto

lemma jget_fallback:
  "jget (fallback_block n) (lit ''id'') = jget n (lit ''id'')" "jget (fallback_block n) (lit ''type'') = fallback_type n"
  "jget (fallback_block n) (lit ''title'') = jget n (lit ''title'')" "jget (fallback_block n) (lit ''body'') = jget n (lit ''body'')"
  "jget (fallback_block n) (lit ''url'') =
     (if truthy (jget n (lit ''url'')) \<and> safeSiteUrl (str_of (jget n (lit ''url''))) then jget n (lit ''url'') else JUndefined)"
  by (simp_all add: fallback_block_def jget_def [of "JObj _"] url_field_def Let_def)

lemma fallback_block_ok:
  assumes "block_ok n []" "defined (jget n (lit ''url'')) \<longrightarrow> is_str (jget n (lit ''url''))"
  shows "simple_block_ok (fallback_block n)"
proof -
  have "truthy (fallback_block n)" by (simp add: fallback_block_def truthy_def)
  moreover have "one_of (fallback_type n) [''hero'', ''text'', ''links'', ''callout'']"
    by (simp add: fallback_type_def one_of_def Let_def)
  moreover have "text_up_to (jget n (lit ''id'')) 64" "text_up_to (jget n (lit ''title'')) 120" "text_up_to (jget n (lit ''body'')) 4000"
    using assms(1) by (simp_all add: block_ok_def site_id_def text_up_to_def)
  ultimately show ?thesis
    using assms(2) safe_url_simple by (auto simp: simple_block_ok_def jget_fallback text_up_to_def defined_def truthy_def)
qed

lemma validated_blocks_good:
  assumes "validateSite s atts = Inr ()" "p \<in> set (items_of (jget s (lit ''pages'')))"
    "n \<in> set (map fst (flatten (items_of (jget p (lit ''blocks''))) 1 JUndefined))"
  shows "block_good (rev (page_ids s)) (items_of atts) n"
proof -
  obtain d q where "(n, d, q) \<in> set (flatten (items_of (jget p (lit ''blocks''))) 1 JUndefined)" using assms(3) by auto
  then have "(n, d, q) \<in> set (site_blocks s)" using assms(2) by (auto simp: site_blocks_def)
  moreover obtain nodes where w: "walked SITE_depth (rev (page_ids s)) (items_of atts) (site_blocks s) [] nodes"
    using assms(1) by (rule validateSite_facts)
  have "list_all (\<lambda>e. block_good (rev (page_ids s)) (items_of atts) (fst e) \<and> fst (snd e) \<le> SITE_depth) (site_blocks s)"
    using w unfolding walked_def by blast
  ultimately show ?thesis by (auto simp: list_all_iff)
qed

lemma each_member: "each f xs s = Inr r \<Longrightarrow> x \<in> set xs \<Longrightarrow> \<exists>u v. f x u = Inr v"
  by (induction xs arbitrary: s) (auto simp: bindR_Inr_iff)

lemma validated_blocks_array:
  assumes "validateSite s atts = Inr ()" "p \<in> set (items_of (jget s (lit ''pages'')))"
  shows "is_arr (jget p (lit ''blocks''))"
proof -
  obtain pages nodes where
    "each (\<lambda>p. visit SITE_depth pages (items_of atts) (jget p (lit ''blocks''))) (items_of (jget s (lit ''pages''))) [] = Inr nodes"
    using assms(1) by (auto simp: validateSite_def bindR_Inr_iff split: if_splits)
  from each_member [OF this assms(2)] show ?thesis using visit_arr by blast
qed

lemma home_found:
  assumes "validateSite s atts = Inr ()"
  obtains p where "List.find (\<lambda>p. jget p (lit ''id'') = jget s (lit ''home'')) (items_of (jget s (lit ''pages''))) = Some p"
    "p \<in> set (items_of (jget s (lit ''pages'')))"
  using assms
proof (rule validateSite_facts)
  assume h: "site_head_ok s" "list_all page_good (items_of (jget s (lit ''pages'')))" "str_of (jget s (lit ''home'')) \<in> set (page_ids s)"
  then obtain p where p: "p \<in> set (items_of (jget s (lit ''pages'')))" "node_id p = str_of (jget s (lit ''home''))"
    by (auto simp: page_ids_def)
  moreover have "is_str (jget p (lit ''id''))" "is_str (jget s (lit ''home''))"
    using h p by (auto simp: list_all_iff page_good_def site_head_ok_def site_id_def)
  ultimately have "jget p (lit ''id'') = jget s (lit ''home'')"
    by (auto simp: node_id_def jval_readers split: jval.splits)
  with p show thesis using that
    by (cases "List.find (\<lambda>p. jget p (lit ''id'') = jget s (lit ''home'')) (items_of (jget s (lit ''pages'')))")
      (auto simp: find_None_iff find_Some_iff)
qed

lemma excerpt_fits:
  assumes "validateSite s atts = Inr ()"
  shows "\<exists>bs. siteFallback s = Some bs \<and> simple_page_ok (JArr bs) JUndefined \<and> list_all simple_block_ok bs"
proof -
  obtain p where p: "List.find (\<lambda>p. jget p (lit ''id'') = jget s (lit ''home'')) (items_of (jget s (lit ''pages''))) = Some p"
    "p \<in> set (items_of (jget s (lit ''pages'')))"
    using assms by (rule home_found)
  let ?ns = "items_of (jget p (lit ''blocks''))"
  let ?bs = "map fallback_block (take 24 (filter shown (blocks_below ?ns)))"
  have "siteFallback s = Some ?bs"
    using p(1) add_nodes_reference [of "[]" ?ns] by (simp add: siteFallback_def)
  moreover have "simple_block_ok (fallback_block n)" if "n \<in> set (blocks_below ?ns)" for n
  proof -
    have "block_good (rev (page_ids s)) (items_of atts) n"
      using validated_blocks_good [OF assms p(2)] that by (simp add: blocks_below_def)
    then show ?thesis by (intro fallback_block_ok) (auto simp: block_good_def link_ok_def Let_def)
  qed
  then have "list_all simple_block_ok ?bs" by (auto simp: list_all_iff dest: in_set_takeD)
  moreover have "simple_page_ok (JArr ?bs) JUndefined" by (simp add: simple_page_ok_def is_arr_def items_of_def)
  ultimately show ?thesis by blast
qed

text \<open>
  A validated site always has an excerpt, and the excerpt passes the check the same content
  must pass for its simple blocks (a page of at most 24 blocks, each of them within its limits
  and with no link or a safe one).
\<close>

theorem excerpt_accepted:
  assumes "validateSite s atts = Inr ()"
  shows "\<exists>bs. siteFallback s = Some bs \<and> simple_page_ok (JArr bs) JUndefined \<and> list_all simple_block_ok bs"
  using excerpt_fits [OF assms] .

section \<open>The site of an older page\<close>

lemma jget_legacy:
  "jget (legacy_block i b) (lit ''id'') = JStr (lit ''block-'' @ nat_text i)"
  "jget (legacy_block i b) (lit ''type'') = jget b (lit ''type'')"
  "jget (legacy_block i b) (lit ''title'') = jget b (lit ''title'')"
  "jget (legacy_block i b) (lit ''body'') = jget b (lit ''body'')"
  "jget (legacy_block i b) (lit ''url'') =
     (if truthy (jget b (lit ''url'')) \<and> safeSiteUrl (str_of (jget b (lit ''url''))) then jget b (lit ''url'') else JUndefined)"
  "jget (legacy_block i b) (lit ''format'') = JUndefined" "jget (legacy_block i b) (lit ''style'') = JUndefined"
  "jget (legacy_block i b) (lit ''children'') = JUndefined" "jget (legacy_block i b) (lit ''media'') = JUndefined"
  "jget (legacy_block i b) (lit ''limit'') = JUndefined"
  by (simp_all add: legacy_block_def jget_def [of "JObj _"] url_field_def Let_def)

lemma legacy_shape:
  "site_shape (legacy_block i b) [''id'', ''type'', ''title'', ''body'']
     [''url'', ''format'', ''children'', ''media'', ''style'', ''limit'']"
  by (simp add: site_shape_def legacy_block_def url_field_def Let_def fields_of_def exactShape_def okeys_def ohas_def)

lemma nat_text_short: "n < 24 \<Longrightarrow> length (nat_text n) \<le> 2"
  by (rule length_nat_text) simp_all

lemma legacy_id: "i < 24 \<Longrightarrow> site_id (JStr (lit ''block-'' @ nat_text i))"
  using nat_text_short [of i] nat_text_digits [of _ i]
  by (auto simp: site_id_def is_str_def str_of_def lit_def is_alnum_def is_digit_def is_lower_def list_all_iff)

lemma safe_not_page: "safeSiteUrl u \<Longrightarrow> strip_prefix (lit ''page:'') u = None"
  using safe_url_parts [of u] by (auto simp: strip_prefix_def lit_def)

lemma legacy_block_good:
  assumes "simple_block_ok b" "i < 24"
  shows "visit_block V pages atts (legacy_block i b) nodes =
    (if node_id (legacy_block i b) \<in> set nodes then Inl SBlock
     else if Suc (length nodes) > SITE_blocks then Inl SManyBlocks else Inr (node_id (legacy_block i b) # nodes))"
proof -
  have b: "block_ok (legacy_block i b) []"
    using assms legacy_id [of i] by (auto simp: block_ok_def legacy_shape jget_legacy simple_block_ok_def one_of_def SITE_BLOCKS_def)
  have link: "defined (jget (legacy_block i b) (lit ''url'')) \<Longrightarrow> link_ok pages (jget (legacy_block i b) (lit ''url''))"
    using assms(1) safe_not_page
    by (auto simp: jget_legacy simple_block_ok_def text_up_to_def link_ok_def defined_def)
  show ?thesis
    using b link block_ok_iff [of "legacy_block i b" nodes]
    by (auto simp: visit_block_def Let_def node_id_def jget_legacy defined_def)
qed

lemma each_legacy:
  assumes "list_all simple_block_ok bs" "k + length bs \<le> 24" "length nodes = k" "set nodes \<subseteq> (\<lambda>i. lit ''block-'' @ nat_text i) ` {..<k}"
  shows "\<exists>nodes'. each (visit_block V pages atts) (map2 legacy_block [k..<k + length bs] bs) nodes = Inr nodes'"
  using assms
proof (induction bs arbitrary: k nodes)
  case (Cons b bs)
  have upt: "[k..<k + length (b # bs)] = k # [Suc k..<Suc k + length bs]" by (simp add: upt_conv_Cons del: upt_Suc)
  have fresh: "node_id (legacy_block k b) = lit ''block-'' @ nat_text k" by (simp add: node_id_def jget_legacy str_of_def)
  then have "node_id (legacy_block k b) \<notin> set nodes" using Cons.prems(4) by (auto simp: nat_text_inject)
  moreover have "Suc (length nodes) \<le> SITE_blocks" using Cons.prems(2,3) by (simp add: SITE_blocks_def)
  ultimately have here: "visit_block V pages atts (legacy_block k b) nodes = Inr (node_id (legacy_block k b) # nodes)"
    using Cons.prems legacy_block_good [of b k] by simp
  have "\<exists>nodes'. each (visit_block V pages atts) (map2 legacy_block [Suc k..<Suc k + length bs] bs) (node_id (legacy_block k b) # nodes) = Inr nodes'"
    by (rule Cons.IH) (use Cons.prems in \<open>auto simp: fresh lessThan_Suc\<close>)
  then show ?case by (simp only: upt list.map zip_Cons_Cons prod.case each.simps here bindR_simps)
qed simp

lemma legacy_fields:
  "jget (legacySite bs t) (lit ''version'') = JInt 1" "jget (legacySite bs t) (lit ''title'') = JStr t"
  "jget (legacySite bs t) (lit ''description'') = JStr (lit ''Um lugar teu na rede.'')"
  "jget (legacySite bs t) (lit ''home'') = JStr (lit ''home'')"
  "jget (legacySite bs t) (lit ''design'') = JObj [(lit ''font'', JStr (lit ''sans'')), (lit ''width'', JStr (lit ''standard'')),
        (lit ''radius'', JStr (lit ''soft'')), (lit ''accent'', JStr (lit ''#207a70''))]"
  "jget (legacySite bs t) (lit ''pages'') = JArr [JObj [(lit ''id'', JStr (lit ''home'')), (lit ''slug'', JStr (lit ''inicio'')),
        (lit ''title'', JStr (lit ''In'' @ [237] @ lit ''cio'')),
        (lit ''blocks'', JArr (map2 legacy_block [0..<length bs] bs))]]"
  by (simp_all add: legacySite_def jget_def)

lemma legacy_design: "design_ok (jget (legacySite bs t) (lit ''design''))"
  unfolding legacy_fields
  by (simp add: design_ok_def site_shape_def one_of_def jget_def fields_of_def exactShape_def okeys_def ohas_def)
    (simp add: lit_def is_hex_digit_def is_digit_def)

lemma legacy_page:
  "check_pages [JObj [(lit ''id'', JStr (lit ''home'')), (lit ''slug'', JStr (lit ''inicio'')),
        (lit ''title'', JStr (lit ''In'' @ [237] @ lit ''cio'')), (lit ''blocks'', v)]] [] [] = Inr [lit ''home'']"
  by (simp add: site_shape_def jget_def fields_of_def exactShape_def okeys_def ohas_def is_str_def str_of_def)
    (simp add: site_id_def text_up_to_def slug_ok_def is_str_def str_of_def lit_def is_lower_def is_digit_def is_alnum_def
      trimmed_away_def white_space_def)

lemma simple_block_plain:
  assumes "simple_block_ok b"
  shows "plain (legacy_block i b) \<and> nesting (legacy_block i b) \<le> 1"
proof -
  have "plain v \<and> nesting v = 0" if "is_str v" for v using that by (cases v) (simp_all add: is_str_def)
  then show ?thesis using assms
    by (auto simp: legacy_block_def url_field_def simple_block_ok_def text_up_to_def one_of_def nesting_le Let_def)
qed

lemma legacy_encodes:
  assumes "list_all simple_block_ok bs"
  shows "\<exists>s. canon (legacySite bs t) = Inr s"
proof -
  have "plain v \<and> nesting v \<le> 1" if "v \<in> set (map2 legacy_block [0..<length bs] bs)" for v
    using that assms simple_block_plain by (auto simp: list_all_iff dest: set_zip_rightD)
  then have "plain v \<and> nesting v \<le> 20" if "v \<in> set (map2 legacy_block [0..<length bs] bs)" for v using that le_trans by fastforce
  then have "plain (legacySite bs t)" "nesting (legacySite bs t) \<le> 24"
    by (auto simp: legacySite_def nesting_le list_all_iff)
  then show ?thesis by (simp add: canonical_defined)
qed

text \<open>
  C39: The site an older page is turned into when its owner first opens the editor is valid,
  whatever the valid blocks of the page hold, unless its text is longer than 128 KiB.
\<close>

theorem legacySite_valid:
  assumes "list_all simple_block_ok bs" "length bs \<le> 24" "length t \<le> 120"
  shows "validateSite (legacySite bs t) (JArr []) = Inr () \<or> validateSite (legacySite bs t) (JArr []) = Inl STooLarge"
proof -
  let ?s = "legacySite bs t"
  have shape: "site_shape ?s [''version'', ''title'', ''description'', ''home'', ''pages'', ''design''] []"
    by (simp add: site_shape_def legacySite_def fields_of_def exactShape_def okeys_def ohas_def)
  have images: "images_ok (JArr [])" by (simp add: images_ok_def is_arr_def items_of_def)
  have head: "site_head_ok ?s" using assms(3)
    by (simp add: site_head_ok_def legacy_fields text_up_to_def site_id_def is_str_def str_of_def is_arr_def items_of_def SITE_pages_def)
      (simp add: lit_def is_alnum_def is_lower_def is_digit_def)
  obtain nodes where "each (visit_block (visit 2 [lit ''home''] []) [lit ''home''] []) (map2 legacy_block [0..<length bs] bs) [] = Inr nodes"
    using each_legacy [of bs 0 "[]" "visit 2 [lit ''home''] []" "[lit ''home'']" "[]"] assms by auto
  then have walk: "visit SITE_depth [lit ''home''] [] (JArr (map2 legacy_block [0..<length bs] bs)) [] = Inr nodes"
    using assms(2) by (simp add: SITE_depth_def numeral_3_eq_3 numeral_2_eq_2 is_arr_def items_of_def SITE_siblings_def)
  obtain c where c: "canon ?s = Inr c" using legacy_encodes [OF assms(1)] by blast
  have pages: "items_of (jget ?s (lit ''pages'')) = [JObj [(lit ''id'', JStr (lit ''home'')), (lit ''slug'', JStr (lit ''inicio'')),
        (lit ''title'', JStr (lit ''In'' @ [237] @ lit ''cio'')), (lit ''blocks'', JArr (map2 legacy_block [0..<length bs] bs))]]"
    by (simp add: legacy_fields items_of_def)
  have blocks: "jget (JObj [(a, v), (b, w), (c, x), (lit ''blocks'', u)]) (lit ''blocks'') = u"
    if "a \<noteq> lit ''blocks''" "b \<noteq> lit ''blocks''" "c \<noteq> lit ''blocks''" for a b c v w x u
    using that by (simp add: jget_def)
  show ?thesis
    unfolding validateSite_def pages legacy_page
    using shape images head legacy_design walk c by (simp add: legacy_fields blocks str_of_def items_of_def)
qed

section \<open>From the editor to the network\<close>

lemma published_fields:
  assumes "published_site v = Some c" "siteFallback (jget v (lit ''site'')) = Some bs"
  shows "jget c (lit ''type'') = JStr (lit ''site'')" "jget c (lit ''blocks'') = JArr bs" "jget c (lit ''theme'') = jget v (lit ''theme'')"
    "jget c (lit ''site'') = jget v (lit ''site'')" "jget c (lit ''attachments'') = jget v (lit ''attachments'')"
    "jget c (lit ''text'') = JUndefined" "jget c (lit ''title'') = JUndefined" "jget c (lit ''conversation'') = JUndefined"
    "jget c (lit ''target'') = JUndefined" "jget c (lit ''replyTo'') = JUndefined" "jget c (lit ''emoji'') = JUndefined"
    "jget c (lit ''value'') = JUndefined" "jget c (lit ''priority'') = JUndefined" "jget c (lit ''members'') = JUndefined"
    "truthy c"
proof -
  have c: "c = JObj [(lit ''type'', JStr (lit ''site'')), (lit ''blocks'', JArr bs), (lit ''theme'', jget v (lit ''theme'')),
       (lit ''site'', jget v (lit ''site'')), (lit ''attachments'', jget v (lit ''attachments''))]"
    using assms by (simp add: published_site_def)
  show "jget c (lit ''type'') = JStr (lit ''site'')" "jget c (lit ''blocks'') = JArr bs" "jget c (lit ''theme'') = jget v (lit ''theme'')"
    "jget c (lit ''site'') = jget v (lit ''site'')" "jget c (lit ''attachments'') = jget v (lit ''attachments'')"
    "jget c (lit ''text'') = JUndefined" "jget c (lit ''title'') = JUndefined" "jget c (lit ''conversation'') = JUndefined"
    "jget c (lit ''target'') = JUndefined" "jget c (lit ''replyTo'') = JUndefined" "jget c (lit ''emoji'') = JUndefined"
    "jget c (lit ''value'') = JUndefined" "jget c (lit ''priority'') = JUndefined" "jget c (lit ''members'') = JUndefined"
    "truthy c"
    unfolding c by (simp_all add: jget_def [of "JObj _"] truthy_def)
qed

lemma validateStudio_facts:
  assumes "validateStudio v = Inr ()"
  shows "one_of (jget v (lit ''theme'')) [''sand'', ''forest'', ''ink''] \<and> is_arr (jget v (lit ''attachments'')) \<and>
    length (items_of (jget v (lit ''attachments''))) \<le> 4 \<and> list_all studio_image_ok (items_of (jget v (lit ''attachments''))) \<and>
    sum_list (map (\<lambda>a. length (str_of (jget a (lit ''data'')))) (items_of (jget v (lit ''attachments'')))) \<le> 2796204 \<and>
    validateSite (jget v (lit ''site'')) (jget v (lit ''attachments'')) = Inr ()"
  using assms by (auto simp: validateStudio_def Let_def SITE_assets_def split: if_splits sum.splits)

lemma studio_attachment:
  assumes "studio_image_ok a" "is_str (jget a (lit ''mime''))" "length (str_of (jget a (lit ''data''))) \<le> 2796204"
  shows "attachment_ok a"
proof -
  have "js_string v = str_of v" if "is_str v" for v using that by (cases v) (simp_all add: is_str_def str_of_def)
  then have "str_of (jget a (lit ''mime'')) \<in> lit ` {''image/png'', ''image/jpeg'', ''image/webp'', ''image/gif''}"
    using assms(1,2) by (auto simp: studio_image_ok_def image_mime_def)
  then have "length (str_of (jget a (lit ''mime''))) \<le> 100" by auto
  then show ?thesis using assms by (simp add: studio_image_ok_def attachment_ok_def text_up_to_def)
qed


section \<open>The validation as a type assertion\<close>

lemma shape_obj: "site_shape v r q \<Longrightarrow> is_obj v"
  by (cases v) (simp_all add: site_shape_def exactShape_def is_obj_def)

lemma style_typed: "block_style_ok st \<Longrightarrow> site_style st"
  by (auto simp: block_style_ok_def site_style_def defined_def dest: shape_obj)

lemma media_typed: "media_ok atts m \<Longrightarrow> site_media m"
  by (auto simp: media_ok_def site_media_def text_up_to_def is_number_def dest: shape_obj split: jval.splits)

lemma block_typed:
  assumes "block_good pages atts b"
  shows "site_node_head b"
proof -
  note g = assms [unfolded block_good_def Let_def]
  have "block_ok b []" using g by blast
  then have head: "is_obj b" "is_str (jget b (lit ''id''))" "one_of (jget b (lit ''type'')) SITE_BLOCKS"
    "is_str (jget b (lit ''title''))" "is_str (jget b (lit ''body''))"
    by (auto simp: block_ok_def site_id_def text_up_to_def dest: shape_obj)
  have media: "is_arr (jget b (lit ''media'')) \<and> list_all site_media (items_of (jget b (lit ''media'')))"
    if "defined (jget b (lit ''media''))" using g that media_typed by (auto simp: gallery_ok_def list_all_iff)
  have limit: "is_number (jget b (lit ''limit''))" if "defined (jget b (lit ''limit''))"
    using g that by (auto simp: limit_ok_def is_number_def split: jval.splits)
  show ?thesis
    unfolding site_node_head_def using g head media limit style_typed by (auto simp: link_ok_def)
qed

lemma blocks_typed: "list_all (block_good pages atts) (blocks_below ns) \<Longrightarrow> site_nodes ns"
  by (induction ns rule: site_nodes.induct) (auto simp: block_typed)

text \<open>
  C23: validateSite is declared as a type assertion: a value it accepts has the type
  SiteDocument of the source, with the types of its pages and of the blocks at every depth.
\<close>

theorem validateSite_type:
  assumes "validateSite s atts = Inr ()"
  shows "site_document s"
  using assms
proof (rule validateSite_facts)
  fix nodes t
  assume head: "site_head_ok s" and design: "design_ok (jget s (lit ''design''))"
    and pages: "list_all page_good (items_of (jget s (lit ''pages'')))"
  have "site_page p" if p: "p \<in> set (items_of (jget s (lit ''pages'')))" for p
  proof -
    have "list_all (block_good (rev (page_ids s)) (items_of atts)) (blocks_below (items_of (jget p (lit ''blocks''))))"
      using validated_blocks_good [OF assms p] by (auto simp: blocks_below_def list_all_iff)
    then have "site_nodes (items_of (jget p (lit ''blocks'')))" by (rule blocks_typed)
    moreover have "is_arr (jget p (lit ''blocks''))" by (rule validated_blocks_array [OF assms p])
    moreover have "page_good p" using pages p by (simp add: list_all_iff)
    ultimately show ?thesis by (auto simp: site_page_def page_good_def site_id_def text_up_to_def dest: shape_obj)
  qed
  then have "list_all site_page (items_of (jget s (lit ''pages'')))" by (simp add: list_all_iff)
  moreover have "is_obj s" using assms shape_obj by (auto simp: validateSite_def split: if_splits)
  moreover have "is_str (jget (jget s (lit ''design'')) (lit ''accent''))" "is_obj (jget s (lit ''design''))"
    using design shape_obj by (auto simp: design_ok_def is_str_def split: jval.splits)
  ultimately show ?thesis using head design
    by (auto simp: site_document_def site_head_ok_def design_ok_def text_up_to_def site_id_def Let_def)
qed

end
