(* ===== verification/Site_Examples.thy ===== *)
theory Site_Examples
  imports Site_Facts
begin

text \<open>Concrete sites, on which the properties of \<^theory_text>\<open>Site_Facts\<close> are applied.\<close>

definition ex_block :: "string \<Rightarrow> string \<Rightarrow> (ustr \<times> jval) list \<Rightarrow> jval" where
  "ex_block i ty extra = JObj ([(lit ''id'', JStr (lit i)), (lit ''type'', JStr (lit ty)), (lit ''title'', JStr (lit ''A'')),
     (lit ''body'', JStr [])] @ extra)"

definition ex_image :: jval where
  "ex_image = JObj [(lit ''name'', JStr (lit ''a.png'')), (lit ''mime'', JStr (lit ''image/png'')), (lit ''data'', JStr (lit ''AAAA''))]"

definition ex_site :: jval where
  "ex_site = JObj [(lit ''version'', JInt 1), (lit ''title'', JStr (lit ''Ana'')), (lit ''description'', JStr []),
     (lit ''home'', JStr (lit ''p'')),
     (lit ''design'', JObj [(lit ''font'', JStr (lit ''sans'')), (lit ''width'', JStr (lit ''wide'')),
        (lit ''radius'', JStr (lit ''soft'')), (lit ''accent'', JStr (lit ''#207a70''))]),
     (lit ''pages'', JArr [JObj [(lit ''id'', JStr (lit ''p'')), (lit ''slug'', JStr (lit ''inicio'')), (lit ''title'', JStr (lit ''P'')),
        (lit ''blocks'', JArr [
           ex_block ''a'' ''links'' [(lit ''url'', JStr (lit ''https://a.pt/x''))],
           ex_block ''b'' ''columns'' [(lit ''children'', JArr [
              ex_block ''c'' ''image'' [(lit ''media'', JArr [JObj [(lit ''attachment'', JInt 0), (lit ''alt'', JStr [])]])],
              ex_block ''d'' ''button'' [(lit ''url'', JStr (lit ''page:p''))]])]])]])]"

lemma ex_fields:
  "jget (ex_block i ty xs) (lit ''id'') = JStr (lit i)" "jget (ex_block i ty xs) (lit ''type'') = JStr (lit ty)"
  "jget (ex_block i ty xs) (lit ''title'') = JStr (lit ''A'')" "jget (ex_block i ty xs) (lit ''body'') = JStr []"
  "k \<notin> {''id'', ''type'', ''title'', ''body''} \<Longrightarrow> jget (ex_block i ty xs) (lit k) = jget (JObj xs) (lit k)"
  by (simp_all add: ex_block_def jget_def)

lemma ex_none: "jget (JObj []) k = JUndefined" "jget (JObj ((a, v) # m)) k = (if k = a then v else jget (JObj m) k)"
  by (simp_all add: jget_def)

lemma ex_ids: "site_id (JStr (lit ''a''))" "site_id (JStr (lit ''b''))" "site_id (JStr (lit ''c''))" "site_id (JStr (lit ''d''))"
  "site_id (JStr (lit ''p''))"
  by (simp_all add: site_id_def is_str_def str_of_def) (simp_all add: lit_def is_alnum_def is_digit_def is_lower_def)

lemma ex_url: "safeSiteUrl (lit ''https://a.pt/x'')"
  by (simp add: safeSiteUrl_def url_parts_def strip_prefix_def lit_def host_char_def is_alnum_def is_digit_def is_lower_def Let_def
      bad_char_def white_space_def label_ok_def numeric_label_def)

lemmas ex_block_checks = visit_block_def Let_def block_ok_def ex_fields ex_ids ex_none defined_def str_of_def is_str_def
  one_of_def SITE_BLOCKS_def text_up_to_def SITE_blocks_def

lemma ex_block_shape:
  "set (okeys xs) \<subseteq> lit ` {''url'', ''format'', ''children'', ''media'', ''style'', ''limit''} \<Longrightarrow>
   site_shape (ex_block i ty xs) [''id'', ''type'', ''title'', ''body''] [''url'', ''format'', ''children'', ''media'', ''style'', ''limit'']"
  by (auto simp: site_shape_def ex_block_def fields_of_def exactShape_def okeys_def ohas_def list_all_iff)

lemma ex_visit_a:
  "visit_block V [lit ''p''] atts (ex_block ''a'' ''links'' [(lit ''url'', JStr (lit ''https://a.pt/x''))]) [] = Inr [lit ''a'']"
  by (simp add: ex_block_checks ex_block_shape okeys_def link_ok_def safe_not_page [OF ex_url] ex_url)

lemma ex_media: "media_ok [ex_image] (JObj [(lit ''attachment'', JInt 0), (lit ''alt'', JStr [])])"
  by (simp add: ex_none media_ok_def site_shape_def fields_of_def exactShape_def okeys_def ohas_def ex_image_def image_mime_def
      text_up_to_def is_str_def str_of_def)

lemma ex_visit_c:
  "visit_block V [lit ''p''] [ex_image] (ex_block ''c'' ''image'' [(lit ''media'', JArr [JObj [(lit ''attachment'', JInt 0), (lit ''alt'', JStr [])]])])
     [lit ''b'', lit ''a''] = Inr [lit ''c'', lit ''b'', lit ''a'']"
  by (simp add: ex_block_checks ex_block_shape okeys_def gallery_ok_def is_arr_def items_of_def ex_media)

lemma ex_visit_d:
  "visit_block V [lit ''p''] atts (ex_block ''d'' ''button'' [(lit ''url'', JStr (lit ''page:p''))]) [lit ''c'', lit ''b'', lit ''a'']
     = Inr [lit ''d'', lit ''c'', lit ''b'', lit ''a'']"
  by (simp add: ex_block_checks ex_block_shape okeys_def link_ok_def) (simp add: strip_prefix_def lit_def)

lemma ex_visit_b:
  "visit_block (visit 2 [lit ''p''] [ex_image]) [lit ''p''] [ex_image] (ex_block ''b'' ''columns'' [(lit ''children'', JArr [
      ex_block ''c'' ''image'' [(lit ''media'', JArr [JObj [(lit ''attachment'', JInt 0), (lit ''alt'', JStr [])]])],
      ex_block ''d'' ''button'' [(lit ''url'', JStr (lit ''page:p''))]])]) [lit ''a'']
   = Inr [lit ''d'', lit ''c'', lit ''b'', lit ''a'']"
proof -
  have "visit 2 [lit ''p''] [ex_image] (JArr [
      ex_block ''c'' ''image'' [(lit ''media'', JArr [JObj [(lit ''attachment'', JInt 0), (lit ''alt'', JStr [])]])],
      ex_block ''d'' ''button'' [(lit ''url'', JStr (lit ''page:p''))]]) [lit ''b'', lit ''a'']
     = Inr [lit ''d'', lit ''c'', lit ''b'', lit ''a'']"
    by (simp add: numeral_2_eq_2 is_arr_def items_of_def SITE_siblings_def ex_visit_c ex_visit_d)
  then show ?thesis by (simp add: ex_block_checks ex_block_shape okeys_def)
qed

lemma ex_text: "\<exists>s. canon ex_site = Inr s \<and> utf8_length s \<le> SITE_bytes"
proof (rule text_fits)
  show "3 * weight ex_site \<le> SITE_bytes"
    by (simp add: ex_site_def ex_block_def SITE_bytes_def escape_text unescaped_def)
qed (simp_all add: ex_site_def ex_block_def nesting_le safe_integer_def MAX_SAFE_def)

lemma ex_site_valid: "validateSite ex_site (JArr [ex_image]) = Inr ()"
proof -
  have shape: "site_shape ex_site [''version'', ''title'', ''description'', ''home'', ''pages'', ''design''] []"
    by (simp add: site_shape_def ex_site_def fields_of_def exactShape_def okeys_def ohas_def)
  have images: "images_ok (JArr [ex_image])"
    by (simp add: images_ok_def is_arr_def items_of_def ex_image_def ex_none truthy_def is_str_def str_of_def image_mime_def data_size_def)
      (simp add: lit_def b64_shape_def is_b64_def strip_pad_def)
  have head: "site_head_ok ex_site"
    by (simp add: site_head_ok_def ex_site_def ex_none text_up_to_def is_str_def str_of_def is_arr_def items_of_def SITE_pages_def ex_ids)
  have design: "design_ok (jget ex_site (lit ''design''))"
    by (simp add: design_ok_def ex_site_def ex_none site_shape_def one_of_def fields_of_def exactShape_def okeys_def ohas_def)
      (simp add: lit_def is_hex_digit_def is_digit_def)
  have pages: "check_pages (items_of (jget ex_site (lit ''pages''))) [] [] = Inr [lit ''p'']"
    by (simp add: ex_site_def ex_none items_of_def site_shape_def fields_of_def exactShape_def okeys_def ohas_def is_str_def
        str_of_def ex_ids text_up_to_def)
      (simp add: slug_ok_def lit_def is_lower_def is_digit_def trimmed_away_def white_space_def)
  have walk: "each (\<lambda>p. visit SITE_depth [lit ''p''] [ex_image] (jget p (lit ''blocks''))) (items_of (jget ex_site (lit ''pages''))) []
      = Inr [lit ''d'', lit ''c'', lit ''b'', lit ''a'']"
    by (simp add: ex_site_def ex_none items_of_def SITE_depth_def numeral_3_eq_3 is_arr_def SITE_siblings_def ex_visit_a
        ex_visit_b [unfolded numeral_2_eq_2])
  obtain s where s: "canon ex_site = Inr s" "utf8_length s \<le> SITE_bytes" using ex_text by blast
  have "jget ex_site (lit ''home'') = JStr (lit ''p'')" by (simp add: ex_site_def ex_none)
  then show ?thesis using shape images head design walk s by (simp add: validateSite_def pages items_of_def [of "JArr _"] str_of_def)
qed

section \<open>The properties at work\<close>

lemma validateSite_sound_witness:
  "page_ids ex_site \<noteq> [] \<and> countBlocks ex_site \<le> 128 \<and> distinct (ids (site_blocks ex_site))"
  using validateSite_sound [OF ex_site_valid] by blast

lemma validateSite_type_witness: "site_document ex_site"
  by (rule validateSite_type [OF ex_site_valid])


lemma excerpt_accepted_witness: "\<exists>bs. siteFallback ex_site = Some bs \<and> list_all simple_block_ok bs"
  using excerpt_accepted [OF ex_site_valid] by blast

definition ex_page :: jval where
  "ex_page = JObj [(lit ''id'', JStr (lit ''hero'')), (lit ''type'', JStr (lit ''hero'')), (lit ''title'', JStr (lit ''A'')),
     (lit ''body'', JStr (lit ''B''))]"

lemma ex_page_ok: "simple_block_ok ex_page"
  by (simp add: simple_block_ok_def ex_page_def ex_none truthy_def text_up_to_def is_str_def str_of_def one_of_def)

lemma legacySite_valid_witness:
  "validateSite (legacySite [ex_page] (lit ''Ana'')) (JArr []) = Inr () \<or>
   validateSite (legacySite [ex_page] (lit ''Ana'')) (JArr []) = Inl STooLarge"
  by (rule legacySite_valid) (simp_all add: ex_page_ok)

definition ex_studio :: jval where
  "ex_studio = JObj [(lit ''theme'', JStr (lit ''sand'')), (lit ''site'', ex_site), (lit ''attachments'', JArr [ex_image])]"

lemma ex_studio_valid: "validateStudio ex_studio = Inr ()"
proof -
  have "studio_image_ok ex_image"
    by (simp add: studio_image_ok_def ex_image_def ex_none truthy_def image_mime_def is_str_def str_of_def text_up_to_def)
      (simp add: lit_def b64_shape_def is_b64_def)
  moreover have "length (str_of (jget ex_image (lit ''data''))) = 4" by (simp add: ex_image_def ex_none str_of_def)
  ultimately show ?thesis
    by (simp add: validateStudio_def ex_studio_def ex_none truthy_def one_of_def is_arr_def items_of_def SITE_assets_def ex_site_valid)
qed


end
