(* ===== verification/Browser.thy ===== *)
theory Browser
  imports Router_Inv
begin

text \<open>
  The router of a browser (\<open>packages/browser/src/packet.ts\<close>, \<open>packages/browser/src/router.ts\<close>).
  Unlike the router of a node, whose operations run to their end, its operations wait for
  promises (hashing, the application's checks, the transmission of a packet), and other
  operations run meanwhile. Each function of the code is therefore cut at its \<open>await\<close>s: what
  has started and waits is part of the state, and a step resumes one waiting operation. The
  order of the steps is free, so a run is any interleaving the event loop can produce.
\<close>

section \<open>Packets\<close>

definition ROUTER_maxPacket :: int where "ROUTER_maxPacket = 6 * 1024 * 1024"
definition ROUTER_pendingBytes :: int where "ROUTER_pendingBytes = 16 * 1024 * 1024"
definition ROUTER_retained :: nat where "ROUTER_retained = 64"
definition ROUTER_seen :: nat where "ROUTER_seen = 4096"
definition ROUTER_links :: nat where "ROUTER_links = 24"
definition ROUTER_ttl :: int where "ROUTER_ttl = 3600000"
definition ROUTER_maxHops :: int where "ROUTER_maxHops = 12"

lemmas router_limits = ROUTER_maxPacket_def ROUTER_pendingBytes_def ROUTER_retained_def ROUTER_seen_def ROUTER_links_def
  ROUTER_ttl_def ROUTER_maxHops_def

datatype packet_error = PShape | PText json_error | PTooLarge | PInvalid | PTerms

definition packet_keys :: "ustr list" where
  "packet_keys = map lit [''id'', ''source'', ''created'', ''expires'', ''maxHops'', ''hops'', ''priority'', ''payload'']"

text \<open>The parsed copy \<open>JSON.parse(canonical(value))\<close> is the value with its fields sorted.\<close>

definition verifiedPacket :: "crypto \<Rightarrow> int \<Rightarrow> jval \<Rightarrow> packet_error + packet" where
  "verifiedPacket C now value =
     (if \<not> exactShape value packet_keys then Inl PShape
      else (case canon value of Inl e \<Rightarrow> Inl (PText e)
      | Inr enc \<Rightarrow>
        if int (utf8_length enc) > ROUTER_maxPacket then Inl PTooLarge
        else let v = jnorm value; p = packet_of v; hs = jget v (lit ''hops'') in
          if \<not> hop_ok (jget v (lit ''source'')) \<or> parse_priority (jget v (lit ''priority'')) = None \<or>
             \<not> is_safe_int (jget v (lit ''created'')) \<or> \<not> is_safe_int (jget v (lit ''expires'')) \<or>
             p_created p > now + 300000 \<or> p_expires p \<le> now \<or> p_expires p \<le> p_created p \<or>
             p_expires p - p_created p > ROUTER_ttl \<or>
             \<not> is_int (jget v (lit ''maxHops'')) \<or> p_maxHops p < 1 \<or> p_maxHops p > ROUTER_maxHops \<or>
             \<not> is_arr hs \<or> items_of hs = [] \<or> int (length (items_of hs)) > p_maxHops p \<or>
             hd (items_of hs) \<noteq> jget v (lit ''source'') \<or> \<not> list_all hop_ok (items_of hs) \<or>
             \<not> distinct (items_of hs)
          then Inl PInvalid
          else (case canon (packet_body v) of Inl e \<Rightarrow> Inl (PText e)
            | Inr s \<Rightarrow> if jget v (lit ''id'') \<noteq> JStr (sha C (utf8 s)) then Inl PInvalid else Inr p)))"

text \<open>
  \<open>createPacket\<close> up to its first \<open>await\<close>: the packet it will have verified, with the hash of
  its body as identifier.
\<close>

definition createPacket :: "crypto \<Rightarrow> int \<Rightarrow> ustr \<Rightarrow> jval \<Rightarrow> jval \<Rightarrow> jval \<Rightarrow> packet_error + jval" where
  "createPacket C now source payload prio ttl =
     (if \<not> hop_ok (JStr source) \<or> parse_priority prio = None \<or> \<not> is_safe_int ttl \<or> int_of ttl < 1 \<or> int_of ttl > ROUTER_ttl
      then Inl PTerms
      else (case canon payload of Inl e \<Rightarrow> Inl (PText e)
      | Inr _ \<Rightarrow>
        let body = [(lit ''source'', JStr source), (lit ''created'', JInt now), (lit ''expires'', JInt (now + int_of ttl)),
              (lit ''maxHops'', JInt ROUTER_maxHops), (lit ''priority'', prio), (lit ''payload'', jnorm payload)]
        in (case canon (JObj body) of Inl e \<Rightarrow> Inl (PText e)
            | Inr s \<Rightarrow> Inr (JObj (body @ [(lit ''id'', JStr (sha C (utf8 s))), (lit ''hops'', JArr [JStr source])])))))"

section \<open>State\<close>

datatype web_medium = Webrtc | Websocket
datatype link_state = Connecting | Open | Closed

text \<open>
  A kept packet. The code compares kept packets by reference; \<open>e_ref\<close> is the number of the
  object, given out anew for every object made.
\<close>

record kept =
  e_ref :: nat
  e_packet :: packet
  e_bytes :: int
  e_relayOnly :: bool

text \<open>A link; its queue is a map from identifiers to kept packets, in insertion order.\<close>

record wlink =
  l_medium :: web_medium
  l_state :: link_state
  l_queue :: "kept list"
  l_sending :: "ustr list"
  l_turn :: nat

text \<open>A call of \<open>transmit\<close> that waits for \<open>maySend\<close> or for the link.\<close>

datatype tstage = Asking | Sending

record transmission =
  t_link :: nat
  t_entry :: kept
  t_stage :: tstage

text \<open>A packet that was accepted from a link and waits in the chain, and where the one whose turn it is waits.\<close>

record reception =
  q_value :: jval
  q_size :: int
  q_source :: nat

datatype rstage = Verifying "packet_error + packet" | Validating packet | Handing packet

text \<open>A call of \<open>broadcast\<close> that waits for \<open>createPacket\<close> or for the application's check.\<close>

datatype bstage = Making jval | Checking packet

record wcounters =
  n_received :: nat
  n_forwarded :: nat
  n_duplicates :: nat
  n_rejected :: nat
  n_dropped :: nat
  n_sent :: nat

text \<open>
  \<open>handed\<close>, \<open>completed\<close> and \<open>wire\<close> record what the router did: the packets it gave to the
  application, those of them it finished receiving, and what it gave to a link, with the time
  and the consent to relay at that moment.
\<close>

record browser =
  w_id :: ustr
  w_relay :: bool
  w_low :: bool
  w_stopped :: bool
  w_running :: bool
  w_asks :: bool
  w_retained :: "(ustr, kept) omap"
  w_bytes :: int
  w_seen :: "(ustr, int) omap"
  w_links :: "(nat, wlink) omap"
  w_inflightBytes :: int
  w_inflightCount :: nat
  w_chain :: "reception list"
  w_current :: "(reception \<times> rstage) option"
  w_calls :: "(bstage \<times> bool) list"
  w_tasks :: "transmission list"
  w_count :: wcounters
  w_next :: nat
  handed :: "packet list"
  completed :: "packet list"
  wire :: "(nat \<times> kept \<times> int \<times> bool) list"

definition new_browser :: "ustr \<Rightarrow> bool \<Rightarrow> bool \<Rightarrow> browser option" where
  "new_browser i rel asks =
     (if i = [] \<or> length i > 128 then None
      else Some \<lparr>w_id = i, w_relay = rel, w_low = False, w_stopped = False, w_running = True, w_asks = asks, w_retained = [], w_bytes = 0,
        w_seen = [], w_links = [], w_inflightBytes = 0, w_inflightCount = 0, w_chain = [], w_current = None, w_calls = [],
        w_tasks = [],
        w_count = \<lparr>n_received = 0, n_forwarded = 0, n_duplicates = 0, n_rejected = 0, n_dropped = 0, n_sent = 0\<rparr>,
        w_next = 0, handed = [], completed = [], wire = []\<rparr>)"

section \<open>The queue of a link\<close>

abbreviation e_id :: "kept \<Rightarrow> ustr" where
  "e_id e \<equiv> p_id (e_packet e)"

text \<open>\<open>queue.set(e.packet.id, e)\<close> and \<open>queue.delete(id)\<close>.\<close>

fun qset :: "kept \<Rightarrow> kept list \<Rightarrow> kept list" where
  "qset e [] = [e]"
| "qset e (f # q) = (if e_id f = e_id e then e # q else f # qset e q)"

definition qdel :: "ustr \<Rightarrow> kept list \<Rightarrow> kept list" where
  "qdel i q = filter (\<lambda>e. e_id e \<noteq> i) q"

definition on_queue :: "(kept list \<Rightarrow> kept list) \<Rightarrow> nat \<Rightarrow> browser \<Rightarrow> browser" where
  "on_queue f k s = (case oget (w_links s) k of None \<Rightarrow> s
     | Some l \<Rightarrow> s\<lparr>w_links := oset k (l\<lparr>l_queue := f (l_queue l)\<rparr>) (w_links s)\<rparr>)"

section \<open>Kept packets\<close>

definition wremove :: "ustr \<Rightarrow> browser \<Rightarrow> browser" where
  "wremove i s = (case oget (w_retained s) i of None \<Rightarrow> s
     | Some old \<Rightarrow> s\<lparr>w_retained := odel i (w_retained s), w_bytes := w_bytes s - e_bytes old,
          w_links := map (\<lambda>(k, l). (k, l\<lparr>l_queue := qdel i (l_queue l)\<rparr>)) (w_links s)\<rparr>)"

definition set_relaying :: "bool \<Rightarrow> browser \<Rightarrow> browser" where
  "set_relaying enabled s =
     (let s1 = s\<lparr>w_relay := enabled\<rparr> in
      if enabled then s1
      else fold wremove (okeys (filter (\<lambda>p. e_relayOnly (snd p)) (w_retained s1))) s1)"

definition wcancel :: "(jval \<Rightarrow> bool) \<Rightarrow> browser \<Rightarrow> nat \<times> browser" where
  "wcancel match s =
     (let found = okeys (filter (\<lambda>p. match (p_payload (e_packet (snd p)))) (w_retained s))
      in (length found, fold wremove found s))"

definition wcancelLocal :: "(jval \<Rightarrow> bool) \<Rightarrow> browser \<Rightarrow> nat \<times> browser" where
  "wcancelLocal match s =
     (let found = okeys (filter (\<lambda>p. p_source (e_packet (snd p)) = w_id s \<and> match (p_payload (e_packet (snd p)))) (w_retained s))
      in (length found, fold wremove found s))"

definition permitted :: "int \<Rightarrow> browser \<Rightarrow> kept \<Rightarrow> bool" where
  "permitted now s e \<longleftrightarrow> \<not> w_stopped s \<and> w_running s \<and>
     (case oget (w_retained s) (e_id e) of Some f \<Rightarrow> e_ref f = e_ref e | None \<Rightarrow> False) \<and>
     p_expires (e_packet e) > now \<and> (\<not> e_relayOnly e \<or> w_relay s)"

definition wremember :: "packet \<Rightarrow> browser \<Rightarrow> browser" where
  "wremember p s = s\<lparr>w_seen := oset (p_id p) (p_expires p)
     (if length (w_seen s) \<ge> ROUTER_seen then odel (hd (okeys (w_seen s))) (w_seen s) else w_seen s)\<rparr>"

definition wvictims :: "priority \<Rightarrow> browser \<Rightarrow> kept list" where
  "wvictims p s = sort_key (\<lambda>e. (- int (rank (p_prio (e_packet e))), p_created (e_packet e)))
     (filter (\<lambda>e. rank (p_prio (e_packet e)) \<ge> rank p) (ovals (w_retained s)))"

text \<open>The loop that looks for room: the identifiers to drop, or nothing when urgent traffic fills the store.\<close>

fun find_room :: "int \<Rightarrow> nat \<Rightarrow> int \<Rightarrow> kept list \<Rightarrow> ustr list option" where
  "find_room b n tot vs =
     (if n \<ge> ROUTER_retained \<or> tot + b > ROUTER_pendingBytes then
        (case vs of [] \<Rightarrow> None | v # ws \<Rightarrow> map_option (Cons (e_id v)) (find_room b (n - 1) (tot - e_bytes v) ws))
      else Some [])"

declare find_room.simps [simp del]

definition drop_kept :: "ustr \<Rightarrow> browser \<Rightarrow> browser" where
  "drop_kept i s = (wremove i s)\<lparr>w_count := (w_count s)\<lparr>n_dropped := n_dropped (w_count s) + 1\<rparr>\<rparr>"

datatype keep_error = KText json_error | KTooLarge | KReserved

definition wretain :: "jval \<Rightarrow> bool \<Rightarrow> browser \<Rightarrow> (keep_error + kept) \<times> browser" where
  "wretain v rel s =
     (case canon v of Inl e \<Rightarrow> (Inl (KText e), s)
      | Inr enc \<Rightarrow>
        let b = int (utf8_length enc); p = packet_of (jnorm v) in
        if b > ROUTER_maxPacket then (Inl KTooLarge, s)
        else (case oget (w_retained s) (p_id p) of Some old \<Rightarrow> (Inr old, s)
        | None \<Rightarrow>
          (case find_room b (length (w_retained s)) (w_bytes s) (wvictims (p_prio p) s) of
             None \<Rightarrow> (Inl KReserved, s)
           | Some gone \<Rightarrow>
               let s1 = fold drop_kept gone s;
                   e = \<lparr>e_ref = w_next s1, e_packet = p, e_bytes = b, e_relayOnly = rel\<rparr>
               in (Inr e, s1\<lparr>w_retained := oset (p_id p) e (w_retained s1), w_bytes := w_bytes s1 + b, w_next := w_next s1 + 1\<rparr>))))"

section \<open>Sending\<close>

definition bump :: "(wcounters \<Rightarrow> wcounters) \<Rightarrow> browser \<Rightarrow> browser" where
  "bump f s = s\<lparr>w_count := f (w_count s)\<rparr>"

definition sent_off :: "nat \<Rightarrow> ustr \<Rightarrow> browser \<Rightarrow> browser" where
  "sent_off k i s = (case oget (w_links s) k of None \<Rightarrow> s
     | Some l \<Rightarrow> s\<lparr>w_links := oset k (l\<lparr>l_sending := removeAll i (l_sending l)\<rparr>) (w_links s)\<rparr>)"

text \<open>Handing a packet to the link; the call waits until the link reports.\<close>

definition hand_to_link :: "int \<Rightarrow> nat \<Rightarrow> kept \<Rightarrow> browser \<Rightarrow> browser" where
  "hand_to_link now k e s =
     s\<lparr>w_tasks := w_tasks s @ [\<lparr>t_link = k, t_entry = e, t_stage = Sending\<rparr>], wire := wire s @ [(k, e, now, w_relay s)]\<rparr>"

text \<open>\<open>transmit\<close> up to its first \<open>await\<close>.\<close>

definition transmit :: "int \<Rightarrow> nat \<Rightarrow> kept \<Rightarrow> browser \<Rightarrow> browser" where
  "transmit now k e s =
     (if \<not> permitted now s e then sent_off k (e_id e) s
      else if w_asks s then s\<lparr>w_tasks := w_tasks s @ [\<lparr>t_link = k, t_entry = e, t_stage = Asking\<rparr>]\<rparr>
      else if \<not> permitted now s e \<or> oget (w_links s) k = None then sent_off k (e_id e) s
      else hand_to_link now k e s)"

definition sendable :: "int \<Rightarrow> browser \<Rightarrow> wlink \<Rightarrow> kept list" where
  "sendable now s l = filter (\<lambda>e. permitted now s e \<and> (\<not> w_low s \<or> p_prio (e_packet e) \<noteq> Bulk)) (l_queue l)"

definition send_first :: "nat \<Rightarrow> kept list \<Rightarrow> kept" where
  "send_first n es =
     hd (sort_key (\<lambda>e. (if n mod 8 = 0 then 0 else rank (p_prio (e_packet e)), p_created (e_packet e))) es)"

definition start_one :: "kept \<Rightarrow> wlink \<Rightarrow> wlink" where
  "start_one e l = l\<lparr>l_queue := qdel (e_id e) (l_queue l), l_sending := List.insert (e_id e) (l_sending l), l_turn := l_turn l + 1\<rparr>"

definition queue_length :: "nat \<Rightarrow> browser \<Rightarrow> nat" where
  "queue_length k s = (case oget (w_links s) k of None \<Rightarrow> 0 | Some l \<Rightarrow> length (l_queue l))"

lemma queue_length_transmit [simp]: "queue_length k (transmit now j e s) = queue_length k s"
  by (auto simp: queue_length_def transmit_def sent_off_def hand_to_link_def oget_oset split: option.splits)

lemma qdel_shorter: "e \<in> set q \<Longrightarrow> length (qdel (e_id e) q) < length q"
  unfolding qdel_def by (rule length_filter_less) auto

lemma queue_length_start:
  assumes "oget (w_links s) k = Some l" "e \<in> set (l_queue l)"
  shows "queue_length k (s\<lparr>w_links := oset k (start_one e l) (w_links s)\<rparr>) < queue_length k s"
  using assms qdel_shorter [OF assms(2)] by (simp add: queue_length_def start_one_def oget_oset)

lemma send_first_in: "es \<noteq> [] \<Longrightarrow> send_first n es \<in> set es"
proof -
  let ?f = "\<lambda>e. (if n mod 8 = 0 then 0 else rank (p_prio (e_packet e)), p_created (e_packet e))"
  assume "es \<noteq> []"
  then have "sort_key ?f es \<noteq> []" by (metis length_0_conv length_sort)
  then have "hd (sort_key ?f es) \<in> set (sort_key ?f es)" by (rule hd_in_set)
  then show ?thesis by (simp add: send_first_def)
qed

text \<open>The loop that fills a link: at most four packets at once, two when saving power.\<close>

function fill_link :: "int \<Rightarrow> nat \<Rightarrow> browser \<Rightarrow> browser" where
  "fill_link now k s =
     (case oget (w_links s) k of None \<Rightarrow> s
      | Some l \<Rightarrow>
        if length (l_sending l) < (if w_low s then 2 else 4) \<and> sendable now s l \<noteq> [] then
          let e = send_first (l_turn l + 1) (sendable now s l)
          in fill_link now k (transmit now k e (s\<lparr>w_links := oset k (start_one e l) (w_links s)\<rparr>))
        else s)"
  by pat_completeness auto
termination
proof (relation "measure (\<lambda>(now, k, s). queue_length k s)", goal_cases)
  case (2 now k s l e)
  then have "e \<in> set (sendable now s l)" using send_first_in by blast
  then have "e \<in> set (l_queue l)" by (simp add: sendable_def)
  from queue_length_start [OF 2(1) this] show ?case by simp
qed simp

declare fill_link.simps [simp del]

definition disconnect :: "nat \<Rightarrow> browser \<Rightarrow> browser" where
  "disconnect k s = s\<lparr>w_links := odel k (w_links s)\<rparr>"

definition tick_wlink :: "int \<Rightarrow> nat \<Rightarrow> browser \<Rightarrow> browser" where
  "tick_wlink now k s = (case oget (w_links s) k of None \<Rightarrow> s
     | Some l \<Rightarrow> (case l_state l of Closed \<Rightarrow> disconnect k s | Connecting \<Rightarrow> s | Open \<Rightarrow> fill_link now k s))"

definition wtick :: "int \<Rightarrow> browser \<Rightarrow> browser" where
  "wtick now s =
     (if w_stopped s then s
      else let s1 = s\<lparr>w_seen := filter (\<lambda>p. \<not> snd p \<le> now) (w_seen s)\<rparr>;
               s2 = fold wremove (okeys (filter (\<lambda>p. p_expires (e_packet (snd p)) \<le> now) (w_retained s1))) s1
           in fold (tick_wlink now) (okeys (w_links s2)) s2)"

text \<open>The application answers \<open>maySend\<close>: nothing when the question failed.\<close>

definition may_send :: "int \<Rightarrow> nat \<Rightarrow> bool option \<Rightarrow> browser \<Rightarrow> browser" where
  "may_send now n answer s =
     (if n \<ge> length (w_tasks s) \<or> t_stage (w_tasks s ! n) \<noteq> Asking then s
      else let t = w_tasks s ! n; k = t_link t; e = t_entry t;
               s1 = s\<lparr>w_tasks := take n (w_tasks s) @ drop (Suc n) (w_tasks s)\<rparr> in
        (case answer of
           None \<Rightarrow> sent_off k (e_id e) (bump (\<lambda>c. c\<lparr>n_dropped := n_dropped c + 1\<rparr>) s1)
         | Some False \<Rightarrow> sent_off k (e_id e) (wremove (e_id e) s1)
         | Some True \<Rightarrow>
             if \<not> permitted now s1 e \<or> oget (w_links s1) k = None then sent_off k (e_id e) s1
             else hand_to_link now k e s1))"

datatype outcome = Delivered | Failed | NoCapacity

definition link_done :: "int \<Rightarrow> nat \<Rightarrow> outcome \<Rightarrow> browser \<Rightarrow> browser" where
  "link_done now n out s =
     (if n \<ge> length (w_tasks s) \<or> t_stage (w_tasks s ! n) \<noteq> Sending then s
      else let t = w_tasks s ! n; k = t_link t; e = t_entry t;
               s1 = s\<lparr>w_tasks := take n (w_tasks s) @ drop (Suc n) (w_tasks s)\<rparr>;
               s2 = (if out = Delivered then bump (\<lambda>c. c\<lparr>n_sent := n_sent c + 1\<rparr>) s1
                     else bump (\<lambda>c. c\<lparr>n_dropped := n_dropped c + 1\<rparr>) s1);
               s3 = (if out = NoCapacity \<and> permitted now s2 e then on_queue (qset e) k s2 else s2)
           in sent_off k (e_id e) s3)"

section \<open>Connections\<close>

text \<open>\<open>newPeer\<close> and \<open>connectWebSocket\<close> differ in the medium; the new link is offered what is kept.\<close>

definition connect :: "int \<Rightarrow> web_medium \<Rightarrow> browser \<Rightarrow> nat option \<times> browser" where
  "connect now m s0 =
     (let s = wtick now s0 in
      if w_stopped s \<or> length (w_links s) \<ge> ROUTER_links then (None, s)
      else let k = w_next s;
               l = \<lparr>l_medium = m, l_state = Connecting, l_queue = fold qset (filter (permitted now s) (ovals (w_retained s))) [],
                    l_sending = [], l_turn = 0\<rparr>
           in (Some k, s\<lparr>w_links := oset k l (w_links s), w_next := k + 1\<rparr>))"

definition link_is :: "nat \<Rightarrow> link_state \<Rightarrow> browser \<Rightarrow> browser" where
  "link_is k st s = (case oget (w_links s) k of None \<Rightarrow> s
     | Some l \<Rightarrow> s\<lparr>w_links := oset k (l\<lparr>l_state := st\<rparr>) (w_links s)\<rparr>)"

section \<open>Broadcasting\<close>

definition offer :: "kept \<Rightarrow> browser \<Rightarrow> browser" where
  "offer e s = fold (on_queue (qset e)) (okeys (w_links s)) s"

definition wbroadcast :: "crypto \<Rightarrow> int \<Rightarrow> jval \<Rightarrow> jval \<Rightarrow> jval \<Rightarrow> bool \<Rightarrow> browser \<Rightarrow> browser" where
  "wbroadcast C now payload prio ttl rel s =
     (if w_stopped s then s
      else (case createPacket C now (w_id s) payload prio ttl of Inl e \<Rightarrow> s
            | Inr v \<Rightarrow> s\<lparr>w_calls := w_calls s @ [(Making v, rel)]\<rparr>))"

definition end_call :: "nat \<Rightarrow> browser \<Rightarrow> browser" where
  "end_call n s = s\<lparr>w_calls := take n (w_calls s) @ drop (Suc n) (w_calls s)\<rparr>"

text \<open>The packet is made: it is verified and given to the application's check.\<close>

definition call_made :: "crypto \<Rightarrow> int \<Rightarrow> nat \<Rightarrow> browser \<Rightarrow> browser" where
  "call_made C now n s =
     (if n \<ge> length (w_calls s) then s
      else (case w_calls s ! n of
          (Making v, rel) \<Rightarrow> (case verifiedPacket C now v of Inl e \<Rightarrow> end_call n s
             | Inr p \<Rightarrow> s\<lparr>w_calls := (w_calls s)[n := (Checking p, rel)]\<rparr>)
        | _ \<Rightarrow> s))"

text \<open>The check has answered.\<close>

definition call_checked :: "int \<Rightarrow> nat \<Rightarrow> bool \<Rightarrow> browser \<Rightarrow> browser" where
  "call_checked now n ok s =
     (if n \<ge> length (w_calls s) then s
      else (case w_calls s ! n of
          (Checking p, rel) \<Rightarrow>
            let s1 = end_call n s in
            if \<not> ok \<or> w_stopped s1 \<or> rel \<and> \<not> w_relay s1 \<or> ohas (w_seen s1) (p_id p) then s1
            else (case wretain (p_value p) rel s1 of
                (Inl _, s2) \<Rightarrow> s2
              | (Inr e, s2) \<Rightarrow> wtick now (offer e (wremember p s2)))
        | _ \<Rightarrow> s))"

section \<open>Receiving\<close>

text \<open>\<open>accept\<close>: the packet is counted and waits for its turn.\<close>

definition waccept :: "jval \<Rightarrow> nat \<Rightarrow> browser \<Rightarrow> browser" where
  "waccept v k s =
     (case canon v of Inl e \<Rightarrow> s
      | Inr t \<Rightarrow>
        let b = int (utf8_length t) in
        if w_stopped s \<or> w_inflightBytes s + b > ROUTER_pendingBytes \<or> w_inflightCount s \<ge> ROUTER_retained then s
        else s\<lparr>w_inflightBytes := w_inflightBytes s + b, w_inflightCount := w_inflightCount s + 1,
               w_chain := w_chain s @ [\<lparr>q_value = v, q_size = b, q_source = k\<rparr>]\<rparr>)"

text \<open>The end of a reception, successful or not, frees what it had reserved.\<close>

definition finish :: "reception \<Rightarrow> browser \<Rightarrow> browser" where
  "finish q s = s\<lparr>w_current := None, w_inflightBytes := w_inflightBytes s - q_size q, w_inflightCount := w_inflightCount s - 1\<rparr>"

definition reject :: "reception \<Rightarrow> browser \<Rightarrow> browser" where
  "reject q s = finish q (bump (\<lambda>c. c\<lparr>n_rejected := n_rejected c + 1\<rparr>) s)"

definition start_reception :: "crypto \<Rightarrow> int \<Rightarrow> browser \<Rightarrow> browser" where
  "start_reception C now s =
     (case w_current s of Some _ \<Rightarrow> s
      | None \<Rightarrow> (case w_chain s of [] \<Rightarrow> s
          | q # qs \<Rightarrow> let s1 = s\<lparr>w_chain := qs\<rparr> in
              if w_stopped s1 then reject q s1
              else s1\<lparr>w_current := Some (q, Verifying (verifiedPacket C now (q_value q)))\<rparr>))"

definition reception_verified :: "browser \<Rightarrow> browser" where
  "reception_verified s =
     (case w_current s of
        Some (q, Verifying (Inl e)) \<Rightarrow> reject q s
      | Some (q, Verifying (Inr p)) \<Rightarrow>
          if ohas (w_seen s) (p_id p) \<or> w_id s \<in> set (p_hops p)
          then finish q (bump (\<lambda>c. c\<lparr>n_duplicates := n_duplicates c + 1\<rparr>) s)
          else s\<lparr>w_current := Some (q, Validating p)\<rparr>
      | _ \<Rightarrow> s)"

definition reception_validated :: "bool \<Rightarrow> browser \<Rightarrow> browser" where
  "reception_validated ok s =
     (case w_current s of
        Some (q, Validating p) \<Rightarrow>
          if \<not> ok \<or> w_stopped s then reject q s else s\<lparr>w_current := Some (q, Handing p), handed := handed s @ [p]\<rparr>
      | _ \<Rightarrow> s)"

definition forward :: "kept \<Rightarrow> nat \<Rightarrow> nat \<Rightarrow> browser \<Rightarrow> browser" where
  "forward e source k s =
     (if k = source then s else bump (\<lambda>c. c\<lparr>n_forwarded := n_forwarded c + 1\<rparr>) (on_queue (qset e) k s))"

definition count_received :: "packet \<Rightarrow> browser \<Rightarrow> browser" where
  "count_received p s =
     (let s1 = wremember p s in (bump (\<lambda>c. c\<lparr>n_received := n_received c + 1\<rparr>) s1)\<lparr>completed := completed s1 @ [p]\<rparr>)"

definition reception_handed :: "int \<Rightarrow> bool \<Rightarrow> browser \<Rightarrow> browser" where
  "reception_handed now ok s =
     (case w_current s of
        Some (q, Handing p) \<Rightarrow>
          if \<not> ok \<or> w_stopped s \<or> p_expires p \<le> now then reject q s
          else
            let s2 = count_received p s
            in if w_relay s2 \<and> int (length (p_hops p)) < p_maxHops p then
                 (case wretain (relayed_value (p_value p) (w_id s2)) True s2 of
                    (Inl _, s3) \<Rightarrow> finish q (bump (\<lambda>c. c\<lparr>n_dropped := n_dropped c + 1\<rparr>) s3)
                  | (Inr e, s3) \<Rightarrow> finish q (wtick now (fold (forward e (q_source q)) (okeys (w_links s3)) s3)))
               else finish q s2
      | _ \<Rightarrow> s)"

definition wclose :: "browser \<Rightarrow> browser" where
  "wclose s = (if w_stopped s then s
     else s\<lparr>w_stopped := True, w_links := [], w_retained := [], w_bytes := 0, w_seen := []\<rparr>)"

section \<open>Steps\<close>

datatype web_event =
    Broadcast jval jval jval bool
  | CallMade nat
  | CallChecked nat bool
  | Accept jval nat
  | StartReception
  | ReceptionVerified
  | ReceptionValidated bool
  | ReceptionHanded bool
  | MaySend nat "bool option"
  | LinkDone nat outcome
  | Connect web_medium
  | LinkIs nat link_state
  | Disconnect nat
  | SetRelay bool
  | SetLowPower bool
  | SetRunning bool
  | Cancel "jval \<Rightarrow> bool"
  | CancelLocal "jval \<Rightarrow> bool"
  | Tick
  | Close

fun web_step :: "crypto \<Rightarrow> int \<Rightarrow> web_event \<Rightarrow> browser \<Rightarrow> browser" where
  "web_step C now (Broadcast payload prio ttl rel) s = wbroadcast C now payload prio ttl rel s"
| "web_step C now (CallMade n) s = call_made C now n s"
| "web_step C now (CallChecked n ok) s = call_checked now n ok s"
| "web_step C now (Accept v k) s = waccept v k s"
| "web_step C now StartReception s = start_reception C now s"
| "web_step C now ReceptionVerified s = reception_verified s"
| "web_step C now (ReceptionValidated ok) s = reception_validated ok s"
| "web_step C now (ReceptionHanded ok) s = reception_handed now ok s"
| "web_step C now (MaySend n answer) s = may_send now n answer s"
| "web_step C now (LinkDone n out) s = link_done now n out s"
| "web_step C now (Connect m) s = snd (connect now m s)"
| "web_step C now (LinkIs k st) s = link_is k st s"
| "web_step C now (Disconnect k) s = disconnect k s"
| "web_step C now (SetRelay b) s = set_relaying b s"
| "web_step C now (SetLowPower b) s = s\<lparr>w_low := b\<rparr>"
| "web_step C now (SetRunning b) s = s\<lparr>w_running := b\<rparr>"
| "web_step C now (Cancel match) s = snd (wcancel match s)"
| "web_step C now (CancelLocal match) s = snd (wcancelLocal match s)"
| "web_step C now Tick s = wtick now s"
| "web_step C now Close s = wclose s"

text \<open>The runs of a router: steps at times that do not decrease.\<close>

inductive web_run :: "crypto \<Rightarrow> browser \<Rightarrow> (int \<times> web_event) list \<Rightarrow> int \<Rightarrow> browser \<Rightarrow> bool" for C s0 where
  start: "web_run C s0 [] T s0"
| step: "web_run C s0 evs T s \<Longrightarrow> T \<le> now \<Longrightarrow> web_run C s0 (evs @ [(now, e)]) now (web_step C now e s)"

inductive_cases web_runE: "web_run C s0 evs T s"

end
