(* ===== verification/Browser_Inv.thy ===== *)
theory Browser_Inv
  imports Browser
begin

text \<open>
  The invariant of the browser's router, kept by every step and so by every interleaving: the
  limits and the exactness of the counts, that a queue offers kept packets only, that nothing
  of others is kept once relaying is off, and that nothing was given to a link after its expiry
  or against the consent of that moment.
\<close>

section \<open>Queues\<close>

lemma set_qset: "distinct (map e_id q) \<Longrightarrow> set (qset e q) = insert e {f \<in> set q. e_id f \<noteq> e_id e}"
proof (induction q)
  case (Cons f q)
  show ?case
  proof (cases "e_id f = e_id e")
    case True
    with Cons.prems have "{g \<in> set (f # q). e_id g \<noteq> e_id e} = set q" by (auto simp: image_iff)
    with True show ?thesis by simp
  next
    case False
    with Cons show ?thesis by auto
  qed
qed simp

lemma ids_qset: "e_id ` set (qset e q) = insert (e_id e) (e_id ` set q)"
  by (induction q) auto

lemma distinct_qset: "distinct (map e_id q) \<Longrightarrow> distinct (map e_id (qset e q))"
proof (induction q)
  case (Cons f q)
  have ids: "set (map e_id (qset e q)) = insert (e_id e) (set (map e_id q))" using ids_qset [of e q] by simp
  show ?case
  proof (cases "e_id f = e_id e")
    case True
    with Cons show ?thesis by simp
  next
    case False
    with Cons ids show ?thesis by simp
  qed
qed simp

section \<open>The invariant\<close>

definition kept_ok :: "(ustr, kept) omap \<Rightarrow> int \<Rightarrow> nat \<Rightarrow> bool" where
  "kept_ok m b n \<longleftrightarrow> owf m \<and> length m \<le> ROUTER_retained \<and> b = osum e_bytes m \<and> b \<le> ROUTER_pendingBytes \<and>
     (\<forall>p \<in> set m. fst p = e_id (snd p) \<and> 0 \<le> e_bytes (snd p) \<and> e_ref (snd p) < n)"

definition queue_ok :: "(ustr, kept) omap \<Rightarrow> kept list \<Rightarrow> bool" where
  "queue_ok m q \<longleftrightarrow> distinct (map e_id q) \<and> (\<forall>e \<in> set q. oget m (e_id e) = Some e)"

definition wlink_ok :: "(ustr, kept) omap \<Rightarrow> wlink \<Rightarrow> bool" where
  "wlink_ok m l \<longleftrightarrow> queue_ok m (l_queue l) \<and> distinct (l_sending l) \<and> length (l_sending l) \<le> 4"

definition wlinks_ok :: "(ustr, kept) omap \<Rightarrow> (nat, wlink) omap \<Rightarrow> bool" where
  "wlinks_ok m ls \<longleftrightarrow> owf ls \<and> length ls \<le> ROUTER_links \<and> (\<forall>p \<in> set ls. wlink_ok m (snd p))"

text \<open>A reference taken earlier denotes the object that is kept under its identifier, or one that is gone.\<close>

definition ref_ok :: "(ustr, kept) omap \<Rightarrow> nat \<Rightarrow> kept \<Rightarrow> bool" where
  "ref_ok m n e \<longleftrightarrow> e_ref e < n \<and> (\<forall>f. oget m (e_id e) = Some f \<longrightarrow> e_ref f = e_ref e \<longrightarrow> f = e)"

definition flow_ok :: "reception list \<Rightarrow> (reception \<times> rstage) option \<Rightarrow> int \<Rightarrow> nat \<Rightarrow> bool" where
  "flow_ok qs c b n \<longleftrightarrow> (let rs = qs @ (case c of None \<Rightarrow> [] | Some (q, st) \<Rightarrow> [q]) in
     list_all (\<lambda>q. 0 \<le> q_size q) rs \<and> b = sum_list (map q_size rs) \<and> n = length rs \<and> b \<le> ROUTER_pendingBytes \<and> n \<le> ROUTER_retained)"

definition seen_ok :: "(ustr, int) omap \<Rightarrow> bool" where
  "seen_ok m \<longleftrightarrow> owf m \<and> length m \<le> ROUTER_seen"

definition consent_ok :: "bool \<Rightarrow> (ustr, kept) omap \<Rightarrow> bool" where
  "consent_ok rel m \<longleftrightarrow> (\<not> rel \<longrightarrow> (\<forall>p \<in> set m. \<not> e_relayOnly (snd p)))"

definition wire_ok :: "(nat \<times> kept \<times> int \<times> bool) list \<Rightarrow> bool" where
  "wire_ok ws \<longleftrightarrow> (\<forall>(k, e, t, rel) \<in> set ws. t < p_expires (e_packet e) \<and> (e_relayOnly e \<longrightarrow> rel))"

definition web_inv :: "browser \<Rightarrow> bool" where
  "web_inv s \<longleftrightarrow> kept_ok (w_retained s) (w_bytes s) (w_next s) \<and> wlinks_ok (w_retained s) (w_links s) \<and>
     (\<forall>t \<in> set (w_tasks s). ref_ok (w_retained s) (w_next s) (t_entry t)) \<and>
     flow_ok (w_chain s) (w_current s) (w_inflightBytes s) (w_inflightCount s) \<and> seen_ok (w_seen s) \<and>
     consent_ok (w_relay s) (w_retained s) \<and> wire_ok (wire s)"

lemma new_browser_inv: "new_browser i rel asks = Some s \<Longrightarrow> web_inv s"
  by (auto simp: new_browser_def web_inv_def kept_ok_def wlinks_ok_def flow_ok_def seen_ok_def consent_ok_def wire_ok_def router_limits
      split: if_splits)

text \<open>Fields no part of the invariant reads.\<close>

lemma web_inv_frame [simp]:
  "web_inv (s\<lparr>w_low := a\<rparr>) = web_inv s" "web_inv (s\<lparr>w_running := a\<rparr>) = web_inv s" "web_inv (s\<lparr>w_count := c\<rparr>) = web_inv s"
  "web_inv (s\<lparr>w_calls := cs\<rparr>) = web_inv s" "web_inv (s\<lparr>handed := h\<rparr>) = web_inv s" "web_inv (s\<lparr>completed := h\<rparr>) = web_inv s"
  "web_inv (bump f s) = web_inv s"
  by (simp_all add: web_inv_def bump_def)

lemma wlinks_get: "wlinks_ok m ls \<Longrightarrow> oget ls k = Some l \<Longrightarrow> wlink_ok m l"
  by (auto simp: wlinks_ok_def dest!: oget_SomeD)

lemma wlinks_set: "wlinks_ok m ls \<Longrightarrow> oget ls k = Some l \<Longrightarrow> wlink_ok m l' \<Longrightarrow> wlinks_ok m (oset k l' ls)"
  using oget_None_iff [of ls k] by (auto simp: wlinks_ok_def set_oset length_oset)

lemma web_links_inv:
  "web_inv s \<Longrightarrow> oget (w_links s) k = Some l \<Longrightarrow> wlink_ok (w_retained s) l' \<Longrightarrow> web_inv (s\<lparr>w_links := oset k l' (w_links s)\<rparr>)"
  by (auto simp: web_inv_def intro: wlinks_set)

section \<open>Removal\<close>

lemma odel_None: "oget m k = None \<Longrightarrow> odel k m = m"
  by (simp add: oget_None_iff)

interpretation kept_account: byte_account w_retained w_bytes e_bytes wremove
  by unfold_locales (auto simp: wremove_def odel_None split: option.splits)

interpretation drop_account: byte_account w_retained w_bytes e_bytes drop_kept
  by unfold_locales (auto simp: drop_kept_def wremove_def odel_None split: option.splits)

lemma queue_ok_odel: "queue_ok m q \<Longrightarrow> queue_ok (odel i m) (qdel i q)"
  by (auto simp: queue_ok_def qdel_def oget_odel distinct_map_filter)

lemma ref_ok_odel: "ref_ok m n e \<Longrightarrow> ref_ok (odel i m) n e"
  by (simp add: ref_ok_def oget_odel)

lemma kept_ok_odel:
  assumes "kept_ok m b n" "oget m i = Some e"
  shows "kept_ok (odel i m) (b - e_bytes e) n"
proof -
  have "(i, e) \<in> set m" using assms(2) by (rule oget_SomeD)
  then have "0 \<le> e_bytes e" using assms(1) by (auto simp: kept_ok_def)
  moreover have "length (odel i m) \<le> length m" by (rule length_odel_le)
  ultimately show ?thesis using assms by (auto simp: kept_ok_def osum_odel set_odel)
qed

lemma wremove_inv: "web_inv s \<Longrightarrow> web_inv (wremove i s)"
proof (cases "oget (w_retained s) i")
  case (Some e)
  assume inv: "web_inv s"
  have "wlinks_ok (odel i (w_retained s)) (map (\<lambda>(k, l). (k, l\<lparr>l_queue := qdel i (l_queue l)\<rparr>)) (w_links s))"
    using inv by (auto simp: web_inv_def wlinks_ok_def wlink_ok_def owf_def comp_def case_prod_beta intro: queue_ok_odel)
  then show ?thesis
    using inv Some by (auto simp: web_inv_def wremove_def kept_ok_odel consent_ok_def set_odel intro: ref_ok_odel)
qed (simp add: wremove_def)

lemma wremove_frame [simp]:
  "w_relay (wremove i s) = w_relay s" "w_seen (wremove i s) = w_seen s" "w_next (wremove i s) = w_next s"
  "w_tasks (wremove i s) = w_tasks s" "w_current (wremove i s) = w_current s" "w_chain (wremove i s) = w_chain s"
  "w_stopped (wremove i s) = w_stopped s" "w_id (wremove i s) = w_id s" "handed (wremove i s) = handed s"
  "completed (wremove i s) = completed s" "wire (wremove i s) = wire s" "w_calls (wremove i s) = w_calls s"
  by (simp_all add: wremove_def split: option.split)

lemma wremoves_inv: "web_inv s \<Longrightarrow> web_inv (fold wremove ks s)"
  by (induction ks arbitrary: s) (simp_all add: wremove_inv)

lemma wremoves_frame [simp]:
  "w_relay (fold wremove ks s) = w_relay s" "w_seen (fold wremove ks s) = w_seen s" "w_stopped (fold wremove ks s) = w_stopped s"
  "w_current (fold wremove ks s) = w_current s" "handed (fold wremove ks s) = handed s" "completed (fold wremove ks s) = completed s"
  "w_id (fold wremove ks s) = w_id s" "w_chain (fold wremove ks s) = w_chain s" "w_calls (fold wremove ks s) = w_calls s"
  by (induction ks arbitrary: s) simp_all

lemma drop_kept_inv: "web_inv s \<Longrightarrow> web_inv (drop_kept i s)"
  by (simp add: drop_kept_def wremove_inv)

lemma drops_inv: "web_inv s \<Longrightarrow> web_inv (fold drop_kept ks s)"
  by (induction ks arbitrary: s) (simp_all add: drop_kept_inv)

lemma drops_frame [simp]:
  "w_relay (fold drop_kept ks s) = w_relay s" "w_seen (fold drop_kept ks s) = w_seen s" "w_next (fold drop_kept ks s) = w_next s"
  "w_stopped (fold drop_kept ks s) = w_stopped s" "w_current (fold drop_kept ks s) = w_current s"
  "handed (fold drop_kept ks s) = handed s" "completed (fold drop_kept ks s) = completed s" "w_id (fold drop_kept ks s) = w_id s"
  "w_chain (fold drop_kept ks s) = w_chain s" "w_calls (fold drop_kept ks s) = w_calls s"
  by (induction ks arbitrary: s) (simp_all add: drop_kept_def)

lemma set_relaying_inv: "web_inv s \<Longrightarrow> web_inv (set_relaying b s)"
proof -
  assume inv: "web_inv s"
  let ?ks = "okeys (filter (\<lambda>p. e_relayOnly (snd p)) (w_retained s))"
  show ?thesis
  proof (cases b)
    case True
    with inv show ?thesis by (simp add: set_relaying_def web_inv_def consent_ok_def)
  next
    case False
    have inv1: "web_inv (fold wremove ?ks (s\<lparr>w_relay := True\<rparr>))"
      using inv by (intro wremoves_inv) (simp add: web_inv_def consent_ok_def)
    have cut: "fold wremove ks (s\<lparr>w_relay := c\<rparr>) = (fold wremove ks (s\<lparr>w_relay := d\<rparr>))\<lparr>w_relay := c\<rparr>" for ks c d and s :: browser
    proof (induction ks arbitrary: s)
      case (Cons k ks)
      have "wremove k (s\<lparr>w_relay := c\<rparr>) = (wremove k s)\<lparr>w_relay := c\<rparr>" for c by (simp add: wremove_def split: option.split)
      with Cons show ?case by simp
    qed simp
    have "w_retained (fold wremove ?ks (s\<lparr>w_relay := True\<rparr>)) = filter (\<lambda>p. fst p \<notin> set ?ks) (w_retained s)"
      by (simp add: kept_account.entries_removes)
    then have "consent_ok False (w_retained (fold wremove ?ks (s\<lparr>w_relay := True\<rparr>)))"
      by (force simp: consent_ok_def okeys_def)
    with inv1 have "web_inv ((fold wremove ?ks (s\<lparr>w_relay := True\<rparr>))\<lparr>w_relay := False\<rparr>)" by (simp add: web_inv_def)
    with False show ?thesis using cut [of ?ks False s True] by (simp add: set_relaying_def)
  qed
qed

section \<open>Keeping a packet\<close>

lemma wvictims_in: "e \<in> set (wvictims p s) \<longleftrightarrow> e \<in> set (ovals (w_retained s)) \<and> rank p \<le> rank (p_prio (e_packet e))"
  by (auto simp: wvictims_def)

lemma wvictims_distinct: "kept_ok m b n \<Longrightarrow> m = w_retained s \<Longrightarrow> distinct (map e_id (wvictims p s))"
proof -
  assume k: "kept_ok m b n" "m = w_retained s"
  have "map e_id (ovals m) = map fst m" using k(1) by (auto simp: kept_ok_def ovals_def)
  then have "distinct (map e_id (ovals m))" using k(1) by (simp add: kept_ok_def owf_def)
  then have "distinct (map e_id (filter (\<lambda>e. rank (p_prio (e_packet e)) \<ge> rank p) (ovals m)))" by (simp add: distinct_map_filter)
  then have "inj_on e_id (set (wvictims p s))" "distinct (filter (\<lambda>e. rank (p_prio (e_packet e)) \<ge> rank p) (ovals m))"
    using k(2) by (simp_all add: distinct_map wvictims_def)
  then show ?thesis using k(2) by (simp add: distinct_map wvictims_def)
qed

text \<open>The room found is there once the victims are dropped, and the victims are victims.\<close>

lemma find_room_drops:
  assumes "find_room b (length (w_retained s)) (w_bytes s) vs = Some ks" "kept_ok (w_retained s) (w_bytes s) n"
    "distinct (map e_id vs)" "\<forall>v \<in> set vs. oget (w_retained s) (e_id v) = Some v"
  shows "length (w_retained (fold drop_kept ks s)) < ROUTER_retained \<and> w_bytes (fold drop_kept ks s) + b \<le> ROUTER_pendingBytes \<and>
    set ks \<subseteq> e_id ` set vs"
  using assms
proof (induction vs arbitrary: s ks)
  case Nil
  then show ?case by (auto simp: find_room.simps split: if_splits)
next
  case (Cons v vs)
  show ?case
  proof (cases "length (w_retained s) \<ge> ROUTER_retained \<or> w_bytes s + b > ROUTER_pendingBytes")
    case False
    with Cons.prems(1) show ?thesis by (simp add: find_room.simps not_le not_less)
  next
    case True
    let ?s = "drop_kept (e_id v) s"
    have v: "oget (w_retained s) (e_id v) = Some v" using Cons.prems(4) by simp
    have wf: "owf (w_retained s)" using Cons.prems(2) by (simp add: kept_ok_def)
    have ret: "w_retained ?s = odel (e_id v) (w_retained s)" "w_bytes ?s = w_bytes s - e_bytes v"
      using v by (simp_all add: drop_account.entries_remove drop_account.total_remove)
    have len: "length (odel (e_id v) (w_retained s)) = length (w_retained s) - 1" using length_odel [OF wf v] by simp
    have "find_room b (length (w_retained s)) (w_bytes s) (v # vs) =
        map_option (Cons (e_id v)) (find_room b (length (w_retained ?s)) (w_bytes ?s) vs)"
      using True by (subst find_room.simps) (simp add: ret len)
    with Cons.prems(1) obtain ks' where ks: "ks = e_id v # ks'"
      "find_room b (length (w_retained ?s)) (w_bytes ?s) vs = Some ks'" by (auto simp only: map_option_eq_Some)
    have ok: "kept_ok (w_retained ?s) (w_bytes ?s) n" unfolding ret by (rule kept_ok_odel [OF Cons.prems(2) v])
    have rest: "\<forall>u \<in> set vs. oget (w_retained ?s) (e_id u) = Some u"
    proof
      fix u assume u: "u \<in> set vs"
      then have "e_id u \<in> set (map e_id vs)" by simp
      then have "e_id u \<noteq> e_id v" using Cons.prems(3) by (metis distinct.simps(2) list.simps(9))
      moreover have "oget (w_retained s) (e_id u) = Some u" using bspec [OF Cons.prems(4), of u] u by simp
      ultimately show "oget (w_retained ?s) (e_id u) = Some u" by (simp add: ret oget_odel)
    qed
    from Cons.IH [OF ks(2) ok _ rest] Cons.prems(3) show ?thesis by (auto simp: ks(1))
  qed
qed

text \<open>What keeping a packet does, in every case.\<close>

lemma wretain_cases:
  assumes "wretain v rel s = (r, s')" "web_inv s"
  obtains (refused) err where "r = Inl err" "s' = s"
  | (present) e where "r = Inr e" "s' = s" "oget (w_retained s) (e_id e) = Some e" "e_id e = p_id (packet_of (jnorm v))"
  | (new) e ks where "r = Inr e" "e_packet e = packet_of (jnorm v)" "e_relayOnly e = rel" "e_ref e = w_next s" "0 \<le> e_bytes e"
      "oget (w_retained s) (e_id e) = None" "set ks \<subseteq> e_id ` set (wvictims (p_prio (e_packet e)) s)"
      "s' = (fold drop_kept ks s)\<lparr>w_retained := oset (e_id e) e (w_retained (fold drop_kept ks s)),
         w_bytes := w_bytes (fold drop_kept ks s) + e_bytes e, w_next := w_next s + 1\<rparr>"
      "length (w_retained (fold drop_kept ks s)) < ROUTER_retained" "w_bytes (fold drop_kept ks s) + e_bytes e \<le> ROUTER_pendingBytes"
proof -
  let ?p = "packet_of (jnorm v)"
  have kept: "kept_ok (w_retained s) (w_bytes s) (w_next s)" using assms(2) by (simp add: web_inv_def)
  show thesis
  proof (cases "canon v")
    case (Inl err)
    with assms(1) have "r = Inl (KText err)" "s' = s" by (simp_all add: wretain_def)
    then show thesis by (rule refused)
  next
    case (Inr text1)
    let ?b = "int (utf8_length text1)"
    show thesis
    proof (cases "?b > ROUTER_maxPacket")
      case True
      with Inr assms(1) have "r = Inl KTooLarge" "s' = s" by (simp_all add: wretain_def)
      then show thesis by (rule refused)
    next
      case fits: False
      show thesis
      proof (cases "oget (w_retained s) (p_id ?p)")
        case (Some old)
        then have "e_id old = p_id ?p" using kept by (auto simp: kept_ok_def dest!: oget_SomeD)
        with Some Inr fits assms(1) show thesis by (intro present [of old]) (simp_all add: wretain_def)
      next
        case None
        show thesis
        proof (cases "find_room ?b (length (w_retained s)) (w_bytes s) (wvictims (p_prio ?p) s)")
          case full: None
          with None Inr fits assms(1) have "r = Inl KReserved" "s' = s" by (simp_all add: wretain_def Let_def)
          then show thesis by (rule refused)
        next
          case (Some ks)
          have "\<forall>u \<in> set (wvictims (p_prio ?p) s). oget (w_retained s) (e_id u) = Some u"
            using kept by (force simp: wvictims_in kept_ok_def ovals_def intro: oget_in_set)
          from find_room_drops [OF Some kept wvictims_distinct [OF kept refl] this] None Some Inr fits assms(1)
          show thesis
            by (intro new [of "\<lparr>e_ref = w_next s, e_packet = ?p, e_bytes = ?b, e_relayOnly = rel\<rparr>" ks])
              (simp_all add: wretain_def Let_def)
        qed
      qed
    qed
  qed
qed

lemma wretain_keeps:
  assumes "wretain v rel s = (r, s')" "web_inv s"
  shows "w_relay s' = w_relay s \<and> w_seen s' = w_seen s \<and> w_stopped s' = w_stopped s \<and> w_current s' = w_current s \<and>
    handed s' = handed s \<and> completed s' = completed s \<and> w_id s' = w_id s \<and> w_chain s' = w_chain s"
  using assms by (rule wretain_cases) simp_all

lemma ref_ok_set: "ref_ok m n e \<Longrightarrow> e_ref x = n \<Longrightarrow> ref_ok (oset (e_id x) x m) (n + 1) e"
  by (auto simp: ref_ok_def oget_oset split: if_splits)

lemma wlinks_add:
  assumes "wlinks_ok m ls" "oget m (e_id x) = None"
  shows "wlinks_ok (oset (e_id x) x m) ls"
  using assms by (force simp: wlinks_ok_def wlink_ok_def queue_ok_def oget_oset)

lemma kept_ok_add:
  assumes "kept_ok m b n" "oget m (e_id x) = None" "0 \<le> e_bytes x" "e_ref x = n" "length m < ROUTER_retained" "b + e_bytes x \<le> ROUTER_pendingBytes"
  shows "kept_ok (oset (e_id x) x m) (b + e_bytes x) (n + 1)"
  using assms by (force simp: kept_ok_def set_oset length_oset osum_oset odel_None less_Suc_eq)

lemma wretain_inv:
  assumes "wretain v rel s = (r, s')" "web_inv s" "rel \<longrightarrow> w_relay s"
  shows "web_inv s' \<and> (\<forall>e. r = Inr e \<longrightarrow> oget (w_retained s') (e_id e) = Some e)"
  using assms(1,2)
proof (cases rule: wretain_cases)
  case (new e ks)
  let ?t = "fold drop_kept ks s"
  have t: "web_inv ?t" using assms(2) by (rule drops_inv)
  have gone: "oget (w_retained ?t) (e_id e) = None"
    using new(6) by (auto simp: drop_account.entries_removes oget_None_iff)
  have n: "w_next ?t = w_next s" by simp
  have parts: "kept_ok (w_retained ?t) (w_bytes ?t) (w_next s)" "wlinks_ok (w_retained ?t) (w_links ?t)"
    "\<forall>u \<in> set (w_tasks ?t). ref_ok (w_retained ?t) (w_next s) (t_entry u)" "consent_ok (w_relay ?t) (w_retained ?t)"
    and rest: "flow_ok (w_chain ?t) (w_current ?t) (w_inflightBytes ?t) (w_inflightCount ?t)" "seen_ok (w_seen ?t)" "wire_ok (wire ?t)"
    using t unfolding web_inv_def n by blast+
  have "kept_ok (oset (e_id e) e (w_retained ?t)) (w_bytes ?t + e_bytes e) (w_next s + 1)"
    by (rule kept_ok_add [OF parts(1) gone new(5,4,9,10)])
  moreover have "wlinks_ok (oset (e_id e) e (w_retained ?t)) (w_links ?t)" by (rule wlinks_add [OF parts(2) gone])
  moreover have "\<forall>u \<in> set (w_tasks ?t). ref_ok (oset (e_id e) e (w_retained ?t)) (w_next s + 1) (t_entry u)"
    using parts(3) new(4) by (blast intro: ref_ok_set)
  moreover have "consent_ok (w_relay ?t) (oset (e_id e) e (w_retained ?t))"
    using parts(1,4) assms(3) new(3) by (auto simp: consent_ok_def set_oset kept_ok_def)
  ultimately have "web_inv s'" using rest unfolding new(8) web_inv_def by simp
  then show ?thesis using new(1) unfolding new(8) by (simp add: oget_oset)
qed (use assms(2) in auto)

section \<open>Filling the links\<close>

lemma on_queue_inv:
  assumes "web_inv s" "oget (w_retained s) (e_id e) = Some e"
  shows "web_inv (on_queue (qset e) k s)"
proof (cases "oget (w_links s) k")
  case (Some l)
  have l: "wlink_ok (w_retained s) l" using assms(1) Some by (auto simp: web_inv_def intro: wlinks_get)
  then have "wlink_ok (w_retained s) (l\<lparr>l_queue := qset e (l_queue l)\<rparr>)"
    using assms(2) by (auto simp: wlink_ok_def queue_ok_def set_qset distinct_qset)
  then show ?thesis using assms(1) Some by (simp add: on_queue_def web_links_inv)
qed (simp add: on_queue_def assms(1))

lemma on_queue_frame [simp]:
  "w_retained (on_queue f k s) = w_retained s" "w_relay (on_queue f k s) = w_relay s" "w_seen (on_queue f k s) = w_seen s"
  "w_stopped (on_queue f k s) = w_stopped s" "w_current (on_queue f k s) = w_current s" "handed (on_queue f k s) = handed s"
  "completed (on_queue f k s) = completed s" "w_id (on_queue f k s) = w_id s" "w_chain (on_queue f k s) = w_chain s"
  "w_tasks (on_queue f k s) = w_tasks s" "w_next (on_queue f k s) = w_next s"
  by (simp_all add: on_queue_def split: option.split)

lemma sent_off_inv: "web_inv s \<Longrightarrow> web_inv (sent_off k i s)"
proof (cases "oget (w_links s) k")
  case (Some l)
  assume inv: "web_inv s"
  have "wlink_ok (w_retained s) l" using inv Some by (auto simp: web_inv_def intro: wlinks_get)
  then have "wlink_ok (w_retained s) (l\<lparr>l_sending := removeAll i (l_sending l)\<rparr>)"
    using le_trans [OF length_removeAll_less_eq [of i "l_sending l"]] by (auto simp: wlink_ok_def distinct_removeAll)
  then show ?thesis using inv Some by (simp add: sent_off_def web_links_inv)
qed (simp add: sent_off_def)

lemma permitted_kept: "permitted now s e \<Longrightarrow> p_expires (e_packet e) > now \<and> (e_relayOnly e \<longrightarrow> w_relay s)"
  by (simp add: permitted_def split: option.splits)

lemma permitted_ref: "permitted now s e \<Longrightarrow> ref_ok (w_retained s) n e \<Longrightarrow> oget (w_retained s) (e_id e) = Some e"
  by (auto simp: permitted_def ref_ok_def split: option.splits)

lemma kept_ref: "web_inv s \<Longrightarrow> oget (w_retained s) (e_id e) = Some e \<Longrightarrow> ref_ok (w_retained s) (w_next s) e"
  by (auto simp: web_inv_def kept_ok_def ref_ok_def dest!: oget_SomeD)

lemma hand_inv:
  assumes "web_inv s" "permitted now s e" "ref_ok (w_retained s) (w_next s) e"
  shows "web_inv (hand_to_link now k e s)"
  using assms permitted_kept [OF assms(2)] by (auto simp: web_inv_def hand_to_link_def wire_ok_def)

lemma task_inv:
  "web_inv s \<Longrightarrow> ref_ok (w_retained s) (w_next s) e \<Longrightarrow>
   web_inv (s\<lparr>w_tasks := w_tasks s @ [\<lparr>t_link = k, t_entry = e, t_stage = st\<rparr>]\<rparr>)"
  by (simp add: web_inv_def)

lemma transmit_inv:
  assumes "web_inv s" "ref_ok (w_retained s) (w_next s) e"
  shows "web_inv (transmit now k e s)"
  using assms task_inv [OF assms] by (auto simp: transmit_def sent_off_inv hand_inv)

lemma start_one_ok:
  assumes "wlink_ok m l" "length (l_sending l) < 4"
  shows "wlink_ok m (start_one e l)"
  using assms by (auto simp: wlink_ok_def start_one_def queue_ok_def qdel_def distinct_map_filter List.insert_def)

lemma fill_link_inv: "web_inv s \<Longrightarrow> web_inv (fill_link now k s)"
proof (induction now k s rule: fill_link.induct)
  case (1 now k s)
  show ?case
  proof (cases "oget (w_links s) k")
    case (Some l)
    show ?thesis
    proof (cases "length (l_sending l) < (if w_low s then 2 else 4) \<and> sendable now s l \<noteq> []")
      case True
      define e where "e = send_first (l_turn l + 1) (sendable now s l)"
      let ?s = "s\<lparr>w_links := oset k (start_one e l) (w_links s)\<rparr>"
      have l: "wlink_ok (w_retained s) l" using 1(2) Some by (auto simp: web_inv_def intro: wlinks_get)
      have "e \<in> set (l_queue l)" using True send_first_in [of "sendable now s l"] by (auto simp: e_def sendable_def)
      then have e: "oget (w_retained s) (e_id e) = Some e" using l by (auto simp: wlink_ok_def queue_ok_def)
      have "length (l_sending l) < 4" using True by (simp split: if_splits)
      then have inv: "web_inv ?s" using 1(2) Some start_one_ok [OF l] by (intro web_links_inv) auto
      have "web_inv (transmit now k e ?s)" using inv kept_ref [OF inv] e by (intro transmit_inv) auto
      from 1(1) [OF Some True e_def this] show ?thesis
        unfolding fill_link.simps [of now k s] using Some True by (simp add: e_def Let_def)
    next
      case False
      then show ?thesis using 1(2) unfolding fill_link.simps [of now k s] by (simp only: Some option.case if_False)
    qed
  qed (simp add: fill_link.simps [of now k s] 1(2))
qed

lemma disconnect_inv: "web_inv s \<Longrightarrow> web_inv (disconnect k s)"
  using length_odel_le [of k "w_links s"] by (auto simp: web_inv_def disconnect_def wlinks_ok_def set_odel)

lemma tick_wlink_inv: "web_inv s \<Longrightarrow> web_inv (tick_wlink now k s)"
  by (simp add: tick_wlink_def disconnect_inv fill_link_inv split: option.split link_state.split)

lemma tick_wlinks_inv: "web_inv s \<Longrightarrow> web_inv (fold (tick_wlink now) ks s)"
  by (induction ks arbitrary: s) (simp_all add: tick_wlink_inv)

lemma seen_filter_inv: "web_inv s \<Longrightarrow> web_inv (s\<lparr>w_seen := filter P (w_seen s)\<rparr>)"
  using le_trans [OF length_filter_le [of P "w_seen s"]] by (auto simp: web_inv_def seen_ok_def)

lemma wtick_inv: "web_inv s \<Longrightarrow> web_inv (wtick now s)"
  by (simp add: wtick_def Let_def tick_wlinks_inv wremoves_inv seen_filter_inv)

section \<open>The other steps\<close>

lemma task_cut_inv: "web_inv s \<Longrightarrow> web_inv (s\<lparr>w_tasks := take n (w_tasks s) @ drop (Suc n) (w_tasks s)\<rparr>)"
  by (auto simp: web_inv_def dest: in_set_takeD in_set_dropD)

lemma task_ref: "web_inv s \<Longrightarrow> n < length (w_tasks s) \<Longrightarrow> ref_ok (w_retained s) (w_next s) (t_entry (w_tasks s ! n))"
  by (simp add: web_inv_def)

lemma may_send_inv:
  assumes inv: "web_inv s"
  shows "web_inv (may_send now n answer s)"
proof (cases "n \<ge> length (w_tasks s) \<or> t_stage (w_tasks s ! n) \<noteq> Asking")
  case False
  let ?t = "w_tasks s ! n" and ?s = "s\<lparr>w_tasks := take n (w_tasks s) @ drop (Suc n) (w_tasks s)\<rparr>"
  have s: "web_inv ?s" by (rule task_cut_inv [OF inv])
  have e: "ref_ok (w_retained ?s) (w_next ?s) (t_entry ?t)" using task_ref [OF inv, of n] False by simp
  have "web_inv (case answer of None \<Rightarrow> sent_off (t_link ?t) (e_id (t_entry ?t)) (bump (\<lambda>c. c\<lparr>n_dropped := n_dropped c + 1\<rparr>) ?s)
     | Some False \<Rightarrow> sent_off (t_link ?t) (e_id (t_entry ?t)) (wremove (e_id (t_entry ?t)) ?s)
     | Some True \<Rightarrow> if \<not> permitted now ?s (t_entry ?t) \<or> oget (w_links ?s) (t_link ?t) = None
         then sent_off (t_link ?t) (e_id (t_entry ?t)) ?s else hand_to_link now (t_link ?t) (t_entry ?t) ?s)"
    using s e by (auto simp del: web_inv_frame(1-6) intro: sent_off_inv wremove_inv hand_inv split: option.split bool.split)
  then show ?thesis unfolding may_send_def Let_def using False by (simp only: if_False)
qed (simp add: may_send_def inv)

lemma link_done_inv:
  assumes inv: "web_inv s"
  shows "web_inv (link_done now n out s)"
proof (cases "n \<ge> length (w_tasks s) \<or> t_stage (w_tasks s ! n) \<noteq> Sending")
  case False
  let ?t = "w_tasks s ! n" and ?s = "s\<lparr>w_tasks := take n (w_tasks s) @ drop (Suc n) (w_tasks s)\<rparr>"
  define s2 where "s2 = (if out = Delivered then bump (\<lambda>c. c\<lparr>n_sent := n_sent c + 1\<rparr>) ?s
     else bump (\<lambda>c. c\<lparr>n_dropped := n_dropped c + 1\<rparr>) ?s)"
  have s2: "web_inv s2" unfolding s2_def using task_cut_inv [OF inv, of n] by auto
  have "w_retained s2 = w_retained s" by (simp add: s2_def bump_def)
  then have "ref_ok (w_retained s2) (w_next s) (t_entry ?t)" using task_ref [OF inv, of n] False by simp
  then have "permitted now s2 (t_entry ?t) \<Longrightarrow> web_inv (on_queue (qset (t_entry ?t)) (t_link ?t) s2)"
    using on_queue_inv [OF s2 permitted_ref] by blast
  then have "web_inv (sent_off (t_link ?t) (e_id (t_entry ?t))
     (if out = NoCapacity \<and> permitted now s2 (t_entry ?t) then on_queue (qset (t_entry ?t)) (t_link ?t) s2 else s2))"
    using s2 by (intro sent_off_inv) simp
  then show ?thesis unfolding link_done_def Let_def s2_def using False by (simp only: if_False)
qed (simp add: link_done_def inv)

lemma queue_ok_fold:
  "queue_ok m q \<Longrightarrow> \<forall>e \<in> set es. oget m (e_id e) = Some e \<Longrightarrow> queue_ok m (fold qset es q)"
proof (induction es arbitrary: q)
  case (Cons e es)
  have "queue_ok m (qset e q)"
    using Cons.prems bspec [OF Cons.prems(2), of e] by (auto simp: queue_ok_def set_qset distinct_qset)
  then show ?case using Cons by simp
qed simp

lemma connect_inv:
  assumes "web_inv s"
  shows "web_inv (snd (connect now m s))"
proof -
  let ?s = "wtick now s"
  have inv: "web_inv ?s" using assms by (rule wtick_inv)
  let ?es = "filter (permitted now ?s) (ovals (w_retained ?s))"
  have es: "\<forall>e \<in> set ?es. oget (w_retained ?s) (e_id e) = Some e"
    using inv by (force simp: web_inv_def kept_ok_def ovals_def intro: oget_in_set)
  have q: "queue_ok (w_retained ?s) (fold qset ?es [])"
    by (rule queue_ok_fold [OF _ es]) (simp add: queue_ok_def)
  show ?thesis
  proof (cases "w_stopped ?s \<or> length (w_links ?s) \<ge> ROUTER_links")
    case False
    let ?l = "\<lparr>l_medium = m, l_state = Connecting, l_queue = fold qset ?es [], l_sending = [], l_turn = 0\<rparr>"
    have "wlinks_ok (w_retained ?s) (oset (w_next ?s) ?l (w_links ?s))"
      using inv q False by (auto simp: web_inv_def wlinks_ok_def set_oset length_oset wlink_ok_def)
    moreover have "kept_ok (w_retained ?s) (w_bytes ?s) (w_next ?s + 1)" using inv by (force simp: web_inv_def kept_ok_def less_Suc_eq)
    moreover have "\<forall>t \<in> set (w_tasks ?s). ref_ok (w_retained ?s) (w_next ?s + 1) (t_entry t)"
      using inv by (auto simp: web_inv_def ref_ok_def less_Suc_eq)
    ultimately show ?thesis using inv False by (simp add: connect_def Let_def web_inv_def)
  qed (simp add: connect_def Let_def inv)
qed

lemma link_is_inv: "web_inv s \<Longrightarrow> web_inv (link_is k st s)"
proof (cases "oget (w_links s) k")
  case (Some l)
  assume inv: "web_inv s"
  have "wlink_ok (w_retained s) l" using inv Some by (auto simp: web_inv_def intro: wlinks_get)
  then show ?thesis using inv Some by (simp add: link_is_def) (simp add: web_links_inv wlink_ok_def)
qed (simp add: link_is_def)

lemma offers_inv:
  "web_inv s \<Longrightarrow> oget (w_retained s) (e_id e) = Some e \<Longrightarrow> web_inv (fold (on_queue (qset e)) ks s)"
  by (induction ks arbitrary: s) (simp_all add: on_queue_inv)

lemma offers_frame [simp]:
  "w_retained (fold (on_queue f) ks s) = w_retained s" "w_relay (fold (on_queue f) ks s) = w_relay s"
  by (induction ks arbitrary: s) simp_all

lemma wremember_inv: "web_inv s \<Longrightarrow> web_inv (wremember p s)"
proof -
  assume inv: "web_inv s"
  let ?m = "if length (w_seen s) \<ge> ROUTER_seen then odel (hd (okeys (w_seen s))) (w_seen s) else w_seen s"
  have "owf (w_seen s)" "length (w_seen s) \<le> ROUTER_seen" using inv by (simp_all add: web_inv_def seen_ok_def)
  then have "seen_ok (oset (p_id p) (p_expires p) ?m)"
    using omap.bounded_put [of "w_seen s" ROUTER_seen "p_id p" "p_expires p"] by (simp add: seen_ok_def okeys_def router_limits)
  with inv show ?thesis by (simp add: web_inv_def wremember_def)
qed

lemma wremember_frame [simp]: "w_retained (wremember p s) = w_retained s" "w_relay (wremember p s) = w_relay s"
  "w_links (wremember p s) = w_links s"
  by (simp_all add: wremember_def)

lemma call_checked_inv:
  assumes inv: "web_inv s"
  shows "web_inv (call_checked now n ok s)"
proof (cases "n < length (w_calls s) \<and> (\<exists>p rel. w_calls s ! n = (Checking p, rel))")
  case True
  then obtain p rel where c: "n < length (w_calls s)" "w_calls s ! n = (Checking p, rel)" by blast
  have s1: "web_inv (end_call n s)" using inv by (simp add: end_call_def)
  show ?thesis
  proof (cases "\<not> ok \<or> w_stopped (end_call n s) \<or> rel \<and> \<not> w_relay (end_call n s) \<or> ohas (w_seen (end_call n s)) (p_id p)")
    case False
    obtain r s2 where w: "wretain (p_value p) rel (end_call n s) = (r, s2)" by (cases "wretain (p_value p) rel (end_call n s)")
    have w2: "web_inv s2 \<and> (\<forall>e. r = Inr e \<longrightarrow> oget (w_retained s2) (e_id e) = Some e)"
      using False by (intro wretain_inv [OF w s1]) simp
    have "web_inv (wtick now (offer e (wremember p s2)))" if "r = Inr e" for e
      using w2 that unfolding offer_def by (intro wtick_inv offers_inv wremember_inv) simp_all
    with w2 show ?thesis using c False s1 by (cases r) (simp_all add: call_checked_def Let_def w)
  qed (use c s1 in \<open>simp add: call_checked_def Let_def\<close>)
next
  case False
  then have "call_checked now n ok s = s"
    by (cases "n < length (w_calls s)"; cases "w_calls s ! n"; cases "fst (w_calls s ! n)") (auto simp: call_checked_def)
  with inv show ?thesis by simp
qed

lemma call_made_inv: "web_inv s \<Longrightarrow> web_inv (call_made C now n s)"
  by (simp add: call_made_def end_call_def split: prod.split bstage.split sum.split)

lemma waccept_inv: "web_inv s \<Longrightarrow> web_inv (waccept v k s)"
  by (auto simp: waccept_def web_inv_def flow_ok_def Let_def split: sum.split option.splits)

lemma finish_inv: "web_inv s \<Longrightarrow> w_current s = Some (q, st) \<Longrightarrow> web_inv (finish q s)"
  by (auto simp: web_inv_def finish_def flow_ok_def Let_def)

lemma reject_inv: "web_inv s \<Longrightarrow> w_current s = Some (q, st) \<Longrightarrow> web_inv (reject q s)"
  unfolding reject_def by (rule finish_inv [where st = st]) (simp_all add: bump_def)

lemma current_set_inv: "web_inv s \<Longrightarrow> w_current s = Some (q, st) \<Longrightarrow> web_inv (s\<lparr>w_current := Some (q, st')\<rparr>)"
  by (simp add: web_inv_def flow_ok_def)

lemma start_reception_inv: "web_inv s \<Longrightarrow> web_inv (start_reception C now s)"
proof (cases "w_current s = None \<and> w_chain s \<noteq> []")
  case True
  assume inv: "web_inv s"
  from True obtain q qs where q: "w_chain s = q # qs" "w_current s = None" by (cases "w_chain s") auto
  have moved: "web_inv (s\<lparr>w_chain := qs, w_current := Some (q, st)\<rparr>)" for st
    using inv q by (simp add: web_inv_def flow_ok_def Let_def add.commute)
  have "reject q (s\<lparr>w_chain := qs\<rparr>) = reject q (s\<lparr>w_chain := qs, w_current := Some (q, st)\<rparr>)" for st
    by (simp add: reject_def finish_def bump_def)
  then have "web_inv (reject q (s\<lparr>w_chain := qs\<rparr>))" using reject_inv [OF moved] by simp
  with moved q show ?thesis by (simp add: start_reception_def Let_def)
qed (auto simp: start_reception_def split: option.split list.split)

lemma reception_verified_inv: "web_inv s \<Longrightarrow> web_inv (reception_verified s)"
proof -
  assume inv: "web_inv s"
  have "web_inv (finish q (bump f s))" if "w_current s = Some (q, st)" for q st f
    by (rule finish_inv [where st = st]) (use inv that in \<open>simp_all add: bump_def\<close>)
  then show ?thesis using inv by (auto simp: reception_verified_def reject_inv current_set_inv split: option.split rstage.split sum.split)
qed

lemma reception_validated_inv: "web_inv s \<Longrightarrow> web_inv (reception_validated ok s)"
  by (auto simp: reception_validated_def reject_inv current_set_inv split: option.split rstage.split)

lemma forwards_inv:
  "web_inv s \<Longrightarrow> oget (w_retained s) (e_id e) = Some e \<Longrightarrow> web_inv (fold (forward e k) ks s)"
proof (induction ks arbitrary: s)
  case (Cons j ks)
  have "web_inv (forward e k j s)" using Cons.prems by (simp add: forward_def on_queue_inv)
  moreover have "w_retained (forward e k j s) = w_retained s" by (simp add: forward_def bump_def)
  ultimately show ?case using Cons by simp
qed simp

lemma fill_link_current [simp]: "w_current (fill_link now k s) = w_current s"
proof (induction now k s rule: fill_link.induct)
  case (1 now k s)
  have "w_current (transmit now k e s) = w_current s" for e s
    by (simp add: transmit_def sent_off_def hand_to_link_def split: option.split)
  with 1 show ?case by (simp add: fill_link.simps [of now k s] Let_def split: option.split)
qed

lemma wtick_current [simp]: "w_current (wtick now s) = w_current s"
proof -
  have "w_current (tick_wlink now k s) = w_current s" for k s
    by (simp add: tick_wlink_def disconnect_def split: option.split link_state.split)
  then have "w_current (fold (tick_wlink now) ks s) = w_current s" for ks s by (induction ks arbitrary: s) simp_all
  then show ?thesis by (simp add: wtick_def Let_def)
qed

lemma forwards_current [simp]: "w_current (fold (forward e k) ks s) = w_current s"
  by (induction ks arbitrary: s) (simp_all add: forward_def bump_def)

lemma reception_handed_inv:
  assumes inv: "web_inv s"
  shows "web_inv (reception_handed now ok s)"
proof (cases "\<exists>q p. w_current s = Some (q, Handing p)")
  case True
  then obtain q p where c: "w_current s = Some (q, Handing p)" by blast
  show ?thesis
  proof (cases "\<not> ok \<or> w_stopped s \<or> p_expires p \<le> now")
    case True
    with c reject_inv [OF inv c] show ?thesis by (simp add: reception_handed_def)
  next
    case False
    define s2 where "s2 = count_received p s"
    have s2: "web_inv s2" unfolding s2_def count_received_def Let_def by (simp add: wremember_inv inv)
    have c2: "w_current s2 = Some (q, Handing p)" by (simp add: s2_def count_received_def Let_def bump_def wremember_def c)
    have fin: "web_inv u \<Longrightarrow> w_current u = Some (q, Handing p) \<Longrightarrow> web_inv (finish q u)" for u by (rule finish_inv)
    show ?thesis
    proof (cases "w_relay s2 \<and> int (length (p_hops p)) < p_maxHops p")
      case relay: True
      obtain r s3 where w: "wretain (relayed_value (p_value p) (w_id s2)) True s2 = (r, s3)"
        by (cases "wretain (relayed_value (p_value p) (w_id s2)) True s2")
      have w3: "web_inv s3 \<and> (\<forall>e. r = Inr e \<longrightarrow> oget (w_retained s3) (e_id e) = Some e)"
        using wretain_inv [OF w s2] relay by simp
      have c3: "w_current s3 = Some (q, Handing p)" using wretain_keeps [OF w s2] c2 by simp
      have "web_inv (finish q (wtick now (fold (forward e (q_source q)) (okeys (w_links s3)) s3)))" if "r = Inr e" for e
        using w3 that c3 by (intro fin wtick_inv forwards_inv) simp_all
      moreover have "web_inv (finish q (bump f s3))" for f using w3 c3 by (intro fin) (simp_all add: bump_def)
      ultimately show ?thesis using c False relay w
        by (cases r) (simp_all add: reception_handed_def Let_def flip: s2_def)
    next
      case last: False
      have "reception_handed now ok s = finish q s2"
        using c False last by (simp only: reception_handed_def option.case prod.case rstage.case if_False Let_def flip: s2_def)
      then show ?thesis using fin [OF s2 c2] by simp
    qed
  qed
next
  case False
  then have "reception_handed now ok s = s" by (auto simp: reception_handed_def split: option.split rstage.split)
  with inv show ?thesis by simp
qed

lemma wclose_inv: "web_inv s \<Longrightarrow> web_inv (wclose s)"
  by (auto simp: wclose_def web_inv_def kept_ok_def wlinks_ok_def ref_ok_def seen_ok_def consent_ok_def router_limits)

section \<open>Runs\<close>

lemma web_step_inv: "web_inv s \<Longrightarrow> web_inv (web_step C now e s)"
proof (cases e)
  case (Broadcast payload prio ttl rel)
  assume "web_inv s"
  with Broadcast show ?thesis by (simp add: wbroadcast_def split: sum.split)
qed (simp_all add: call_made_inv call_checked_inv waccept_inv start_reception_inv reception_verified_inv reception_validated_inv
    reception_handed_inv may_send_inv link_done_inv connect_inv link_is_inv disconnect_inv set_relaying_inv wremoves_inv wtick_inv
    wclose_inv wcancel_def wcancelLocal_def Let_def)

lemma web_run_inv: "web_run C s0 evs T s \<Longrightarrow> web_inv s0 \<Longrightarrow> web_inv s"
  by (induction rule: web_run.induct) (simp_all add: web_step_inv)

lemma queue_bounded:
  assumes "kept_ok m b n" "queue_ok m q"
  shows "length q \<le> ROUTER_retained"
proof -
  have "e_id ` set q \<subseteq> fst ` set m" using assms(2) by (force simp: queue_ok_def dest: oget_SomeD)
  then have "card (e_id ` set q) \<le> card (fst ` set m)" by (intro card_mono) simp_all
  also have "\<dots> \<le> length m" using card_length [of "map fst m"] by simp
  finally have "card (set (map e_id q)) \<le> length m" by simp
  moreover have "card (set (map e_id q)) = length q" using assms(2) distinct_card [of "map e_id q"] by (simp add: queue_ok_def)
  ultimately show ?thesis using assms(1) by (simp add: kept_ok_def)
qed


text \<open>
  C8: The consent to relay is kept to at every moment. While relaying is off, the router keeps
  no packet of others and offers none to a link; and every packet it ever gave to a link had
  not expired then and, when it was one to relay, relaying was on then.
\<close>

theorem relay_consent_kept:
  assumes "new_browser i rel asks = Some s0" "web_run C s0 evs T s"
  shows "(w_relay s \<or> list_all (\<lambda>(j, e). \<not> e_relayOnly e) (w_retained s) \<and>
       list_all (\<lambda>(k, l). list_all (\<lambda>e. \<not> e_relayOnly e) (l_queue l)) (w_links s)) \<and>
     list_all (\<lambda>(k, e, t, r). t < p_expires (e_packet e) \<and> (\<not> e_relayOnly e \<or> r)) (wire s)"
proof -
  have inv: "web_inv s" using web_run_inv [OF assms(2) new_browser_inv [OF assms(1)]] .
  have kept: "\<not> e_relayOnly e" if "\<not> w_relay s" "(j, e) \<in> set (w_retained s)" for j e
    using inv that by (force simp: web_inv_def consent_ok_def)
  have "\<not> e_relayOnly e" if off: "\<not> w_relay s" and l: "(k, l) \<in> set (w_links s)" "e \<in> set (l_queue l)" for k l e
  proof -
    have "oget (w_retained s) (e_id e) = Some e" using inv l by (force simp: web_inv_def wlinks_ok_def wlink_ok_def queue_ok_def)
    then show ?thesis using kept [OF off] by (blast dest: oget_SomeD)
  qed
  with kept inv show ?thesis by (auto simp: list_all_iff web_inv_def wire_ok_def)
qed

end
