(* ===== verification/Browser_Spec.thy ===== *)
theory Browser_Spec
  imports Browser_Inv Router_Examples
begin

text \<open>
  What the router of a browser promises to its application and to the other routers: which
  packets it hands on, that it finishes receiving a packet at most once, that urgent packets are
  not displaced, and that it accepts the packets a node accepts.
\<close>

section \<open>Steps that leave the reception alone\<close>

definition quiet :: "int \<Rightarrow> browser \<Rightarrow> browser \<Rightarrow> bool" where
  "quiet now s s' \<longleftrightarrow> completed s' = completed s \<and> handed s' = handed s \<and> w_current s' = w_current s \<and> w_id s' = w_id s \<and>
     w_stopped s' = w_stopped s \<and> (w_seen s' = w_seen s \<or> w_seen s' = filter (\<lambda>p. \<not> snd p \<le> now) (w_seen s))"

lemma quiet_refl [simp]: "quiet now s s"
  by (simp add: quiet_def)

text \<open>Steps that do not even touch the table of seen packets.\<close>

definition silent :: "browser \<Rightarrow> browser \<Rightarrow> bool" where
  "silent s s' \<longleftrightarrow> completed s' = completed s \<and> handed s' = handed s \<and> w_current s' = w_current s \<and> w_id s' = w_id s \<and>
     w_stopped s' = w_stopped s \<and> w_seen s' = w_seen s"

lemma silent_quiet: "silent s s' \<Longrightarrow> quiet now s s'"
  by (simp add: silent_def quiet_def)

lemma silent_refl [simp]: "silent s s"
  by (simp add: silent_def)

lemma silent_trans: "silent s t \<Longrightarrow> silent t u \<Longrightarrow> silent s u"
  by (simp add: silent_def)

lemma silent_fold: "(\<And>x s. silent s (f x s)) \<Longrightarrow> silent s (fold f xs s)"
  by (induction xs arbitrary: s) (auto intro: silent_trans)

lemma silent_simps [simp]:
  "silent s (bump f s)" "silent s (s\<lparr>w_tasks := ts\<rparr>)" "silent s (s\<lparr>w_calls := cs\<rparr>)" "silent s (s\<lparr>w_links := ls\<rparr>)"
  "silent s (s\<lparr>w_low := b\<rparr>)" "silent s (s\<lparr>w_running := b\<rparr>)" "silent s (end_call n s)" "silent s (disconnect k s)"
  by (simp_all add: silent_def bump_def end_call_def disconnect_def)

lemma silent_ops [simp]:
  "silent s (wremove i s)" "silent s (on_queue f k s)" "silent s (sent_off k i s)" "silent s (hand_to_link now k e s)"
  "silent s (drop_kept i s)" "silent s (link_is k st s)"
  by (simp_all add: silent_def wremove_def on_queue_def sent_off_def hand_to_link_def drop_kept_def link_is_def split: option.split)

text \<open>The same, after a silent step.\<close>

lemmas silent_after = silent_trans [OF _ silent_simps(1)] silent_trans [OF _ silent_simps(2)] silent_trans [OF _ silent_ops(1)]
  silent_trans [OF _ silent_ops(2)] silent_trans [OF _ silent_ops(3)] silent_trans [OF _ silent_ops(4)]

lemma silent_transmit [simp]: "silent s (transmit now k e s)"
  by (simp add: transmit_def)

lemma silent_fill [simp]: "silent s (fill_link now k s)"
proof (induction now k s rule: fill_link.induct)
  case (1 now k s)
  show ?case
  proof (cases "oget (w_links s) k")
    case (Some l)
    show ?thesis
    proof (cases "length (l_sending l) < (if w_low s then 2 else 4) \<and> sendable now s l \<noteq> []")
      case True
      define e where "e = send_first (l_turn l + 1) (sendable now s l)"
      let ?s = "s\<lparr>w_links := oset k (start_one e l) (w_links s)\<rparr>"
      have "silent s (transmit now k e ?s)" using silent_trans [OF silent_simps(4) silent_transmit] .
      from silent_trans [OF this 1 [OF Some True e_def]] show ?thesis
        unfolding fill_link.simps [of now k s] using Some True by (simp add: e_def Let_def)
    next
      case False
      then show ?thesis unfolding fill_link.simps [of now k s] by (simp only: Some option.case if_False) simp
    qed
  qed (simp add: fill_link.simps [of now k s])
qed

lemma silent_tick_wlink [simp]: "silent s (tick_wlink now k s)"
  by (simp add: tick_wlink_def split: option.split link_state.split)

lemma silent_folds [simp]:
  "silent s (fold wremove ks s)" "silent s (fold drop_kept ks s)" "silent s (fold (tick_wlink now) js s)" "silent s (offer e s)"
  by (simp_all add: silent_fold offer_def)

lemma quiet_tick [simp]: "quiet now s (wtick now s)"
proof -
  have "quiet now s t" if "silent (s\<lparr>w_seen := filter (\<lambda>p. \<not> snd p \<le> now) (w_seen s)\<rparr>) t" for t
    using that by (simp add: silent_def quiet_def)
  then show ?thesis
    using silent_trans [OF silent_folds(1) silent_folds(3)] by (simp add: wtick_def Let_def del: silent_folds)
qed

lemma silent_retain:
  assumes "wretain v rel s = (r, s')"
  shows "silent s s'"
proof -
  have "silent s (t\<lparr>w_retained := a, w_bytes := b, w_next := c\<rparr>)" if "silent s t" for t a b c using that by (simp add: silent_def)
  then show ?thesis using assms silent_folds(2)
    by (auto simp: wretain_def Let_def split: sum.splits if_splits option.splits)
qed

lemma silent_forwards [simp]: "silent s (fold (forward e k) ks s)"
  by (rule silent_fold) (simp add: forward_def silent_after)

lemma silent_relaying: "silent s (set_relaying b s)"
proof -
  have "silent s (s\<lparr>w_relay := b\<rparr>)" by (simp add: silent_def)
  then show ?thesis using silent_trans [OF _ silent_folds(1)] by (auto simp: set_relaying_def Let_def)
qed

lemma silent_may_send [simp]: "silent s (may_send now n answer s)"
  by (simp add: may_send_def Let_def silent_after split: option.split bool.split)

lemma silent_link_done [simp]: "silent s (link_done now n out s)"
  by (simp add: link_done_def Let_def silent_after)

lemma quiet_connect [simp]: "quiet now s (snd (connect now m s))"
proof -
  have "quiet now s (t\<lparr>w_links := a, w_next := b\<rparr>)" if "quiet now s t" for t a b using that by (simp add: quiet_def)
  then show ?thesis by (simp add: connect_def Let_def)
qed

section \<open>The packets handed to the application\<close>

definition valid_packet :: "crypto \<Rightarrow> ustr \<Rightarrow> packet \<Rightarrow> bool" where
  "valid_packet C me p \<longleftrightarrow> (\<exists>v t. verifiedPacket C t v = Inr p) \<and> me \<notin> set (p_hops p)"

definition stage_valid :: "crypto \<Rightarrow> ustr \<Rightarrow> rstage \<Rightarrow> bool" where
  "stage_valid C me st = (case st of Verifying r \<Rightarrow> \<exists>v t. r = verifiedPacket C t v
     | Validating p \<Rightarrow> valid_packet C me p | Handing p \<Rightarrow> valid_packet C me p)"

definition valid_inv :: "crypto \<Rightarrow> browser \<Rightarrow> bool" where
  "valid_inv C s \<longleftrightarrow> (\<forall>p \<in> set (handed s). valid_packet C (w_id s) p) \<and>
     (\<forall>q st. w_current s = Some (q, st) \<longrightarrow> stage_valid C (w_id s) st) \<and> set (completed s) \<subseteq> set (handed s) \<and>
     (\<forall>q p. w_current s = Some (q, Handing p) \<longrightarrow> p \<in> set (handed s))"

lemma valid_quiet: "quiet now s s' \<Longrightarrow> valid_inv C s \<Longrightarrow> valid_inv C s'"
  by (simp add: quiet_def valid_inv_def)

lemma valid_silent: "silent s s' \<Longrightarrow> valid_inv C s \<Longrightarrow> valid_inv C s'"
  by (rule valid_quiet [OF silent_quiet])

lemma valid_finish: "valid_inv C s \<Longrightarrow> valid_inv C (finish q s)"
  by (simp add: valid_inv_def finish_def)

lemma valid_reject: "valid_inv C s \<Longrightarrow> valid_inv C (reject q s)"
  unfolding reject_def by (rule valid_finish) (rule valid_silent [OF silent_simps(1)])

lemma valid_remember: "valid_inv C s \<Longrightarrow> valid_inv C (wremember p s)"
  by (simp add: valid_inv_def wremember_def)

lemma call_checked_cases:
  obtains "call_checked now n ok s = s" | "call_checked now n ok s = end_call n s"
  | p rel r s2 where "wretain (p_value p) rel (end_call n s) = (r, s2)" "\<not> ohas (w_seen s) (p_id p)"
      "call_checked now n ok s = s2 \<or> (\<exists>e. r = Inr e \<and> call_checked now n ok s = wtick now (offer e (wremember p s2)))"
proof (cases "n < length (w_calls s) \<and> (\<exists>p rel. w_calls s ! n = (Checking p, rel))")
  case True
  then obtain p rel where c: "n < length (w_calls s)" "w_calls s ! n = (Checking p, rel)" by blast
  show thesis
  proof (cases "\<not> ok \<or> w_stopped (end_call n s) \<or> rel \<and> \<not> w_relay (end_call n s) \<or> ohas (w_seen (end_call n s)) (p_id p)")
    case True
    then have "call_checked now n ok s = end_call n s" using c by (simp add: call_checked_def Let_def)
    then show thesis by (rule that(2))
  next
    case False
    obtain r s2 where w: "wretain (p_value p) rel (end_call n s) = (r, s2)" by (cases "wretain (p_value p) rel (end_call n s)")
    have "\<not> ohas (w_seen s) (p_id p)" using False by (simp add: end_call_def)
    moreover have "call_checked now n ok s = (case r of Inl _ \<Rightarrow> s2 | Inr e \<Rightarrow> wtick now (offer e (wremember p s2)))"
      using c False w by (simp only: call_checked_def Let_def prod.case bstage.case if_False not_le) (simp split: sum.split)
    ultimately show thesis using that(3) [OF w] by (cases r) auto
  qed
next
  case False
  then have "call_checked now n ok s = s"
    by (cases "n < length (w_calls s)"; cases "w_calls s ! n"; cases "fst (w_calls s ! n)") (auto simp: call_checked_def)
  then show thesis by (rule that(1))
qed

lemma valid_step:
  assumes "valid_inv C s"
  shows "valid_inv C (web_step C now e s)"
proof (cases e)
  case (Broadcast payload prio ttl rel)
  then show ?thesis using assms by (simp add: wbroadcast_def valid_silent [OF silent_simps(3)] split: sum.split)
next
  case (CallMade n)
  then show ?thesis using assms
    by (auto simp: call_made_def intro: valid_silent [OF silent_simps(3)] valid_silent [OF silent_simps(7)]
      split: prod.split bstage.split sum.split)
next
  case (CallChecked n ok)
  have s1: "valid_inv C (end_call n s)" using assms by (rule valid_silent [OF silent_simps(7)])
  show ?thesis
  proof (cases rule: call_checked_cases [of now n ok s])
    case (3 p rel r s2)
    have "valid_inv C s2" using valid_silent [OF silent_retain [OF 3(1)] s1] .
    then have "valid_inv C (wtick now (offer e (wremember p s2)))" for e
      by (intro valid_quiet [OF quiet_tick] valid_silent [OF silent_folds(4)] valid_remember)
    with 3(3) \<open>valid_inv C s2\<close> show ?thesis unfolding CallChecked by auto
  qed (use assms s1 CallChecked in simp_all)
next
  case (Accept v k)
  then show ?thesis using assms by (simp add: waccept_def valid_inv_def Let_def split: sum.split)
next
  case StartReception
  have "valid_inv C (s\<lparr>w_chain := qs, w_current := Some (q, Verifying (verifiedPacket C now v))\<rparr>)"
    "valid_inv C (s\<lparr>w_chain := qs\<rparr>)" for qs q v
    using assms by (auto simp: valid_inv_def stage_valid_def)
  then show ?thesis using StartReception assms valid_reject by (simp add: start_reception_def Let_def split: option.split list.split)
next
  case ReceptionVerified
  show ?thesis
  proof (cases "\<exists>q p. w_current s = Some (q, Verifying (Inr p))")
    case True
    then obtain q p where c: "w_current s = Some (q, Verifying (Inr p))" by blast
    then have "\<exists>v t. verifiedPacket C t v = Inr p" using assms by (auto simp: valid_inv_def stage_valid_def) metis
    then have "valid_inv C (s\<lparr>w_current := Some (q, Validating p)\<rparr>)" if "w_id s \<notin> set (p_hops p)"
      using assms that by (simp add: valid_inv_def stage_valid_def valid_packet_def)
    moreover have "valid_inv C (finish q (bump f s))" for f
      by (rule valid_finish) (rule valid_silent [OF silent_simps(1) assms])
    ultimately show ?thesis using c ReceptionVerified by (simp add: reception_verified_def)
  next
    case False
    then show ?thesis using assms ReceptionVerified valid_reject
      by (auto simp: reception_verified_def split: option.split rstage.split sum.split)
  qed
next
  case (ReceptionValidated ok)
  show ?thesis
  proof (cases "\<exists>q p. w_current s = Some (q, Validating p)")
    case True
    then obtain q p where c: "w_current s = Some (q, Validating p)" by blast
    then have "valid_packet C (w_id s) p" using assms by (force simp: valid_inv_def stage_valid_def)
    then have "valid_inv C (s\<lparr>w_current := Some (q, Handing p), handed := handed s @ [p]\<rparr>)"
      using assms by (auto simp: valid_inv_def stage_valid_def)
    then show ?thesis using c ReceptionValidated assms valid_reject by (simp add: reception_validated_def)
  next
    case False
    then show ?thesis using assms ReceptionValidated by (auto simp: reception_validated_def split: option.split rstage.split)
  qed
next
  case (ReceptionHanded ok)
  show ?thesis
  proof (cases "\<exists>q p. w_current s = Some (q, Handing p)")
    case True
    then obtain q p where c: "w_current s = Some (q, Handing p)" by blast
    then have s2: "valid_inv C (count_received p s)"
      using assms by (auto simp: valid_inv_def count_received_def Let_def wremember_def bump_def)
    have fin: "valid_inv C (finish q (wtick now (fold (forward e k) ks t)))" "valid_inv C (finish q (bump f t))"
      if "silent (count_received p s) t" for t e k ks f
      using valid_silent [OF that s2]
      by (auto intro: valid_finish valid_quiet [OF quiet_tick] valid_silent [OF silent_forwards] valid_silent [OF silent_simps(1)])
    show ?thesis using c ReceptionHanded assms valid_reject s2 valid_finish fin silent_retain
      by (auto simp: reception_handed_def Let_def split: prod.split sum.split)
  next
    case False
    then show ?thesis using assms ReceptionHanded by (auto simp: reception_handed_def split: option.split rstage.split)
  qed
next
  case Close
  then show ?thesis using assms by (simp add: wclose_def valid_inv_def)
qed (use assms in \<open>simp_all add: valid_silent [OF silent_may_send] valid_silent [OF silent_link_done] valid_quiet [OF quiet_connect]
    valid_silent [OF silent_ops(6)] valid_silent [OF silent_simps(8)] valid_silent [OF silent_relaying] valid_silent [OF silent_simps(5)]
    valid_silent [OF silent_simps(6)] valid_silent [OF silent_folds(1)] valid_quiet [OF quiet_tick] wcancel_def wcancelLocal_def Let_def\<close>)

lemma new_browser_valid: "new_browser i rel asks = Some s \<Longrightarrow> valid_inv C s \<and> w_id s = i"
  by (auto simp: new_browser_def valid_inv_def split: if_splits)

lemma valid_run: "web_run C s0 evs T s \<Longrightarrow> valid_inv C s0 \<Longrightarrow> valid_inv C s"
  by (induction rule: web_run.induct) (simp_all add: valid_step)

text \<open>No step renames the router.\<close>

lemma finish_id [simp]: "w_id (finish q s) = w_id s" "w_id (reject q s) = w_id s"
  by (simp_all add: finish_def reject_def bump_def)

lemma quiet_id: "quiet now s s' \<Longrightarrow> w_id s' = w_id s"
  by (simp add: quiet_def)

lemma silent_id: "silent s s' \<Longrightarrow> w_id s' = w_id s"
  by (simp add: silent_def)

lemma verifiedE:
  assumes "verifiedPacket C now v = Inr p"
  obtains s where "exactShape v packet_keys" "p = packet_of (jnorm v)" "canon (packet_body (jnorm v)) = Inr s" "p_id p = sha C (utf8 s)"
    "now < p_expires p" "check_packet C now (jnorm v) = Inr p"
proof -
  let ?w = "jnorm v"
  have shape: "exactShape v packet_keys" using assms by (auto simp: verifiedPacket_def split: if_splits)
  obtain t where t: "canon v = Inr t" "int (utf8_length t) \<le> ROUTER_maxPacket"
    using assms shape by (auto simp: verifiedPacket_def split: sum.splits if_splits)
  note c = assms [unfolded verifiedPacket_def t(1) sum.case Let_def, simplified shape not_le [symmetric] t(2) if_False not_True_eq_False]
  obtain s where s: "canon (packet_body ?w) = Inr s" using c by (auto split: sum.splits if_splits)
  have id: "jget ?w (lit ''id'') = JStr (sha C (utf8 s))" and p: "p = packet_of ?w" using c by (simp_all add: s split: if_splits)
  have "check_packet C now ?w = Inr p"
    using c by (simp add: check_packet_def s Let_def id p ROUTER_ttl_def ROUTER_maxHops_def MAX_TTL_def MAX_HOPS_def split: if_splits)
  then show thesis using that [OF shape p s] id p c by (simp add: packet_of_def str_of_def split: if_splits)
qed

lemma verified_iff:
  "verifiedPacket C now v = Inr p \<longleftrightarrow>
     exactShape v packet_keys \<and> (case canon v of Inl e \<Rightarrow> False | Inr t \<Rightarrow> utf8_length t \<le> 6 * 1024 * 1024) \<and>
     check_packet C now (jnorm v) = Inr p"
proof
  assume a: "verifiedPacket C now v = Inr p"
  then have "exactShape v packet_keys" "check_packet C now (jnorm v) = Inr p" by (auto elim: verifiedE)
  moreover have "case canon v of Inl e \<Rightarrow> False | Inr t \<Rightarrow> utf8_length t \<le> 6 * 1024 * 1024"
    using a by (auto simp: verifiedPacket_def ROUTER_maxPacket_def split: if_splits sum.splits)
  ultimately show "exactShape v packet_keys \<and> (case canon v of Inl e \<Rightarrow> False | Inr t \<Rightarrow> utf8_length t \<le> 6 * 1024 * 1024) \<and>
     check_packet C now (jnorm v) = Inr p" by blast
next
  assume a: "exactShape v packet_keys \<and> (case canon v of Inl e \<Rightarrow> False | Inr t \<Rightarrow> utf8_length t \<le> 6 * 1024 * 1024) \<and>
     check_packet C now (jnorm v) = Inr p"
  then obtain t where t: "canon v = Inr t" "\<not> int (utf8_length t) > ROUTER_maxPacket"
    by (auto simp: ROUTER_maxPacket_def split: sum.splits)
  obtain s where s: "canon (packet_body (jnorm v)) = Inr s" using a by (auto simp: check_packet_def split: sum.splits)
  have c: "check_packet C now (jnorm v) = Inr p" using a by blast
  show "verifiedPacket C now v = Inr p"
    using c t a unfolding verifiedPacket_def check_packet_def s sum.case Let_def MAX_TTL_def MAX_HOPS_def ROUTER_ttl_def ROUTER_maxHops_def
    by (simp split: if_splits)
qed


lemma web_step_id: "w_id (web_step C now e s) = w_id s"
proof (cases e)
  case (CallChecked n ok)
  show ?thesis
  proof (cases rule: call_checked_cases [of now n ok s])
    case (3 p rel r s2)
    then show ?thesis unfolding CallChecked
      using silent_id [OF silent_retain [OF 3(1)]] quiet_id [OF quiet_tick] silent_id [OF silent_folds(4)]
      by (auto simp: end_call_def wremember_def)
  qed (simp_all add: CallChecked end_call_def)
next
  case (ReceptionHanded ok)
  have "w_id (count_received p s) = w_id s" for p by (simp add: count_received_def Let_def bump_def wremember_def)
  then show ?thesis unfolding ReceptionHanded
    using silent_id [OF silent_retain] quiet_id [OF quiet_tick] silent_id [OF silent_forwards] silent_id [OF silent_simps(1)]
    by (auto simp: reception_handed_def Let_def split: option.split rstage.split sum.split prod.split)
qed (auto simp: wbroadcast_def call_made_def end_call_def waccept_def start_reception_def reception_verified_def reception_validated_def
    Let_def bump_def wclose_def wcancel_def wcancelLocal_def quiet_id [OF quiet_tick] quiet_id [OF quiet_connect]
    silent_id [OF silent_may_send] silent_id [OF silent_link_done] silent_id [OF silent_ops(6)] silent_id [OF silent_simps(8)]
    silent_id [OF silent_relaying] silent_id [OF silent_folds(1)] split: sum.split option.split rstage.split list.split prod.split bstage.split)

lemma web_run_id: "web_run C s0 evs T s \<Longrightarrow> w_id s = w_id s0"
  by (induction rule: web_run.induct) (simp_all add: web_step_id)


section \<open>Urgent packets stay\<close>

text \<open>
  C15: Making room for a packet never displaces a more urgent one, and a packet that finds no
  room changes nothing: what is kept and more urgent than the new packet is still kept, and on a
  refusal everything is as it was.
\<close>

theorem browser_keeps_urgent:
  assumes "new_browser i rel asks = Some s0" "web_run C s0 evs T s" "wretain v b s = (r, s')"
    and "oget (w_retained s) j = Some e" "rank (p_prio (e_packet e)) < rank (p_prio (packet_of (jnorm v)))"
  shows "oget (w_retained s') j = Some e \<and> (isl r \<longrightarrow> s' = s)"
proof -
  have inv: "web_inv s" using web_run_inv [OF assms(2) new_browser_inv [OF assms(1)]] .
  show ?thesis
    using assms(3) inv
  proof (cases rule: wretain_cases)
    case (new x ks)
    have key: "(j, e) \<in> set (w_retained s)" using assms(4) by (rule oget_SomeD)
    then have je: "j = e_id e" using inv by (auto simp: web_inv_def kept_ok_def)
    have "j \<notin> set ks"
    proof
      assume "j \<in> set ks"
      then obtain u where u: "u \<in> set (wvictims (p_prio (e_packet x)) s)" "e_id u = j" using new(7) by auto
      then have "oget (w_retained s) j = Some u"
        using inv by (force simp: wvictims_in web_inv_def kept_ok_def ovals_def intro: oget_in_set)
      then show False using u(1) assms(4,5) new(2) by (simp add: wvictims_in)
    qed
    then have "(j, e) \<in> set (w_retained (fold drop_kept ks s))" using key by (simp add: drop_account.entries_removes)
    moreover have "owf (w_retained (fold drop_kept ks s))" using drops_inv [OF inv] by (simp add: web_inv_def kept_ok_def)
    ultimately have "oget (w_retained (fold drop_kept ks s)) j = Some e" by (intro oget_in_set)
    moreover have "j \<noteq> e_id x" using new(6) assms(4) by auto
    ultimately show ?thesis using new(1) unfolding new(8) by (simp add: oget_oset)
  qed (use assms(4) in auto)
qed

section \<open>Reception at most once\<close>

definition one_expiry :: "packet list \<Rightarrow> bool" where
  "one_expiry ps \<longleftrightarrow> (\<forall>p \<in> set ps. \<forall>q \<in> set ps. p_id p = p_id q \<longrightarrow> p_expires p = p_expires q)"

text \<open>A packet that was received is remembered until it expires.\<close>

definition wknown :: "int \<Rightarrow> browser \<Rightarrow> packet \<Rightarrow> bool" where
  "wknown T s p \<longleftrightarrow> oget (w_seen s) (p_id p) = Some (p_expires p) \<or> p_expires p \<le> T"

text \<open>The packet whose reception has passed the test for duplicates and is not finished.\<close>

definition passed :: "browser \<Rightarrow> packet option" where
  "passed s = (case w_current s of Some (q, Validating p) \<Rightarrow> Some p | Some (q, Handing p) \<Rightarrow> Some p | _ \<Rightarrow> None)"

definition fresh_for :: "int \<Rightarrow> packet list \<Rightarrow> packet \<Rightarrow> bool" where
  "fresh_for T ps p \<longleftrightarrow> (\<forall>c \<in> set ps. p_id c = p_id p \<longrightarrow> p_expires c \<le> T)"

definition once :: "nat \<Rightarrow> int \<Rightarrow> browser \<Rightarrow> bool" where
  "once B T s \<longleftrightarrow> (one_expiry (completed s) \<and> B + length (completed s) \<le> ROUTER_seen \<longrightarrow>
     distinct (map p_id (completed s)) \<and>
     (w_stopped s \<or> length (w_seen s) \<le> B + length (completed s) \<and> (\<forall>p \<in> set (completed s). wknown T s p) \<and>
        (\<forall>p. passed s = Some p \<longrightarrow> fresh_for T (completed s) p)))"

lemma once_later: "once A T s \<Longrightarrow> A \<le> B \<Longrightarrow> T \<le> U \<Longrightarrow> once B U s"
  by (fastforce simp: once_def wknown_def fresh_for_def)

lemma oget_filter_keeps: "oget m i = Some e \<Longrightarrow> P (i, e) \<Longrightarrow> oget (filter P m) i = Some e"
  by (induction m) (auto split: if_splits)

lemma once_quiet:
  assumes "quiet now s s'" "once B T s" "T \<le> now"
  shows "once B now s'"
proof -
  have "once B now s" using once_later [OF assms(2) order_refl assms(3)] .
  moreover have "wknown now s' p" if "wknown now s p" for p
    using that assms(1) oget_filter_keeps [of "w_seen s" "p_id p" "p_expires p" "\<lambda>p. \<not> snd p \<le> now"]
    by (auto simp: wknown_def quiet_def)
  moreover have "length (w_seen s') \<le> length (w_seen s)" using assms(1) by (auto simp: quiet_def)
  moreover have "completed s' = completed s" "w_stopped s' = w_stopped s" "passed s' = passed s"
    using assms(1) by (simp_all add: quiet_def passed_def)
  ultimately show ?thesis unfolding once_def by (metis (no_types, lifting) le_trans)
qed

lemma once_silent: "silent s s' \<Longrightarrow> once B T s \<Longrightarrow> once B T s'"
  by (rule once_quiet [OF silent_quiet, where T = T]) simp_all

text \<open>Dropping or replacing the current reception by one that has not passed the test.\<close>

lemma once_current:
  assumes "once B T s" "completed s' = completed s" "w_seen s' = w_seen s" "w_stopped s' = w_stopped s"
    "passed s' = None \<or> passed s' = passed s"
  shows "once B T s'"
  using assms by (auto simp: once_def wknown_def)

lemma remember_small:
  assumes "length (w_seen s) < ROUTER_seen"
  shows "w_seen (wremember p s) = oset (p_id p) (p_expires p) (w_seen s)"
  using assms by (simp add: wremember_def)

lemma length_oset_le: "length (oset k v m) \<le> Suc (length m)"
  by (simp add: length_oset)

lemma once_remember:
  assumes "once B T s" "\<not> ohas (w_seen s) (p_id p)"
  shows "once (Suc B) T (wremember p s)"
proof (cases "one_expiry (completed s) \<and> Suc B + length (completed s) \<le> ROUTER_seen")
  case True
  note o = assms(1) [unfolded once_def, rule_format]
  have d: "distinct (map p_id (completed s))" using o True by simp
  show ?thesis
  proof (cases "w_stopped s")
    case False
    with o True have l: "length (w_seen s) \<le> B + length (completed s)" and k: "\<forall>c \<in> set (completed s). wknown T s c"
      and f: "\<forall>q. passed s = Some q \<longrightarrow> fresh_for T (completed s) q" by auto
    have seen: "w_seen (wremember p s) = oset (p_id p) (p_expires p) (w_seen s)" using l True by (intro remember_small) simp
    have "wknown T (wremember p s) c" if "c \<in> set (completed s)" for c
      using k that assms(2) by (auto simp: wknown_def seen oget_oset ohas_iff)
    moreover have "length (w_seen (wremember p s)) \<le> Suc B + length (completed s)"
      using l length_oset_le [of "p_id p" "p_expires p" "w_seen s"] by (simp add: seen)
    ultimately show ?thesis using d f by (auto simp: once_def passed_def wremember_def)
  qed (use d in \<open>auto simp: once_def wremember_def\<close>)
qed (auto simp: once_def wremember_def)

text \<open>Completing a reception.\<close>

lemma one_expiry_prefix: "one_expiry (ps @ qs) \<Longrightarrow> one_expiry ps"
  unfolding one_expiry_def set_append by blast

lemma once_complete:
  assumes "once B T s" "w_current s = Some (q, Handing p)" "T \<le> now" "now < p_expires p" "\<not> w_stopped s"
  shows "once B now (count_received p s\<lparr>w_current := None\<rparr>)"
proof -
  let ?s = "count_received p s\<lparr>w_current := None\<rparr>"
  have c: "completed ?s = completed s @ [p]" "w_seen ?s = w_seen (wremember p s)" "passed ?s = None"
    by (simp_all add: count_received_def Let_def bump_def passed_def wremember_def)
  show ?thesis
  proof (cases "one_expiry (completed s @ [p]) \<and> B + length (completed s @ [p]) \<le> ROUTER_seen")
    case True
    have one: "one_expiry (completed s)" using True one_expiry_prefix by blast
    have small: "B + length (completed s) \<le> ROUTER_seen" using True by simp
    have pass: "passed s = Some p" by (simp add: passed_def assms(2))
    have o: "distinct (map p_id (completed s))" "length (w_seen s) \<le> B + length (completed s)"
      "\<forall>c \<in> set (completed s). wknown T s c" "fresh_for T (completed s) p"
      using mp [OF assms(1) [unfolded once_def] conjI [OF one small]] assms(5) pass by blast+
    have new: "p_id c \<noteq> p_id p" if "c \<in> set (completed s)" for c
    proof
      assume eq: "p_id c = p_id p"
      then have "p_expires c = p_expires p" using True that unfolding one_expiry_def set_append by (metis UnCI list.set_intros(1))
      moreover have "p_expires c \<le> T" using o(4) that eq by (simp add: fresh_for_def)
      ultimately show False using assms(3,4) by simp
    qed
    have seen: "w_seen ?s = oset (p_id p) (p_expires p) (w_seen s)"
      unfolding c(2) using o(2) True by (intro remember_small) simp
    have "wknown now ?s d" if "d \<in> set (completed s @ [p])" for d
    proof (cases "d = p")
      case False
      with that have d: "d \<in> set (completed s)" by auto
      then have "wknown T s d" using o(3) by blast
      then show ?thesis unfolding wknown_def seen oget_oset using new [OF d] assms(3) by auto
    qed (simp add: wknown_def seen oget_oset)
    moreover have "length (w_seen ?s) \<le> B + length (completed s @ [p])"
      using o(2) length_oset_le [of "p_id p" "p_expires p" "w_seen s"] unfolding seen by simp
    moreover have "distinct (map p_id (completed s @ [p]))" using o(1) new by (force simp del: One_nat_def)
    ultimately show ?thesis unfolding once_def c by simp
  qed (auto simp: once_def c)
qed

definition is_call :: "int \<times> web_event \<Rightarrow> bool" where
  "is_call x = (case snd x of CallChecked n ok \<Rightarrow> True | _ \<Rightarrow> False)"

lemma finish_passed [simp]: "passed (finish q s) = None" "completed (finish q s) = completed s" "w_seen (finish q s) = w_seen s"
  "w_stopped (finish q s) = w_stopped s" "passed (reject q s) = None" "completed (reject q s) = completed s"
  "w_seen (reject q s) = w_seen s" "w_stopped (reject q s) = w_stopped s"
  by (simp_all add: passed_def finish_def reject_def bump_def)

lemma once_finish: "once B T s \<Longrightarrow> once B T (finish q s)"
  by (rule once_current [where s = s]) simp_all

lemma once_reject: "once B T s \<Longrightarrow> once B T (reject q s)"
  by (rule once_current [where s = s]) simp_all

lemma once_handed:
  assumes "once B T s" "T \<le> now"
  shows "once B now (reception_handed now ok s)"
proof (cases "\<exists>q p. w_current s = Some (q, Handing p)")
  case True
  then obtain q p where c: "w_current s = Some (q, Handing p)" by blast
  have later: "once B now s" using once_later [OF assms(1) order_refl assms(2)] .
  show ?thesis
  proof (cases "\<not> ok \<or> w_stopped s \<or> p_expires p \<le> now")
    case True
    with c once_reject [OF later] show ?thesis by (simp add: reception_handed_def)
  next
    case False
    have done1: "once B now (finish q u)" if "quiet now (count_received p s) u" for u
    proof -
      have "once B now (count_received p s\<lparr>w_current := None\<rparr>)"
        using False by (intro once_complete [OF assms(1) c assms(2)]) auto
      moreover have "quiet now (count_received p s\<lparr>w_current := None\<rparr>) (u\<lparr>w_current := None\<rparr>)"
        using that by (simp add: quiet_def)
      ultimately have "once B now (u\<lparr>w_current := None\<rparr>)" using once_quiet by blast
      then show ?thesis by (rule once_current) simp_all
    qed
    have "quiet now (count_received p s) (wtick now (fold (forward e k) ks t))" "quiet now (count_received p s) (bump f t)"
      if "silent (count_received p s) t" for t e k ks f
    proof -
      have "silent (count_received p s) (fold (forward e k) ks t)" using that silent_forwards by (rule silent_trans)
      then show "quiet now (count_received p s) (wtick now (fold (forward e k) ks t))"
        using quiet_tick [of now "fold (forward e k) ks t"] by (simp add: silent_def quiet_def)
      show "quiet now (count_received p s) (bump f t)" using silent_after(1) [OF that] by (rule silent_quiet)
    qed
    then show ?thesis using c False done1 silent_retain quiet_refl
      by (auto simp: reception_handed_def Let_def split: prod.split sum.split)
  qed
next
  case False
  then have "reception_handed now ok s = s" by (auto simp: reception_handed_def split: option.split rstage.split)
  then show ?thesis using once_later [OF assms(1) order_refl assms(2)] by simp
qed

lemma once_verified:
  assumes "once B T s"
  shows "once B T (reception_verified s)"
proof (cases "\<exists>q p. w_current s = Some (q, Verifying (Inr p)) \<and> \<not> ohas (w_seen s) (p_id p) \<and> w_id s \<notin> set (p_hops p)")
  case True
  then obtain q p where c: "w_current s = Some (q, Verifying (Inr p))" "\<not> ohas (w_seen s) (p_id p)" "w_id s \<notin> set (p_hops p)" by blast
  have "fresh_for T (completed s) p" if "\<forall>d \<in> set (completed s). wknown T s d"
    using that c(2) by (force simp: fresh_for_def wknown_def ohas_iff)
  then have "once B T (s\<lparr>w_current := Some (q, Validating p)\<rparr>)"
    using assms by (auto simp: once_def passed_def wknown_def)
  then show ?thesis using c by (simp add: reception_verified_def)
next
  case False
  have "once B T (finish q (bump f s))" for q f by (rule once_finish) (rule once_silent [OF silent_simps(1) assms])
  then show ?thesis using False once_reject [OF assms] assms
    by (auto simp: reception_verified_def split: option.split rstage.split sum.split)
qed

lemma once_step:
  assumes "once B T s" "T \<le> now"
  shows "once (B + (if is_call (now, e) then 1 else 0)) now (web_step C now e s)"
proof (cases "is_call (now, e)")
  case True
  then obtain n ok where e: "e = CallChecked n ok" by (auto simp: is_call_def split: web_event.splits)
  have now: "once B now s" "once (Suc B) now s" using once_later [OF assms(1) _ assms(2)] by simp_all
  have "once (Suc B) now (call_checked now n ok s)"
  proof (cases rule: call_checked_cases [of now n ok s])
    case (3 p rel r s2)
    have s: "silent s s2" by (rule silent_trans [OF silent_simps(7) silent_retain [OF 3(1)]])
    have "once (Suc B) now (wtick now (offer x (wremember p s2)))" for x
      by (rule once_quiet [OF quiet_tick once_silent [OF silent_folds(4) once_remember [OF once_silent [OF s now(1)]]] order_refl])
        (use 3(2) s in \<open>simp add: silent_def\<close>)
    with 3(3) once_silent [OF s now(2)] show ?thesis by auto
  qed (use now once_silent [OF silent_simps(7)] in auto)
  then show ?thesis using True unfolding e by simp
next
  case False
  have now: "once B now s" using once_later [OF assms(1) order_refl assms(2)] .
  note q = once_quiet [OF _ assms] and k = once_silent [OF _ now]
  have "once B now (web_step C now e s)"
  proof (cases e)
    case (Accept v j)
    have "silent s (s\<lparr>w_inflightBytes := a, w_inflightCount := b, w_chain := c\<rparr>)" for a b c by (simp add: silent_def)
    from k [OF this] now show ?thesis by (simp add: Accept waccept_def Let_def split: sum.split)
  next
    case StartReception
    have "once B now (s\<lparr>w_chain := qs, w_current := Some (x, Verifying r)\<rparr>)" for qs x r
      by (rule once_current [OF now]) (simp_all add: passed_def)
    moreover have "once B now (s\<lparr>w_chain := qs\<rparr>)" for qs by (rule once_current [OF now]) (simp_all add: passed_def)
    ultimately show ?thesis using now once_reject by (simp add: StartReception start_reception_def Let_def split: option.split list.split)
  next
    case (ReceptionValidated ok)
    have "once B now (s\<lparr>w_current := Some (x, Handing p), handed := h\<rparr>)" if "w_current s = Some (x, Validating p)" for x p h
      by (rule once_current [OF now]) (simp_all add: passed_def that)
    then show ?thesis using now once_reject [OF now]
      by (auto simp: ReceptionValidated reception_validated_def split: option.split rstage.split)
  next
    case Close
    then show ?thesis using now by (auto simp: wclose_def once_def)
  next
    case (CallChecked n ok)
    with False show ?thesis by (simp add: is_call_def)
  next
    case (CallMade n)
    then show ?thesis using now k [OF silent_simps(3)] k [OF silent_simps(7)]
      by (auto simp: call_made_def split: prod.split bstage.split sum.split)
  qed (use now once_handed [OF assms] once_verified [OF now] in \<open>simp_all add: wbroadcast_def wcancel_def wcancelLocal_def Let_def
      k [OF silent_simps(3)] k [OF silent_may_send] k [OF silent_link_done] q [OF quiet_connect] k [OF silent_ops(6)] k [OF silent_simps(8)]
      k [OF silent_relaying] k [OF silent_simps(5)] k [OF silent_simps(6)] k [OF silent_folds(1)] q [OF quiet_tick] split: sum.split\<close>)
  then show ?thesis by (simp add: False)
qed

lemma once_web_run: "web_run C s0 evs T s \<Longrightarrow> (\<And>U. once 0 U s0) \<Longrightarrow> once (length (filter is_call evs)) T s"
proof (induction rule: web_run.induct)
  case (step evs T s now e)
  from once_step [OF step.IH [OF step.prems] step.hyps(2), of e C] show ?case by (cases "is_call (now, e)") simp_all
qed simp


section \<open>The packets a browser makes\<close>

lemma packet_body_jnorm: "is_obj v \<Longrightarrow> packet_body (jnorm v) = jnorm (packet_body v)"
  by (cases v) (simp_all add: packet_body_def is_obj_def fields_of_def odel_def filter_map filter_sort comp_def)

lemma jnorm_hops: "list_all hop_ok hs \<Longrightarrow> map jnorm hs = hs"
proof -
  have "jnorm h = h" if "hop_ok h" for h using that by (cases h) (simp_all add: hop_ok_def is_str_def)
  then show "list_all hop_ok hs \<Longrightarrow> map jnorm hs = hs" by (intro map_idI) (auto simp: list_all_iff)
qed

text \<open>Reading a packet back from its text does not change whether it is accepted.\<close>

lemma check_packet_jnorm:
  assumes "check_packet C now v = Inr p"
  shows "check_packet C now (jnorm v) = Inr (packet_of (jnorm v))"
proof -
  obtain s where s: "canon (packet_body v) = Inr s" using assms by (auto simp: check_packet_def split: sum.splits)
  have o: "is_obj v" using assms by (rule check_packetE)
  have body: "canon (packet_body (jnorm v)) = Inr s" using s by (simp add: packet_body_jnorm [OF o] canonical_jnorm)
  let ?hs = "items_of (jget v (lit ''hops''))"
  note c = assms [unfolded check_packet_def s sum.case Let_def]
  have hops: "list_all hop_ok ?hs" "is_arr (jget v (lit ''hops''))" "hop_ok (jget v (lit ''source''))" using c by (simp_all split: if_splits)
  have items: "items_of (jnorm (jget v (lit ''hops''))) = ?hs" "is_arr (jnorm (jget v (lit ''hops'')))"
    using hops(2) jnorm_hops [OF hops(1)] by (cases "jget v (lit ''hops'')"; simp add: is_arr_def items_of_def)+
  have source: "jnorm (jget v (lit ''source'')) = jget v (lit ''source'')" using jnorm_hops [of "[jget v (lit ''source'')]"] hops(3) by simp
  have ints: "is_safe_int (jnorm w) = is_safe_int w" for w by (cases w) (simp_all add: is_safe_int_def)
  have id: "jnorm (jget v (lit ''id'')) = jget v (lit ''id'')" using c by (auto split: if_splits) (metis jnorm.simps(7))
  show ?thesis
    using c by (simp add: check_packet_def body Let_def jget_jnorm items jnorm_hops [OF hops(1)] source ints id packet_of_jnorm split: if_splits)
qed

lemma createdE:
  assumes "createPacket C now source payload prio ttl = Inr v"
  obtains p s where "prio = JStr (priority_text p)" "hop_ok (JStr source)" "1 \<le> int_of ttl" "int_of ttl \<le> MAX_TTL"
    "canon (JObj (own_body source now (int_of ttl) p (jnorm payload))) = Inr s"
    "v = own_packet source now (int_of ttl) p (jnorm payload) (sha C (utf8 s))"
proof -
  obtain p where p: "parse_priority prio = Some p" using assms by (auto simp: createPacket_def split: if_splits)
  then have prio: "prio = JStr (priority_text p)" by (auto simp: parse_priority_def priority_text_def split: if_splits)
  have terms: "hop_ok (JStr source)" "1 \<le> int_of ttl" "int_of ttl \<le> ROUTER_ttl"
    using assms by (auto simp: createPacket_def split: if_splits)
  have body: "[(lit ''source'', JStr source), (lit ''created'', JInt now), (lit ''expires'', JInt (now + int_of ttl)),
      (lit ''maxHops'', JInt ROUTER_maxHops), (lit ''priority'', prio), (lit ''payload'', jnorm payload)]
      = own_body source now (int_of ttl) p (jnorm payload)"
    by (simp add: own_body_def prio ROUTER_maxHops_def MAX_HOPS_def)
  obtain s where s: "canon (JObj (own_body source now (int_of ttl) p (jnorm payload))) = Inr s"
    "v = own_packet source now (int_of ttl) p (jnorm payload) (sha C (utf8 s))"
    using assms unfolding createPacket_def Let_def body by (auto simp: own_packet_def split: if_splits sum.splits)
  show thesis using that [OF prio terms(1,2) _ s] terms(3) by (simp add: ROUTER_ttl_def MAX_TTL_def)
qed

lemma own_packet_shape: "exactShape (own_packet me now ttl p payload i) packet_keys"
  by (simp add: own_packet_def own_body_def exactShape_def packet_keys_def ohas_def)

lemma created_verified:
  assumes "createPacket C now source payload prio ttl = Inr v" "safe_integer now" "safe_integer (now + int_of ttl)"
    and "now \<le> t + 300000" "t < now + int_of ttl" "canon v = Inr text1" "utf8_length text1 \<le> 6 * 1024 * 1024"
  shows "verifiedPacket C t v = Inr (packet_of (jnorm v))"
proof -
  obtain p s where c: "hop_ok (JStr source)" "1 \<le> int_of ttl" "int_of ttl \<le> MAX_TTL"
    "canon (JObj (own_body source now (int_of ttl) p (jnorm payload))) = Inr s"
    "v = own_packet source now (int_of ttl) p (jnorm payload) (sha C (utf8 s))"
    using assms(1) by (rule createdE)
  have "check_packet C t v = Inr (packet_of v)"
    unfolding c(5) by (rule own_accepted [OF c(4,1,2,3) assms(2,3,4,5)])
  then have "check_packet C t (jnorm v) = Inr (packet_of (jnorm v))" by (rule check_packet_jnorm)
  then show ?thesis using assms(6,7) own_packet_shape unfolding verified_iff by (simp add: c(5))
qed

text \<open>
  C27: A packet a browser makes of its payload is accepted, until it expires, by every router it
  reaches whose clock is at most five minutes behind: by the other browsers as it is, and by the
  nodes as they read it from its text. Only a text of more than 6 MiB is not accepted.
\<close>

theorem created_packet_accepted:
  assumes "createPacket C now source payload prio ttl = Inr v" "safe_integer now" "safe_integer (now + int_of ttl)"
    and "now \<le> t + 300000" "t < now + int_of ttl" "canon v = Inr text1" "utf8_length text1 \<le> 6 * 1024 * 1024"
  shows "verifiedPacket C t v = Inr (packet_of (jnorm v)) \<and> check_packet C t (jnorm v) = Inr (packet_of (jnorm v))"
  using created_verified [OF assms] verified_iff by blast

end
