(* ===== verification/Browser_Examples.thy ===== *)
theory Browser_Examples
  imports Browser_Spec
begin

text \<open>
  Runs of the router of a browser: it receives a packet of another router, keeps an urgent one
  of its own, and takes a copy that expires while it is checked for a new packet.
\<close>

definition eve :: browser where
  "eve = the (new_browser (lit ''eve'') False False)"

lemma eve: "new_browser (lit ''eve'') False False = Some eve"
  by (simp add: eve_def new_browser_def)

lemma eve_fields: "w_id eve = lit ''eve''" "w_relay eve = False" "w_stopped eve = False" "w_retained eve = []" "w_bytes eve = 0"
  "w_seen eve = []" "w_links eve = []" "w_inflightBytes eve = 0" "w_inflightCount eve = 0" "w_chain eve = []" "w_current eve = None"
  "w_calls eve = []" "w_tasks eve = []" "handed eve = []" "completed eve = []" "wire eve = []" "w_next eve = 0"
  by (simp_all add: eve_def new_browser_def)

definition hash_a :: ustr where "hash_a = replicate 64 97"

lemma own_text:
  assumes "prio_ok = priority_text p" "set me \<subseteq> {97..122}" "length me \<le> 5"
  shows "\<exists>s. canon (own_packet me 0 1000 p JNull hash_a) = Inr s \<and> utf8_length s \<le> 6 * 1024 * 1024"
proof (rule text_fits)
  have me: "list_all unescaped me" using assms(2) by (auto simp: list_all_iff unescaped_def)
  have h: "list_all unescaped hash_a" by (simp add: hash_a_def list_all_iff unescaped_def)
  have "weight (own_packet me 0 1000 p JNull hash_a) \<le> 500"
    using assms(3) me h by (cases p) (simp_all add: own_packet_def own_body_def priority_text_def escape_text unescaped_def hash_a_def MAX_HOPS_def)
  then show "3 * weight (own_packet me 0 1000 p JNull hash_a) \<le> 6 * 1024 * 1024" by simp
qed (simp_all add: own_packet_def own_body_def nesting_le MAX_HOPS_def safe_integer_def MAX_SAFE_def)

lemma made:
  assumes "hop_ok (JStr me)"
  shows "createPacket toy 0 me JNull (JStr (priority_text p)) (JInt 1000) = Inr (own_packet me 0 1000 p JNull hash_a)"
proof -
  have body: "JObj (own_body me 0 1000 p JNull) = JObj [(lit ''source'', JStr me), (lit ''created'', JInt 0), (lit ''expires'', JInt 1000),
     (lit ''maxHops'', JInt ROUTER_maxHops), (lit ''priority'', JStr (priority_text p)), (lit ''payload'', JNull)]"
    by (simp add: own_body_def MAX_HOPS_def ROUTER_maxHops_def)
  obtain s where s: "canon (JObj (own_body me 0 1000 p JNull)) = Inr s"
    using canonical_defined [of "JObj (own_body me 0 1000 p JNull)"] by (auto simp: own_body_def nesting_le MAX_HOPS_def)
  have null: "canon JNull = Inr (lit ''null'')" by (simp add: canonical.simps)
  show ?thesis using assms s null
    by (simp add: createPacket_def Let_def is_safe_int_def int_of_def safe_integer_def MAX_SAFE_def ROUTER_ttl_def flip: body)
      (simp add: own_packet_def own_body_def toy_def hash_a_def ROUTER_maxHops_def MAX_HOPS_def)
qed

lemma made_verified:
  assumes "hop_ok (JStr me)" "set me \<subseteq> {97..122}" "length me \<le> 5" "0 \<le> t" "t < 1000"
  shows "verifiedPacket toy t (own_packet me 0 1000 p JNull hash_a) = Inr (packet_of (jnorm (own_packet me 0 1000 p JNull hash_a)))"
proof -
  obtain s where s: "canon (own_packet me 0 1000 p JNull hash_a) = Inr s" "utf8_length s \<le> 6 * 1024 * 1024"
    using own_text [OF refl assms(2,3)] by blast
  show ?thesis
    by (rule created_verified [OF made [OF assms(1)] _ _ _ _ s]) (use assms(4,5) in \<open>simp_all add: safe_integer_def MAX_SAFE_def int_of_def\<close>)
qed

definition greet :: jval where
  "greet = own_packet (lit ''bob'') 0 1000 Normal JNull hash_a"

definition greeted :: packet where
  "greeted = packet_of (jnorm greet)"

lemma greet_verified: "0 \<le> t \<Longrightarrow> t < 1000 \<Longrightarrow> verifiedPacket toy t greet = Inr greeted"
  unfolding greet_def greeted_def by (rule made_verified [OF bob]) (simp_all add: lit_def)

lemma greeted_fields: "p_id greeted = hash_a" "p_hops greeted = [lit ''bob'']" "p_expires greeted = 1000" "p_prio greeted = Normal"
  by (simp_all add: greeted_def greet_def packet_of_jnorm own_packet_fields)

section \<open>A packet is received\<close>

lemma greet_text: "\<exists>s. canon greet = Inr s \<and> utf8_length s \<le> 6 * 1024 * 1024"
  unfolding greet_def by (rule own_text [OF refl]) (simp_all add: lit_def)

definition greet_size :: int where
  "greet_size = (case canon greet of Inr s \<Rightarrow> int (utf8_length s) | Inl _ \<Rightarrow> 0)"

lemma greet_size: "canon greet = Inr s \<Longrightarrow> int (utf8_length s) = greet_size" "0 \<le> greet_size" "greet_size \<le> 6 * 1024 * 1024"
  using greet_text by (auto simp: greet_size_def)

definition arrival :: reception where
  "arrival = \<lparr>q_value = greet, q_size = greet_size, q_source = 7\<rparr>"

lemma accept_greet:
  assumes "\<not> w_stopped s" "w_inflightBytes s + greet_size \<le> 16 * 1024 * 1024" "w_inflightCount s < 64"
  shows "waccept greet 7 s = s\<lparr>w_inflightBytes := w_inflightBytes s + greet_size, w_inflightCount := w_inflightCount s + 1,
    w_chain := w_chain s @ [arrival]\<rparr>"
proof -
  obtain t where t: "canon greet = Inr t" using greet_text by blast
  show ?thesis using assms by (simp add: waccept_def t greet_size(1) [OF t] Let_def router_limits arrival_def)
qed

lemma run_next: "web_run C s0 evs T s \<Longrightarrow> T \<le> now \<Longrightarrow> web_step C now e s = s' \<Longrightarrow> web_run C s0 (evs @ [(now, e)]) now s'"
  using web_run.step by blast

text \<open>Two copies arrive; the first is received.\<close>

definition eve1 :: browser where
  "eve1 = eve\<lparr>w_inflightBytes := 2 * greet_size, w_inflightCount := 2, w_chain := [arrival, arrival]\<rparr>"

definition eve2 :: browser where
  "eve2 = eve1\<lparr>w_chain := [arrival], w_current := Some (arrival, Verifying (Inr greeted))\<rparr>"

definition eve3 :: browser where
  "eve3 = eve2\<lparr>w_current := Some (arrival, Validating greeted)\<rparr>"

definition eve4 :: browser where
  "eve4 = eve3\<lparr>w_current := Some (arrival, Handing greeted), handed := [greeted]\<rparr>"

definition eve5 :: browser where
  "eve5 = finish arrival (count_received greeted eve4)"

lemmas eves = eve1_def eve2_def eve3_def eve4_def

lemma eve_run1: "web_run toy eve [(1, Accept greet 7), (1, Accept greet 7)] 1 eve1"
proof -
  have a: "waccept greet 7 eve = eve\<lparr>w_inflightBytes := greet_size, w_inflightCount := Suc 0, w_chain := [arrival]\<rparr>"
    using greet_size(2,3) by (subst accept_greet) (simp_all add: eve_fields)
  have b: "waccept greet 7 (eve\<lparr>w_inflightBytes := greet_size, w_inflightCount := Suc 0, w_chain := [arrival]\<rparr>) = eve1"
    using greet_size(2,3) by (subst accept_greet) (simp_all add: eve_fields eve1_def)
  have "web_run toy eve ([] @ [(1, Accept greet 7)]) 1 (eve\<lparr>w_inflightBytes := greet_size, w_inflightCount := Suc 0, w_chain := [arrival]\<rparr>)"
    by (rule run_next [OF web_run.start [of _ _ 0]]) (simp_all add: a)
  then have "web_run toy eve (([] @ [(1, Accept greet 7)]) @ [(1, Accept greet 7)]) 1 eve1"
    by (rule run_next) (simp_all add: b)
  then show ?thesis by simp
qed

lemma eve_steps:
  "start_reception toy 2 eve1 = eve2" "reception_verified eve2 = eve3" "reception_validated True eve3 = eve4"
  "reception_handed 5 True eve4 = eve5"
  by (simp_all add: start_reception_def reception_verified_def reception_validated_def reception_handed_def eves eve_fields
      arrival_def greet_verified ohas_def greeted_fields eve5_def count_received_def Let_def bump_def wremember_def)

lemma eve_run5: "\<exists>evs. web_run toy eve evs 5 eve5 \<and> filter is_call evs = []"
proof -
  have "web_run toy eve ([(1, Accept greet 7), (1, Accept greet 7)] @ [(2, StartReception)]) 2 eve2"
    by (rule run_next [OF eve_run1]) (simp_all add: eve_steps)
  then have "web_run toy eve (([(1, Accept greet 7), (1, Accept greet 7)] @ [(2, StartReception)]) @ [(3, ReceptionVerified)]) 3 eve3"
    by (rule run_next) (simp_all add: eve_steps)
  then have "web_run toy eve ((([(1, Accept greet 7), (1, Accept greet 7)] @ [(2, StartReception)]) @ [(3, ReceptionVerified)]) @
      [(4, ReceptionValidated True)]) 4 eve4"
    by (rule run_next) (simp_all add: eve_steps)
  then have "web_run toy eve (((([(1, Accept greet 7), (1, Accept greet 7)] @ [(2, StartReception)]) @ [(3, ReceptionVerified)]) @
      [(4, ReceptionValidated True)]) @ [(5, ReceptionHanded True)]) 5 eve5"
    by (rule run_next) (simp_all add: eve_steps)
  then show ?thesis by (intro exI conjI) (assumption, simp add: is_call_def)
qed

lemma eve5_fields: "completed eve5 = [greeted]" "handed eve5 = [greeted]" "w_seen eve5 = [(hash_a, 1000)]" "w_current eve5 = None"
  "w_chain eve5 = [arrival]" "w_stopped eve5 = False" "w_id eve5 = lit ''eve''" "w_retained eve5 = []" "w_links eve5 = []"
  by (simp_all add: eve5_def finish_def count_received_def Let_def bump_def wremember_def eves eve_fields greeted_fields router_limits)

section \<open>The properties at work\<close>


lemma relay_consent_kept_witness: "list_all (\<lambda>(j, e). \<not> e_relayOnly e) (w_retained eve5) \<or> w_relay eve5"
  using eve_run5 relay_consent_kept [OF eve] by blast



lemma created_packet_accepted_witness: "verifiedPacket toy 5 greet = Inr greeted \<and> check_packet toy 5 (jnorm greet) = Inr greeted"
proof -
  obtain s where s: "canon greet = Inr s" "utf8_length s \<le> 6 * 1024 * 1024" using greet_text by blast
  have "createPacket toy 0 (lit ''bob'') JNull (JStr (priority_text Normal)) (JInt 1000) = Inr greet"
    unfolding greet_def by (rule made [OF bob])
  from created_packet_accepted [OF this _ _ _ _ s, of 5] show ?thesis
    by (simp add: greeted_def safe_integer_def MAX_SAFE_def int_of_def)
qed

section \<open>An urgent packet is kept\<close>

definition alarm :: jval where
  "alarm = own_packet (lit ''eve'') 0 1000 SOS JNull hash_a"

definition alarm_packet :: packet where
  "alarm_packet = packet_of (jnorm alarm)"

lemma eve_name: "hop_ok (JStr (lit ''eve''))"
  by (simp add: hop_ok_def is_str_def str_of_def)

lemma alarm_made: "createPacket toy 0 (lit ''eve'') JNull (JStr (lit ''sos'')) (JInt 1000) = Inr alarm"
  using made [OF eve_name, of SOS] by (simp add: alarm_def priority_text_def)

lemma alarm_verified: "verifiedPacket toy 1 alarm = Inr alarm_packet"
  unfolding alarm_def alarm_packet_def by (rule made_verified [OF eve_name]) (simp_all add: lit_def)

definition calling :: browser where
  "calling = call_checked 2 0 True (call_made toy 1 0 (wbroadcast toy 0 JNull (JStr (lit ''sos'')) (JInt 1000) False eve))"

lemma calling_run: "\<exists>evs. web_run toy eve evs 2 calling"
proof -
  let ?a = "web_event.Broadcast JNull (JStr (lit ''sos'')) (JInt 1000) False"
  have "web_run toy eve ([] @ [(0, ?a)]) 0 (wbroadcast toy 0 JNull (JStr (lit ''sos'')) (JInt 1000) False eve)"
    by (rule run_next [OF web_run.start [of _ _ 0]]) simp_all
  then have "web_run toy eve (([] @ [(0, ?a)]) @ [(1, CallMade 0)]) 1
      (call_made toy 1 0 (wbroadcast toy 0 JNull (JStr (lit ''sos'')) (JInt 1000) False eve))"
    by (rule run_next) simp_all
  then have "web_run toy eve ((([] @ [(0, ?a)]) @ [(1, CallMade 0)]) @ [(2, CallChecked 0 True)]) 2 calling"
    by (rule run_next) (simp_all add: calling_def)
  then show ?thesis by blast
qed

lemma alarm_kept: "\<exists>e. oget (w_retained calling) hash_a = Some e \<and> p_prio (e_packet e) = SOS"
proof -
  let ?s1 = "eve\<lparr>w_calls := [(Making alarm, False)]\<rparr>" and ?s2 = "eve\<lparr>w_calls := [(Checking alarm_packet, False)]\<rparr>"
  have s1: "wbroadcast toy 0 JNull (JStr (lit ''sos'')) (JInt 1000) False eve = ?s1"
    by (simp add: wbroadcast_def eve_fields alarm_made)
  have s2: "call_made toy 1 0 ?s1 = ?s2" by (simp add: call_made_def alarm_verified)
  have val: "p_value alarm_packet = jnorm alarm" by (simp add: alarm_packet_def packet_of_def)
  have id: "p_id alarm_packet = hash_a" "p_prio alarm_packet = SOS" "p_expires alarm_packet = 1000"
    by (simp_all add: alarm_packet_def alarm_def packet_of_jnorm own_packet_fields)
  let ?p = "packet_of (jnorm (jnorm alarm))"
  have p: "p_id ?p = hash_a" "p_prio ?p = SOS" "p_expires ?p = 1000"
    by (simp_all add: alarm_def packet_of_jnorm own_packet_fields)
  obtain s where s: "canon (jnorm alarm) = Inr s" "utf8_length s \<le> 6 * 1024 * 1024"
    using own_text [OF refl, of "lit ''eve''" SOS] by (auto simp: alarm_def canonical_jnorm lit_def)
  have room: "find_room (int (utf8_length s)) 0 0 vs = Some []" for vs
    using s(2) by (simp add: find_room.simps [of _ 0 0] router_limits)
  let ?e = "\<lparr>e_ref = 0, e_packet = ?p, e_bytes = int (utf8_length s), e_relayOnly = False\<rparr>"
  have "wretain (jnorm alarm) False (eve\<lparr>w_calls := []\<rparr>) =
      (Inr ?e, eve\<lparr>w_calls := [], w_retained := [(hash_a, ?e)], w_bytes := int (utf8_length s), w_next := 1\<rparr>)"
    using s by (simp add: wretain_def Let_def eve_fields room p router_limits)
  then have "w_retained calling = [(hash_a, ?e)]"
    unfolding calling_def s1 s2
    by (simp add: call_checked_def Let_def end_call_def eve_fields id val ohas_def offer_def wremember_def okeys_def wtick_def p router_limits)
  then show ?thesis using p by simp
qed

lemma browser_keeps_urgent_witness: "\<exists>e. oget (w_retained (snd (wretain greet False calling))) hash_a = Some e"
proof -
  obtain evs e where r: "web_run toy eve evs 2 calling" "oget (w_retained calling) hash_a = Some e" "p_prio (e_packet e) = SOS"
    using calling_run alarm_kept by blast
  have "rank (p_prio (e_packet e)) < rank (p_prio (packet_of (jnorm greet)))"
    using r(3) greeted_fields(4) by (simp add: greeted_def rank_def)
  from browser_keeps_urgent [OF eve r(1) _ r(2) this, of False] show ?thesis by (metis prod.collapse)
qed

section \<open>A copy that expires while it is checked\<close>

text \<open>
  The second copy of a received packet is verified just before it expires; the timer then forgets
  the packet; the test for duplicates comes after both. The packet is handed to the
  application a second time (and only then found to have expired).
\<close>

lemma expiring_copy_handed_twice:
  "handed (reception_validated True (reception_verified (wtick 1000 (start_reception toy 999 eve5)))) = [greeted, greeted]"
proof -
  let ?s = "start_reception toy 999 eve5"
  have s: "?s = eve5\<lparr>w_chain := [], w_current := Some (arrival, Verifying (Inr greeted))\<rparr>"
    by (simp add: start_reception_def eve5_fields Let_def arrival_def greet_verified)
  have t: "wtick 1000 ?s = ?s\<lparr>w_seen := []\<rparr>" by (simp add: s wtick_def Let_def eve5_fields okeys_def)
  show ?thesis unfolding t unfolding s
    by (simp add: reception_verified_def reception_validated_def eve5_fields ohas_def greeted_fields)
qed

end
