(* ===== verification/Spec2Isabelle.thy ===== *)
theory Spec2Isabelle
  imports Store_Examples Storage_Examples Outbox Link_Fair Link_Parts Router_Examples Access_Examples Site_Examples Browser_Examples
begin

text \<open>
  RelayLoom is a store-and-forward network of nodes without a central server. A node signs what
  its user writes as an encrypted bundle, keeps bundles in a bounded store, and passes small
  packets with them to the nodes and browsers it is connected to. This library models the parts
  of the TypeScript program that decide what is accepted, kept, relayed and shown, and proves
  what makes them correct.

  The parts and how they interact.
  \<^item> The protocol (\<open>packages/core/src/protocol.ts\<close>, \<open>signing-key.ts\<close>): every hash and every
    signature of the program is taken over the canonical text of a JSON value.
    \<^theory_text>\<open>Json\<close> has the values, \<open>canonical\<close>, \<open>exactShape\<close> and the proof that the text determines
    the value; \<^theory_text>\<open>Encodable\<close> says when the encoding succeeds and how long it gets; \<^theory_text>\<open>Bytes\<close>
    has UTF-8, base64 and the keys that are admitted.
  \<^item> Bundles (\<open>packages/core/src/index.ts\<close>): \<^theory_text>\<open>Bundle\<close> has \<open>validateIdentity\<close>,
    \<open>verifyManifest\<close>, \<open>verifyBundle\<close>, \<open>decryptBundle\<close> and \<open>createBundle\<close>;
    \<^theory_text>\<open>Bundle_Create\<close> proves that what is created is accepted and decrypted again by each of
    its readers; \<^theory_text>\<open>Bundle_Stored\<close> that storing a bundle as text changes no verdict.
  \<^item> The content store (class \<open>ContentStore\<close> of the same file): \<^theory_text>\<open>Store\<close> has the index, the
    files, eviction and reservations; \<^theory_text>\<open>Store_Ops\<close> the invariant, what each operation returns
    and what opening a directory finds; \<^theory_text>\<open>Store_Examples\<close> a concrete store.
  \<^item> Links (class \<open>Link\<close> of \<open>packages/transport/src/index.ts\<close>): \<^theory_text>\<open>Packet\<close> has the packet,
    \<^theory_text>\<open>Link\<close> the queue, the writer as a state machine over the ends of writes, the reader and
    its reassembly. \<^theory_text>\<open>Link_Inv\<close> has the invariant, \<^theory_text>\<open>Link_Queue\<close> what queueing may evict,
    \<^theory_text>\<open>Link_Fair\<close> the interleavings of all operations and the fairness of the writer,
    \<^theory_text>\<open>Link_Parts\<close> the round trip of fragments.
  \<^item> The router of a node (class \<open>Router\<close>): \<^theory_text>\<open>Router\<close> has what it accepts, remembers, retains
    and sends over its links; \<^theory_text>\<open>Router_Inv\<close> and \<^theory_text>\<open>Router_Run\<close> its bounds over whole runs;
    \<^theory_text>\<open>Router_Spec\<close> an abstract specification and the refinement, from which delivery at most
    once follows; \<^theory_text>\<open>Router_Examples\<close> concrete runs.
  \<^item> The router of a browser (\<open>packages/browser/src/packet.ts\<close>, \<open>router.ts\<close>): its operations
    wait for promises, so \<^theory_text>\<open>Browser\<close> cuts them at each \<open>await\<close>, and \<open>web_run\<close> is any
    interleaving of the pieces. \<^theory_text>\<open>Browser_Inv\<close> has the invariant and the consent to relay,
    \<^theory_text>\<open>Browser_Spec\<close> what reaches the application and the agreement with the router of a node,
    \<^theory_text>\<open>Browser_Examples\<close> concrete runs.
  \<^item> Groups (\<open>packages/groups/src/certificate-protocol.ts\<close>, \<open>certificates.ts\<close>, \<open>access.ts\<close>):
    \<^theory_text>\<open>Certificate\<close> has the checks of anchors, epochs, invitations, consents and snapshots and
    how each is made; \<^theory_text>\<open>Certificate_Facts\<close> reads the checks back, \<^theory_text>\<open>Certificate_Chain\<close> draws
    the conclusions on chains, \<^theory_text>\<open>Certificate_Examples\<close> has a group. \<^theory_text>\<open>Access\<close> decides which
    content of a group is admitted and what may be sent again, with \<^theory_text>\<open>Access_Facts\<close> and
    \<^theory_text>\<open>Access_Examples\<close>.
  \<^item> Content (\<open>packages/content/src\<close>): \<^theory_text>\<open>Outbox\<close> has the record of sends and confirmations
    (\<open>outbox.ts\<close>); \<^theory_text>\<open>Site\<close> the sites a user publishes (\<open>site.ts\<close>, and the tree operations of
    \<open>apps/web/src/site/model.ts\<close>); \<^theory_text>\<open>Content\<close> the shape of every published content
    (\<open>validation.ts\<close>); \<^theory_text>\<open>Site_Facts\<close> and \<^theory_text>\<open>Site_Examples\<close> their properties.
  \<^item> The protected store of a profile (\<open>packages/groups/src/storage.ts\<close>): \<^theory_text>\<open>Storage\<close> has the
    signed and encrypted index, the rows it lists, every operation of a transaction
    (\<open>RegistryTransaction\<close>), and \<open>execute\<close>, which commits or rolls back for every outcome of the
    SQL statements. \<^theory_text>\<open>Storage_Facts\<close> shows that a transaction implements a finite map,
    \<^theory_text>\<open>Storage_Commit\<close> that what is written is accepted again, that a transaction is all or
    nothing, and that a changed row is found; \<^theory_text>\<open>Storage_Examples\<close> has a store with a record.
  \<^theory_text>\<open>Prelude\<close> has what they share: strings, results, insertion-ordered maps, sorting, and the
  interfaces stated as locales. Each locale is interpreted on the model's own definitions, in
  the theory that provides them.

  How code is represented.
  \<^item> A string is the list of its UTF-16 code units (\<open>ustr\<close>), so that \<open>length\<close> and the order are
    those of JavaScript. A number is an \<open>int\<close> where the code requires a safe integer; a \<open>Buffer\<close>
    is a list of \<open>8 word\<close>. A value from outside is a \<open>jval\<close>; the readers (\<open>jget\<close>, \<open>is_str\<close>, ...)
    are total as property access is. A \<open>Map\<close> is an insertion-ordered association list.
  \<^item> An exception is the left side of a sum, with one constructor for each message the code
    throws; a state that is changed is passed and returned. Where an exception leaves a state
    partly changed, the operation returns both.
  \<^item> The cryptographic library is the record \<open>crypto\<close>, a parameter. The laws a theorem needs
    (a signature that was made verifies, what was sealed opens, ...) are its hypotheses
    (\<open>crypto_laws\<close>), and its witness applies it at a concrete record. \<open>JSON.parse\<close> is a field
    of the record; applied to canonical text it gives the value with its keys sorted (\<open>jnorm\<close>).
  \<^item> Random bytes, the time and the outcome of each write are arguments of the operations.
  \<^item> Asynchronous code is a step relation over explicit pieces; nothing is assumed about the order
    of the steps.

  Bounds and termination. All functions are total. The recursion of \<open>validateSite\<close> over blocks
  stops at the nesting limit the code checks (\<open>SITE_depth\<close>), so the argument that counts levels
  is the code's own bound; the same holds for \<open>canonical\<close>, whose depth (24) is a parameter of
  the function in the code. Reading lines from a buffer, filling a link and making room each
  have a measure (the bytes left, the entries left). The pages of a group's chain are read by a
  \<open>partial_function\<close>, as a registry could return pages for ever; \<open>load_complete\<close> shows that it
  ends and is complete for a registry that returns a chain. No other definition has fuel.

  What the lemmas show, by group: accepted bundles are authentic, intact and of bounded size, and
  are read back by their readers; the store, links, routers, outbox and sites stay within the
  limits the code names, with exact byte counts, over every sequence of operations; urgent
  traffic is neither evicted by other traffic nor starved; a packet is delivered at most once,
  only when it is valid, and a browser relays only while its user consents; a group's history
  is fixed by its last epoch, nobody is a member without consent, and accepted content is
  by an author of its epoch, for exactly the readers of that epoch.

  Not modelled. Input and output: sockets, serial ports, WebRTC, WebSocket, HTTP, the file system
  below \<open>read\<close> and \<open>rename\<close>, SQLite (its schema and pages; the outcome of a statement is an argument). The user interface (\<open>apps/web/src\<close>, but for the site
  editor's checks and tree operations) and the desktop shell. The applications that wire the
  parts together (\<open>apps/node/src\<close>, \<open>packages/browser/src/application.ts\<close>) are seen through the
  operations they call. The registry of groups and the exchange of group state between nodes
  (\<open>registry.ts\<close>, \<open>ledger.ts\<close>, \<open>carriers.ts\<close>, \<open>notices.ts\<close>, \<open>group-*.ts\<close>) are seen through the results
  that \<open>access.ts\<close> reads. The profile database over the protected store
  (\<open>packages/profile/src\<close>) and the making and the password vault of identities
  (\<open>createIdentity\<close>, \<open>exportVault\<close>, \<open>importVault\<close>) are not reached. The simulation is a test
  instrument.
\<close>

end
